(* ===== verification/Netc_Prelude.thy ===== *)
theory Netc_Prelude
  imports Main "HOL-Library.Word"
begin

text \<open>
  Shared vocabulary of the development.  Machine integers of the C sources are words of their
  width where a struct field or a buffer stores them (\<open>byte\<close>, \<open>u16\<close>, \<open>u32\<close>, \<open>u64\<close>) and
  natural numbers, with every truncating cast written out, where they are local sizes, indices or
  counters.  A buffer is the list of the bytes it holds.  The host is little-endian, which is the
  primary platform of the library (\<open>NETC_LITTLE_ENDIAN\<close> in \<open>src/src/util/netc_platform.h\<close>); theory
  \<open>Netc_Endian\<close> treats the other byte order.

  The theory holds the type synonyms, the little-endian loads and stores of
  \<open>netc_platform.h\<close>, the result codes of \<open>include/netc.h\<close>, the reading of a word and of a
  byte buffer as a list of bits, and the generic lemmas on lists and words that the components
  share.
\<close>

unbundle bit_operations_syntax

type_synonym byte = "8 word"
type_synonym u16 = "16 word"
type_synonym u32 = "32 word"
type_synonym u64 = "64 word"

named_theorems netc_defs \<open>definitional unfoldings of the small operations of the library\<close>
named_theorems bits_simps \<open>reading words and buffers as lists of bits\<close>

section \<open>Result codes\<close>

datatype netc_result =
    NETC_OK
  | NETC_ERR_NOMEM
  | NETC_ERR_TOOBIG
  | NETC_ERR_CORRUPT
  | NETC_ERR_DICT_INVALID
  | NETC_ERR_BUF_SMALL
  | NETC_ERR_CTX_NULL
  | NETC_ERR_UNSUPPORTED
  | NETC_ERR_VERSION
  | NETC_ERR_INVALID_ARG

text \<open>
  The two ways in which an internal routine does not return normally: it returns its error value
  (\<open>-1\<close> or \<open>(size_t)-1\<close> or a zero state), or it executes an operation that C leaves
  undefined (an array access out of range, a shift by at least the width).  Undefined behaviour
  is a value of the model, so that its absence is something to prove.
\<close>

datatype cerror = C_Fail | C_Undefined

section \<open>Little-endian loads and stores\<close>

definition netc_read_u16_le :: "byte list \<Rightarrow> u16" where
  "netc_read_u16_le p = ucast (p ! 0) OR push_bit 8 (ucast (p ! 1))"

definition netc_write_u16_le :: "u16 \<Rightarrow> byte list" where
  "netc_write_u16_le v = [ucast v, ucast (drop_bit 8 v)]"

definition netc_read_u32_le :: "byte list \<Rightarrow> u32" where
  "netc_read_u32_le p =
     ucast (p ! 0) OR push_bit 8 (ucast (p ! 1)) OR push_bit 16 (ucast (p ! 2))
     OR push_bit 24 (ucast (p ! 3))"

definition netc_write_u32_le :: "u32 \<Rightarrow> byte list" where
  "netc_write_u32_le v =
     [ucast v, ucast (drop_bit 8 v), ucast (drop_bit 16 v), ucast (drop_bit 24 v)]"

lemma length_write_u16 [simp]: "length (netc_write_u16_le v) = 2"
  by (simp add: netc_write_u16_le_def)

lemma length_write_u32 [simp]: "length (netc_write_u32_le v) = 4"
  by (simp add: netc_write_u32_le_def)

lemma read_write_u16 [simp]: "netc_read_u16_le (netc_write_u16_le v @ rest) = v"
  by (rule bit_word_eqI)
     (auto simp: netc_read_u16_le_def netc_write_u16_le_def bit_simps not_less)

lemma read_write_u32 [simp]: "netc_read_u32_le (netc_write_u32_le v @ rest) = v"
proof (rule bit_word_eqI)
  fix n assume n: "n < LENGTH(32)"
  consider "n < 8" | "8 \<le> n \<and> n < 16" | "16 \<le> n \<and> n < 24" | "24 \<le> n"
    by linarith
  then show "bit (netc_read_u32_le (netc_write_u32_le v @ rest)) n = bit v n"
    using n by cases (auto simp: netc_read_u32_le_def netc_write_u32_le_def bit_simps)
qed

lemma read_write_u16_Nil [simp]: "netc_read_u16_le (netc_write_u16_le v) = v"
  using read_write_u16 [of v "[]"] by simp

lemma read_write_u32_Nil [simp]: "netc_read_u32_le (netc_write_u32_le v) = v"
  using read_write_u32 [of v "[]"] by simp

section \<open>Words and buffers as lists of bits\<close>

text \<open>
  \<open>wbits n w\<close> lists the \<open>n\<close> low bits of a word, least significant first;
  \<open>bytes_bits bs\<close> lists the bits of a buffer in the order in which an LSB-first writer
  fills it.
\<close>

definition wbits :: "nat \<Rightarrow> 'a::len word \<Rightarrow> bool list" where
  "wbits n w = map (bit w) [0..<n]"

definition bytes_bits :: "byte list \<Rightarrow> bool list" where
  "bytes_bits bs = concat (map (wbits 8) bs)"

lemma length_wbits [simp]: "length (wbits n w) = n"
  by (simp add: wbits_def)

lemma nth_wbits [simp]: "i < n \<Longrightarrow> wbits n w ! i = bit w i"
  by (simp add: wbits_def)

lemma wbits_0 [simp]: "wbits 0 w = []"
  by (simp add: wbits_def)

lemma bytes_bits_Nil [simp]: "bytes_bits [] = []"
  and bytes_bits_Cons [simp]: "bytes_bits (b # bs) = wbits 8 b @ bytes_bits bs"
  and bytes_bits_append [simp]: "bytes_bits (xs @ ys) = bytes_bits xs @ bytes_bits ys"
  by (simp_all add: bytes_bits_def)

lemma length_bytes_bits [simp]: "length (bytes_bits bs) = 8 * length bs"
  by (induction bs) simp_all

lemma wbits_eqI:
  assumes "wbits n v = wbits n w" and "\<And>i. n \<le> i \<Longrightarrow> \<not> bit v i" and "\<And>i. n \<le> i \<Longrightarrow> \<not> bit w i"
  shows "v = w"
proof (rule bit_word_eqI)
  fix i
  show "bit v i = bit w i"
  proof (cases "i < n")
    case True
    then show ?thesis using assms(1) nth_wbits by metis
  next
    case False
    then show ?thesis using assms(2,3) by simp
  qed
qed

lemma wbits_add: "wbits (m + n) w = wbits m w @ wbits n (drop_bit m w)"
  by (rule nth_equalityI) (auto simp: nth_append bit_simps)

section \<open>Reading and updating arrays\<close>

text \<open>
  An array access of the C code outside the array is undefined behaviour.  Where an index
  comes from data rather than from a loop bound, the model reads through \<open>nth_opt\<close>, so that
  the undefined access is a visible branch.
\<close>

definition nth_opt :: "'a list \<Rightarrow> nat \<Rightarrow> 'a option" where
  "nth_opt xs i = (if i < length xs then Some (xs ! i) else None)"

lemma nth_opt_Some [simp]: "i < length xs \<Longrightarrow> nth_opt xs i = Some (xs ! i)"
  and nth_opt_None [simp]: "length xs \<le> i \<Longrightarrow> nth_opt xs i = None"
  by (simp_all add: nth_opt_def)

lemma nth_opt_eq_Some: "nth_opt xs i = Some x \<longleftrightarrow> i < length xs \<and> xs ! i = x"
  by (auto simp: nth_opt_def)

lemma map_nth_upt_take: "n \<le> length xs \<Longrightarrow> map (\<lambda>i. xs ! i) [0..<n] = take n xs"
  by (rule nth_equalityI) auto

lemma upt_split: "i < n \<Longrightarrow> [0..<n] = [0..<i] @ i # [Suc i..<n]"
proof -
  assume i: "i < n"
  have "[0..<n] = [0..<i] @ [i..<n]"
    using i upt_add_eq_append [of 0 i "n - i"] by simp
  then show ?thesis using i by (simp only: upt_conv_Cons)
qed

lemma word_of_nat_unat_id: "n < 2 ^ LENGTH('a) \<Longrightarrow> unat (word_of_nat n :: 'a::len word) = n"
  by (simp add: unsigned_of_nat take_bit_nat_eq_self_iff)

lemma unat_byte_less [simp]: "unat (b :: byte) < 256"
  using unsigned_less [of b, where 'a = nat] by simp

lemma unat_of_nat_byte: "n < 2 ^ 8 \<Longrightarrow> unat (word_of_nat n :: byte) = n"
  and unat_of_nat_u16: "n < 2 ^ 16 \<Longrightarrow> unat (word_of_nat n :: u16) = n"
  and unat_of_nat_u32: "n < 2 ^ 32 \<Longrightarrow> unat (word_of_nat n :: u32) = n"
  by (simp_all add: word_of_nat_unat_id)

section \<open>Unsigned subtraction\<close>

text \<open>Subtraction of two unsigned 32-bit values, which wraps.\<close>

definition u32_sub :: "nat \<Rightarrow> nat \<Rightarrow> nat" where
  "u32_sub a b = (a + 2 ^ 32 - b mod 2 ^ 32) mod 2 ^ 32"

lemma u32_sub_exact: "b \<le> a \<Longrightarrow> a < 2 ^ 32 \<Longrightarrow> u32_sub a b = a - b"
proof -
  assume ab: "b \<le> a" "a < 2 ^ 32"
  then have "a + 2 ^ 32 - b mod 2 ^ 32 = (a - b) + 2 ^ 32" by simp
  then have "u32_sub a b = (a - b) mod 2 ^ 32" by (simp only: u32_sub_def mod_add_self2)
  then show ?thesis using ab by (simp add: less_imp_diff_less)
qed

end
