(* ===== verification/Netc_Float.thy ===== *)
theory Netc_Float
  imports Netc_Prelude "HOL-Library.Log_Nat"
begin

text \<open>
  Floating-point numbers of the benchmark programs (\<open>src/bench\<close>): IEEE 754 binary64 (\<open>double\<close>) and
  binary32 (\<open>float\<close>), round to nearest, ties to even.  Every finite \<open>double\<close> is an integer multiple of
  \<open>2 ^ -1074\<close> and every finite \<open>float\<close> one of \<open>2 ^ -149\<close>; the model is that integer, so that the order of
  numbers is the order of integers, subnormal numbers need no case of their own, and each operation is
  the exact result rounded once to 53 (or 24) significant bits.  Each operation is evaluated by itself, in the
  precision of its type.  Infinities, NaNs and the sign of zero have no value here: the programs divide
  only by numbers that they compared with zero, and their results stay far below the largest number.
\<close>

section \<open>Rounding\<close>

text \<open>The integer nearest to a quotient, the even one of two.\<close>

definition rne :: "nat \<Rightarrow> nat \<Rightarrow> nat" where
  "rne a b = (let q = a div b; r = a mod b in if b < 2 * r \<or> (2 * r = b \<and> odd q) then q + 1 else q)"

text \<open>A quotient rounded to \<open>p\<close> significant bits, or to an integer where that is coarser.\<close>

definition sig_round :: "nat \<Rightarrow> nat \<Rightarrow> nat \<Rightarrow> nat" where
  "sig_round p a b = (let e = floorlog 2 (a div b) - p in rne a (b * 2 ^ e) * 2 ^ e)"

lemma rne_bounds: "b > 0 \<Longrightarrow> a div b \<le> rne a b \<and> rne a b \<le> a div b + 1"
  by (simp add: rne_def Let_def)

lemma rne_error:
  assumes "b > 0" shows "2 * (rne a b * b) \<le> 2 * a + b" and "2 * a \<le> 2 * (rne a b * b) + b"
proof -
  define q r where "q = a div b" and "r = a mod b"
  have a: "a = q * b + r" "r < b" using assms by (simp_all add: q_def r_def)
  have "rne a b = (if b < 2 * r \<or> (2 * r = b \<and> odd q) then q + 1 else q)" by (simp add: rne_def Let_def q_def r_def)
  then show "2 * (rne a b * b) \<le> 2 * a + b" and "2 * a \<le> 2 * (rne a b * b) + b"
    using a(2) unfolding a(1) by (auto simp: algebra_simps)
qed

lemma rne_exact [simp]: "b > 0 \<Longrightarrow> rne (m * b) b = m"
  by (simp add: rne_def)

lemma rne_scale: "k > 0 \<Longrightarrow> rne (a * k) (b * k) = rne a b"
  by (simp add: rne_def Let_def mult_mod_left [symmetric])

lemma rne_mono:
  assumes "a \<le> c" and "b > 0" shows "rne a b \<le> rne c b"
proof (cases "a div b = c div b")
  case True
  then have "a mod b \<le> c mod b" using assms by (metis add_le_cancel_left div_mult_mod_eq)
  then show ?thesis using True by (auto simp: rne_def Let_def)
next
  case False
  then have "a div b + 1 \<le> c div b" using div_le_mono [OF assms(1), of b] by linarith
  then show ?thesis using rne_bounds [OF assms(2), of a] rne_bounds [OF assms(2), of c] by linarith
qed

text \<open>The exponent of the last digit that is kept.\<close>

lemma floorlog_lt: "n < 2 ^ floorlog 2 n"
  using floorlog_bounds [of n 2] by (cases "n = 0") (auto simp: floorlog_def)

lemma floorlog_ge: "0 < n \<Longrightarrow> 2 ^ (floorlog 2 n - 1) \<le> n"
  using floorlog_bounds [of n 2] by simp

lemma rne_le_pow:
  assumes "b > 0" and "a div b < 2 ^ k" shows "rne a b \<le> 2 ^ k"
  using rne_bounds [OF assms(1), of a] assms(2) by linarith

lemma div_shift: "(a :: nat) div (b * 2 ^ e) = a div b div 2 ^ e"
  by (rule div_mult2_eq)

lemma sig_round_upper:
  assumes "b > 0" and "p > 0" shows "sig_round p a b \<le> 2 ^ (p + (floorlog 2 (a div b) - p))"
proof -
  let ?f = "floorlog 2 (a div b)" let ?e = "?f - p"
  have "a div b < 2 ^ (p + ?e)" using floorlog_lt [of "a div b"] by (rule less_le_trans) (simp add: power_increasing)
  then have "a div (b * 2 ^ ?e) < 2 ^ p" by (simp add: div_shift less_mult_imp_div_less power_add)
  then have "rne a (b * 2 ^ ?e) \<le> 2 ^ p" using assms by (intro rne_le_pow) simp_all
  then show ?thesis by (simp add: sig_round_def Let_def power_add)
qed

lemma sig_round_lower:
  assumes "b > 0" and "p > 0" and "p < floorlog 2 (a div b)" shows "2 ^ (floorlog 2 (a div b) - 1) \<le> sig_round p a b"
proof -
  let ?f = "floorlog 2 (a div b)" let ?e = "?f - p"
  have "a div b > 0" using assms(3) by (cases "a div b = 0") (simp_all add: floorlog_def)
  then have "2 ^ (?f - 1) \<le> a div b" by (rule floorlog_ge)
  moreover have "(2 :: nat) ^ (?f - 1) = 2 ^ (p - 1) * 2 ^ ?e" using assms by (simp flip: power_add)
  ultimately have "2 ^ (p - 1) \<le> a div b div 2 ^ ?e" by (metis div_le_mono nonzero_mult_div_cancel_right power_not_zero zero_neq_numeral)
  then have "2 ^ (p - 1) \<le> rne a (b * 2 ^ ?e)"
    using rne_bounds [of "b * 2 ^ ?e" a] assms(1) by (simp add: div_shift)
  then show ?thesis
    using \<open>(2 :: nat) ^ (?f - 1) = 2 ^ (p - 1) * 2 ^ ?e\<close> by (simp add: sig_round_def Let_def)
qed

lemma sig_round_mono:
  assumes "a \<le> c" and "b > 0" and "p > 0" shows "sig_round p a b \<le> sig_round p c b"
proof -
  let ?f = "\<lambda>x. floorlog 2 (x div b)"
  have f: "?f a \<le> ?f c" using assms(1) by (intro floorlog_mono div_le_mono)
  show ?thesis
  proof (cases "?f a - p = ?f c - p")
    case True
    then show ?thesis using rne_mono [OF assms(1)] assms(2) by (simp add: sig_round_def Let_def)
  next
    case False
    then have "p < ?f c" "p + (?f a - p) \<le> ?f c - 1" using f by linarith+
    then show ?thesis
      using sig_round_upper [OF assms(2,3), of a] sig_round_lower [OF assms(2,3), of c]
      by (meson order_trans power_increasing one_le_numeral)
  qed
qed

text \<open>A number of at most \<open>p\<close> bits and a power of two is not changed, and no other moves by more than its last place.\<close>

lemma sig_round_exact:
  assumes "m < 2 ^ p" shows "sig_round p (m * 2 ^ k) 1 = m * 2 ^ k"
proof (cases "m = 0")
  case True
  then show ?thesis by (simp add: sig_round_def rne_def)
next
  case False
  define e where "e = floorlog 2 (m * 2 ^ k) - p"
  have "floorlog 2 m \<le> p" using assms False by (simp add: floorlog_le_iff)
  then have "e \<le> k" using False by (simp add: e_def)
  then have eq: "m * 2 ^ k = (m * 2 ^ (k - e)) * 2 ^ e" by (simp add: mult.assoc flip: power_add)
  have "rne (m * 2 ^ k) (2 ^ e) = m * 2 ^ (k - e)" by (subst eq) (rule rne_exact, simp)
  then have "rne (m * 2 ^ k) (2 ^ e) * 2 ^ e = m * 2 ^ k" by (metis eq)
  then show ?thesis by (simp add: sig_round_def Let_def e_def)
qed

lemma sig_round_scale: "k > 0 \<Longrightarrow> sig_round p (a * k) (b * k) = sig_round p a b"
  using rne_scale [of k a "b * 2 ^ (floorlog 2 (a div b) - p)"]
  by (simp add: sig_round_def Let_def mult.commute [of _ "2 ^ _"] mult.assoc [symmetric])

lemma sig_round_error:
  assumes "p > 0" shows "sig_round p a 1 * 2 ^ p \<le> a * (2 ^ p + 1)"
proof (cases "floorlog 2 a \<le> p")
  case True
  then show ?thesis by (simp add: sig_round_def Let_def rne_def)
next
  case False
  let ?e = "floorlog 2 a - p"
  have "a > 0" using False by (cases "a = 0") (simp_all add: floorlog_def)
  then have "2 ^ (floorlog 2 a - 1) \<le> a" by (rule floorlog_ge)
  moreover have "(2 :: nat) ^ ?e * 2 ^ p = 2 * 2 ^ (floorlog 2 a - 1)" using False assms by (simp flip: power_add power_Suc)
  ultimately have "2 ^ ?e * 2 ^ p \<le> 2 * a" by linarith
  moreover have "2 * (sig_round p a 1) \<le> 2 * a + 2 ^ ?e" using rne_error(1) [of "2 ^ ?e" a] by (simp add: sig_round_def Let_def)
  then have "2 * (sig_round p a 1) * 2 ^ p \<le> (2 * a + 2 ^ ?e) * 2 ^ p" by (rule mult_right_mono) simp
  ultimately have "2 * (sig_round p a 1 * 2 ^ p) \<le> 2 * (a * (2 ^ p + 1))" by (simp add: algebra_simps)
  then show ?thesis by simp
qed

lemma sig_round_abs_error:
  assumes "b > 0" and "p > 0" shows "2 * (sig_round p a b * b) \<le> 2 * a + max b (a div 2 ^ (p - 1))"
    and "2 * a \<le> 2 * (sig_round p a b * b) + max b (a div 2 ^ (p - 1))"
proof -
  define f e where "f = floorlog 2 (a div b)" and "e = f - p"
  have "b * 2 ^ e \<le> max b (a div 2 ^ (p - 1))"
  proof (cases "p < f")
    case True
    then have "a div b > 0" by (cases "a div b = 0") (simp_all add: f_def floorlog_def)
    then have "2 ^ (f - 1) \<le> a div b" unfolding f_def by (rule floorlog_ge)
    moreover have "(2 :: nat) ^ (f - 1) = 2 ^ e * 2 ^ (p - 1)" using True assms(2) by (simp add: e_def flip: power_add)
    ultimately have "b * 2 ^ e * 2 ^ (p - 1) \<le> a" using assms(1) by (simp add: less_eq_div_iff_mult_less_eq mult.commute mult.left_commute)
    then show ?thesis by (simp add: less_eq_div_iff_mult_less_eq le_max_iff_disj)
  qed (simp add: e_def)
  moreover have eq: "sig_round p a b * b = rne a (b * 2 ^ e) * (b * 2 ^ e)" by (simp add: sig_round_def Let_def e_def f_def mult.commute)
  ultimately show "2 * (sig_round p a b * b) \<le> 2 * a + max b (a div 2 ^ (p - 1))"
    and "2 * a \<le> 2 * (sig_round p a b * b) + max b (a div 2 ^ (p - 1))"
    unfolding eq using rne_error [of "b * 2 ^ e" a] assms(1) by (auto intro: order_trans add_left_mono)
qed

lemma sig_round_twice:
  assumes "b > 0" and "p > 0" shows "sig_round p a b * b \<le> 2 * a"
proof (cases "2 * a < b")
  case True
  then have "rne a b = 0" by (simp add: rne_def)
  then show ?thesis using True by (simp add: sig_round_def Let_def floorlog_def)
next
  case False
  have "a div 2 ^ (p - 1) \<le> a" by simp
  then have "max b (a div 2 ^ (p - 1)) \<le> 2 * a" using False by linarith
  then show ?thesis using sig_round_abs_error(1) [OF assms, of a] by linarith
qed

section \<open>Doubles\<close>

type_synonym double = int

definition DBL_UNIT :: nat where "DBL_UNIT = 2 ^ 1074"

text \<open>The double nearest to the quotient \<open>a / b\<close> of units.\<close>

definition d_round :: "int \<Rightarrow> nat \<Rightarrow> double" where
  "d_round a b = sgn a * int (sig_round 53 (nat \<bar>a\<bar>) b)"

text \<open>The literal \<open>a / b\<close>, and the conversion of an integer.\<close>

definition d_lit :: "int \<Rightarrow> nat \<Rightarrow> double" where
  "d_lit a b = d_round (a * int DBL_UNIT) b"

definition d_of_int :: "int \<Rightarrow> double" where
  "d_of_int n = d_lit n 1"

definition d_add :: "double \<Rightarrow> double \<Rightarrow> double" where "d_add x y = d_round (x + y) 1"

definition d_sub :: "double \<Rightarrow> double \<Rightarrow> double" where "d_sub x y = d_round (x - y) 1"

definition d_mul :: "double \<Rightarrow> double \<Rightarrow> double" where "d_mul x y = d_round (x * y) DBL_UNIT"

definition d_div :: "double \<Rightarrow> double \<Rightarrow> double" where
  "d_div x y = d_round (x * int DBL_UNIT * sgn y) (nat \<bar>y\<bar>)"

text \<open>The conversion to an unsigned integer of a number that is not negative: the fraction is cut off.\<close>

definition d_trunc :: "double \<Rightarrow> nat" where "d_trunc x = nat x div DBL_UNIT"

text \<open>The square root: the integer root, then the nearest number of 53 bits.\<close>

fun isqrt :: "nat \<Rightarrow> nat" where
  "isqrt n = (if n = 0 then 0 else let r = 2 * isqrt (n div 4) in if (r + 1) * (r + 1) \<le> n then r + 1 else r)"

declare isqrt.simps [simp del]

definition d_sqrt :: "double \<Rightarrow> double" where
  "d_sqrt x =
     (let n = nat x * DBL_UNIT; s = isqrt n; e = floorlog 2 s - 53; q = s div 2 ^ e; h = (2 * q + 1) * 2 ^ e
      in int ((if h * h < 4 * n \<or> (h * h = 4 * n \<and> odd q) then q + 1 else q) * 2 ^ e))"

section \<open>Floats\<close>

type_synonym float = int

definition f_of_d :: "double \<Rightarrow> float" where
  "f_of_d x = sgn x * int (sig_round 24 (nat \<bar>x\<bar>) (2 ^ 925))"

definition d_of_f :: "float \<Rightarrow> double" where
  "d_of_f x = x * 2 ^ 925"

section \<open>Representation\<close>

text \<open>Sign, exponent and fraction; the exponent field is 0 below \<open>2 ^ (p - 1)\<close>, and the leading bit of a larger
  significand, which is not stored, adds one to it.\<close>

definition ieee_bits :: "nat \<Rightarrow> nat \<Rightarrow> int \<Rightarrow> nat" where
  "ieee_bits w p x =
     (let a = nat \<bar>x\<bar>; e = floorlog 2 a - p
      in (if x < 0 then 2 ^ (w - 1) else 0) + e * 2 ^ (p - 1) + a div 2 ^ e)"

definition f32_bits :: "float \<Rightarrow> u32" where "f32_bits x = of_nat (ieee_bits 32 24 x)"

definition f64_bits :: "double \<Rightarrow> u64" where "f64_bits x = of_nat (ieee_bits 64 53 x)"

section \<open>Laws\<close>

lemma DBL_UNIT_pos [simp]: "0 < DBL_UNIT" by (simp add: DBL_UNIT_def)

lemma d_round_nonneg: "0 \<le> a \<Longrightarrow> d_round a b = int (sig_round 53 (nat a) b)"
  by (cases "a = 0") (simp_all add: d_round_def sig_round_def rne_def)

lemma d_round_ge0: "0 \<le> a \<Longrightarrow> 0 \<le> d_round a b"
  by (simp add: d_round_nonneg)

lemma d_round_mono:
  assumes "x \<le> y" and "0 \<le> x" and "b > 0" shows "d_round x b \<le> d_round y b"
  using assms sig_round_mono [of "nat x" "nat y" b 53] by (simp add: d_round_nonneg nat_mono)

lemma d_of_int_exact: "n < 2 ^ 53 \<Longrightarrow> d_of_int (int n) = int n * int DBL_UNIT"
  using sig_round_exact [of n 53 1074] by (simp add: d_of_int_def d_lit_def d_round_nonneg nat_mult_distrib DBL_UNIT_def)

lemma d_round_twice: "b > 0 \<Longrightarrow> \<bar>d_round a b\<bar> * int b \<le> 2 * \<bar>a\<bar>"
proof -
  assume b: "b > 0"
  have "\<bar>d_round a b\<bar> \<le> int (sig_round 53 (nat \<bar>a\<bar>) b)" by (simp add: d_round_def abs_mult sgn_if)
  then have "\<bar>d_round a b\<bar> * int b \<le> int (sig_round 53 (nat \<bar>a\<bar>) b * b)" by (simp add: mult_right_mono)
  also have "\<dots> \<le> int (2 * nat \<bar>a\<bar>)" using sig_round_twice [OF b, of 53 "nat \<bar>a\<bar>"] by linarith
  finally show ?thesis by simp
qed

text \<open>Products and quotients whose exact result is a whole number of units.\<close>

lemma d_mul_whole: "d_mul (int a) (int (b * DBL_UNIT)) = int (sig_round 53 (a * b) 1)"
proof -
  have "sig_round 53 (a * b * DBL_UNIT) (1 * DBL_UNIT) = sig_round 53 (a * b) 1" by (rule sig_round_scale) simp
  then show ?thesis by (simp add: d_mul_def d_round_nonneg nat_mult_distrib mult.assoc)
qed

lemma d_div_whole: "a * DBL_UNIT = q * c \<Longrightarrow> 0 < c \<Longrightarrow> d_div (int a) (int c) = int (sig_round 53 q 1)"
  using sig_round_scale [of c 53 q 1] by (simp add: d_div_def d_round_nonneg nat_mult_distrib)

lemma d_lit_whole: "n < 2 ^ 53 \<Longrightarrow> d_lit (int n) 1 = int (n * DBL_UNIT)"
  using d_of_int_exact by (simp add: d_of_int_def)

lemma d_trunc_mono: "x \<le> y \<Longrightarrow> d_trunc x \<le> d_trunc y"
  by (simp add: d_trunc_def div_le_mono nat_mono)

lemma isqrt_correct: "isqrt n * isqrt n \<le> n \<and> n < (isqrt n + 1) * (isqrt n + 1)"
proof (induction n rule: isqrt.induct)
  case (1 n)
  show ?case
  proof (cases "n = 0")
    case True
    then show ?thesis by (simp add: isqrt.simps)
  next
    case False
    define k where "k = isqrt (n div 4)"
    have "k * k \<le> n div 4" "n div 4 < (k + 1) * (k + 1)" using 1 [OF False] by (simp_all add: k_def)
    then have "2 * k * (2 * k) \<le> n" "n < (2 * k + 2) * (2 * k + 2)" by (simp_all add: algebra_simps)
    then show ?thesis using False by (subst (1 2 3 4) isqrt.simps) (auto simp: Let_def k_def [symmetric])
  qed
qed

end
