(* ===== verification/Netc_Corpus.thy ===== *)
theory Netc_Corpus
  imports Netc_Float "HOL-Library.State_Monad"
begin

text \<open>
  The workload generators of the benchmarks, \<open>src/bench/bench_corpus.c\<close>: the splitmix64 generator, the
  packets of workloads 1 to 8 and the corpus state.  A generator is a computation in the state monad over
  the corpus, the static variables of the file and a flag that is set where the C program would write
  outside the packet or read outside an array.  \<open>exp\<close> of the C library is a parameter, because its
  result is not fixed by the standard.  \<open>wl007_phase\<close>, an \<open>int\<close>, is an integer without bound: a corpus of
  \<open>2 ^ 31\<close> repetitive packets would overflow it.

  The laws are stated by two predicates with a rule for each construct: \<open>sound\<close>, a computation keeps the
  invariant of the corpus and its result has a property; and \<open>oblivious\<close>, it neither reads nor changes the
  static variables.
\<close>

section \<open>The generator of random numbers\<close>

definition sm64_next :: "(u64, u64) state" where
  "sm64_next = State (\<lambda>state.
     let state = state + 0x9e3779b97f4a7c15;
         z = (state XOR drop_bit 30 state) * 0xbf58476d1ce4e5b9;
         z = (z XOR drop_bit 27 z) * 0x94d049bb133111eb
     in (z XOR drop_bit 31 z, state))"

definition sm64_f64 :: "(u64, double) state" where
  "sm64_f64 = do {
     z \<leftarrow> sm64_next;
     State_Monad.return (d_mul (d_of_int (uint (drop_bit 11 z))) (d_div (d_lit 1 1) (d_of_int (2 ^ 53)))) }"

definition sm64_range :: "u32 \<Rightarrow> u32 \<Rightarrow> (u64, u32) state" where
  "sm64_range lo hi = do {
     f \<leftarrow> sm64_f64;
     State_Monad.return (lo + of_nat (d_trunc (d_mul f (d_of_int (uint (hi - lo + 1)))))) }"

section \<open>The corpus\<close>

datatype bench_workload =
    BENCH_WL_ALL
  | BENCH_WL_001
  | BENCH_WL_002
  | BENCH_WL_003
  | BENCH_WL_004
  | BENCH_WL_005
  | BENCH_WL_006
  | BENCH_WL_007
  | BENCH_WL_008

definition BENCH_CORPUS_MAX_PKT :: nat where "BENCH_CORPUS_MAX_PKT = 512"

record bench_corpus =
  bc_workload :: bench_workload
  bc_rng :: u64
  bc_seed :: u64
  bc_packet :: "byte list"
  bc_pkt_len :: nat
  bc_wl007_phase :: int
  bc_wl004_price :: double

text \<open>The static variables of \<open>gen_financial_tick\<close> and \<open>gen_telemetry\<close>.\<close>

record bench_statics =
  bs_tick_ns :: u64
  bs_base_ctrs :: "u32 list"
  bs_ctrs_init :: bool

definition fresh_statics :: bench_statics where
  "fresh_statics = \<lparr>bs_tick_ns = 0, bs_base_ctrs = replicate 32 0, bs_ctrs_init = False\<rparr>"

record gen_state =
  g_corpus :: bench_corpus
  g_statics :: bench_statics
  g_undefined :: bool

type_synonym 'a gen = "(gen_state, 'a) state"

definition rand :: "(u64, 'a) state \<Rightarrow> 'a gen" where
  "rand m = State (\<lambda>g. let (x, r) = run_state m (bc_rng (g_corpus g)) in (x, g\<lparr>g_corpus := (g_corpus g)\<lparr>bc_rng := r\<rparr>\<rparr>))"

text \<open>\<open>memcpy\<close> and \<open>memset\<close> into the packet.\<close>

definition poke :: "nat \<Rightarrow> byte list \<Rightarrow> unit gen" where
  "poke off bytes = State (\<lambda>g. ((),
     if off + length bytes \<le> BENCH_CORPUS_MAX_PKT
     then g\<lparr>g_corpus := (g_corpus g)\<lparr>bc_packet := take off (bc_packet (g_corpus g)) @ bytes @ drop (off + length bytes) (bc_packet (g_corpus g))\<rparr>\<rparr>
     else g\<lparr>g_undefined := True\<rparr>))"

definition set_pkt_len :: "nat \<Rightarrow> unit gen" where
  "set_pkt_len n = State (\<lambda>g. ((), g\<lparr>g_corpus := (g_corpus g)\<lparr>bc_pkt_len := n\<rparr>\<rparr>))"

primrec for_each :: "('i \<Rightarrow> unit gen) \<Rightarrow> 'i list \<Rightarrow> unit gen" where
  "for_each f [] = State_Monad.return ()"
| "for_each f (i # is') = do { f i; for_each f is' }"

definition write_u64 :: "u64 \<Rightarrow> byte list" where
  "write_u64 v = netc_write_u32_le (ucast v) @ netc_write_u32_le (ucast (drop_bit 32 v))"

definition write_f32 :: "float \<Rightarrow> byte list" where
  "write_f32 x = netc_write_u32_le (f32_bits x)"

section \<open>Game state\<close>

definition poke_vector :: "nat \<Rightarrow> int \<Rightarrow> unit gen" where
  "poke_vector off scale = for_each (\<lambda>i. do {
     f \<leftarrow> rand sm64_f64;
     poke (off + 4 * i) (write_f32 (f_of_d (d_mul (d_sub f (d_lit 1 2)) (d_lit scale 1)))) }) [0..<3]"

definition gen_rot :: "float gen" where
  "gen_rot = do {
     f \<leftarrow> rand sm64_f64;
     State_Monad.return (f_of_d (d_sub (d_mul f (d_lit 1 10)) (d_lit 5 100))) }"

definition d_square :: "float \<Rightarrow> double" where
  "d_square x = d_mul (d_of_f x) (d_of_f x)"

definition gen_game_128 :: "unit gen" where
  "gen_game_128 = do {
     anim \<leftarrow> rand (sm64_range 0 500);
     poke 64 (netc_write_u16_le (ucast anim));
     hurt \<leftarrow> rand (sm64_range 0 200);
     poke 66 (netc_write_u16_le (ucast (10000 - hurt)));
     for_each (\<lambda>i. do {
       z \<leftarrow> rand (sm64_range 0 10);
       item \<leftarrow> (if z = 0 then rand (sm64_range 1 1000) else State_Monad.return 0);
       poke (68 + i * 2) (netc_write_u16_le (ucast item)) }) [0..<20];
     rot0 \<leftarrow> gen_rot;
     rot1 \<leftarrow> gen_rot;
     rot2 \<leftarrow> gen_rot;
     let w2 = d_sub (d_sub (d_sub (d_lit 1 1) (d_square rot0)) (d_square rot1)) (d_square rot2);
     let rot3 = (if w2 > 0 then f_of_d (d_sqrt w2) else 0);
     poke 108 (write_f32 rot0 @ write_f32 rot1 @ write_f32 rot2 @ write_f32 rot3) }"

definition gen_game_256 :: "unit gen" where
  "gen_game_256 = do {
     for_each (\<lambda>i. do {
       z \<leftarrow> rand (sm64_range 0 15);
       effect \<leftarrow> (if z = 0 then rand (sm64_range 1 255) else State_Monad.return 0);
       poke (128 + i) [ucast effect] }) [0..<16];
     z \<leftarrow> rand (sm64_range 0 9);
     (if z = 0 then do {
        chat_len \<leftarrow> rand (sm64_range 1 60);
        for_each (\<lambda>i. do {
          ch \<leftarrow> rand (sm64_range 32 126);
          poke (144 + i) [ucast ch] }) [0..<unat chat_len] }
      else State_Monad.return ());
     score \<leftarrow> rand (sm64_range 0 9999);
     poke 208 (netc_write_u32_le score);
     kills \<leftarrow> rand (sm64_range 0 200);
     poke 212 (netc_write_u16_le (ucast kills));
     deaths \<leftarrow> rand (sm64_range 0 100);
     poke 214 (netc_write_u16_le (ucast deaths)) }"

definition gen_game_state :: "nat \<Rightarrow> unit gen" where
  "gen_game_state pkt_size = do {
     poke 0 (replicate pkt_size 0);
     player_id \<leftarrow> rand (sm64_range 1 1000);
     poke 0 (netc_write_u32_le player_id);
     seq \<leftarrow> rand sm64_next;
     poke 4 (netc_write_u32_le (ucast (seq AND 0x00FFFFFF)));
     tick \<leftarrow> rand sm64_next;
     poke 8 (write_u64 (tick AND 0x0000FFFFFFFFFFFF));
     fl \<leftarrow> rand (sm64_range 0 7);
     poke 16 (netc_write_u16_le (ucast (push_bit (unat fl) (1 :: u32))));
     poke_vector 32 200;
     poke_vector 44 20;
     for_each (\<lambda>i. do {
       v \<leftarrow> rand (sm64_range 0 255);
       poke (56 + i) [ucast v] }) [0..<8];
     (if pkt_size \<ge> 128 then gen_game_128 else State_Monad.return ());
     (if pkt_size \<ge> 256 then gen_game_256 else State_Monad.return ());
     set_pkt_len pkt_size }"

section \<open>Financial ticks\<close>

definition s_symbols :: "string list" where
  "s_symbols = [''AAPL    '', ''MSFT    '', ''GOOGL   '', ''AMZN    '', ''TSLA    '',
                ''NVDA    '', ''META    '', ''BRK.B   '', ''JPM     '', ''UNH     '']"

definition NUM_SYMBOLS :: u32 where "NUM_SYMBOLS = 10"

definition poke_symbol :: "nat \<Rightarrow> unit gen" where
  "poke_symbol i = (if i < length s_symbols then poke 0 (map of_char (s_symbols ! i))
     else State (\<lambda>g. ((), g\<lparr>g_undefined := True\<rparr>)))"

definition next_price :: "double \<Rightarrow> double gen" where
  "next_price delta = State (\<lambda>g.
     let p = d_mul (bc_wl004_price (g_corpus g)) (d_add (d_lit 1 1) delta);
         p = (if p < d_lit 1 1 then d_lit 1 1 else p);
         p = (if p > d_lit 10000 1 then d_lit 10000 1 else p)
     in (p, g\<lparr>g_corpus := (g_corpus g)\<lparr>bc_wl004_price := p\<rparr>\<rparr>))"

definition start_tick :: "unit gen" where
  "start_tick = State (\<lambda>g. ((), if bs_tick_ns (g_statics g) = 0
     then g\<lparr>g_statics := (g_statics g)\<lparr>bs_tick_ns := 1704067200000000000\<rparr>\<rparr> else g))"

definition advance_tick :: "u32 \<Rightarrow> u64 gen" where
  "advance_tick n = State (\<lambda>g. let t = bs_tick_ns (g_statics g) + ucast n in (t, g\<lparr>g_statics := (g_statics g)\<lparr>bs_tick_ns := t\<rparr>\<rparr>))"

definition tick_quote :: "(double \<Rightarrow> double) \<Rightarrow> unit gen" where
  "tick_quote exp_fn = do {
     sym_idx \<leftarrow> rand (sm64_range 0 (NUM_SYMBOLS - 1));
     poke_symbol (unat sym_idx);
     f \<leftarrow> rand sm64_f64;
     p \<leftarrow> next_price (d_mul (d_sub f (d_lit 1 2)) (d_lit 2 100));
     poke 8 (write_u64 (f64_bits p));
     f \<leftarrow> rand sm64_f64;
     let vol_f = exp_fn (d_add (d_mul f (d_lit 4 1)) (d_lit 3 1));
     let vol = d_trunc (if vol_f < d_lit 1 1 then d_lit 1 1 else if vol_f > d_lit 100000 1 then d_lit 100000 1 else vol_f);
     poke 16 (netc_write_u32_le (of_nat vol)) }"

definition tick_time :: "unit gen" where
  "tick_time = do {
     start_tick;
     n \<leftarrow> rand (sm64_range 100 10000);
     t \<leftarrow> advance_tick n;
     poke 20 (write_u64 t) }"

definition tick_flags :: "unit gen" where
  "tick_flags = do {
     z \<leftarrow> rand (sm64_range 0 7);
     fl \<leftarrow> (if z = 0 then do { b \<leftarrow> rand (sm64_range 0 3); State_Monad.return (push_bit (unat b) (1 :: u32)) }
            else State_Monad.return 0);
     poke 28 (netc_write_u32_le fl) }"

definition gen_financial_tick :: "(double \<Rightarrow> double) \<Rightarrow> unit gen" where
  "gen_financial_tick exp_fn = do {
     poke 0 (replicate 32 0);
     tick_quote exp_fn;
     tick_time;
     tick_flags;
     set_pkt_len 32 }"

section \<open>Telemetry\<close>

definition init_ctrs :: "unit gen" where
  "init_ctrs = State (\<lambda>g. ((), if bs_ctrs_init (g_statics g) then g
     else g\<lparr>g_statics := (g_statics g)\<lparr>bs_ctrs_init := True, bs_base_ctrs := replicate 32 0\<rparr>\<rparr>))"

definition bump_ctr :: "nat \<Rightarrow> u32 \<Rightarrow> u32 gen" where
  "bump_ctr i n = State (\<lambda>g. let v = bs_base_ctrs (g_statics g) ! i + n
     in (v, if i < length (bs_base_ctrs (g_statics g)) then g\<lparr>g_statics := (g_statics g)\<lparr>bs_base_ctrs := (bs_base_ctrs (g_statics g))[i := v]\<rparr>\<rparr>
            else g\<lparr>g_undefined := True\<rparr>))"

definition gen_telemetry :: "unit gen" where
  "gen_telemetry = do {
     poke 0 (replicate 512 0);
     dev_id \<leftarrow> rand (sm64_range 1 500);
     poke 0 (write_u64 (ucast dev_id));
     n_sensors \<leftarrow> rand (sm64_range 8 32);
     poke 8 (netc_write_u32_le n_sensors);
     fl \<leftarrow> rand (sm64_range 0 15);
     poke 12 (netc_write_u32_le fl);
     for_each (\<lambda>i. do {
       sid \<leftarrow> (if i < unat n_sensors then rand (sm64_range 1 100) else State_Monad.return 0);
       val \<leftarrow> (if i < unat n_sensors then do { f \<leftarrow> rand sm64_f64; State_Monad.return (f_of_d (d_mul (d_sub f (d_lit 1 2)) (d_lit 100 1))) }
               else State_Monad.return 0);
       poke (16 + i * 8 + 0) (netc_write_u32_le sid);
       poke (16 + i * 8 + 4) (write_f32 val) }) [0..<32];
     init_ctrs;
     for_each (\<lambda>i. do {
       n \<leftarrow> rand (sm64_range 0 10);
       v \<leftarrow> bump_ctr i n;
       poke (272 + i * 4) (netc_write_u32_le v) }) [0..<32];
     for_each (\<lambda>i. do {
       z \<leftarrow> rand (sm64_range 0 4);
       e \<leftarrow> (if z = 0 then rand (sm64_range 1 15) else State_Monad.return 0);
       poke (400 + i) [ucast e] }) [0..<64];
     set_pkt_len 512 }"

section \<open>Random, repetitive and mixed packets\<close>

text \<open>The second loop, over the bytes that do not fill a word, has no iteration.\<close>

definition gen_random :: "unit gen" where
  "gen_random = do {
     for_each (\<lambda>k. do { v \<leftarrow> rand sm64_next; poke (8 * k) (write_u64 v) }) [0..<128 div 8];
     for_each (\<lambda>i. do { v \<leftarrow> rand sm64_next; poke i [ucast v] }) [128 div 8 * 8..<128];
     set_pkt_len 128 }"

definition pattern :: "int \<Rightarrow> byte list" where
  "pattern phase =
     (if phase mod 4 = 0 then replicate 128 0x00
      else if phase mod 4 = 1 then replicate 128 0xFF
      else if phase mod 4 = 2 then replicate 64 0x00 @ replicate 64 0xFF
      else map (\<lambda>i. if odd i then 0x55 else 0xAA) [0..<128])"

definition next_phase :: "int gen" where
  "next_phase = State (\<lambda>g. (bc_wl007_phase (g_corpus g), g\<lparr>g_corpus := (g_corpus g)\<lparr>bc_wl007_phase := bc_wl007_phase (g_corpus g) + 1\<rparr>\<rparr>))"

definition gen_repetitive :: "unit gen" where
  "gen_repetitive = do { phase \<leftarrow> next_phase; poke 0 (pattern phase); set_pkt_len 128 }"

definition gen_mixed :: "unit gen" where
  "gen_mixed = do {
     r \<leftarrow> rand (sm64_range 0 99);
     if r < 60 then gen_game_state 64
     else if r < 80 then gen_game_state 128
     else if r < 90 then gen_telemetry
     else gen_random }"

section \<open>The interface of the corpus\<close>

definition bench_corpus_init :: "bench_workload \<Rightarrow> u64 \<Rightarrow> bench_corpus" where
  "bench_corpus_init wl seed =
     \<lparr>bc_workload = wl, bc_rng = seed, bc_seed = seed, bc_packet = replicate BENCH_CORPUS_MAX_PKT 0, bc_pkt_len = 0,
      bc_wl007_phase = 0, bc_wl004_price = d_lit 100 1\<rparr>"

definition bench_corpus_reset :: "bench_corpus \<Rightarrow> bench_corpus" where
  "bench_corpus_reset c = bench_corpus_init (bc_workload c) (bc_seed c)"

definition generate :: "(double \<Rightarrow> double) \<Rightarrow> bench_workload \<Rightarrow> unit gen" where
  "generate exp_fn wl =
     (case wl of
        BENCH_WL_001 \<Rightarrow> gen_game_state 64
      | BENCH_WL_002 \<Rightarrow> gen_game_state 128
      | BENCH_WL_003 \<Rightarrow> gen_game_state 256
      | BENCH_WL_004 \<Rightarrow> gen_financial_tick exp_fn
      | BENCH_WL_005 \<Rightarrow> gen_telemetry
      | BENCH_WL_006 \<Rightarrow> gen_random
      | BENCH_WL_007 \<Rightarrow> gen_repetitive
      | BENCH_WL_008 \<Rightarrow> gen_mixed
      | BENCH_WL_ALL \<Rightarrow> set_pkt_len 0)"

definition bench_corpus_next :: "(double \<Rightarrow> double) \<Rightarrow> gen_state \<Rightarrow> nat \<times> gen_state" where
  "bench_corpus_next exp_fn g =
     (let g = snd (run_state (generate exp_fn (bc_workload (g_corpus g))) g) in (bc_pkt_len (g_corpus g), g))"

text \<open>The packets that a corpus generates in a row.\<close>

primrec corpus_packets :: "(double \<Rightarrow> double) \<Rightarrow> nat \<Rightarrow> gen_state \<Rightarrow> byte list list \<times> gen_state" where
  "corpus_packets exp_fn 0 g = ([], g)"
| "corpus_packets exp_fn (Suc n) g =
     (let (len, g) = bench_corpus_next exp_fn g;
          p = take len (bc_packet (g_corpus g));
          (ps, g) = corpus_packets exp_fn n g
      in (p # ps, g))"

text \<open>A corpus of its own, so that only the static variables and the flag are left of the state.\<close>

definition bench_corpus_train ::
    "(double \<Rightarrow> double) \<Rightarrow> bench_workload \<Rightarrow> u64 \<Rightarrow> nat \<Rightarrow> bench_statics \<Rightarrow> byte list list \<times> bench_statics \<times> bool" where
  "bench_corpus_train exp_fn wl seed n st =
     (let (ps, g) = corpus_packets exp_fn n \<lparr>g_corpus = bench_corpus_init wl seed, g_statics = st, g_undefined = False\<rparr>
      in (ps, g_statics g, g_undefined g))"

definition bench_workload_name :: "bench_workload \<Rightarrow> string" where
  "bench_workload_name wl =
     (case wl of
        BENCH_WL_001 \<Rightarrow> ''WL-001 Game State 64B''
      | BENCH_WL_002 \<Rightarrow> ''WL-002 Game State 128B''
      | BENCH_WL_003 \<Rightarrow> ''WL-003 Game State 256B''
      | BENCH_WL_004 \<Rightarrow> ''WL-004 Financial Tick 32B''
      | BENCH_WL_005 \<Rightarrow> ''WL-005 Telemetry 512B''
      | BENCH_WL_006 \<Rightarrow> ''WL-006 Random 128B''
      | BENCH_WL_007 \<Rightarrow> ''WL-007 Repetitive 128B''
      | BENCH_WL_008 \<Rightarrow> ''WL-008 Mixed Traffic''
      | BENCH_WL_ALL \<Rightarrow> ''WL-??? Unknown'')"

definition bench_workload_pkt_size :: "bench_workload \<Rightarrow> nat" where
  "bench_workload_pkt_size wl =
     (case wl of BENCH_WL_001 \<Rightarrow> 64 | BENCH_WL_002 \<Rightarrow> 128 | BENCH_WL_003 \<Rightarrow> 256 | BENCH_WL_004 \<Rightarrow> 32
      | BENCH_WL_005 \<Rightarrow> 512 | BENCH_WL_006 \<Rightarrow> 128 | BENCH_WL_007 \<Rightarrow> 128 | BENCH_WL_008 \<Rightarrow> 0 | BENCH_WL_ALL \<Rightarrow> 0)"

section \<open>Random numbers in a range\<close>

definition f64_unit :: nat where "f64_unit = 2 ^ 1021"

lemma DBL_UNIT_split: "DBL_UNIT = 2 ^ 53 * f64_unit"
  unfolding DBL_UNIT_def f64_unit_def power_add [symmetric] by simp

lemma f64_unit_pos [simp]: "0 < f64_unit"
  by (simp add: f64_unit_def)

lemma f64_exact: "m < 2 ^ 53 \<Longrightarrow> sig_round 53 (m * f64_unit) 1 = m * f64_unit"
  unfolding f64_unit_def by (rule sig_round_exact)

lemma inverse_2_53: "d_div (d_lit 1 1) (d_of_int (2 ^ 53)) = int f64_unit"
proof -
  have one: "d_lit 1 1 = int DBL_UNIT" using d_lit_whole [of 1] by simp
  have "sig_round 53 (1 * 2 ^ (53 + 1074)) 1 = 1 * 2 ^ (53 + 1074)" by (rule sig_round_exact) simp
  then have two: "d_of_int (2 ^ 53) = int (2 ^ 53 * DBL_UNIT)"
    unfolding d_of_int_def d_lit_def DBL_UNIT_def power_add by (simp add: d_round_nonneg nat_mult_distrib nat_power_eq)
  have "DBL_UNIT * DBL_UNIT = f64_unit * (2 ^ 53 * DBL_UNIT)" by (simp add: DBL_UNIT_split)
  then show ?thesis unfolding one two using f64_exact [of 1] by (subst d_div_whole) simp_all
qed

lemma f64_value: "\<exists>k r. run_state sm64_f64 s = (int (k * f64_unit), r) \<and> k < 2 ^ 53"
proof -
  obtain z r where z: "run_state sm64_next s = (z, r)" by fastforce
  define k where "k = unat (drop_bit 11 z)"
  have k: "k < 2 ^ 53"
    using unsigned_less [of z, where ?'a = nat] by (simp add: k_def drop_bit_eq_div unat_div_distrib less_mult_imp_div_less)
  then have "d_of_int (uint (drop_bit 11 z)) = int (k * DBL_UNIT)" using d_of_int_exact [of k] by (simp add: k_def)
  then have "d_mul (d_of_int (uint (drop_bit 11 z))) (int f64_unit) = int (k * f64_unit)"
    using d_mul_whole [of f64_unit k] f64_exact [OF k] by (simp add: d_mul_def mult.commute)
  then have "run_state sm64_f64 s = (int (k * f64_unit), r)" unfolding sm64_f64_def inverse_2_53 using z by simp
  then show ?thesis using k by blast
qed

lemma trunc_range:
  assumes "k < 2 ^ 53" and "m < 2 ^ 53" and "0 < m" shows "d_trunc (d_mul (int (k * f64_unit)) (d_of_int (int m))) < m"
proof -
  define x where "x = sig_round 53 (k * f64_unit * m) 1"
  have v: "d_mul (int (k * f64_unit)) (d_of_int (int m)) = int x"
    using d_mul_whole [of "k * f64_unit" m] d_of_int_exact [OF assms(2)] by (simp add: x_def)
  have "k * (2 ^ 53 + 1) < 2 ^ 53 * 2 ^ 53" using assms(1) by simp
  then have "k * (2 ^ 53 + 1) * (m * f64_unit) < 2 ^ 53 * 2 ^ 53 * (m * f64_unit)" using assms(3) by simp
  moreover have "x * 2 ^ 53 \<le> k * f64_unit * m * (2 ^ 53 + 1)" unfolding x_def by (rule sig_round_error) simp
  ultimately have "x * 2 ^ 53 < (m * (2 ^ 53 * f64_unit)) * 2 ^ 53" by (simp only: ac_simps)
  then have "x < m * DBL_UNIT" unfolding DBL_UNIT_split by (rule mult_right_less_imp_less) simp
  then show ?thesis unfolding v by (simp add: d_trunc_def less_mult_imp_div_less)
qed

lemma range_bounds:
  assumes "lo \<le> hi" shows "lo \<le> fst (run_state (sm64_range lo hi) s) \<and> fst (run_state (sm64_range lo hi) s) \<le> hi"
proof -
  obtain k r where k: "run_state sm64_f64 s = (int (k * f64_unit), r)" "k < 2 ^ 53" using f64_value by blast
  define m where "m = unat (hi - lo + 1)"
  define n where "n = d_trunc (d_mul (int (k * f64_unit)) (d_of_int (int m)))"
  have v: "fst (run_state (sm64_range lo hi) s) = lo + of_nat n" by (simp add: sm64_range_def k(1) n_def m_def)
  have d: "unat (hi - lo) = unat hi - unat lo" "unat lo \<le> unat hi" using assms by (simp_all add: unat_sub word_le_nat_alt)
  have "n \<le> unat (hi - lo)"
  proof (cases "m = 0")
    case True
    then show ?thesis by (simp add: n_def d_of_int_def d_lit_def d_round_def d_mul_def d_trunc_def)
  next
    case False
    then have "hi - lo + 1 \<noteq> 0" by (auto simp: m_def)
    then have "m = unat (hi - lo) + 1" unfolding m_def by (metis Suc_eq_plus1 add.commute unatSuc)
    moreover have "m < 2 ^ 53" using unsigned_less [of "hi - lo + 1", where ?'a = nat] by (simp add: m_def)
    ultimately show ?thesis using trunc_range [OF k(2), of m] by (simp add: n_def)
  qed
  then have n: "unat lo + n \<le> unat hi" using d by linarith
  then have "unat (lo + of_nat n) = unat lo + n"
    using unsigned_less [of hi, where ?'a = nat] by (simp add: unat_word_ariths unat_of_nat)
  then show ?thesis unfolding v using n by (simp add: word_le_nat_alt)
qed

section \<open>Memory safety\<close>

definition corpus_ok :: "gen_state \<Rightarrow> bool" where
  "corpus_ok g \<longleftrightarrow> length (bc_packet (g_corpus g)) = BENCH_CORPUS_MAX_PKT \<and> length (bs_base_ctrs (g_statics g)) = 32 \<and> \<not> g_undefined g"

definition same_corpus :: "gen_state \<Rightarrow> gen_state \<Rightarrow> bool" where
  "same_corpus g g' \<longleftrightarrow> bc_workload (g_corpus g') = bc_workload (g_corpus g) \<and> bc_seed (g_corpus g') = bc_seed (g_corpus g)"

definition sound :: "'a gen \<Rightarrow> bool" where
  "sound m \<longleftrightarrow> (\<forall>g. corpus_ok g \<longrightarrow> corpus_ok (snd (run_state m g)) \<and> same_corpus g (snd (run_state m g)))"

named_theorems sound_rules \<open>soundness of the constructs of a generator\<close>

lemma sound_bind: "sound m \<Longrightarrow> (\<And>x. sound (f x)) \<Longrightarrow> sound (m \<bind> f)"
  by (simp add: sound_def same_corpus_def split_beta)

lemma sound_rand: "sound (rand m)"
  by (simp add: sound_def corpus_ok_def same_corpus_def rand_def split_beta)

lemma sound_bind_range [sound_rules]:
  assumes "lo \<le> hi" and "\<And>x. lo \<le> x \<Longrightarrow> x \<le> hi \<Longrightarrow> sound (f x)" shows "sound (rand (sm64_range lo hi) \<bind> f)"
  using sound_rand [of "sm64_range lo hi"] assms(2) range_bounds [OF assms(1)]
  by (simp add: sound_def same_corpus_def rand_def split_beta)

lemma sound_poke: "off + length bytes \<le> BENCH_CORPUS_MAX_PKT \<Longrightarrow> sound (poke off bytes)"
  by (simp add: sound_def corpus_ok_def same_corpus_def poke_def)

lemma sound_return: "sound (State_Monad.return x)"
  by (simp add: sound_def same_corpus_def)

lemma sound_if: "(b \<Longrightarrow> sound m) \<Longrightarrow> (\<not> b \<Longrightarrow> sound n) \<Longrightarrow> sound (if b then m else n)"
  by simp

lemma sound_for_each: "(\<And>i. i \<in> set is' \<Longrightarrow> sound (f i)) \<Longrightarrow> sound (for_each f is')"
  by (induction is') (simp_all add: sound_return sound_bind)

lemma sound_updates:
  "sound (set_pkt_len n)" "sound (next_price x)" "sound start_tick" "sound (advance_tick v)" "sound init_ctrs" "sound next_phase"
  "i < 32 \<Longrightarrow> sound (bump_ctr i v)"
  by (simp_all add: sound_def corpus_ok_def same_corpus_def set_pkt_len_def next_price_def start_tick_def advance_tick_def init_ctrs_def
      next_phase_def bump_ctr_def Let_def)

lemma sound_symbol: "i < 10 \<Longrightarrow> sound (poke_symbol i)"
proof -
  assume "i < 10"
  then have "i < length s_symbols" by (simp add: s_symbols_def)
  moreover from this have "s_symbols ! i \<in> set s_symbols" by (rule nth_mem)
  moreover have "\<forall>x \<in> set s_symbols. length x = 8" by (simp add: s_symbols_def)
  ultimately show ?thesis by (simp add: poke_symbol_def sound_poke BENCH_CORPUS_MAX_PKT_def)
qed

lemmas sound_steps [sound_rules] =
  sound_bind sound_rand sound_poke sound_return sound_if sound_for_each sound_updates sound_symbol

lemma write_lengths [simp]:
  "length (write_u64 v) = 8" "length (write_f32 x) = 4" "length (pattern phase) = 128"
  by (simp_all add: write_u64_def write_f32_def pattern_def)

lemma sound_game:
  assumes "64 \<le> n" and "n \<le> 512" shows "sound (gen_game_state n)"
proof -
  have "sound (poke_vector off scale)" if "off \<le> 500" for off scale
    unfolding poke_vector_def by (intro sound_rules) (use that in \<open>auto simp: BENCH_CORPUS_MAX_PKT_def\<close>)
  moreover have "sound gen_rot" unfolding gen_rot_def by (intro sound_rules)
  then have "sound gen_game_128"
    unfolding gen_game_128_def Let_def by (intro sound_rules) (simp_all add: BENCH_CORPUS_MAX_PKT_def)
  moreover have "unat x \<le> 60" if "x \<le> 60" for x :: u32 using that by (simp add: word_le_nat_alt)
  then have "sound gen_game_256"
    unfolding gen_game_256_def by (intro sound_rules) (fastforce simp: BENCH_CORPUS_MAX_PKT_def)+
  ultimately show ?thesis
    unfolding gen_game_state_def by (intro sound_rules) (use assms(2) in \<open>simp_all add: BENCH_CORPUS_MAX_PKT_def\<close>)
qed

lemma sound_tick: "sound (gen_financial_tick exp_fn)"
proof -
  have "unat x < 10" if "x \<le> NUM_SYMBOLS - 1" for x using that by (simp add: NUM_SYMBOLS_def word_le_nat_alt)
  then show ?thesis
    unfolding gen_financial_tick_def tick_quote_def tick_time_def tick_flags_def Let_def
    by (intro sound_rules) (simp_all add: BENCH_CORPUS_MAX_PKT_def)
qed

lemma sound_others: "sound gen_telemetry" "sound gen_random" "sound gen_repetitive"
  unfolding gen_telemetry_def gen_random_def gen_repetitive_def
  by (intro sound_rules; simp add: BENCH_CORPUS_MAX_PKT_def)+

lemma sound_generate: "sound (generate exp_fn wl)"
proof -
  have "sound gen_mixed" unfolding gen_mixed_def by (intro sound_rules sound_game sound_others) simp_all
  then show ?thesis by (cases wl) (simp_all add: generate_def sound_game sound_tick sound_others sound_updates)
qed

section \<open>Packet sizes\<close>

definition ends_with :: "nat set \<Rightarrow> 'a gen \<Rightarrow> bool" where
  "ends_with N m \<longleftrightarrow> (\<forall>g. bc_pkt_len (g_corpus (snd (run_state m g))) \<in> N)"

lemma ends_bind: "(\<And>x. ends_with N (f x)) \<Longrightarrow> ends_with N (m \<bind> f)"
  by (simp add: ends_with_def split_beta)

lemma ends_set: "n \<in> N \<Longrightarrow> ends_with N (set_pkt_len n)"
  by (simp add: ends_with_def set_pkt_len_def)

lemma ends_if: "ends_with N m \<Longrightarrow> ends_with N n \<Longrightarrow> ends_with N (if b then m else n)"
  by simp

lemmas ends_rules = ends_bind ends_set

lemma ends_generators:
  "ends_with {n} (gen_game_state n)" "ends_with {32} (gen_financial_tick exp_fn)" "ends_with {512} gen_telemetry"
  "ends_with {128} gen_random" "ends_with {128} gen_repetitive"
  unfolding gen_game_state_def gen_financial_tick_def gen_telemetry_def gen_random_def gen_repetitive_def Let_def
  by (intro ends_rules, simp)+

lemma ends_weaken: "ends_with M m \<Longrightarrow> M \<subseteq> N \<Longrightarrow> ends_with N m"
  by (auto simp: ends_with_def)

definition pkt_sizes :: "bench_workload \<Rightarrow> nat set" where
  "pkt_sizes wl = (if wl = BENCH_WL_008 then {64, 128, 512} else {bench_workload_pkt_size wl})"

lemma ends_generate: "ends_with (pkt_sizes wl) (generate exp_fn wl)"
proof -
  have "ends_with {64, 128, 512} gen_mixed"
    unfolding gen_mixed_def by (intro ends_bind ends_if) (rule ends_generators [THEN ends_weaken], simp)+
  then show ?thesis
    by (cases wl) (simp_all add: generate_def pkt_sizes_def bench_workload_pkt_size_def ends_generators ends_set)
qed

lemma next_ok:
  assumes "bench_corpus_next exp_fn g = (len, g')" and "corpus_ok g"
  shows "corpus_ok g'" "same_corpus g g'" "len = bc_pkt_len (g_corpus g')" "len \<in> pkt_sizes (bc_workload (g_corpus g))"
proof -
  let ?m = "generate exp_fn (bc_workload (g_corpus g))"
  have g': "g' = snd (run_state ?m g)" "len = bc_pkt_len (g_corpus g')" using assms(1) by (auto simp: bench_corpus_next_def Let_def)
  show "corpus_ok g'" "same_corpus g g'" using sound_generate [of exp_fn] assms(2) by (simp_all add: g'(1) sound_def)
  show "len = bc_pkt_len (g_corpus g')" by (rule g'(2))
  show "len \<in> pkt_sizes (bc_workload (g_corpus g))"
    using ends_generate [of "bc_workload (g_corpus g)" exp_fn] unfolding g' by (simp add: ends_with_def)
qed

lemma pkt_sizes_max: "len \<in> pkt_sizes wl \<Longrightarrow> len \<le> BENCH_CORPUS_MAX_PKT"
  by (cases wl) (auto simp: pkt_sizes_def bench_workload_pkt_size_def BENCH_CORPUS_MAX_PKT_def)

lemma init_ok: "length (bs_base_ctrs st) = 32 \<Longrightarrow> corpus_ok \<lparr>g_corpus = bench_corpus_init wl seed, g_statics = st, g_undefined = False\<rparr>"
  by (simp add: corpus_ok_def bench_corpus_init_def)

lemma reset_ok: "corpus_ok g \<Longrightarrow> corpus_ok (g\<lparr>g_corpus := bench_corpus_reset (g_corpus g)\<rparr>)"
  by (simp add: corpus_ok_def bench_corpus_reset_def bench_corpus_init_def)

lemma packets_ok:
  assumes "corpus_packets exp_fn n g = (ps, g')" and "corpus_ok g"
  shows "corpus_ok g' \<and> same_corpus g g' \<and> length ps = n \<and> (\<forall>p \<in> set ps. length p \<in> pkt_sizes (bc_workload (g_corpus g)))"
  using assms
proof (induction n arbitrary: g ps)
  case 0
  then show ?case by (simp add: same_corpus_def)
next
  case (Suc n)
  obtain len g1 where 1: "bench_corpus_next exp_fn g = (len, g1)" by fastforce
  obtain qs g2 where 2: "corpus_packets exp_fn n g1 = (qs, g2)" by fastforce
  have p: "ps = take len (bc_packet (g_corpus g1)) # qs" "g' = g2" using Suc.prems(1) by (simp_all add: 1 2)
  note ok = next_ok [OF 1 Suc.prems(2)]
  have "length (take len (bc_packet (g_corpus g1))) = len"
    using ok(1,4) pkt_sizes_max by (simp add: corpus_ok_def)
  then show ?case using Suc.IH [OF 2 [folded p(2)] ok(1)] ok p(1) by (auto simp: same_corpus_def)
qed

section \<open>Replay\<close>

definition oblivious :: "'a gen \<Rightarrow> bool" where
  "oblivious m \<longleftrightarrow> (\<forall>g st. run_state m (g\<lparr>g_statics := st\<rparr>) = (fst (run_state m g), (snd (run_state m g))\<lparr>g_statics := st\<rparr>))"

lemma oblivious_bind: "oblivious m \<Longrightarrow> (\<And>x. oblivious (f x)) \<Longrightarrow> oblivious (m \<bind> f)"
  by (simp add: oblivious_def split_beta)

lemma oblivious_statics:
  assumes "oblivious m" shows "g_statics (snd (run_state m g)) = g_statics g"
proof -
  have "run_state m (g\<lparr>g_statics := g_statics g\<rparr>) = (fst (run_state m g), (snd (run_state m g))\<lparr>g_statics := g_statics g\<rparr>)"
    using assms unfolding oblivious_def by blast
  moreover have "g\<lparr>g_statics := g_statics g\<rparr> = g" by simp
  ultimately have "snd (run_state m g) = (snd (run_state m g))\<lparr>g_statics := g_statics g\<rparr>" by (metis snd_conv)
  then show ?thesis by (metis gen_state.select_convs(2) gen_state.surjective gen_state.update_convs(2))
qed

lemma oblivious_if: "oblivious m \<Longrightarrow> oblivious n \<Longrightarrow> oblivious (if b then m else n)"
  by simp

lemma oblivious_return: "oblivious (State_Monad.return x)"
  by (simp add: oblivious_def)

lemma oblivious_for_each: "(\<And>i. oblivious (f i)) \<Longrightarrow> oblivious (for_each f is')"
  by (induction is') (simp_all add: oblivious_return oblivious_bind)

lemma oblivious_basic:
  "oblivious (rand m)" "oblivious (poke off bytes)" "oblivious (set_pkt_len n)" "oblivious next_phase" "oblivious (poke_symbol i)"
  "oblivious (next_price x)"
  by (simp_all add: oblivious_def rand_def poke_def set_pkt_len_def next_phase_def poke_symbol_def next_price_def Let_def split_beta)

lemmas oblivious_rules = oblivious_bind oblivious_if oblivious_return oblivious_for_each oblivious_basic

lemma oblivious_generators:
  "oblivious (gen_game_state n)" "oblivious gen_random" "oblivious gen_repetitive" "oblivious (tick_quote exp_fn)" "oblivious tick_flags"
  unfolding gen_game_state_def gen_game_128_def gen_game_256_def gen_rot_def poke_vector_def gen_random_def gen_repetitive_def
    tick_quote_def tick_flags_def Let_def
  by (intro oblivious_rules)+

definition static_free :: "bench_workload \<Rightarrow> bool" where
  "static_free wl \<longleftrightarrow> wl \<noteq> BENCH_WL_004 \<and> wl \<noteq> BENCH_WL_005 \<and> wl \<noteq> BENCH_WL_008"

lemma oblivious_generate: "static_free wl \<Longrightarrow> oblivious (generate exp_fn wl)"
  by (cases wl) (simp_all add: static_free_def generate_def oblivious_generators oblivious_basic)

lemma packets_oblivious:
  assumes "static_free (bc_workload (g_corpus g))" and "corpus_ok g"
  shows "fst (corpus_packets exp_fn n (g\<lparr>g_statics := st\<rparr>)) = fst (corpus_packets exp_fn n g)"
  using assms
proof (induction n arbitrary: g)
  case (Suc n)
  obtain len g1 where 1: "bench_corpus_next exp_fn g = (len, g1)" by fastforce
  have 2: "bench_corpus_next exp_fn (g\<lparr>g_statics := st\<rparr>) = (len, g1\<lparr>g_statics := st\<rparr>)"
    using 1 oblivious_generate [OF Suc.prems(1), of exp_fn] by (auto simp: bench_corpus_next_def Let_def oblivious_def)
  have "static_free (bc_workload (g_corpus g1))" "corpus_ok g1" using next_ok [OF 1 Suc.prems(2)] Suc.prems(1) by (simp_all add: same_corpus_def)
  then show ?case using Suc.IH by (simp add: 1 2 split_beta)
qed simp

definition corpus_start :: "bench_workload \<Rightarrow> u64 \<Rightarrow> bench_statics \<Rightarrow> gen_state" where
  "corpus_start wl seed st = \<lparr>g_corpus = bench_corpus_init wl seed, g_statics = st, g_undefined = False\<rparr>"

definition corpus_restart :: "gen_state \<Rightarrow> gen_state" where
  "corpus_restart g = g\<lparr>g_corpus := bench_corpus_reset (g_corpus g)\<rparr>"

lemma restart_start:
  "corpus_ok g \<Longrightarrow> corpus_restart g = corpus_start (bc_workload (g_corpus g)) (bc_seed (g_corpus g)) (g_statics g)"
  by (cases g) (simp add: corpus_restart_def corpus_start_def bench_corpus_reset_def corpus_ok_def)

lemma start_ok: "length (bs_base_ctrs st) = 32 \<Longrightarrow> corpus_ok (corpus_start wl seed st)"
  by (simp add: corpus_start_def init_ok)

lemma start_statics: "corpus_start wl seed st = (corpus_start wl seed st')\<lparr>g_statics := st\<rparr>"
  by (simp add: corpus_start_def)

text \<open>The time stamp of a financial packet is the static clock, which no reset turns back.\<close>

definition stamped :: "gen_state \<Rightarrow> bool" where
  "stamped g \<longleftrightarrow> take 8 (drop 20 (bc_packet (g_corpus g))) = write_u64 (bs_tick_ns (g_statics g))"

definition tick_origin :: "bench_statics \<Rightarrow> u64" where
  "tick_origin st = (if bs_tick_ns st = 0 then 1704067200000000000 else bs_tick_ns st)"

definition tick_step :: "gen_state \<Rightarrow> u32" where
  "tick_step g = fst (run_state (sm64_range 100 10000) (bc_rng (g_corpus g)))"

lemma time_stamps:
  assumes "corpus_ok g"
  shows "stamped (snd (run_state tick_time g))"
    "bs_tick_ns (g_statics (snd (run_state tick_time g))) = tick_origin (g_statics g) + ucast (tick_step g)"
  using assms unfolding tick_time_def stamped_def
  by (simp_all add: start_tick_def rand_def advance_tick_def poke_def Let_def split_beta tick_origin_def tick_step_def corpus_ok_def BENCH_CORPUS_MAX_PKT_def)

lemma flags_keep_stamp:
  assumes "corpus_ok g" and "stamped g"
  shows "stamped (snd (run_state (tick_flags \<bind> (\<lambda>_. set_pkt_len 32)) g))"
  using assms by (simp add: tick_flags_def set_pkt_len_def rand_def poke_def Let_def split_beta corpus_ok_def BENCH_CORPUS_MAX_PKT_def stamped_def
      take_drop)

lemma write_u64_inject: "write_u64 v = write_u64 w \<longleftrightarrow> v = w"
proof
  assume eq: "write_u64 v = write_u64 w"
  have lo: "netc_write_u32_le (ucast v) = netc_write_u32_le (ucast w)" and hi: "netc_write_u32_le (ucast (drop_bit 32 v)) = netc_write_u32_le (ucast (drop_bit 32 w))"
    using eq unfolding write_u64_def by (metis append_eq_append_conv length_write_u32)+
  have "(ucast v :: u32) = ucast w" "(ucast (drop_bit 32 v) :: u32) = ucast (drop_bit 32 w)"
    using arg_cong [OF lo, of netc_read_u32_le] arg_cong [OF hi, of netc_read_u32_le] read_write_u32 [where rest = "[]"] by simp_all
  then have l: "bit v n = bit w n" "bit v (32 + n) = bit w (32 + n)" if "n < 32" for n
    using that by (auto simp: bit_eq_iff bit_simps)
  have "bit v n = bit w n" if "n < 64" for n using l(1) [of n] l(2) [of "n - 32"] that by (cases "n < 32") auto
  then show "v = w" by (intro bit_word_eqI) simp
qed simp

lemma first_tick:
  assumes "length (bs_base_ctrs st) = 32" and "bench_corpus_next exp_fn (corpus_start BENCH_WL_004 seed st) = (len, g')"
  shows "stamped g'" "len = 32"
    "bs_tick_ns (g_statics g') = tick_origin st + ucast (tick_step (snd (run_state (poke 0 (replicate 32 0) \<bind> (\<lambda>_. tick_quote exp_fn)) (corpus_start BENCH_WL_004 seed st'))))"
proof -
  let ?g = "corpus_start BENCH_WL_004 seed st" and ?q = "poke 0 (replicate 32 0) \<bind> (\<lambda>_. tick_quote exp_fn)"
  let ?f = "tick_flags \<bind> (\<lambda>_. set_pkt_len 32)"
  define g1 g2 where "g1 = snd (run_state ?q ?g)" and "g2 = snd (run_state tick_time g1)"
  have g': "g' = snd (run_state ?f g2)" "len = bc_pkt_len (g_corpus g')"
    using assms(2) by (auto simp: bench_corpus_next_def Let_def generate_def corpus_start_def bench_corpus_init_def gen_financial_tick_def
        split_beta g1_def g2_def)
  have q: "oblivious ?q" by (intro oblivious_rules oblivious_generators)
  have "g1 = (snd (run_state ?q (corpus_start BENCH_WL_004 seed st')))\<lparr>g_statics := st\<rparr>"
    using q unfolding g1_def start_statics [of BENCH_WL_004 seed st st'] by (simp add: oblivious_def)
  then have 1: "g_statics g1 = st" "tick_step g1 = tick_step (snd (run_state ?q (corpus_start BENCH_WL_004 seed st')))"
    by (simp_all add: tick_step_def)
  have "sound ?q" "sound tick_time" unfolding tick_quote_def tick_time_def Let_def
    by (intro sound_rules; simp add: BENCH_CORPUS_MAX_PKT_def NUM_SYMBOLS_def word_le_nat_alt)+
  then have ok: "corpus_ok g1" "corpus_ok g2" using start_ok [OF assms(1)] by (simp_all add: sound_def g1_def g2_def)
  have "oblivious ?f" by (intro oblivious_rules oblivious_generators)
  then have st: "g_statics g' = g_statics g2" unfolding g' by (rule oblivious_statics)
  show "stamped g'" using flags_keep_stamp [OF ok(2)] time_stamps(1) [OF ok(1)] unfolding g' g2_def by blast
  show "len = 32" using next_ok(4) [OF assms(2) start_ok [OF assms(1)]] by (simp add: pkt_sizes_def bench_workload_pkt_size_def corpus_start_def bench_corpus_init_def)
  show "bs_tick_ns (g_statics g') = tick_origin st + ucast (tick_step (snd (run_state ?q (corpus_start BENCH_WL_004 seed st'))))"
    using time_stamps(2) [OF ok(1)] unfolding st 1 g2_def by blast
qed

lemma tick_moves: "tick_origin st + ucast (tick_step g) \<noteq> bs_tick_ns st"
proof -
  have n: "100 \<le> unat (tick_step g)" "unat (tick_step g) \<le> 10000"
    using range_bounds [of 100 10000] by (simp_all add: tick_step_def word_le_nat_alt)
  have u: "unat (ucast (tick_step g) :: u64) = unat (tick_step g)" using n(2) by (simp add: unsigned_ucast_eq take_bit_nat_eq_self_iff)
  have "1704067200000000000 + ucast (tick_step g) \<noteq> (0 :: u64)"
    using n u by (auto simp: unat_arith_simps)
  moreover have "ucast (tick_step g) \<noteq> (0 :: u64)" using n(1) u by auto
  ultimately show ?thesis by (simp add: tick_origin_def)
qed

lemma financial_restart:
  assumes ok: "corpus_ok g" and wl: "bc_workload (g_corpus g) = BENCH_WL_004"
    and 1: "bench_corpus_next exp_fn (corpus_restart g) = (len, g1)" and 2: "bench_corpus_next exp_fn (corpus_restart g1) = (len', g2)"
  shows "take len (bc_packet (g_corpus g1)) \<noteq> take len' (bc_packet (g_corpus g2))"
proof
  let ?seed = "bc_seed (g_corpus g)"
  have len: "length (bs_base_ctrs (g_statics g)) = 32" using ok by (simp add: corpus_ok_def)
  have r: "corpus_restart g = corpus_start BENCH_WL_004 ?seed (g_statics g)" using restart_start [OF ok] wl by simp
  note n1 = next_ok [OF 1 [unfolded r] start_ok [OF len]] and t1 = first_tick [OF len 1 [unfolded r]]
  have "bc_workload (g_corpus g1) = BENCH_WL_004" "bc_seed (g_corpus g1) = ?seed" "length (bs_base_ctrs (g_statics g1)) = 32"
    using n1 by (simp_all add: same_corpus_def corpus_start_def bench_corpus_init_def corpus_ok_def)
  moreover from this have r1: "corpus_restart g1 = corpus_start BENCH_WL_004 ?seed (g_statics g1)" using restart_start [OF n1(1)] by simp
  ultimately have t2: "stamped g2" "len' = 32" "bs_tick_ns (g_statics g2) \<noteq> bs_tick_ns (g_statics g1)"
    using first_tick [OF _ 2 [unfolded r1]] tick_moves by metis+
  assume "take len (bc_packet (g_corpus g1)) = take len' (bc_packet (g_corpus g2))"
  then have "take 8 (drop 20 (take 32 (bc_packet (g_corpus g1)))) = take 8 (drop 20 (take 32 (bc_packet (g_corpus g2))))"
    using t1(2) t2(2) by simp
  then have "write_u64 (bs_tick_ns (g_statics g1)) = write_u64 (bs_tick_ns (g_statics g2))"
    using t1(1) t2(1) by (simp add: stamped_def drop_take)
  then show False using t2(3) by (simp add: write_u64_inject)
qed

section \<open>Properties of the corpus\<close>

text \<open>
  C35. \<open>sm64_range\<close> is inclusive and stays in range although it computes in floating point: for bounds in
  order and every state of the generator the product rounds to a number below the width of the range, so
  no draw exceeds \<open>hi\<close>; a width of \<open>2 ^ 32\<close>, which wraps to 0, gives \<open>lo\<close>.
\<close>

theorem sm64_range_inclusive:
  assumes "lo \<le> hi" shows "lo \<le> fst (run_state (sm64_range lo hi) s) \<and> fst (run_state (sm64_range lo hi) s) \<le> hi"
  by (rule range_bounds [OF assms])

theorem sm64_range_inclusive_witness:
  "100 \<le> fst (run_state (sm64_range 100 10000) 42) \<and> fst (run_state (sm64_range 100 10000) 42) \<le> 10000"
  by (rule sm64_range_inclusive) simp

text \<open>
  C34. The generators stay in their buffers: whatever was generated before, filling a training corpus
  writes within the packet, reads within the tables and converts no number out of range; it yields the
  requested number of packets, each of a size of the workload and so at most 512 bytes.
\<close>

theorem corpus_train_safe:
  assumes "length (bs_base_ctrs st) = 32" and "bench_corpus_train exp_fn wl seed k st = (ps, st', undef)"
  shows "\<not> undef \<and> length (bs_base_ctrs st') = 32 \<and> length ps = k
    \<and> (\<forall>p \<in> set ps. length p \<in> pkt_sizes wl \<and> length p \<le> BENCH_CORPUS_MAX_PKT)"
proof -
  obtain g where g: "corpus_packets exp_fn k (corpus_start wl seed st) = (ps, g)" "st' = g_statics g" "undef = g_undefined g"
    using assms(2) by (auto simp: bench_corpus_train_def corpus_start_def split: prod.splits)
  from packets_ok [OF g(1) start_ok [OF assms(1)]] show ?thesis
    using pkt_sizes_max by (auto simp: g(2,3) corpus_ok_def corpus_start_def bench_corpus_init_def)
qed

theorem corpus_train_safe_witness:
  "\<exists>ps st. bench_corpus_train (\<lambda>_. d_lit 50 1) BENCH_WL_008 42 50000 fresh_statics = (ps, st, False) \<and> length ps = 50000"
proof -
  obtain ps st undef where t: "bench_corpus_train (\<lambda>_. d_lit 50 1) BENCH_WL_008 42 50000 fresh_statics = (ps, st, undef)"
    using prod_cases3 by blast
  from corpus_train_safe [OF _ this] show ?thesis using t by (simp add: fresh_statics_def)
qed

text \<open>
  C36. Replay: on the workloads without static state (1, 2, 3, 6 and 7) \<open>bench_corpus_reset\<close> starts the same
  sequence of packets again, whatever was generated between.
\<close>

theorem corpus_replay:
  assumes "static_free wl" and "length (bs_base_ctrs st) = 32" and "corpus_packets exp_fn m (corpus_start wl seed st) = (ps, g)"
  shows "fst (corpus_packets exp_fn k (corpus_restart g)) = fst (corpus_packets exp_fn k (corpus_start wl seed st))"
proof -
  let ?s = "corpus_start wl seed st"
  have "corpus_ok g" "bc_workload (g_corpus g) = wl" "bc_seed (g_corpus g) = seed"
    using packets_ok [OF assms(3) start_ok [OF assms(2)]] by (simp_all add: same_corpus_def corpus_start_def bench_corpus_init_def)
  then have "corpus_restart g = ?s\<lparr>g_statics := g_statics g\<rparr>" using restart_start [of g] start_statics by metis
  moreover have "static_free (bc_workload (g_corpus ?s))" using assms(1) by (simp add: corpus_start_def bench_corpus_init_def)
  ultimately show ?thesis using packets_oblivious start_ok [OF assms(2)] by metis
qed

theorem corpus_replay_witness:
  "\<exists>ps g. corpus_packets (\<lambda>_. d_lit 50 1) 1000 (corpus_start BENCH_WL_001 42 fresh_statics) = (ps, g)
    \<and> fst (corpus_packets (\<lambda>_. d_lit 50 1) 5 (corpus_restart g)) = fst (corpus_packets (\<lambda>_. d_lit 50 1) 5 (corpus_start BENCH_WL_001 42 fresh_statics))"
proof -
  obtain ps g where g: "corpus_packets (\<lambda>_. d_lit 50 1) 1000 (corpus_start BENCH_WL_001 42 fresh_statics) = (ps, g)" by fastforce
  then show ?thesis using corpus_replay [OF _ _ g, of 5] by (simp add: static_free_def fresh_statics_def)
qed

text \<open>
  C37. No replay for financial ticks: the time stamp is a static variable that the reset leaves as it is, so
  the first packet after a reset differs from the first packet after the next one, on every state.
\<close>

theorem financial_not_replayed:
  assumes "corpus_ok g" and "bc_workload (g_corpus g) = BENCH_WL_004"
    and "bench_corpus_next exp_fn (corpus_restart g) = (len, g1)" and "bench_corpus_next exp_fn (corpus_restart g1) = (len', g2)"
  shows "take len (bc_packet (g_corpus g1)) \<noteq> take len' (bc_packet (g_corpus g2))"
  by (rule financial_restart [OF assms])

theorem financial_not_replayed_witness:
  "\<exists>len g1 len' g2. bench_corpus_next (\<lambda>_. d_lit 50 1) (corpus_restart (corpus_start BENCH_WL_004 42 fresh_statics)) = (len, g1)
    \<and> bench_corpus_next (\<lambda>_. d_lit 50 1) (corpus_restart g1) = (len', g2)
    \<and> take len (bc_packet (g_corpus g1)) \<noteq> take len' (bc_packet (g_corpus g2))"
proof -
  let ?g = "corpus_start BENCH_WL_004 42 fresh_statics"
  obtain len g1 where 1: "bench_corpus_next (\<lambda>_. d_lit 50 1) (corpus_restart ?g) = (len, g1)" by fastforce
  obtain len' g2 where 2: "bench_corpus_next (\<lambda>_. d_lit 50 1) (corpus_restart g1) = (len', g2)" by fastforce
  have "corpus_ok ?g" "bc_workload (g_corpus ?g) = BENCH_WL_004"
    using start_ok [of fresh_statics] by (simp_all add: fresh_statics_def corpus_start_def bench_corpus_init_def)
  from financial_not_replayed [OF this 1 2] show ?thesis using 1 2 by blast
qed

end
