(* ===== verification/Netc_Stats.thy ===== *)
theory Netc_Stats
  imports Netc_Corpus
begin

text \<open>
  Measurements of the benchmarks: the statistics of the samples (\<open>src/bench/bench_stats.c\<close>), the result
  of a run (\<open>src/bench/bench_reporter.h\<close>, \<open>.c\<close>), the gates of continuous integration
  (\<open>src/bench/bench_runner.c\<close>) and the comparison with a stored baseline (\<open>src/bench/bench_baseline.c\<close>).
  \<open>qsort\<close> is insertion by the comparison that it is given.
\<close>

section \<open>Statistics\<close>

definition cmp_u64 :: "u64 \<Rightarrow> u64 \<Rightarrow> int" where
  "cmp_u64 x y = (if x < y then -1 else if x > y then 1 else 0)"

primrec cmp_insert :: "('a \<Rightarrow> 'a \<Rightarrow> int) \<Rightarrow> 'a \<Rightarrow> 'a list \<Rightarrow> 'a list" where
  "cmp_insert cmp x [] = [x]"
| "cmp_insert cmp x (y # ys) = (if cmp x y \<le> 0 then x # y # ys else y # cmp_insert cmp x ys)"

definition qsort :: "('a \<Rightarrow> 'a \<Rightarrow> int) \<Rightarrow> 'a list \<Rightarrow> 'a list" where
  "qsort cmp xs = foldr (cmp_insert cmp) xs []"

record bench_stats =
  s_p50_ns :: u64
  s_p90_ns :: u64
  s_p99_ns :: u64
  s_p999_ns :: u64
  s_min_ns :: u64
  s_max_ns :: u64
  s_mean_ns :: double
  s_stddev_ns :: double
  s_count :: nat

definition no_stats :: bench_stats where
  "no_stats = \<lparr>s_p50_ns = 0, s_p90_ns = 0, s_p99_ns = 0, s_p999_ns = 0, s_min_ns = 0, s_max_ns = 0,
     s_mean_ns = 0, s_stddev_ns = 0, s_count = 0\<rparr>"

definition PCT_IDX :: "double \<Rightarrow> nat \<Rightarrow> nat" where
  "PCT_IDX p n = (let i = d_trunc (d_mul (d_div p (d_lit 100 1)) (d_of_int (int n))) in if i < n then i else n - 1)"

definition d_of_u64 :: "u64 \<Rightarrow> double" where "d_of_u64 x = d_of_int (uint x)"

definition bench_stats_compute :: "bench_stats \<Rightarrow> u64 list \<Rightarrow> bench_stats" where
  "bench_stats_compute st samples =
     (if samples = [] then st
      else let n = length samples;
               samples = qsort cmp_u64 samples;
               sum = fold (\<lambda>x acc. d_add acc (d_of_u64 x)) samples 0;
               mean = d_div sum (d_of_int (int n));
               var_sum = fold (\<lambda>x acc. let diff = d_sub (d_of_u64 x) mean in d_add acc (d_mul diff diff)) samples 0
           in \<lparr>s_p50_ns = samples ! PCT_IDX (d_lit 50 1) n,
               s_p90_ns = samples ! PCT_IDX (d_lit 90 1) n,
               s_p99_ns = samples ! PCT_IDX (d_lit 99 1) n,
               s_p999_ns = samples ! PCT_IDX (d_lit 999 10) n,
               s_min_ns = samples ! 0,
               s_max_ns = samples ! (n - 1),
               s_mean_ns = mean,
               s_stddev_ns = d_sqrt (d_div var_sum (d_of_int (int n))),
               s_count = n\<rparr>)"

definition bench_stats_throughput_mbs :: "nat \<Rightarrow> double \<Rightarrow> double" where
  "bench_stats_throughput_mbs bytes_per_pkt mean_ns =
     (if mean_ns \<le> 0 then 0 else d_div (d_mul (d_of_int (int bytes_per_pkt)) (d_lit 1000 1)) mean_ns)"

definition bench_stats_mpps :: "double \<Rightarrow> double" where
  "bench_stats_mpps mean_ns = (if mean_ns \<le> 0 then 0 else d_div (d_lit 1000 1) mean_ns)"

definition bench_stats_ratio :: "u64 \<Rightarrow> u64 \<Rightarrow> double" where
  "bench_stats_ratio original_bytes compressed_bytes =
     (if original_bytes = 0 then 0 else d_div (d_of_u64 compressed_bytes) (d_of_u64 original_bytes))"

section \<open>Results\<close>

record bench_result =
  r_compressor :: "string option"
  r_compressor_cfg :: "string option"
  r_workload :: bench_workload
  r_pkt_size :: nat
  r_count :: u64
  r_seed :: u64
  r_compress :: bench_stats
  r_decompress :: bench_stats
  r_ratio :: double
  r_original_bytes :: u64
  r_compressed_bytes :: u64
  r_compress_mbs :: double
  r_compress_mpps :: double
  r_decompress_mbs :: double
  r_decompress_mpps :: double

definition zero_result :: bench_result where
  "zero_result = \<lparr>r_compressor = None, r_compressor_cfg = None, r_workload = BENCH_WL_ALL, r_pkt_size = 0, r_count = 0, r_seed = 0,
     r_compress = no_stats, r_decompress = no_stats, r_ratio = 0, r_original_bytes = 0, r_compressed_bytes = 0,
     r_compress_mbs = 0, r_compress_mpps = 0, r_decompress_mbs = 0, r_decompress_mpps = 0\<rparr>"

definition fill_derived :: "bench_result \<Rightarrow> bench_result" where
  "fill_derived r =
     (let r = (if r_compress_mbs r = 0 \<and> r_pkt_size r > 0
               then r\<lparr>r_compress_mbs := bench_stats_throughput_mbs (r_pkt_size r) (s_mean_ns (r_compress r))\<rparr> else r);
          r = (if r_compress_mpps r = 0 then r\<lparr>r_compress_mpps := bench_stats_mpps (s_mean_ns (r_compress r))\<rparr> else r);
          r = (if r_decompress_mbs r = 0 \<and> r_pkt_size r > 0
               then r\<lparr>r_decompress_mbs := bench_stats_throughput_mbs (r_pkt_size r) (s_mean_ns (r_decompress r))\<rparr> else r);
          r = (if r_decompress_mpps r = 0 then r\<lparr>r_decompress_mpps := bench_stats_mpps (s_mean_ns (r_decompress r))\<rparr> else r);
          r = (if r_ratio r = 0 \<and> r_original_bytes r > 0
               then r\<lparr>r_ratio := bench_stats_ratio (r_original_bytes r) (r_compressed_bytes r)\<rparr> else r)
      in r)"

section \<open>Gates\<close>

record bench_gate_result =
  gate_id :: string
  gate_description :: string
  gate_actual :: double
  gate_threshold :: double
  gate_passed :: bool

definition BENCH_MAX_GATES :: nat where "BENCH_MAX_GATES = 32"

text \<open>The gates are the used part of the array; \<open>n_gates\<close> is their number.\<close>

record bench_ci_report =
  ci_gates :: "bench_gate_result list"
  ci_all_passed :: bool

definition put_gate :: "bench_gate_result \<Rightarrow> bench_ci_report \<Rightarrow> bench_ci_report" where
  "put_gate g r = r\<lparr>ci_gates := ci_gates r @ [g], ci_all_passed := ci_all_passed r \<and> gate_passed g\<rparr>"

definition add_gate :: "string \<Rightarrow> string \<Rightarrow> double \<Rightarrow> double \<Rightarrow> bool \<Rightarrow> bench_ci_report \<Rightarrow> bench_ci_report" where
  "add_gate ident desc actual threshold pass_if_above r =
     (if length (ci_gates r) \<ge> BENCH_MAX_GATES then r
      else put_gate \<lparr>gate_id = ident, gate_description = desc, gate_actual = actual, gate_threshold = threshold,
             gate_passed = (if pass_if_above then actual \<ge> threshold else actual \<le> threshold)\<rparr> r)"

definition find_result :: "bench_result list \<Rightarrow> bench_workload \<Rightarrow> bench_result option" where
  "find_result rs wl = find (\<lambda>r. r_workload r = wl) rs"

definition when_result :: "bench_result option \<Rightarrow> (bench_result \<Rightarrow> bench_ci_report \<Rightarrow> bench_ci_report) \<Rightarrow> bench_ci_report \<Rightarrow> bench_ci_report" where
  "when_result res gate r = (case res of None \<Rightarrow> r | Some x \<Rightarrow> gate x r)"

definition bench_ci_check :: "bench_result list \<Rightarrow> int \<times> bench_ci_report" where
  "bench_ci_check results =
     (let wl001 = find_result results BENCH_WL_001;
          wl002 = find_result results BENCH_WL_002;
          wl006 = find_result results BENCH_WL_006;
          r = \<lparr>ci_gates = [], ci_all_passed = True\<rparr>;
          r = when_result wl001 (\<lambda>x. add_gate ''PERF-01'' ''compress throughput >= 2000 MB/s (WL-001)'' (r_compress_mbs x) (d_lit 2000 1) True) r;
          r = when_result wl001 (\<lambda>x. add_gate ''PERF-02'' ''decompress throughput >= 4000 MB/s (WL-001)'' (r_decompress_mbs x) (d_lit 4000 1) True) r;
          r = when_result wl002 (\<lambda>x. add_gate ''PERF-03'' ''compress p99 latency <= 1000 ns (WL-002 128B)'' (d_of_u64 (s_p99_ns (r_compress x))) (d_lit 1000 1) False) r;
          r = when_result wl002 (\<lambda>x. add_gate ''PERF-04'' ''decompress p99 latency <= 500 ns (WL-002 128B)'' (d_of_u64 (s_p99_ns (r_decompress x))) (d_lit 500 1) False) r;
          r = when_result wl001 (\<lambda>x. add_gate ''PERF-05'' ''compress Mpps >= 5 (WL-001 64B)'' (r_compress_mpps x) (d_lit 5 1) True) r;
          r = when_result wl001 (\<lambda>x. add_gate ''PERF-06'' ''decompress Mpps >= 10 (WL-001 64B)'' (r_decompress_mpps x) (d_lit 10 1) True) r;
          r = when_result wl001 (\<lambda>x. add_gate ''RATIO-01'' ''compression ratio <= 0.55 (WL-001 trained dict)'' (r_ratio x) (d_lit 55 100) False) r;
          r = when_result wl006 (\<lambda>x. add_gate ''RATIO-02'' ''random data passthrough ratio <= 1.01 (WL-006)'' (r_ratio x) (d_lit 101 100) False) r;
          r = add_gate ''MEM-01'' ''context memory <= 512 KB (structural guarantee)'' (d_lit 512 1) (d_lit 512 1) False r
      in (if ci_all_passed r then 0 else 1, r))"

section \<open>The baseline\<close>

record bench_baseline =
  b_compressor :: string
  b_workload :: string
  b_compress_mbs :: double
  b_decompress_mbs :: double
  b_ratio :: double
  b_compress_p50_ns :: double
  b_decompress_p50_ns :: double

datatype bench_reg_status = BENCH_REG_OK | BENCH_REG_WARN | BENCH_REG_FAIL

record bench_reg_check =
  chk_metric :: string
  chk_baseline :: double
  chk_actual :: double
  chk_pct_change :: double
  chk_status :: bench_reg_status

record bench_reg_report =
  reg_compressor :: string
  reg_workload :: string
  reg_checks :: "bench_reg_check list"
  reg_any_fail :: bool
  reg_any_warn :: bool

definition check_metric :: "string \<Rightarrow> double \<Rightarrow> double \<Rightarrow> bench_reg_check" where
  "check_metric name baseline actual =
     (if baseline = 0
      then \<lparr>chk_metric = name, chk_baseline = baseline, chk_actual = actual, chk_pct_change = 0, chk_status = BENCH_REG_OK\<rparr>
      else let pct = d_mul (d_div (d_sub actual baseline) baseline) (d_lit 100 1);
               abs_pct = (if pct < 0 then - pct else pct)
           in \<lparr>chk_metric = name, chk_baseline = baseline, chk_actual = actual, chk_pct_change = pct,
               chk_status = (if abs_pct \<ge> d_lit 15 1 then BENCH_REG_FAIL else if abs_pct \<ge> d_lit 5 1 then BENCH_REG_WARN else BENCH_REG_OK)\<rparr>)"

definition bench_baseline_check :: "bench_baseline \<Rightarrow> bench_result \<Rightarrow> int \<times> bench_reg_report" where
  "bench_baseline_check baseline result =
     (let checks =
        [check_metric ''compress_mbs'' (b_compress_mbs baseline) (r_compress_mbs result),
         check_metric ''decompress_mbs'' (b_decompress_mbs baseline) (r_decompress_mbs result),
         check_metric ''ratio'' (b_ratio baseline) (r_ratio result),
         check_metric ''compress_p50_ns'' (b_compress_p50_ns baseline) (d_of_u64 (s_p50_ns (r_compress result))),
         check_metric ''decompress_p50_ns'' (b_decompress_p50_ns baseline) (d_of_u64 (s_p50_ns (r_decompress result)))];
          any_fail = (\<exists>c \<in> set checks. chk_status c = BENCH_REG_FAIL);
          any_warn = (\<exists>c \<in> set checks. chk_status c = BENCH_REG_WARN)
      in (if any_fail then 1 else 0,
          \<lparr>reg_compressor = take 63 (b_compressor baseline), reg_workload = take 15 (b_workload baseline), reg_checks = checks,
           reg_any_fail = any_fail, reg_any_warn = any_warn\<rparr>))"

section \<open>Order of the percentiles\<close>

lemma cmp_insert_insort: "cmp_insert cmp_u64 x ys = insort x ys"
  by (induction ys) (auto simp: cmp_u64_def)

lemma qsort_sort: "qsort cmp_u64 xs = sort xs"
proof -
  have "cmp_insert cmp_u64 = insort" by (intro ext) (rule cmp_insert_insort)
  then show ?thesis by (simp add: qsort_def sort_key_def)
qed

lemma d_div_mono: "0 \<le> x \<Longrightarrow> x \<le> y \<Longrightarrow> 0 < z \<Longrightarrow> d_div x z \<le> d_div y z"
  unfolding d_div_def by (intro d_round_mono) (simp_all add: mult_right_mono)

lemma d_mul_mono: "0 \<le> x \<Longrightarrow> x \<le> y \<Longrightarrow> 0 \<le> z \<Longrightarrow> d_mul x z \<le> d_mul y z"
  unfolding d_mul_def by (intro d_round_mono) (simp_all add: mult_right_mono)

lemma d_div_ge0: "0 \<le> x \<Longrightarrow> 0 < y \<Longrightarrow> 0 \<le> d_div x y"
  unfolding d_div_def by (intro d_round_ge0) simp

lemma d_of_int_ge0: "0 \<le> n \<Longrightarrow> 0 \<le> d_of_int n"
  unfolding d_of_int_def d_lit_def by (intro d_round_ge0) simp

lemma hundred_pos: "0 < d_lit 100 1"
  using d_lit_whole [of 100] by simp

lemma PCT_IDX_less: "0 < n \<Longrightarrow> PCT_IDX p n < n"
  by (auto simp: PCT_IDX_def Let_def)

lemma PCT_IDX_mono:
  assumes "0 \<le> p" and "p \<le> q" shows "PCT_IDX p n \<le> PCT_IDX q n"
proof -
  have "d_mul (d_div p (d_lit 100 1)) (d_of_int (int n)) \<le> d_mul (d_div q (d_lit 100 1)) (d_of_int (int n))"
    using assms hundred_pos by (intro d_mul_mono d_div_mono d_div_ge0 d_of_int_ge0) simp_all
  then have "d_trunc (d_mul (d_div p (d_lit 100 1)) (d_of_int (int n))) \<le> d_trunc (d_mul (d_div q (d_lit 100 1)) (d_of_int (int n)))"
    by (rule d_trunc_mono)
  then show ?thesis by (auto simp: PCT_IDX_def Let_def)
qed

lemma literal_order: "0 \<le> d_lit 50 1" "d_lit 50 1 \<le> d_lit 90 1" "d_lit 90 1 \<le> d_lit 99 1" "d_lit 99 1 \<le> d_lit 999 10"
proof -
  have e: "d_lit 50 1 = 50 * int DBL_UNIT" "d_lit 90 1 = 90 * int DBL_UNIT" "d_lit 99 1 = 99 * int DBL_UNIT"
    using d_lit_whole [of 50] d_lit_whole [of 90] d_lit_whole [of 99] by simp_all
  show "0 \<le> d_lit 50 1" "d_lit 50 1 \<le> d_lit 90 1" "d_lit 90 1 \<le> d_lit 99 1" unfolding e by simp_all
  have "d_lit 99 1 = d_round (990 * int DBL_UNIT) 10"
    using sig_round_scale [of 10 53 "99 * DBL_UNIT" 1] by (simp add: d_lit_def d_round_nonneg nat_mult_distrib mult.commute)
  also have "\<dots> \<le> d_round (999 * int DBL_UNIT) 10" by (rule d_round_mono) simp_all
  finally show "d_lit 99 1 \<le> d_lit 999 10" by (simp add: d_lit_def)
qed

text \<open>The median is exact.\<close>

lemma median_index:
  assumes "0 < n" and "n < 2 ^ 53" shows "PCT_IDX (d_lit 50 1) n = n div 2"
proof -
  define h :: nat where "h = 2 ^ (52 + 1021)"
  have unit: "DBL_UNIT = 2 * h" unfolding DBL_UNIT_def h_def power_Suc [symmetric] by simp
  have pos: "0 < h" by (simp add: h_def)
  have exact: "m < 2 ^ 53 \<Longrightarrow> sig_round 53 (m * h) 1 = m * h" for m unfolding h_def by (rule sig_round_exact)
  have lit: "d_lit 50 1 = int (50 * DBL_UNIT)" "d_lit 100 1 = int (100 * DBL_UNIT)"
    using d_lit_whole [of 50] d_lit_whole [of 100] by simp_all
  have half: "d_div (d_lit 50 1) (d_lit 100 1) = int h"
    unfolding lit using exact [of 1] by (subst d_div_whole [of _ h]) (simp_all add: unit pos)
  have "d_mul (int h) (d_of_int (int n)) = int (n * h)"
    using d_mul_whole [of h n] d_of_int_exact [OF assms(2)] exact [OF assms(2)] by (simp add: mult.commute)
  moreover have "n * h div DBL_UNIT = n div 2"
    unfolding unit by (subst div_mult_mult2) (simp_all add: h_def)
  ultimately show ?thesis using assms(1) unfolding PCT_IDX_def half by (simp add: d_trunc_def Let_def del: of_nat_mult)
qed

text \<open>
  C38. The statistics of a run are in order: minimum, median, 90th, 99th and 99.9th percentile and maximum
  of any samples ascend and are samples, minimum and maximum bound every sample, and the median is the
  middle one of the sorted samples.
\<close>

theorem percentiles_ordered:
  assumes "samples \<noteq> []" and "length samples < 2 ^ 53" and st': "bench_stats_compute st samples = st'"
  shows "sorted [s_min_ns st', s_p50_ns st', s_p90_ns st', s_p99_ns st', s_p999_ns st', s_max_ns st']
    \<and> {s_min_ns st', s_p50_ns st', s_p90_ns st', s_p99_ns st', s_p999_ns st', s_max_ns st'} \<subseteq> set samples
    \<and> s_min_ns st' = Min (set samples) \<and> s_max_ns st' = Max (set samples)
    \<and> s_p50_ns st' = sort samples ! (length samples div 2)"
proof -
  let ?n = "length samples" and ?s = "sort samples"
  have n: "0 < ?n" using assms(1) by simp
  have at: "?s ! i \<le> ?s ! j" if "i \<le> j" "j < ?n" for i j using that by (simp add: sorted_nth_mono)
  have fields: "s_min_ns st' = ?s ! 0" "s_p50_ns st' = ?s ! PCT_IDX (d_lit 50 1) ?n" "s_p90_ns st' = ?s ! PCT_IDX (d_lit 90 1) ?n"
    "s_p99_ns st' = ?s ! PCT_IDX (d_lit 99 1) ?n" "s_p999_ns st' = ?s ! PCT_IDX (d_lit 999 10) ?n" "s_max_ns st' = ?s ! (?n - 1)"
    using assms(1) by (simp_all add: st' [symmetric] bench_stats_compute_def Let_def qsort_sort)
  have idx: "PCT_IDX (d_lit 50 1) ?n \<le> PCT_IDX (d_lit 90 1) ?n" "PCT_IDX (d_lit 90 1) ?n \<le> PCT_IDX (d_lit 99 1) ?n"
    "PCT_IDX (d_lit 99 1) ?n \<le> PCT_IDX (d_lit 999 10) ?n"
    using literal_order by (auto intro!: PCT_IDX_mono)
  have lt: "PCT_IDX p ?n < ?n" "PCT_IDX p ?n \<le> ?n - 1" for p using PCT_IDX_less [OF n, of p] by simp_all
  have mem: "?s ! i \<in> set samples" if "i < ?n" for i using that nth_mem [of i ?s] by simp
  have "s_min_ns st' \<le> x \<and> x \<le> s_max_ns st'" if "x \<in> set samples" for x
  proof -
    have "x \<in> set ?s" using that by simp
    then obtain i where "i < ?n" "x = ?s ! i" unfolding in_set_conv_nth by auto
    then show ?thesis unfolding fields using at [of 0 i] at [of i "?n - 1"] by simp
  qed
  then have "s_min_ns st' = Min (set samples)" "s_max_ns st' = Max (set samples)"
    using mem n by (auto simp: fields intro!: Min_eqI [symmetric] Max_eqI [symmetric])
  moreover have "s_p50_ns st' = ?s ! (?n div 2)" using median_index [OF n assms(2)] by (simp add: fields)
  moreover have "sorted [s_min_ns st', s_p50_ns st', s_p90_ns st', s_p99_ns st', s_p999_ns st', s_max_ns st']"
    unfolding fields using at idx lt n by simp
  moreover have "{s_min_ns st', s_p50_ns st', s_p90_ns st', s_p99_ns st', s_p999_ns st', s_max_ns st'} \<subseteq> set samples"
    unfolding fields using mem lt n by simp
  ultimately show ?thesis by blast
qed

theorem percentiles_ordered_witness:
  "s_min_ns (bench_stats_compute no_stats [9, 2, 5]) = Min (set [9, 2, 5])
    \<and> s_p50_ns (bench_stats_compute no_stats [9, 2, 5]) = 5"
  using percentiles_ordered [of "[9, 2, 5]" no_stats] by simp

section \<open>Improvements\<close>

lemma unit_exact: "m < 2 ^ 53 \<Longrightarrow> sig_round 53 (m * DBL_UNIT) 1 = m * DBL_UNIT"
  using sig_round_exact [of m 53 1074] by (simp add: DBL_UNIT_def)

text \<open>The change is taken by its absolute value: a throughput twice that of the baseline is reported as a failure.\<close>

lemma faster_fails:
  assumes "0 < n" and "n < 2 ^ 52"
  shows "chk_status (check_metric name (d_lit (int n) 1) (d_lit (int (2 * n)) 1)) = BENCH_REG_FAIL"
proof -
  have u: "0 < DBL_UNIT" by (simp add: DBL_UNIT_def)
  have l: "d_lit (int n) 1 = int (n * DBL_UNIT)" "d_lit (int (2 * n)) 1 = int (2 * n * DBL_UNIT)"
    "d_lit 100 1 = int (100 * DBL_UNIT)" "d_lit 15 1 = int (15 * DBL_UNIT)"
    using assms d_lit_whole [of n] d_lit_whole [of "2 * n"] d_lit_whole [of 100] d_lit_whole [of 15] by simp_all
  have "d_sub (int (2 * n * DBL_UNIT)) (int (n * DBL_UNIT)) = int (n * DBL_UNIT)"
    using unit_exact [of n] assms by (simp add: d_sub_def d_round_nonneg nat_mult_distrib mult.commute [of DBL_UNIT])
  moreover have "d_div (int (n * DBL_UNIT)) (int (n * DBL_UNIT)) = int DBL_UNIT"
    using d_div_whole [of "n * DBL_UNIT" DBL_UNIT "n * DBL_UNIT"] unit_exact [of 1] assms(1) u by simp
  moreover have "d_mul (int DBL_UNIT) (int (100 * DBL_UNIT)) = int (100 * DBL_UNIT)"
    using d_mul_whole [of DBL_UNIT 100] unit_exact [of 100] by (simp add: mult.commute)
  ultimately show ?thesis using assms(1) u by (simp only: check_metric_def l Let_def) simp
qed

end
