(* ===== verification/Netc_Tans_Table.thy ===== *)
theory Netc_Tans_Table
  imports Netc_Prelude
begin

text \<open>
  Construction of the tANS tables, \<open>src/src/algo/netc_tans.h\<close> and \<open>netc_tans.c\<close>:
  \<open>netc_tans_build\<close> for 4096 slots and \<open>netc_tans_build_10\<close> for 1024 slots.  The two C
  functions have the same text up to the three constants \<open>TABLE_LOG\<close>, \<open>TABLE_SIZE\<close> and
  \<open>SPREAD_STEP\<close>, so both are instances of \<open>tans_build L step\<close>.  A table is well formed
  (\<open>tans_wf\<close>) when every occurrence of every symbol has one slot whose decode entry undoes the
  encode entry, and when every slot leads back to a state of the table; the builder is shown to
  produce well-formed tables from every frequency table with the right sum.
\<close>

definition NETC_TANS_SYMBOLS :: nat where "NETC_TANS_SYMBOLS = 256"
definition NETC_TANS_TABLE_LOG :: nat where "NETC_TANS_TABLE_LOG = 12"
definition NETC_TANS_TABLE_SIZE :: nat where "NETC_TANS_TABLE_SIZE = 2 ^ NETC_TANS_TABLE_LOG"
definition NETC_TANS_SPREAD_STEP :: nat where "NETC_TANS_SPREAD_STEP = 2563"
definition NETC_TANS_TABLE_LOG_10 :: nat where "NETC_TANS_TABLE_LOG_10 = 10"
definition NETC_TANS_TABLE_SIZE_10 :: nat where "NETC_TANS_TABLE_SIZE_10 = 2 ^ NETC_TANS_TABLE_LOG_10"
definition NETC_TANS_SPREAD_STEP_10 :: nat where "NETC_TANS_SPREAD_STEP_10 = 643"

type_synonym netc_freq_table = "u16 list"

record netc_tans_decode_entry =
  de_symbol :: byte
  de_nb_bits :: byte
  de_next_state_base :: u16

record netc_tans_encode_entry =
  en_freq :: u16
  en_lower :: u16
  en_cumul :: u16
  en_nb_hi :: byte

record netc_tans_table =
  tt_decode :: "netc_tans_decode_entry list"
  tt_encode_state :: "u16 list"
  tt_encode :: "netc_tans_encode_entry list"
  tt_freq :: netc_freq_table
  tt_valid :: bool

type_synonym netc_tans_table_10 = netc_tans_table

section \<open>The builder\<close>

fun floor_log2_u32 :: "nat \<Rightarrow> nat" where
  "floor_log2_u32 v = (if v > 1 then Suc (floor_log2_u32 (v div 2)) else 0)"

declare floor_log2_u32.simps [simp del]

definition freq_total :: "netc_freq_table \<Rightarrow> nat" where
  "freq_total freq = sum_list (map unat freq)"

primrec tans_cumul :: "netc_freq_table \<Rightarrow> nat \<Rightarrow> u16" where
  "tans_cumul freq 0 = 0"
| "tans_cumul freq (Suc s) = tans_cumul freq s + freq ! s"

text \<open>Step 2 for one symbol; a symbol of frequency zero keeps the entry cleared by memset.\<close>

definition tans_encode_entry :: "nat \<Rightarrow> netc_freq_table \<Rightarrow> nat \<Rightarrow> netc_tans_encode_entry" where
  "tans_encode_entry L freq s =
     (if freq ! s = 0 then \<lparr>en_freq = 0, en_lower = 0, en_cumul = 0, en_nb_hi = 0\<rparr>
      else let f = unat (freq ! s);
               nb_hi = L - floor_log2_u32 f
           in \<lparr>en_freq = word_of_nat f, en_lower = word_of_nat (f * 2 ^ nb_hi),
               en_cumul = tans_cumul freq s, en_nb_hi = word_of_nat nb_hi\<rparr>)"

text \<open>
  Step 3 and step 4: the position advances by the spread step for every occurrence of every
  symbol.  The local array \<open>spread_sym\<close> is written and never read, and \<open>rank\<close> is only
  cleared, so neither is in the model.
\<close>

definition spread_next :: "nat \<Rightarrow> nat \<Rightarrow> nat \<Rightarrow> nat" where
  "spread_next L step pos = (pos + step) AND (2 ^ L - 1)"

definition spread_states_symbol ::
    "nat \<Rightarrow> nat \<Rightarrow> netc_freq_table \<Rightarrow> nat \<Rightarrow> u16 list \<times> nat \<Rightarrow> u16 list \<times> nat" where
  "spread_states_symbol L step freq s =
     fold (\<lambda>k (es, pos). (es[unat (tans_cumul freq s) + k := word_of_nat (2 ^ L + pos)],
                          spread_next L step pos))
       [0..<unat (freq ! s)]"

definition tans_decode_entry :: "nat \<Rightarrow> nat \<Rightarrow> nat \<Rightarrow> nat \<Rightarrow> netc_tans_decode_entry" where
  "tans_decode_entry L f s k =
     (let X_prev = f + k;
          nb_j = L - floor_log2_u32 X_prev
      in \<lparr>de_symbol = word_of_nat s, de_nb_bits = word_of_nat nb_j,
          de_next_state_base = word_of_nat (X_prev * 2 ^ nb_j)\<rparr>)"

definition spread_decode_symbol ::
    "nat \<Rightarrow> nat \<Rightarrow> netc_freq_table \<Rightarrow> nat \<Rightarrow> netc_tans_decode_entry list \<times> nat \<Rightarrow>
     netc_tans_decode_entry list \<times> nat" where
  "spread_decode_symbol L step freq s =
     fold (\<lambda>k (ds, pos). (ds[pos := tans_decode_entry L (unat (freq ! s)) s k],
                          spread_next L step pos))
       [0..<unat (freq ! s)]"

definition tans_build :: "nat \<Rightarrow> nat \<Rightarrow> netc_freq_table \<Rightarrow> netc_tans_table option" where
  "tans_build L step freq =
     (if freq_total freq \<noteq> 2 ^ L then None
      else let
        zero_entry = \<lparr>de_symbol = 0, de_nb_bits = 0, de_next_state_base = 0\<rparr>;
        (es, _) = fold (spread_states_symbol L step freq) [0..<NETC_TANS_SYMBOLS]
                    (replicate (2 ^ L) 0, 0);
        (ds, _) = fold (spread_decode_symbol L step freq) [0..<NETC_TANS_SYMBOLS]
                    (replicate (2 ^ L) zero_entry, 0)
      in Some \<lparr>tt_decode = ds, tt_encode_state = es,
               tt_encode = map (tans_encode_entry L freq) [0..<NETC_TANS_SYMBOLS],
               tt_freq = freq, tt_valid = True\<rparr>)"

definition netc_tans_build :: "netc_freq_table \<Rightarrow> netc_tans_table option" where
  "netc_tans_build = tans_build NETC_TANS_TABLE_LOG NETC_TANS_SPREAD_STEP"

definition netc_tans_build_10 :: "netc_freq_table \<Rightarrow> netc_tans_table_10 option" where
  "netc_tans_build_10 = tans_build NETC_TANS_TABLE_LOG_10 NETC_TANS_SPREAD_STEP_10"

section \<open>Arithmetic of the construction\<close>

lemma floor_log2_bounds:
  "0 < v \<Longrightarrow> 2 ^ floor_log2_u32 v \<le> v \<and> v < 2 ^ Suc (floor_log2_u32 v)"
proof (induction v rule: floor_log2_u32.induct)
  case (1 v)
  show ?case
  proof (cases "v > 1")
    case True
    then have "0 < v div 2" by (simp add: div_greater_zero_iff)
    then have "2 ^ floor_log2_u32 (v div 2) \<le> v div 2 \<and> v div 2 < 2 ^ Suc (floor_log2_u32 (v div 2))"
      using "1.IH" True by simp
    moreover have "floor_log2_u32 v = Suc (floor_log2_u32 (v div 2))"
      using True by (simp add: floor_log2_u32.simps [of v])
    ultimately show ?thesis by (auto simp: less_mult_imp_div_less)
  next
    case False
    with "1.prems" show ?thesis by (simp add: floor_log2_u32.simps [of v])
  qed
qed

lemma floor_log2_unique:
  assumes "2 ^ k \<le> v" and "v < 2 ^ Suc k"
  shows "floor_log2_u32 v = k"
proof -
  have "0 < v" using assms(1) by (metis gr0I not_less zero_less_numeral zero_less_power)
  then have b: "2 ^ floor_log2_u32 v \<le> v" "v < 2 ^ Suc (floor_log2_u32 v)"
    using floor_log2_bounds by auto
  have "(2::nat) ^ k < 2 ^ Suc (floor_log2_u32 v)" using assms(1) b(2) by (rule le_less_trans)
  then have "k < Suc (floor_log2_u32 v)" by (rule power_less_imp_less_exp [rotated]) simp
  moreover have "(2::nat) ^ floor_log2_u32 v < 2 ^ Suc k" using b(1) assms(2) by (rule le_less_trans)
  then have "floor_log2_u32 v < Suc k" by (rule power_less_imp_less_exp [rotated]) simp
  ultimately show ?thesis by simp
qed

lemma spread_next_mod: "spread_next L step pos = (pos + step) mod 2 ^ L"
  unfolding spread_next_def take_bit_eq_mod [symmetric] take_bit_eq_mask mask_eq_exp_minus_1 ..

text \<open>The slot of the \<open>q\<close>-th occurrence, counting over all symbols.\<close>

definition spread_slot :: "nat \<Rightarrow> nat \<Rightarrow> nat \<Rightarrow> nat" where
  "spread_slot L step q = (q * step) mod 2 ^ L"

lemma spread_slot_less [simp]: "spread_slot L step q < 2 ^ L"
  by (simp add: spread_slot_def)

lemma spread_next_slot: "spread_next L step (spread_slot L step q) = spread_slot L step (Suc q)"
  by (simp add: spread_next_mod spread_slot_def mod_simps add.commute)

lemma spread_slot_inj_le:
  assumes "odd step" and "spread_slot L step p = spread_slot L step q" and "p < 2 ^ L" and "q \<le> p"
  shows "p = q"
proof -
  have "2 ^ L dvd p * step - q * step"
    using assms(2,4) by (simp add: spread_slot_def mod_eq_dvd_iff_nat)
  then have "2 ^ L dvd (p - q) * step"
    by (simp add: diff_mult_distrib)
  moreover have "coprime (2 ^ L) step" using assms(1) by simp
  ultimately have "2 ^ L dvd p - q"
    by (simp add: coprime_dvd_mult_left_iff)
  with assms(3,4) show ?thesis
    by (metis diff_is_0_eq dvd_imp_le le_antisym less_imp_diff_less linorder_not_le neq0_conv)
qed

lemma spread_slot_inj:
  assumes "odd step" and "spread_slot L step p = spread_slot L step q" and "p < 2 ^ L" and "q < 2 ^ L"
  shows "p = q"
  using spread_slot_inj_le assms by (metis nat_le_linear)

lemma spread_slot_surj:
  assumes "odd step" and "pos < 2 ^ L"
  shows "\<exists>q < 2 ^ L. spread_slot L step q = pos"
proof -
  have "inj_on (spread_slot L step) {..<2 ^ L}"
    using spread_slot_inj [OF assms(1)] by (auto intro!: inj_onI)
  then have "spread_slot L step ` {..<2 ^ L} = {..<2 ^ L}"
    by (intro endo_inj_surj) auto
  with assms(2) show ?thesis by (metis imageE lessThan_iff)
qed

section \<open>Well-formed tables\<close>

text \<open>
  The contract between encode and decode tables.  \<open>sym_wf\<close>: a symbol is absent, with its entry
  cleared, or each of its occurrences \<open>k\<close> has a slot that the encoder reaches and whose decode
  entry belongs to the same occurrence.  \<open>slot_wf\<close>: every slot holds the entry of some
  occurrence.
\<close>

definition sym_wf :: "nat \<Rightarrow> netc_tans_table \<Rightarrow> nat \<Rightarrow> bool" where
  "sym_wf L t s \<longleftrightarrow>
     (let e = tt_encode t ! s; f = unat (en_freq e) in
      if f = 0 then e = \<lparr>en_freq = 0, en_lower = 0, en_cumul = 0, en_nb_hi = 0\<rparr>
      else f \<le> 2 ^ L \<and> unat (en_nb_hi e) = L - floor_log2_u32 f \<and>
        unat (en_lower e) = f * 2 ^ (L - floor_log2_u32 f) \<and>
        (\<forall>k < f. \<exists>slot < 2 ^ L. unat (en_cumul e) + k < 2 ^ L \<and>
           tt_encode_state t ! (unat (en_cumul e) + k) = word_of_nat (2 ^ L + slot) \<and>
           tt_decode t ! slot = tans_decode_entry L f s k))"

definition slot_wf :: "nat \<Rightarrow> netc_tans_table \<Rightarrow> nat \<Rightarrow> bool" where
  "slot_wf L t slot \<longleftrightarrow>
     (\<exists>s f k. s < NETC_TANS_SYMBOLS \<and> k < f \<and> f \<le> 2 ^ L \<and>
        tt_decode t ! slot = tans_decode_entry L f s k)"

definition tans_wf :: "nat \<Rightarrow> netc_tans_table \<Rightarrow> bool" where
  "tans_wf L t \<longleftrightarrow> tt_valid t \<and> length (tt_decode t) = 2 ^ L \<and> length (tt_encode_state t) = 2 ^ L \<and>
     length (tt_encode t) = NETC_TANS_SYMBOLS \<and>
     (\<forall>s < NETC_TANS_SYMBOLS. sym_wf L t s) \<and> (\<forall>slot < 2 ^ L. slot_wf L t slot)"

definition csum :: "netc_freq_table \<Rightarrow> nat \<Rightarrow> nat" where
  "csum freq s = sum_list (map unat (take s freq))"

lemma csum_0 [simp]: "csum freq 0 = 0"
  by (simp add: csum_def)

lemma csum_Suc: "s < length freq \<Longrightarrow> csum freq (Suc s) = csum freq s + unat (freq ! s)"
  by (simp add: csum_def take_Suc_conv_app_nth)

lemma csum_le_total: "csum freq s \<le> freq_total freq"
  unfolding csum_def freq_total_def
  by (metis append_take_drop_id le_add1 map_append sum_list_append)

lemma csum_all: "length freq = n \<Longrightarrow> csum freq n = freq_total freq"
  by (simp add: csum_def freq_total_def)

lemma csum_occurrence_less:
  assumes "s < length freq" and "k < unat (freq ! s)"
  shows "csum freq s + k < freq_total freq"
  using csum_Suc [OF assms(1)] csum_le_total [of freq "Suc s"] assms(2) by linarith

lemma tans_cumul_csum:
  assumes "s \<le> length freq" and "freq_total freq < 2 ^ 16"
  shows "unat (tans_cumul freq s) = csum freq s"
  using assms(1)
proof (induction s)
  case (Suc s)
  have "csum freq s + unat (freq ! s) < 2 ^ 16"
    using csum_Suc [of s freq] csum_le_total [of freq "Suc s"] Suc.prems assms(2) by simp
  then show ?case
    using Suc by (simp add: csum_Suc unat_word_ariths)
qed simp

section \<open>The spread loops\<close>

lemma spread_states_run:
  assumes "c + n \<le> length es"
  shows "\<exists>es'. fold (\<lambda>k (es, pos). (es[c + k := word_of_nat (2 ^ L + pos)], spread_next L step pos))
      [0..<n] (es, spread_slot L step c) = (es', spread_slot L step (c + n)) \<and>
    length es' = length es \<and>
    (\<forall>i < length es. es' ! i =
       (if c \<le> i \<and> i < c + n then word_of_nat (2 ^ L + spread_slot L step i) else es ! i))"
  using assms
proof (induction n)
  case (Suc n)
  then obtain es' where es': "fold (\<lambda>k (es, pos). (es[c + k := word_of_nat (2 ^ L + pos)],
        spread_next L step pos)) [0..<n] (es, spread_slot L step c) = (es', spread_slot L step (c + n))"
    "length es' = length es" "\<forall>i < length es. es' ! i =
       (if c \<le> i \<and> i < c + n then word_of_nat (2 ^ L + spread_slot L step i) else es ! i)"
    by auto
  then show ?case
    using Suc.prems by (auto simp: spread_next_slot nth_list_update less_Suc_eq)
qed auto

lemma spread_states_all:
  assumes len: "length freq = NETC_TANS_SYMBOLS" and total: "freq_total freq = 2 ^ L" "L < 16"
    and s: "s \<le> NETC_TANS_SYMBOLS"
  shows "\<exists>es. fold (spread_states_symbol L step freq) [0..<s] (replicate (2 ^ L) 0, 0)
      = (es, spread_slot L step (csum freq s)) \<and> length es = 2 ^ L \<and>
    (\<forall>i < csum freq s. es ! i = word_of_nat (2 ^ L + spread_slot L step i))"
  using s
proof (induction s)
  case (Suc s)
  then obtain es where es: "fold (spread_states_symbol L step freq) [0..<s] (replicate (2 ^ L) 0, 0)
      = (es, spread_slot L step (csum freq s))" "length es = 2 ^ L"
    "\<forall>i < csum freq s. es ! i = word_of_nat (2 ^ L + spread_slot L step i)"
    by auto
  have "freq_total freq < 2 ^ 16"
    unfolding total(1) using total(2) by (rule power_strict_increasing) simp
  then have c: "unat (tans_cumul freq s) = csum freq s"
    using Suc.prems len by (simp add: tans_cumul_csum)
  have le: "csum freq s + unat (freq ! s) \<le> 2 ^ L"
    using csum_le_total [of freq "Suc s"] csum_Suc [of s freq] Suc.prems len total by simp
  obtain es' where "spread_states_symbol L step freq s (es, spread_slot L step (csum freq s))
      = (es', spread_slot L step (csum freq (Suc s)))" "length es' = 2 ^ L"
    "\<forall>i < 2 ^ L. es' ! i = (if csum freq s \<le> i \<and> i < csum freq (Suc s)
       then word_of_nat (2 ^ L + spread_slot L step i) else es ! i)"
    using spread_states_run [of "csum freq s" "unat (freq ! s)" es L step] es(2) le Suc.prems len
    unfolding spread_states_symbol_def c by (auto simp: csum_Suc)
  moreover have "csum freq (Suc s) \<le> 2 ^ L"
    using le Suc.prems len by (simp add: csum_Suc)
  ultimately show ?case
    using es by auto
qed (simp add: spread_slot_def)

lemma spread_decode_run:
  assumes step: "odd step" and len: "length ds = 2 ^ L" and n: "c + n \<le> 2 ^ L"
  shows "\<exists>ds'. fold (\<lambda>k (ds, pos). (ds[pos := E k], spread_next L step pos))
      [0..<n] (ds, spread_slot L step c) = (ds', spread_slot L step (c + n)) \<and>
    length ds' = length ds \<and>
    (\<forall>q < c. ds' ! spread_slot L step q = ds ! spread_slot L step q) \<and>
    (\<forall>k < n. ds' ! spread_slot L step (c + k) = E k)"
  using n
proof (induction n)
  case (Suc n)
  then obtain ds' where ds': "fold (\<lambda>k (ds, pos). (ds[pos := E k], spread_next L step pos))
      [0..<n] (ds, spread_slot L step c) = (ds', spread_slot L step (c + n))"
    "length ds' = length ds"
    "\<forall>q < c. ds' ! spread_slot L step q = ds ! spread_slot L step q"
    "\<forall>k < n. ds' ! spread_slot L step (c + k) = E k"
    by auto
  have other: "spread_slot L step q \<noteq> spread_slot L step (c + n)" if "q < c + n" for q
    using spread_slot_inj [OF step, of L q "c + n"] that Suc.prems by auto
  show ?case
    using ds' len by (auto simp: spread_next_slot less_Suc_eq nth_list_update other [symmetric])
qed simp

lemma spread_decode_all:
  assumes step: "odd step" and len: "length freq = NETC_TANS_SYMBOLS" and total: "freq_total freq = 2 ^ L"
    and z: "length ds0 = 2 ^ L" and s: "s \<le> NETC_TANS_SYMBOLS"
  shows "\<exists>ds. fold (spread_decode_symbol L step freq) [0..<s] (ds0, 0)
      = (ds, spread_slot L step (csum freq s)) \<and> length ds = 2 ^ L \<and>
    (\<forall>s' < s. \<forall>k < unat (freq ! s'). ds ! spread_slot L step (csum freq s' + k)
       = tans_decode_entry L (unat (freq ! s')) s' k)"
  using s
proof (induction s)
  case 0
  then show ?case using z by (simp add: spread_slot_def)
next
  case (Suc s)
  then obtain ds where ds: "fold (spread_decode_symbol L step freq) [0..<s] (ds0, 0)
      = (ds, spread_slot L step (csum freq s))" "length ds = 2 ^ L"
    "\<forall>s' < s. \<forall>k < unat (freq ! s'). ds ! spread_slot L step (csum freq s' + k)
       = tans_decode_entry L (unat (freq ! s')) s' k"
    by auto
  have le: "csum freq s + unat (freq ! s) \<le> 2 ^ L"
    using csum_le_total [of freq "Suc s"] csum_Suc [of s freq] Suc.prems len total by simp
  have before: "csum freq s' + k < csum freq s" if "s' < s" "k < unat (freq ! s')" for s' k
  proof -
    have "csum freq (Suc s') \<le> csum freq s"
      unfolding csum_def using that(1)
      by (metis Suc_leI append_take_drop_id le_add1 map_append min.absorb1 sum_list_append take_take)
    then show ?thesis using that csum_Suc [of s' freq] Suc.prems len by simp
  qed
  obtain ds' where ds': "spread_decode_symbol L step freq s (ds, spread_slot L step (csum freq s))
      = (ds', spread_slot L step (csum freq (Suc s)))" "length ds' = 2 ^ L"
    "\<forall>q < csum freq s. ds' ! spread_slot L step q = ds ! spread_slot L step q"
    "\<forall>k < unat (freq ! s). ds' ! spread_slot L step (csum freq s + k)
       = tans_decode_entry L (unat (freq ! s)) s k"
    using spread_decode_run [OF step ds(2) le, of "tans_decode_entry L (unat (freq ! s)) s"]
      Suc.prems len ds(2) by (auto simp: spread_decode_symbol_def csum_Suc)
  then show ?case
    using ds before by (auto simp: less_Suc_eq)
qed

section \<open>The builder produces well-formed tables\<close>

lemma scaled_range:
  assumes "0 < v" and "v < 2 * 2 ^ L"
  shows "v * 2 ^ (L - floor_log2_u32 v) + 2 ^ (L - floor_log2_u32 v) \<le> 2 * 2 ^ L"
    and "2 ^ L \<le> v * 2 ^ (L - floor_log2_u32 v)" and "floor_log2_u32 v \<le> L"
proof -
  define m where "m = floor_log2_u32 v"
  have m: "2 ^ m \<le> v" "v < 2 ^ Suc m" using floor_log2_bounds [OF assms(1)] by (auto simp: m_def)
  have "(2::nat) ^ m < 2 ^ Suc L" using m(1) assms(2) by simp
  then have mL: "m < Suc L" by (rule power_less_imp_less_exp [rotated]) simp
  then show "floor_log2_u32 v \<le> L" by (simp add: m_def)
  have L: "(2::nat) ^ L = 2 ^ m * 2 ^ (L - m)" using mL by (simp flip: power_add)
  have "Suc v * 2 ^ (L - m) \<le> 2 ^ Suc m * 2 ^ (L - m)" using m(2) by (intro mult_right_mono) auto
  then show "v * 2 ^ (L - floor_log2_u32 v) + 2 ^ (L - floor_log2_u32 v) \<le> 2 * 2 ^ L"
    by (simp add: L m_def [symmetric] add.commute)
  show "2 ^ L \<le> v * 2 ^ (L - floor_log2_u32 v)"
    unfolding L m_def [symmetric] using m(1) by (rule mult_right_mono) simp
qed

lemma encode_entry_fields:
  assumes f: "f = unat (freq ! s)" "0 < f" "f \<le> 2 ^ L" and L: "L \<le> 14"
  shows "unat (en_freq (tans_encode_entry L freq s)) = f"
    and "unat (en_nb_hi (tans_encode_entry L freq s)) = L - floor_log2_u32 f"
    and "unat (en_lower (tans_encode_entry L freq s)) = f * 2 ^ (L - floor_log2_u32 f)"
    and "en_cumul (tans_encode_entry L freq s) = tans_cumul freq s"
proof -
  have nz: "freq ! s \<noteq> 0" using f by (auto simp: unat_gt_0)
  have "(2::nat) ^ L \<le> 2 ^ 14" using L by (intro power_increasing) auto
  then have bound: "2 * 2 ^ L < (2::nat) ^ 16" by simp
  have "f < 2 * 2 ^ L" using f(3) by (rule le_less_trans) simp
  with scaled_range [OF f(2) this] bound
  have "f * 2 ^ (L - floor_log2_u32 f) < 2 ^ 16" "f < 2 ^ 16" by simp_all
  then show "unat (en_freq (tans_encode_entry L freq s)) = f"
    and "unat (en_nb_hi (tans_encode_entry L freq s)) = L - floor_log2_u32 f"
    and "unat (en_lower (tans_encode_entry L freq s)) = f * 2 ^ (L - floor_log2_u32 f)"
    and "en_cumul (tans_encode_entry L freq s) = tans_cumul freq s"
    using nz L by (simp_all add: tans_encode_entry_def f(1) [symmetric] Let_def
        word_of_nat_unat_id del: of_nat_mult of_nat_power)
qed

lemma csum_cover:
  "q < csum freq n \<Longrightarrow> n \<le> length freq \<Longrightarrow> \<exists>s < n. \<exists>k < unat (freq ! s). q = csum freq s + k"
proof (induction n)
  case (Suc n)
  show ?case
  proof (cases "q < csum freq n")
    case True
    with Suc show ?thesis by (auto intro: less_SucI)
  next
    case False
    then have "q = csum freq n + (q - csum freq n)" "q - csum freq n < unat (freq ! n)"
      using Suc.prems by (simp_all add: csum_Suc)
    then show ?thesis by blast
  qed
qed simp

lemma tans_build_wf:
  assumes step: "odd step" and L: "L \<le> 14" and len: "length freq = NETC_TANS_SYMBOLS"
    and total: "freq_total freq = 2 ^ L"
  shows "\<exists>t. tans_build L step freq = Some t \<and> tans_wf L t \<and> tt_freq t = freq \<and>
    (\<forall>s < NETC_TANS_SYMBOLS. en_freq (tt_encode t ! s) = freq ! s)"
proof -
  obtain es where es: "fold (spread_states_symbol L step freq) [0..<NETC_TANS_SYMBOLS]
      (replicate (2 ^ L) 0, 0) = (es, spread_slot L step (csum freq NETC_TANS_SYMBOLS))"
    "length es = 2 ^ L" "\<forall>i < 2 ^ L. es ! i = word_of_nat (2 ^ L + spread_slot L step i)"
    using spread_states_all [OF len total, of NETC_TANS_SYMBOLS step] L len total
    by (auto simp: csum_all)
  obtain ds where ds: "fold (spread_decode_symbol L step freq) [0..<NETC_TANS_SYMBOLS]
      (replicate (2 ^ L) \<lparr>de_symbol = 0, de_nb_bits = 0, de_next_state_base = 0\<rparr>, 0)
      = (ds, spread_slot L step (csum freq NETC_TANS_SYMBOLS))" "length ds = 2 ^ L"
    "\<forall>s < NETC_TANS_SYMBOLS. \<forall>k < unat (freq ! s).
      ds ! spread_slot L step (csum freq s + k) = tans_decode_entry L (unat (freq ! s)) s k"
    using spread_decode_all [OF step len total, of "replicate (2 ^ L)
      \<lparr>de_symbol = 0, de_nb_bits = 0, de_next_state_base = 0\<rparr>" NETC_TANS_SYMBOLS] by auto
  define t where "t = \<lparr>tt_decode = ds, tt_encode_state = es,
      tt_encode = map (tans_encode_entry L freq) [0..<NETC_TANS_SYMBOLS],
      tt_freq = freq, tt_valid = True\<rparr>"
  have f_le: "unat (freq ! s) \<le> 2 ^ L" if "s < NETC_TANS_SYMBOLS" for s
    using csum_le_total [of freq "Suc s"] csum_Suc [of s freq] that len total by simp
  have "freq_total freq < 2 ^ 16"
    unfolding total using L by (intro power_strict_increasing) auto
  then have cumul: "unat (tans_cumul freq s) = csum freq s" if "s < NETC_TANS_SYMBOLS" for s
    using that len by (simp add: tans_cumul_csum)
  have sym: "sym_wf L t s" if s: "s < NETC_TANS_SYMBOLS" for s
  proof (cases "freq ! s = 0")
    case True
    then show ?thesis using s by (simp add: sym_wf_def t_def tans_encode_entry_def)
  next
    case False
    note fields = encode_entry_fields [OF refl, of freq s L] f_le [OF s] False L
    have pos: "0 < unat (freq ! s)" using False by (simp add: unat_gt_0)
    have "\<exists>slot < 2 ^ L. csum freq s + k < 2 ^ L \<and>
        es ! (csum freq s + k) = word_of_nat (2 ^ L + slot) \<and>
        ds ! slot = tans_decode_entry L (unat (freq ! s)) s k" if "k < unat (freq ! s)" for k
      using csum_occurrence_less [of s freq k] es(3) ds(3) that s len total
      by (intro exI [of _ "spread_slot L step (csum freq s + k)"]) simp
    then show ?thesis
      using fields s cumul [OF s] pos by (simp add: sym_wf_def t_def)
  qed
  have slot: "slot_wf L t pos" if pos: "pos < 2 ^ L" for pos
  proof -
    obtain q where q: "q < 2 ^ L" "spread_slot L step q = pos"
      using spread_slot_surj [OF step pos] by blast
    obtain s k where "s < NETC_TANS_SYMBOLS" "k < unat (freq ! s)" "q = csum freq s + k"
      using csum_cover [of q freq NETC_TANS_SYMBOLS] q len total by (auto simp: csum_all)
    then show ?thesis
      unfolding slot_wf_def using ds(3) f_le q
      by (intro exI [of _ s] exI [of _ "unat (freq ! s)"] exI [of _ k]) (auto simp: t_def)
  qed
  have "en_freq (tt_encode t ! s) = freq ! s" if "s < NETC_TANS_SYMBOLS" for s
    using that by (simp add: t_def tans_encode_entry_def Let_def)
  moreover have "tans_wf L t"
    using sym slot es(2) ds(2) by (simp add: tans_wf_def t_def)
  moreover have "tans_build L step freq = Some t"
    using total es(1) ds(1) by (simp add: tans_build_def t_def)
  ultimately show ?thesis by (auto simp: t_def)
qed

lemmas tans_consts = NETC_TANS_TABLE_LOG_def NETC_TANS_TABLE_SIZE_def NETC_TANS_SPREAD_STEP_def
  NETC_TANS_TABLE_LOG_10_def NETC_TANS_TABLE_SIZE_10_def NETC_TANS_SPREAD_STEP_10_def

text \<open>
  C16.  From every frequency table of 256 symbols that sums to 4096, \<open>netc_tans_build\<close> succeeds
  with a well-formed table for exactly these frequencies, and \<open>netc_tans_build_10\<close> does so for
  the sum 1024.
\<close>

theorem tans_tables_wellformed:
  assumes "length freq = NETC_TANS_SYMBOLS"
  shows "(freq_total freq = NETC_TANS_TABLE_SIZE \<longrightarrow>
      (\<exists>t. netc_tans_build freq = Some t \<and> tans_wf NETC_TANS_TABLE_LOG t \<and> tt_freq t = freq))
    \<and> (freq_total freq = NETC_TANS_TABLE_SIZE_10 \<longrightarrow>
      (\<exists>t. netc_tans_build_10 freq = Some t \<and> tans_wf NETC_TANS_TABLE_LOG_10 t \<and> tt_freq t = freq))"
  using tans_build_wf [of NETC_TANS_SPREAD_STEP NETC_TANS_TABLE_LOG freq]
    tans_build_wf [of NETC_TANS_SPREAD_STEP_10 NETC_TANS_TABLE_LOG_10 freq] assms
  unfolding netc_tans_build_def netc_tans_build_10_def tans_consts by auto

theorem tans_tables_wellformed_witness:
  "\<exists>t. netc_tans_build (replicate 256 16) = Some t \<and> tans_wf 12 t \<and> tt_freq t = replicate 256 16"
  using tans_tables_wellformed [of "replicate 256 16"]
  by (simp add: NETC_TANS_SYMBOLS_def tans_consts freq_total_def sum_list_replicate)

end
