(* ===== verification/Netc_Bitstream.thy ===== *)
theory Netc_Bitstream
  imports Netc_Prelude
begin

text \<open>
  Bit-level I/O for the tANS codec, \<open>src/src/util/netc_bitstream.h\<close>: an LSB-first writer with a
  64-bit accumulator that stores four bytes at a time and ends the stream with a sentinel bit,
  and a reader that starts at the sentinel and runs backwards.  Both are refined to one abstract
  object, a stack of bits: \<open>bsw_abs\<close> and \<open>bsr_abs\<close> give the bits on the stack, a write
  pushes and a read pops.
\<close>

section \<open>Writer\<close>

text \<open>
  \<open>bsw_buf\<close> holds the bytes between \<open>start\<close> and \<open>ptr\<close>, \<open>bsw_cap\<close> is
  \<open>end - start\<close>.
\<close>

record netc_bsw =
  bsw_buf :: "byte list"
  bsw_cap :: nat
  bsw_accum :: u64
  bsw_bits :: int

definition netc_bsw_init :: "nat \<Rightarrow> netc_bsw" where
  "netc_bsw_init cap = \<lparr>bsw_buf = [], bsw_cap = cap, bsw_accum = 0, bsw_bits = 0\<rparr>"

definition netc_bsw_write :: "netc_bsw \<Rightarrow> u32 \<Rightarrow> nat \<Rightarrow> netc_bsw option" where
  "netc_bsw_write w v nb =
     (let acc = bsw_accum w OR push_bit (nat (bsw_bits w)) (ucast v);
          b = bsw_bits w + int nb
      in if b \<ge> 32
         then if length (bsw_buf w) + 4 > bsw_cap w then None
              else Some (w\<lparr>bsw_buf := bsw_buf w @ netc_write_u32_le (ucast acc),
                           bsw_accum := drop_bit 32 acc, bsw_bits := b - 32\<rparr>)
         else Some (w\<lparr>bsw_accum := acc, bsw_bits := b\<rparr>))"

function bsw_flush_loop :: "netc_bsw \<Rightarrow> netc_bsw option" where
  "bsw_flush_loop w =
     (if bsw_bits w > 0
      then if length (bsw_buf w) \<ge> bsw_cap w then None
           else bsw_flush_loop (w\<lparr>bsw_buf := bsw_buf w @ [ucast (bsw_accum w AND 0xFF)],
                                  bsw_accum := drop_bit 8 (bsw_accum w),
                                  bsw_bits := bsw_bits w - 8\<rparr>)
      else Some w)"
  by pat_completeness auto
termination
  by (relation "measure (\<lambda>w. nat (bsw_bits w))") auto

declare bsw_flush_loop.simps [simp del]

definition netc_bsw_flush :: "netc_bsw \<Rightarrow> netc_bsw option" where
  "netc_bsw_flush w =
     bsw_flush_loop (w\<lparr>bsw_accum := bsw_accum w OR push_bit (nat (bsw_bits w)) 1,
                       bsw_bits := bsw_bits w + 1\<rparr>)"

definition netc_bsw_size :: "netc_bsw \<Rightarrow> nat" where
  "netc_bsw_size w = length (bsw_buf w)"

section \<open>Reader\<close>

text \<open>
  \<open>bsr_ptr\<close> is \<open>ptr - start\<close>: the number of bytes not yet loaded.
\<close>

record netc_bsr =
  bsr_buf :: "byte list"
  bsr_ptr :: nat
  bsr_accum :: u64
  bsr_bits :: int

definition netc_bsr_floorlog2_byte :: "byte \<Rightarrow> nat" where
  "netc_bsr_floorlog2_byte v =
     (let (v1, n1) = (if v AND 0xF0 \<noteq> 0 then (drop_bit 4 v, 4) else (v, 0));
          (v2, n2) = (if v1 AND 0x0C \<noteq> 0 then (drop_bit 2 v1, n1 + 2) else (v1, n1))
      in if v2 AND 0x02 \<noteq> 0 then n2 + 1 else n2)"

definition bsr_load_raw :: "byte list \<Rightarrow> nat \<Rightarrow> u64" where
  "bsr_load_raw src fill =
     fold (\<lambda>i raw. raw OR push_bit (i * 8) (ucast (src ! i))) [0..<fill] 0"

definition netc_bsr_init :: "byte list \<Rightarrow> netc_bsr" where
  "netc_bsr_init buf =
     (let size = length buf;
          r = \<lparr>bsr_buf = buf, bsr_ptr = size, bsr_accum = 0, bsr_bits = 0\<rparr>
      in if size = 0 then r
         else
           let fill = (if size < 8 then size else 8);
               raw = bsr_load_raw (drop (size - fill) buf) fill;
               total_bits = fill * 8;
               acc = push_bit (64 - total_bits) raw;
               r = r\<lparr>bsr_ptr := size - fill, bsr_accum := acc, bsr_bits := int total_bits\<rparr>;
               last_byte = (ucast (drop_bit 56 acc) :: byte)
           in if last_byte = 0 then r\<lparr>bsr_bits := 0\<rparr>
              else
                let sentinel_bit_in_byte = netc_bsr_floorlog2_byte last_byte;
                    lead_zeros = 7 - sentinel_bit_in_byte;
                    skip = lead_zeros + 1;
                    b = int total_bits - int skip
                in r\<lparr>bsr_accum := push_bit skip acc, bsr_bits := (if b < 0 then 0 else b)\<rparr>)"

definition netc_bsr_peek :: "netc_bsr \<Rightarrow> nat \<Rightarrow> u32" where
  "netc_bsr_peek r nb = ucast (drop_bit (64 - nb) (bsr_accum r))"

text \<open>
  The refill loop shifts the new byte left by \<open>56 - bits\<close>: with \<open>bits < -7\<close> the shift
  would be at least the width of the accumulator.
\<close>

function bsr_refill :: "netc_bsr \<Rightarrow> cerror + netc_bsr" where
  "bsr_refill r =
     (if bsr_bits r \<le> 56 \<and> bsr_ptr r > 0
      then if 56 - bsr_bits r > 63 then Inl C_Undefined
           else bsr_refill
             (r\<lparr>bsr_ptr := bsr_ptr r - 1,
                bsr_accum := bsr_accum r OR
                  push_bit (nat (56 - bsr_bits r)) (ucast (bsr_buf r ! (bsr_ptr r - 1))),
                bsr_bits := bsr_bits r + 8\<rparr>)
      else Inr r)"
  by pat_completeness auto
termination
  by (relation "measure bsr_ptr") auto

declare bsr_refill.simps [simp del]

definition netc_bsr_consume :: "netc_bsr \<Rightarrow> nat \<Rightarrow> cerror + netc_bsr" where
  "netc_bsr_consume r nb =
     (case bsr_refill (r\<lparr>bsr_accum := push_bit nb (bsr_accum r), bsr_bits := bsr_bits r - int nb\<rparr>) of
        Inl e \<Rightarrow> Inl e
      | Inr r' \<Rightarrow> if bsr_bits r' \<ge> 0 then Inr r' else Inl C_Fail)"

definition netc_bsr_read :: "netc_bsr \<Rightarrow> nat \<Rightarrow> cerror + (u32 \<times> netc_bsr)" where
  "netc_bsr_read r nb =
     (let out = netc_bsr_peek r nb
      in case netc_bsr_consume r nb of Inl e \<Rightarrow> Inl e | Inr r' \<Rightarrow> Inr (out, r'))"

definition netc_bsr_empty :: "netc_bsr \<Rightarrow> bool" where
  "netc_bsr_empty r \<longleftrightarrow> bsr_bits r \<le> 0 \<and> bsr_ptr r \<le> 0"

section \<open>The writer pushes onto a stack of bits\<close>

definition bsw_abs :: "netc_bsw \<Rightarrow> bool list" where
  "bsw_abs w = bytes_bits (bsw_buf w) @ wbits (nat (bsw_bits w)) (bsw_accum w)"

definition bsw_inv :: "netc_bsw \<Rightarrow> bool" where
  "bsw_inv w \<longleftrightarrow> 0 \<le> bsw_bits w \<and> bsw_bits w < 32 \<and>
     (\<forall>n. bsw_bits w \<le> int n \<longrightarrow> \<not> bit (bsw_accum w) n)"

lemma bsw_inv_init [simp]: "bsw_inv (netc_bsw_init cap)"
  and bsw_abs_init [simp]: "bsw_abs (netc_bsw_init cap) = []"
  by (simp_all add: bsw_inv_def bsw_abs_def netc_bsw_init_def)

lemma wbits_accum_or:
  fixes acc :: u64 and v :: u32
  assumes "\<And>n. k \<le> n \<Longrightarrow> \<not> bit acc n" and "k + nb \<le> 64" and "nb \<le> 32"
  shows "wbits (k + nb) (acc OR push_bit k (ucast v)) = wbits k acc @ wbits nb v"
  using assms by (intro nth_equalityI) (auto simp: nth_append bit_simps)

lemma bytes_bits_u32: "bytes_bits (netc_write_u32_le v) = wbits 32 v"
proof -
  have "wbits 32 v = wbits 8 v @ wbits 8 (drop_bit 8 v) @ wbits 8 (drop_bit 16 v)
      @ wbits 8 (drop_bit 24 v)"
    using wbits_add [of 8 24 v] wbits_add [of 8 16 "drop_bit 8 v"] wbits_add [of 8 8 "drop_bit 16 v"]
    by (simp add: drop_bit_drop_bit)
  moreover have "wbits 8 (ucast x :: byte) = wbits 8 x" for x :: u32
    by (intro nth_equalityI) (auto simp: bit_simps)
  ultimately show ?thesis by (simp add: netc_write_u32_le_def)
qed

lemma wbits_ucast_accum: "wbits 32 (ucast acc :: u32) = wbits 32 (acc :: u64)"
  by (intro nth_equalityI) (auto simp: bit_simps)

lemma bsw_write_refines:
  assumes inv: "bsw_inv w" and nb: "nb \<le> 32" and v: "\<And>n. nb \<le> n \<Longrightarrow> \<not> bit v n"
    and wr: "netc_bsw_write w v nb = Some w'"
  shows "bsw_inv w'" and "bsw_abs w' = bsw_abs w @ wbits nb v" and "bsw_cap w' = bsw_cap w"
proof -
  define k where "k = nat (bsw_bits w)"
  define acc where "acc = bsw_accum w OR push_bit k (ucast v)"
  have k: "bsw_bits w = int k" "k < 32"
    and clear: "\<And>n. k \<le> n \<Longrightarrow> \<not> bit (bsw_accum w) n"
    using inv by (auto simp: bsw_inv_def k_def nat_le_iff)
  have acc_bits: "wbits (k + nb) acc = wbits k (bsw_accum w) @ wbits nb v"
    unfolding acc_def using wbits_accum_or [OF clear] k nb by simp
  have acc_clear: "\<not> bit acc n" if "k + nb \<le> n" for n
    using clear [of n] v [of "n - k"] that by (auto simp: acc_def bit_simps)
  have *: "bsw_inv w' \<and> bsw_abs w' = bsw_abs w @ wbits nb v \<and> bsw_cap w' = bsw_cap w"
  proof (cases "k + nb \<ge> 32")
    case True
    with wr have w': "w' = w\<lparr>bsw_buf := bsw_buf w @ netc_write_u32_le (ucast acc),
        bsw_accum := drop_bit 32 acc, bsw_bits := int (k + nb - 32)\<rparr>"
      by (auto simp: netc_bsw_write_def k acc_def Let_def of_nat_diff split: if_splits)
    have "wbits 32 (ucast acc :: u32) @ wbits (k + nb - 32) (drop_bit 32 acc) = wbits (k + nb) acc"
      using True wbits_add [of 32 "k + nb - 32" acc] by (simp add: wbits_ucast_accum)
    moreover have "k + nb - 32 < 32" using k nb by linarith
    moreover have "\<not> bit (drop_bit 32 acc) n" if "k + nb - 32 \<le> n" for n
      using acc_clear [of "n + 32"] that by (auto simp: bit_simps add.commute)
    ultimately show ?thesis
      by (auto simp: w' bsw_inv_def bsw_abs_def bytes_bits_u32 acc_bits k_def [symmetric])
  next
    case False
    with wr have w': "w' = w\<lparr>bsw_accum := acc, bsw_bits := int (k + nb)\<rparr>"
      by (auto simp: netc_bsw_write_def k acc_def Let_def split: if_splits)
    have "nat (int k + int nb) = k + nb" by simp
    then show ?thesis
      using False acc_clear
      by (auto simp: w' bsw_inv_def bsw_abs_def acc_bits k_def [symmetric])
  qed
  then show "bsw_inv w'" "bsw_abs w' = bsw_abs w @ wbits nb v" "bsw_cap w' = bsw_cap w"
    by auto
qed

lemma bsw_write_succeeds:
  assumes "bsw_inv w" and "length (bsw_abs w) + nb \<le> 8 * bsw_cap w"
  shows "\<exists>w'. netc_bsw_write w v nb = Some w'"
  using assms by (auto simp: netc_bsw_write_def bsw_inv_def bsw_abs_def Let_def)

lemma wbits_clear_above:
  assumes "\<And>n. k \<le> n \<Longrightarrow> \<not> bit w n"
  shows "k \<le> m \<Longrightarrow> wbits m w = wbits k w @ replicate (m - k) False"
  using assms by (intro nth_equalityI) (auto simp: nth_append)

lemma wbits_low_byte: "wbits 8 (ucast (acc AND 0xFF) :: byte) = wbits 8 (acc :: u64)"
proof -
  have ff: "(0xFF :: u64) = mask 8" by (simp add: mask_eq_exp_minus_1)
  show ?thesis
    unfolding ff by (intro nth_equalityI) (auto simp: bit_simps)
qed

lemma bsw_flush_loop_refines:
  assumes "bsw_flush_loop w = Some w'"
    and "\<And>n. bsw_bits w \<le> int n \<Longrightarrow> \<not> bit (bsw_accum w) n"
  shows "\<exists>k < 8. bytes_bits (bsw_buf w') = bsw_abs w @ replicate k False"
  using assms
proof (induction w rule: bsw_flush_loop.induct)
  case (1 w)
  define b where "b = bsw_bits w"
  show ?case
  proof (cases "b > 0")
    case False
    then have "w' = w" "nat b = 0"
      using "1.prems"(1) by (auto simp: b_def bsw_flush_loop.simps [of w] split: if_splits)
    then show ?thesis by (auto simp: bsw_abs_def b_def)
  next
    case True
    define w1 where "w1 = w\<lparr>bsw_buf := bsw_buf w @ [ucast (bsw_accum w AND 0xFF)],
        bsw_accum := drop_bit 8 (bsw_accum w), bsw_bits := b - 8\<rparr>"
    have room: "\<not> length (bsw_buf w) \<ge> bsw_cap w" and rest: "bsw_flush_loop w1 = Some w'"
      using "1.prems"(1) True by (auto simp: b_def w1_def bsw_flush_loop.simps [of w] split: if_splits)
    have clear1: "\<not> bit (bsw_accum w1) n" if "bsw_bits w1 \<le> int n" for n
      using "1.prems"(2) [of "n + 8"] that
      by (auto simp: w1_def b_def bit_simps add.commute)
    obtain k where k: "k < 8" "bytes_bits (bsw_buf w') = bsw_abs w1 @ replicate k False"
      using "1.IH" [of] True room rest clear1 unfolding w1_def b_def by auto
    have abs1: "bsw_abs w1 = bytes_bits (bsw_buf w) @ wbits 8 (bsw_accum w)
        @ wbits (nat (b - 8)) (drop_bit 8 (bsw_accum w))"
      by (simp add: bsw_abs_def w1_def wbits_low_byte)
    show ?thesis
    proof (cases "b \<ge> 8")
      case True
      then have "wbits (nat b) (bsw_accum w)
          = wbits 8 (bsw_accum w) @ wbits (nat (b - 8)) (drop_bit 8 (bsw_accum w))"
        using wbits_add [of 8 "nat (b - 8)" "bsw_accum w"] by (simp add: nat_diff_distrib)
      then have "bsw_abs w1 = bsw_abs w" by (simp add: abs1 bsw_abs_def [of w] b_def)
      with k show ?thesis by auto
    next
      case False
      then have "wbits 8 (bsw_accum w) = wbits (nat b) (bsw_accum w) @ replicate (8 - nat b) False"
        using wbits_clear_above [of "nat b" "bsw_accum w" 8] "1.prems"(2) by (simp add: b_def nat_le_iff)
      moreover have "bsw_bits w1 = b - 8" by (simp add: w1_def)
      then have "w' = w1"
        using rest False by (simp add: bsw_flush_loop.simps [of w1])
      ultimately show ?thesis
        using True False by (auto simp: bsw_abs_def b_def w1_def wbits_low_byte intro!: exI [of _ "8 - nat b"])
    qed
  qed
qed

lemma bsw_flush_refines:
  assumes inv: "bsw_inv w" and fl: "netc_bsw_flush w = Some w'"
  shows "\<exists>k < 8. bytes_bits (bsw_buf w') = bsw_abs w @ True # replicate k False"
proof -
  define k where "k = nat (bsw_bits w)"
  define w1 where "w1 = w\<lparr>bsw_accum := bsw_accum w OR push_bit k 1, bsw_bits := bsw_bits w + 1\<rparr>"
  have k: "bsw_bits w = int k" "k < 32" and clear: "\<And>n. k \<le> n \<Longrightarrow> \<not> bit (bsw_accum w) n"
    using inv by (auto simp: bsw_inv_def k_def nat_le_iff)
  have "wbits (k + 1) (bsw_accum w OR push_bit k 1) = wbits k (bsw_accum w) @ [True]"
    using clear k by (intro nth_equalityI) (auto simp: nth_append bit_simps less_Suc_eq)
  then have abs1: "bsw_abs w1 = bsw_abs w @ [True]"
    using k by (simp add: w1_def bsw_abs_def nat_add_distrib)
  have "\<not> bit (bsw_accum w1) n" if "bsw_bits w1 \<le> int n" for n
    using clear [of n] that k by (auto simp: w1_def bit_simps)
  then show ?thesis
    using bsw_flush_loop_refines [of w1 w'] fl abs1 by (auto simp: netc_bsw_flush_def w1_def k_def)
qed

lemma bsw_flush_loop_succeeds:
  assumes "bsw_bits w + 8 * int (length (bsw_buf w)) \<le> 8 * int (bsw_cap w)"
  shows "\<exists>w'. bsw_flush_loop w = Some w'"
  using assms
proof (induction w rule: bsw_flush_loop.induct)
  case (1 w)
  show ?case
  proof (cases "bsw_bits w > 0")
    case True
    with "1.prems" have "\<not> length (bsw_buf w) \<ge> bsw_cap w" by linarith
    with True "1.IH" "1.prems" show ?thesis
      by (auto simp: bsw_flush_loop.simps [of w])
  next
    case False
    then show ?thesis by (simp add: bsw_flush_loop.simps [of w])
  qed
qed

lemma bsw_flush_succeeds:
  assumes "bsw_inv w" and "length (bsw_abs w) + 1 \<le> 8 * bsw_cap w"
  shows "\<exists>w'. netc_bsw_flush w = Some w'"
  unfolding netc_bsw_flush_def
  by (rule bsw_flush_loop_succeeds) (use assms in \<open>auto simp: bsw_inv_def bsw_abs_def\<close>)

lemma netc_bsw_init_cap [simp]: "bsw_cap (netc_bsw_init cap) = cap"
  by (simp add: netc_bsw_init_def)

lemma bsw_flush_loop_cap:
  "bsw_flush_loop w = Some w' \<Longrightarrow> length (bsw_buf w) \<le> bsw_cap w \<Longrightarrow> length (bsw_buf w') \<le> bsw_cap w"
proof (induction w rule: bsw_flush_loop.induct)
  case (1 w)
  then show ?case by (auto simp: bsw_flush_loop.simps [of w] split: if_splits)
qed

section \<open>The reader pops from the same stack\<close>

definition bsr_abs :: "netc_bsr \<Rightarrow> bool list" where
  "bsr_abs r = bytes_bits (take (bsr_ptr r) (bsr_buf r))
     @ map (bit (bsr_accum r)) [64 - nat (bsr_bits r)..<64]"

definition bsr_shape :: "netc_bsr \<Rightarrow> bool" where
  "bsr_shape r \<longleftrightarrow> 0 \<le> bsr_bits r \<and> bsr_bits r \<le> 64 \<and> bsr_ptr r \<le> length (bsr_buf r) \<and>
     (\<forall>n < 64 - nat (bsr_bits r). \<not> bit (bsr_accum r) n)"

definition bsr_inv :: "netc_bsr \<Rightarrow> bool" where
  "bsr_inv r \<longleftrightarrow> bsr_shape r \<and> (bsr_bits r \<ge> 56 \<or> bsr_ptr r = 0)"

lemma length_bsr_abs:
  "bsr_inv r \<Longrightarrow> length (bsr_abs r) = 8 * bsr_ptr r + nat (bsr_bits r)"
  by (auto simp: bsr_inv_def bsr_shape_def bsr_abs_def)

lemma bsr_refill_byte:
  assumes "bsr_shape r" and "bsr_bits r \<le> 56" and "bsr_ptr r > 0"
  defines "r' \<equiv> r\<lparr>bsr_ptr := bsr_ptr r - 1,
      bsr_accum := bsr_accum r OR
        push_bit (nat (56 - bsr_bits r)) (ucast (bsr_buf r ! (bsr_ptr r - 1))),
      bsr_bits := bsr_bits r + 8\<rparr>"
  shows "bsr_shape r'" and "bsr_abs r' = bsr_abs r"
proof -
  define b where "b = nat (bsr_bits r)"
  define x where "x = bsr_buf r ! (bsr_ptr r - 1)"
  define acc where "acc = bsr_accum r OR push_bit (56 - b) (ucast x)"
  have b: "bsr_bits r = int b" "b \<le> 56"
    and clear: "\<And>n. n < 64 - b \<Longrightarrow> \<not> bit (bsr_accum r) n"
    and p: "0 < bsr_ptr r" "bsr_ptr r \<le> length (bsr_buf r)"
    using assms(1-3) by (auto simp: bsr_shape_def b_def)
  have r': "bsr_accum r' = acc" "bsr_bits r' = int (b + 8)" "bsr_ptr r' = bsr_ptr r - 1"
    "bsr_buf r' = bsr_buf r"
    by (simp_all add: r'_def acc_def x_def b nat_diff_distrib)
  have hi: "bit acc n = bit (bsr_accum r) n" if "64 - b \<le> n" for n
    using that b bit_imp_le_length [of x "n - (56 - b)"] by (auto simp: acc_def bit_simps)
  have lo: "bit acc n = bit x (n - (56 - b))" if "56 - b \<le> n" "n < 64 - b" for n
    using that b clear [of n] by (auto simp: acc_def bit_simps)
  show "bsr_shape r'"
    using b clear p by (auto simp: bsr_shape_def r' acc_def bit_simps)
  have "map (bit acc) [56 - b..<64] = map (bit acc) [56 - b..<64 - b] @ map (bit acc) [64 - b..<64]"
    using b upt_add_eq_append [of "56 - b" "64 - b" b] by (simp flip: map_append)
  also have "map (bit acc) [56 - b..<64 - b] = wbits 8 x"
    using b by (intro nth_equalityI) (auto simp: lo)
  also have "map (bit acc) [64 - b..<64] = map (bit (bsr_accum r)) [64 - b..<64]"
    by (rule map_cong) (auto simp: hi)
  finally have top: "map (bit acc) [56 - b..<64] = wbits 8 x @ map (bit (bsr_accum r)) [64 - b..<64]" .
  have "take (bsr_ptr r) (bsr_buf r) = take (bsr_ptr r - 1) (bsr_buf r) @ [x]"
    using p take_Suc_conv_app_nth [of "bsr_ptr r - 1" "bsr_buf r"] by (simp add: x_def)
  moreover have "nat (int b + 8) = b + 8" by linarith
  ultimately show "bsr_abs r' = bsr_abs r"
    using top by (simp add: bsr_abs_def r' b)
qed

lemma bsr_refill_refines:
  assumes "bsr_shape r"
  shows "\<exists>r'. bsr_refill r = Inr r' \<and> bsr_inv r' \<and> bsr_abs r' = bsr_abs r"
  using assms
proof (induction r rule: bsr_refill.induct)
  case (1 r)
  show ?case
  proof (cases "bsr_bits r \<le> 56 \<and> bsr_ptr r > 0")
    case True
    moreover have "\<not> 56 - bsr_bits r > 63"
      using "1.prems" by (auto simp: bsr_shape_def)
    ultimately show ?thesis
      using "1.IH" bsr_refill_byte [OF "1.prems"] by (auto simp: bsr_refill.simps [of r])
  next
    case False
    then show ?thesis
      using "1.prems" by (auto simp: bsr_refill.simps [of r] bsr_inv_def)
  qed
qed

lemma bsr_skip_refines:
  assumes "bsr_shape r" and "int nb \<le> bsr_bits r"
  defines "r' \<equiv> r\<lparr>bsr_accum := push_bit nb (bsr_accum r), bsr_bits := bsr_bits r - int nb\<rparr>"
  shows "bsr_shape r'" and "bsr_abs r' = take (length (bsr_abs r) - nb) (bsr_abs r)"
proof -
  define b where "b = nat (bsr_bits r)"
  have b: "bsr_bits r = int b" "b \<le> 64" "nb \<le> b"
    and clear: "\<And>n. n < 64 - b \<Longrightarrow> \<not> bit (bsr_accum r) n"
    and p: "bsr_ptr r \<le> length (bsr_buf r)"
    using assms(1,2) by (auto simp: bsr_shape_def b_def)
  show "bsr_shape r'"
    using b clear p by (auto simp: bsr_shape_def r'_def bit_simps nat_diff_distrib)
  have "map (bit (push_bit nb (bsr_accum r))) [64 - (b - nb)..<64]
      = map (bit (bsr_accum r)) [64 - b..<64 - nb]"
    using b by (intro nth_equalityI) (auto simp: bit_simps)
  also have "\<dots> = take (b - nb) (map (bit (bsr_accum r)) [64 - b..<64])"
    using b by (simp add: take_map)
  finally have "map (bit (push_bit nb (bsr_accum r))) [64 - (b - nb)..<64]
      = take (b - nb) (map (bit (bsr_accum r)) [64 - b..<64])" .
  then show "bsr_abs r' = take (length (bsr_abs r) - nb) (bsr_abs r)"
    using b p by (simp add: bsr_abs_def r'_def nat_diff_distrib)
qed

lemma bsr_bits_enough:
  "bsr_inv r \<Longrightarrow> nb \<le> 32 \<Longrightarrow> nb \<le> length (bsr_abs r) \<Longrightarrow> int nb \<le> bsr_bits r"
  using length_bsr_abs [of r] by (auto simp: bsr_inv_def bsr_shape_def)

lemma bsr_consume_refines:
  assumes inv: "bsr_inv r" and nb: "nb \<le> 32" and len: "nb \<le> length (bsr_abs r)"
  shows "\<exists>r'. netc_bsr_consume r nb = Inr r' \<and> bsr_inv r' \<and>
    bsr_abs r' = take (length (bsr_abs r) - nb) (bsr_abs r)"
proof -
  define r1 where "r1 = r\<lparr>bsr_accum := push_bit nb (bsr_accum r), bsr_bits := bsr_bits r - int nb\<rparr>"
  have "bsr_shape r1" "bsr_abs r1 = take (length (bsr_abs r) - nb) (bsr_abs r)"
    using bsr_skip_refines [of r nb] bsr_bits_enough [OF inv nb len] inv
    by (auto simp: r1_def bsr_inv_def)
  moreover from this obtain r' where "bsr_refill r1 = Inr r'" "bsr_inv r'" "bsr_abs r' = bsr_abs r1"
    using bsr_refill_refines by blast
  ultimately show ?thesis
    by (auto simp: netc_bsr_consume_def r1_def [symmetric] bsr_inv_def bsr_shape_def)
qed

lemma bsr_consume_underflow:
  assumes inv: "bsr_inv r" and nb: "nb \<le> 32" and len: "length (bsr_abs r) < nb"
  shows "netc_bsr_consume r nb = Inl C_Fail"
proof -
  have "bsr_ptr r = 0" and "bsr_bits r < int nb"
    using inv nb len length_bsr_abs [OF inv] by (auto simp: bsr_inv_def bsr_shape_def)
  then show ?thesis by (simp add: netc_bsr_consume_def bsr_refill.simps)
qed

lemma bsr_peek_refines:
  assumes inv: "bsr_inv r" and nb: "0 < nb" "nb \<le> 32" and len: "nb \<le> length (bsr_abs r)"
  shows "wbits nb (netc_bsr_peek r nb) = drop (length (bsr_abs r) - nb) (bsr_abs r)"
    and "\<And>n. nb \<le> n \<Longrightarrow> \<not> bit (netc_bsr_peek r nb) n"
proof -
  define b where "b = nat (bsr_bits r)"
  have b: "bsr_bits r = int b" "b \<le> 64" "b \<ge> 56 \<or> bsr_ptr r = 0"
    and p: "bsr_ptr r \<le> length (bsr_buf r)"
    using inv by (auto simp: bsr_inv_def bsr_shape_def b_def)
  have nb_b: "nb \<le> b"
    using b nb len length_bsr_abs [OF inv] by (auto simp: b_def)
  have "drop (length (bsr_abs r) - nb) (bsr_abs r) = map (bit (bsr_accum r)) [64 - nb..<64]"
    using nb_b b p by (simp add: bsr_abs_def drop_map)
  also have "\<dots> = wbits nb (netc_bsr_peek r nb)"
    using nb by (intro nth_equalityI) (auto simp: netc_bsr_peek_def bit_simps)
  finally show "wbits nb (netc_bsr_peek r nb) = drop (length (bsr_abs r) - nb) (bsr_abs r)" ..
  show "\<not> bit (netc_bsr_peek r nb) n" if "nb \<le> n" for n
    using that nb bit_imp_le_length [of "bsr_accum r" "64 - nb + n"]
    by (auto simp: netc_bsr_peek_def bit_simps)
qed

lemma bsr_read_pops:
  assumes inv: "bsr_inv r" and nb: "0 < nb" "nb \<le> 32"
    and stack: "bsr_abs r = bs @ wbits nb v" and v: "\<And>n. nb \<le> n \<Longrightarrow> \<not> bit v n"
  shows "\<exists>r'. netc_bsr_read r nb = Inr (v, r') \<and> bsr_inv r' \<and> bsr_abs r' = bs"
proof -
  have len: "nb \<le> length (bsr_abs r)" by (simp add: stack)
  have "wbits nb (netc_bsr_peek r nb) = wbits nb v"
    using bsr_peek_refines(1) [OF inv nb len] by (simp add: stack)
  then have "netc_bsr_peek r nb = v"
    using wbits_eqI [of nb] bsr_peek_refines(2) [OF inv nb len] v by blast
  then show ?thesis
    using bsr_consume_refines [OF inv nb(2) len] by (auto simp: netc_bsr_read_def stack)
qed

section \<open>Opening a flushed stream\<close>

lemma floorlog2_halve:
  fixes v :: byte
  assumes "v \<noteq> 0" and "drop_bit (k + k) v = 0" and "M = push_bit k (mask k)"
  defines "v' \<equiv> (if v AND M \<noteq> 0 then drop_bit k v else v)"
  shows "v' \<noteq> 0" and "drop_bit k v' = 0"
proof -
  have hi: "\<not> bit v n" if "k + k \<le> n" for n
    using assms(2) that bit_drop_bit_eq [of "k + k" v, THEN fun_cong, of "n - (k + k)"] by simp
  have "v AND M = 0 \<longleftrightarrow> drop_bit k v = 0"
  proof
    assume eq: "v AND M = 0"
    show "drop_bit k v = 0"
    proof (rule bit_word_eqI)
      fix n assume "n < LENGTH(8)"
      have "\<not> bit (v AND M) (k + n)" by (simp add: eq)
      then show "bit (drop_bit k v) n = bit 0 n"
        using hi [of "k + n"] bit_imp_le_length [of v "k + n"]
        by (auto simp: assms(3) bit_simps)
    qed
  next
    assume eq: "drop_bit k v = 0"
    have "\<not> bit v n" if "k \<le> n" for n
      using eq that bit_drop_bit_eq [of k v, THEN fun_cong, of "n - k"] by simp
    then show "v AND M = 0"
      by (intro bit_word_eqI) (auto simp: assms(3) bit_simps)
  qed
  then show "v' \<noteq> 0" "drop_bit k v' = 0"
    using assms(1,2) by (auto simp: v'_def drop_bit_drop_bit)
qed

lemma floorlog2_byte_drop:
  assumes "v \<noteq> 0"
  shows "drop_bit (netc_bsr_floorlog2_byte v) v = 1"
proof -
  define v1 where "v1 = (if v AND 0xF0 \<noteq> 0 then drop_bit 4 v else v)"
  define n1 :: nat where "n1 = (if v AND 0xF0 \<noteq> 0 then 4 else 0)"
  define v2 where "v2 = (if v1 AND 0x0C \<noteq> 0 then drop_bit 2 v1 else v1)"
  define n2 where "n2 = (if v1 AND 0x0C \<noteq> 0 then n1 + 2 else n1)"
  define v3 where "v3 = (if v2 AND 0x02 \<noteq> 0 then drop_bit 1 v2 else v2)"
  have eight: "drop_bit 8 v = 0"
    by (rule bit_word_eqI) (auto simp: bit_simps dest: bit_imp_le_length)
  have 1: "v1 \<noteq> 0" "drop_bit 4 v1 = 0"
    using floorlog2_halve [of v 4 "0xF0"] assms eight
    by (simp_all add: v1_def mask_eq_exp_minus_1 push_bit_eq_mult)
  have 2: "v2 \<noteq> 0" "drop_bit 2 v2 = 0"
    using floorlog2_halve [of v1 2 "0x0C"] 1
    by (simp_all add: v2_def mask_eq_exp_minus_1 push_bit_eq_mult)
  have 3: "v3 \<noteq> 0" "drop_bit 1 v3 = 0"
    using floorlog2_halve [of v2 1 "0x02"] 2
    by (simp_all add: v3_def mask_eq_exp_minus_1 push_bit_eq_mult numeral_2_eq_2)
  have "drop_bit (netc_bsr_floorlog2_byte v) v = v3"
    by (simp add: netc_bsr_floorlog2_byte_def v1_def v2_def v3_def drop_bit_drop_bit Let_def
        del: drop_bit_Suc flip: numeral_2_eq_2)
  moreover have "v3 = 1"
  proof (rule ccontr)
    assume "v3 \<noteq> 1"
    have "v3 = of_bool (odd v3)"
      using 3(2) bits_ident [of 1 v3] by (simp add: take_bit_Suc mod_2_eq_odd)
    with 3(1) \<open>v3 \<noteq> 1\<close> show False by (cases "odd v3") simp_all
  qed
  ultimately show ?thesis by simp
qed

lemma floorlog2_byte:
  assumes "v \<noteq> 0"
  shows "netc_bsr_floorlog2_byte v < 8" and "bit v (netc_bsr_floorlog2_byte v)"
    and "\<And>i. netc_bsr_floorlog2_byte v < i \<Longrightarrow> \<not> bit v i"
proof -
  let ?f = "netc_bsr_floorlog2_byte v"
  have "bit (drop_bit ?f v) i \<longleftrightarrow> i = 0" for i
    by (auto simp: floorlog2_byte_drop [OF assms] bit_1_iff)
  then have *: "bit v (?f + i) \<longleftrightarrow> i = 0" for i
    by (simp add: bit_simps)
  show "bit v ?f" using * [of 0] by simp
  then show "?f < 8" using bit_imp_le_length [of v ?f] by simp
  show "\<not> bit v i" if "?f < i" for i
    using * [of "i - ?f"] that by simp
qed

lemma bit_load_raw:
  assumes "fill \<le> 8"
  shows "bit (bsr_load_raw src fill) n \<longleftrightarrow> n < 8 * fill \<and> bit (src ! (n div 8)) (n mod 8)"
  using assms
proof (induction fill)
  case 0
  then show ?case by (simp add: bsr_load_raw_def)
next
  case (Suc f)
  have "bit (bsr_load_raw src (Suc f)) n \<longleftrightarrow>
      bit (bsr_load_raw src f) n \<or> (f * 8 \<le> n \<and> n < 64 \<and> bit (src ! f) (n - f * 8))"
    using Suc.prems by (auto simp: bsr_load_raw_def bit_simps)
  moreover have "f * 8 \<le> n \<and> n < 64 \<and> bit (src ! f) (n - f * 8)
      \<longleftrightarrow> n div 8 = f \<and> bit (src ! (n div 8)) (n mod 8)"
    using Suc.prems bit_imp_le_length [of "src ! f" "n - f * 8"]
    by (auto simp: minus_mult_div_eq_mod [symmetric] mult.commute div_nat_eqI)
  ultimately show ?case
    using Suc by (auto simp: less_Suc_eq mult.commute)
qed

lemma nth_bytes_bits: "n < 8 * length bs \<Longrightarrow> bytes_bits bs ! n = bit (bs ! (n div 8)) (n mod 8)"
proof (induction bs arbitrary: n)
  case (Cons b bs)
  show ?case
  proof (cases "n < 8")
    case False
    then have "n div 8 = Suc ((n - 8) div 8)" "n mod 8 = (n - 8) mod 8"
      by (auto simp: div_if mod_if)
    with False Cons show ?thesis by (simp add: nth_append)
  qed (simp add: nth_append)
qed simp

lemma bsr_init_loaded:
  assumes "buf \<noteq> []"
  defines "fill \<equiv> (if length buf < 8 then length buf else 8)"
  defines "r \<equiv> \<lparr>bsr_buf = buf, bsr_ptr = length buf - fill,
      bsr_accum = push_bit (64 - fill * 8) (bsr_load_raw (drop (length buf - fill) buf) fill),
      bsr_bits = int (fill * 8)\<rparr>"
  shows "bsr_shape r" and "bsr_abs r = bytes_bits buf" and "8 \<le> bsr_bits r"
    and "bsr_bits r = 64 \<or> bsr_ptr r = 0"
proof -
  define src where "src = drop (length buf - fill) buf"
  have fill: "0 < fill" "fill \<le> 8" "fill \<le> length buf" and src: "length src = fill"
    using assms(1) by (auto simp: fill_def src_def Suc_le_eq)
  show "bsr_shape r"
    using fill by (auto simp: r_def bsr_shape_def bit_simps nat_mult_distrib)
  have "map (bit (push_bit (64 - fill * 8) (bsr_load_raw src fill))) [64 - fill * 8..<64]
      = bytes_bits src"
    using fill src
    by (intro nth_equalityI) (auto simp: bit_simps bit_load_raw nth_bytes_bits)
  moreover have "bytes_bits buf = bytes_bits (take (length buf - fill) buf) @ bytes_bits src"
    by (simp add: src_def flip: bytes_bits_append)
  ultimately show "bsr_abs r = bytes_bits buf"
    by (simp add: bsr_abs_def r_def src_def nat_mult_distrib)
  show "8 \<le> bsr_bits r" "bsr_bits r = 64 \<or> bsr_ptr r = 0"
    using fill by (auto simp: r_def fill_def)
qed

lemma wbits_top_byte: "wbits 8 (ucast (drop_bit 56 acc) :: byte) = map (bit (acc :: u64)) [56..<64]"
  by (simp add: wbits_def bit_simps upt_rec)

lemma bytes_bits_last_byte:
  assumes "buf \<noteq> []"
  shows "drop (length (bytes_bits buf) - 8) (bytes_bits buf) = wbits 8 (last buf)"
proof -
  have "bytes_bits buf = bytes_bits (butlast buf) @ wbits 8 (last buf)"
    using assms by (metis append_butlast_last_id bytes_bits_append bytes_bits_Cons bytes_bits_Nil
        append_Nil2)
  then show ?thesis by simp
qed

lemma bsr_init_last_byte:
  assumes "buf \<noteq> []"
  defines "fill \<equiv> (if length buf < 8 then length buf else 8)"
  shows "(ucast (drop_bit 56 (push_bit (64 - fill * 8)
      (bsr_load_raw (drop (length buf - fill) buf) fill))) :: byte) = last buf"
proof -
  define acc where "acc = push_bit (64 - fill * 8) (bsr_load_raw (drop (length buf - fill) buf) fill)"
  define r where "r = \<lparr>bsr_buf = buf, bsr_ptr = length buf - fill, bsr_accum = acc,
      bsr_bits = int (fill * 8)\<rparr>"
  note loaded = bsr_init_loaded [OF assms(1), folded fill_def, folded acc_def, folded r_def]
  have "drop (length (bsr_abs r) - 8) (bsr_abs r) = map (bit acc) [56..<64]"
    using loaded(1,3) by (auto simp: bsr_abs_def r_def bsr_shape_def drop_map)
  then have "wbits 8 (ucast (drop_bit 56 acc) :: byte) = wbits 8 (last buf)"
    by (simp add: wbits_top_byte loaded(2) bytes_bits_last_byte [OF assms(1), simplified])
  then have "(ucast (drop_bit 56 acc) :: byte) = last buf"
    by (rule wbits_eqI) (auto dest: bit_imp_le_length)
  then show ?thesis by (simp only: acc_def)
qed

lemma bsr_init_sentinel:
  assumes "buf \<noteq> []" and "last buf \<noteq> 0"
  shows "bsr_inv (netc_bsr_init buf)"
    and "bsr_abs (netc_bsr_init buf)
       = take (length (bytes_bits buf) - (8 - netc_bsr_floorlog2_byte (last buf))) (bytes_bits buf)"
proof -
  define fill where "fill = (if length buf < 8 then length buf else 8)"
  define acc where "acc = push_bit (64 - fill * 8) (bsr_load_raw (drop (length buf - fill) buf) fill)"
  define r where "r = \<lparr>bsr_buf = buf, bsr_ptr = length buf - fill, bsr_accum = acc,
      bsr_bits = int (fill * 8)\<rparr>"
  define f where "f = netc_bsr_floorlog2_byte (last buf)"
  note loaded = bsr_init_loaded [OF assms(1), folded fill_def, folded acc_def, folded r_def]
  note last = bsr_init_last_byte [OF assms(1), folded fill_def, folded acc_def]
  have f: "f < 8" using floorlog2_byte(1) [OF assms(2)] by (simp add: f_def)
  have fill8: "8 \<le> fill * 8" using loaded(3) by (simp add: r_def)
  have init: "netc_bsr_init buf
      = r\<lparr>bsr_accum := push_bit (8 - f) (bsr_accum r), bsr_bits := bsr_bits r - int (8 - f)\<rparr>"
  proof -
    have skip: "7 - f + 1 = 8 - f" using f by simp
    show ?thesis
      using assms f fill8
      by (simp only: netc_bsr_init_def Let_def fill_def [symmetric] acc_def [symmetric]
          last r_def f_def [symmetric] skip) (simp add: of_nat_diff)
  qed
  have *: "int (8 - f) \<le> bsr_bits r" using loaded(3) f by linarith
  show "bsr_abs (netc_bsr_init buf)
      = take (length (bytes_bits buf) - (8 - netc_bsr_floorlog2_byte (last buf))) (bytes_bits buf)"
    using bsr_skip_refines(2) [OF loaded(1) *] by (simp only: init loaded(2) f_def)
  show "bsr_inv (netc_bsr_init buf)"
    unfolding init bsr_inv_def using bsr_skip_refines(1) [OF loaded(1) *] loaded(4) f
    by (auto simp: r_def)
qed

lemma bsr_init_refines:
  assumes bits: "bytes_bits buf = bs @ True # replicate k False" and k: "k < 8"
  shows "bsr_inv (netc_bsr_init buf)" and "bsr_abs (netc_bsr_init buf) = bs"
proof -
  let ?x = "last buf"
  have ne: "buf \<noteq> []" using bits by auto
  then have long: "8 \<le> length (bytes_bits buf)"
    by (cases buf) simp_all
  have x_nth: "bit ?x i \<longleftrightarrow> i = 7 - k" if i: "7 - k \<le> i" "i < 8" for i
  proof -
    have "bit ?x i = wbits 8 ?x ! i" using i by simp
    also have "\<dots> = bytes_bits buf ! (length (bytes_bits buf) - 8 + i)"
      unfolding bytes_bits_last_byte [OF ne, symmetric] by (rule nth_drop [OF diff_le_self])
    also have "length (bytes_bits buf) - 8 + i = length bs + (i - (7 - k))"
      using long i k bits by (simp del: length_bytes_bits)
    finally show ?thesis
      unfolding bits using i k by (auto simp: nth_append nth_Cons')
  qed
  have bit7: "bit ?x (7 - k)" using x_nth by simp
  then have nz: "?x \<noteq> 0" by auto
  have "netc_bsr_floorlog2_byte ?x = 7 - k"
  proof (rule antisym)
    show "7 - k \<le> netc_bsr_floorlog2_byte ?x"
      using floorlog2_byte(3) [OF nz] bit7 not_less by blast
    show "netc_bsr_floorlog2_byte ?x \<le> 7 - k"
      using x_nth [of "netc_bsr_floorlog2_byte ?x"] floorlog2_byte(1,2) [OF nz]
      by (cases "7 - k \<le> netc_bsr_floorlog2_byte ?x") auto
  qed
  then show "bsr_inv (netc_bsr_init buf)" "bsr_abs (netc_bsr_init buf) = bs"
    using bsr_init_sentinel [OF ne nz] bits k by simp_all
qed

lemma bsr_peek_less:
  assumes "0 < nb" and "nb \<le> 32"
  shows "unat (netc_bsr_peek r nb) < 2 ^ nb"
proof -
  have "unat (bsr_accum r) < 2 ^ 64" using unsigned_less [of "bsr_accum r"] by simp
  moreover have "(2::nat) ^ 64 = 2 ^ nb * 2 ^ (64 - nb)" using assms by (simp flip: power_add)
  ultimately have "unat (bsr_accum r) < 2 ^ nb * 2 ^ (64 - nb)" by simp
  then have "unat (bsr_accum r) div 2 ^ (64 - nb) < 2 ^ nb" by (rule less_mult_imp_div_less)
  then have "unat (drop_bit (64 - nb) (bsr_accum r)) < 2 ^ nb"
    unfolding unsigned_drop_bit_eq drop_bit_eq_div [where 'a = nat]
    by (rule order_le_less_trans [OF div_le_mono [OF take_bit_nat_less_eq_self]])
  then show ?thesis
    by (rule order_le_less_trans [rotated])
       (simp add: netc_bsr_peek_def unsigned_ucast_eq take_bit_nat_less_eq_self)
qed

section \<open>The bit-stack contract\<close>

text \<open>
  What an entropy coder relies on: pushing a value and popping the same number of bits are
  inverse, and closing a writer and opening the bytes gives a reader with the same stack.
\<close>

fun push_all :: "('w \<Rightarrow> u32 \<Rightarrow> nat \<Rightarrow> 'w option) \<Rightarrow> 'w \<Rightarrow> (u32 \<times> nat) list \<Rightarrow> 'w option" where
  "push_all push w [] = Some w"
| "push_all push w ((v, nb) # vs) =
     (case push w v nb of None \<Rightarrow> None | Some w' \<Rightarrow> push_all push w' vs)"

fun pop_all :: "('r \<Rightarrow> nat \<Rightarrow> cerror + (u32 \<times> 'r)) \<Rightarrow> 'r \<Rightarrow> nat list \<Rightarrow> cerror + u32 list" where
  "pop_all pop r [] = Inr []"
| "pop_all pop r (nb # nbs) =
     (case pop r nb of Inl e \<Rightarrow> Inl e
      | Inr (v, r') \<Rightarrow> (case pop_all pop r' nbs of Inl e \<Rightarrow> Inl e | Inr vs \<Rightarrow> Inr (v # vs)))"

definition fits :: "u32 \<times> nat \<Rightarrow> bool" where
  "fits x \<longleftrightarrow> 0 < snd x \<and> snd x \<le> 32 \<and> (\<forall>n \<ge> snd x. \<not> bit (fst x) n)"

lemma fits_of_nat: "0 < nb \<Longrightarrow> nb \<le> 32 \<Longrightarrow> v < 2 ^ nb \<Longrightarrow> fits (word_of_nat v, nb)"
proof -
  assume "0 < nb" "nb \<le> 32" "v < 2 ^ nb"
  moreover have "\<not> bit v n" if "nb \<le> n" for n
  proof -
    have "v < 2 ^ n"
      by (rule order_less_le_trans [OF \<open>v < 2 ^ nb\<close> power_increasing [OF that]]) simp
    then show ?thesis by (simp add: bit_iff_odd)
  qed
  ultimately show ?thesis by (auto simp: fits_def bit_simps)
qed

definition stack_bits :: "(u32 \<times> nat) list \<Rightarrow> bool list" where
  "stack_bits vs = concat (map (\<lambda>(v, nb). wbits nb v) vs)"

locale bit_stack =
  fixes push :: "'w \<Rightarrow> u32 \<Rightarrow> nat \<Rightarrow> 'w option"
    and wstack :: "'w \<Rightarrow> bool list" and winv :: "'w \<Rightarrow> bool" and room :: "'w \<Rightarrow> nat"
    and close :: "'w \<Rightarrow> byte list option"
    and reopen :: "byte list \<Rightarrow> 'r"
    and pop :: "'r \<Rightarrow> nat \<Rightarrow> cerror + (u32 \<times> 'r)"
    and rstack :: "'r \<Rightarrow> bool list" and rinv :: "'r \<Rightarrow> bool"
  assumes push_stack: "winv w \<Longrightarrow> fits (v, nb) \<Longrightarrow> push w v nb = Some w' \<Longrightarrow>
        winv w' \<and> wstack w' = wstack w @ wbits nb v \<and> room w' = room w"
    and push_room: "winv w \<Longrightarrow> length (wstack w) + nb \<le> room w \<Longrightarrow> \<exists>w'. push w v nb = Some w'"
    and close_room: "winv w \<Longrightarrow> length (wstack w) + 1 \<le> room w \<Longrightarrow> \<exists>bytes. close w = Some bytes"
    and close_open: "winv w \<Longrightarrow> close w = Some bytes \<Longrightarrow>
        rinv (reopen bytes) \<and> rstack (reopen bytes) = wstack w"
    and pop_stack: "rinv r \<Longrightarrow> fits (v, nb) \<Longrightarrow> rstack r = bs @ wbits nb v \<Longrightarrow>
        \<exists>r'. pop r nb = Inr (v, r') \<and> rinv r' \<and> rstack r' = bs"
    and pop_defined: "rinv r \<Longrightarrow> 0 < nb \<Longrightarrow> nb \<le> 32 \<Longrightarrow>
        pop r nb = Inl C_Fail \<or> (\<exists>v r'. pop r nb = Inr (v, r') \<and> rinv r')"
begin

lemma push_all_stack:
  "winv w \<Longrightarrow> list_all fits vs \<Longrightarrow> push_all push w vs = Some w' \<Longrightarrow>
     winv w' \<and> wstack w' = wstack w @ stack_bits vs \<and> room w' = room w"
proof (induction vs arbitrary: w)
  case (Cons x vs)
  then show ?case
    by (cases x) (fastforce simp: stack_bits_def split: option.splits dest: push_stack)
qed (simp add: stack_bits_def)

lemma push_all_room:
  "winv w \<Longrightarrow> list_all fits vs \<Longrightarrow> length (wstack w) + length (stack_bits vs) \<le> room w \<Longrightarrow>
     \<exists>w'. push_all push w vs = Some w'"
proof (induction vs arbitrary: w)
  case (Cons x vs)
  obtain v nb where x: "x = (v, nb)" by (cases x)
  from Cons.prems obtain w1 where w1: "push w v nb = Some w1"
    using push_room [of w nb v] by (auto simp: x stack_bits_def)
  then have "winv w1 \<and> wstack w1 = wstack w @ wbits nb v \<and> room w1 = room w"
    using push_stack [of w v nb w1] Cons.prems by (simp add: x)
  then show ?case
    using Cons.IH [of w1] Cons.prems w1 by (auto simp: x stack_bits_def)
qed simp

lemma pop_all_stack:
  "rinv r \<Longrightarrow> list_all fits vs \<Longrightarrow> rstack r = bs @ stack_bits (rev vs) \<Longrightarrow>
     pop_all pop r (map snd vs) = Inr (map fst vs)"
proof (induction vs arbitrary: r)
  case (Cons x vs)
  obtain v nb where x: "x = (v, nb)" by (cases x)
  obtain r' where "pop r nb = Inr (v, r')" "rinv r'" "rstack r' = bs @ stack_bits (rev vs)"
    using pop_stack [of r v nb "bs @ stack_bits (rev vs)"] Cons.prems
    by (auto simp: x stack_bits_def)
  then show ?case using Cons by (simp add: x)
qed simp

lemma pop_all_defined:
  "rinv r \<Longrightarrow> \<forall>nb \<in> set nbs. 0 < nb \<and> nb \<le> 32 \<Longrightarrow> pop_all pop r nbs \<noteq> Inl C_Undefined"
proof (induction nbs arbitrary: r)
  case (Cons nb nbs)
  then show ?case
    using pop_defined [of r nb] by (auto split: sum.splits)
qed simp

lemma write_close_read:
  assumes "winv w" and "wstack w = []" and "list_all fits vs"
    and "length (stack_bits vs) + 1 \<le> room w"
  shows "\<exists>w' bytes. push_all push w vs = Some w' \<and> close w' = Some bytes \<and>
    pop_all pop (reopen bytes) (map snd (rev vs)) = Inr (map fst (rev vs))"
proof -
  obtain w' where w': "push_all push w vs = Some w'"
    using push_all_room [of w vs] assms by auto
  then have inv': "winv w'" "wstack w' = stack_bits vs" "room w' = room w"
    using push_all_stack assms by auto
  then obtain bytes where bytes: "close w' = Some bytes"
    using close_room [of w'] assms by auto
  have "pop_all pop (reopen bytes) (map snd (rev vs)) = Inr (map fst (rev vs))"
    using pop_all_stack [of "reopen bytes" "rev vs" "[]"] close_open [OF inv'(1) bytes] inv' assms(3)
    by simp
  then show ?thesis using w' bytes by blast
qed

end

definition bsw_bytes :: "netc_bsw \<Rightarrow> byte list option" where
  "bsw_bytes w = map_option bsw_buf (netc_bsw_flush w)"

lemma bsr_read_defined:
  assumes inv: "bsr_inv r" and nb: "0 < nb" "nb \<le> 32"
  shows "netc_bsr_read r nb = Inl C_Fail \<or> (\<exists>v r'. netc_bsr_read r nb = Inr (v, r') \<and> bsr_inv r')"
proof (cases "nb \<le> length (bsr_abs r)")
  case True
  then show ?thesis
    using bsr_consume_refines [OF inv nb(2)] by (auto simp: netc_bsr_read_def)
next
  case False
  then show ?thesis
    using bsr_consume_underflow [OF inv nb(2)] by (simp add: netc_bsr_read_def)
qed

interpretation bitstream: bit_stack netc_bsw_write bsw_abs bsw_inv "\<lambda>w. 8 * bsw_cap w" bsw_bytes
  netc_bsr_init netc_bsr_read bsr_abs bsr_inv
proof unfold_locales
  fix w v nb w'
  assume "bsw_inv w" "fits (v, nb)" "netc_bsw_write w v nb = Some w'"
  then show "bsw_inv w' \<and> bsw_abs w' = bsw_abs w @ wbits nb v \<and> 8 * bsw_cap w' = 8 * bsw_cap w"
    using bsw_write_refines [of w nb v w'] by (simp add: fits_def)
next
  fix w :: netc_bsw and bytes
  assume "bsw_inv w" "bsw_bytes w = Some bytes"
  then show "bsr_inv (netc_bsr_init bytes) \<and> bsr_abs (netc_bsr_init bytes) = bsw_abs w"
    using bsw_flush_refines bsr_init_refines by (fastforce simp: bsw_bytes_def)
next
  fix r v nb bs
  assume "bsr_inv r" "fits (v, nb)" "bsr_abs r = bs @ wbits nb v"
  then show "\<exists>r'. netc_bsr_read r nb = Inr (v, r') \<and> bsr_inv r' \<and> bsr_abs r' = bs"
    using bsr_read_pops [of r nb bs v] by (simp add: fits_def)
next
  fix r and nb :: nat
  assume "bsr_inv r" "0 < nb" "nb \<le> 32"
  then show "netc_bsr_read r nb = Inl C_Fail \<or> (\<exists>v r'. netc_bsr_read r nb = Inr (v, r') \<and> bsr_inv r')"
    by (rule bsr_read_defined)
qed (auto simp: bsw_bytes_def intro: bsw_write_succeeds dest: bsw_flush_succeeds)

section \<open>Properties of the bitstream\<close>

definition netc_bitstream_roundtrip :: "nat \<Rightarrow> (u32 \<times> nat) list \<Rightarrow> (cerror + u32 list) option" where
  "netc_bitstream_roundtrip cap vs =
     (case push_all netc_bsw_write (netc_bsw_init cap) vs of None \<Rightarrow> None
      | Some w \<Rightarrow> (case netc_bsw_flush w of None \<Rightarrow> None
        | Some w' \<Rightarrow> Some (pop_all netc_bsr_read (netc_bsr_init (bsw_buf w')) (map snd (rev vs)))))"

text \<open>
  C14.  A buffer that has one bit more than the values need is always enough: the writer accepts
  every value, the flush succeeds, and a reader opened on the flushed bytes returns the values in
  the reverse order of the writes.
\<close>

theorem bitstream_roundtrip:
  assumes "list_all fits vs" and "length (stack_bits vs) + 1 \<le> 8 * cap"
  shows "netc_bitstream_roundtrip cap vs = Some (Inr (map fst (rev vs)))"
proof -
  have "\<exists>w' bytes. push_all netc_bsw_write (netc_bsw_init cap) vs = Some w' \<and>
      bsw_bytes w' = Some bytes \<and>
      pop_all netc_bsr_read (netc_bsr_init bytes) (map snd (rev vs)) = Inr (map fst (rev vs))"
    using assms by (intro bitstream.write_close_read) simp_all
  then show ?thesis
    by (auto simp: netc_bitstream_roundtrip_def bsw_bytes_def)
qed

lemma fits_witness: "list_all fits [(5, 3), (0xABCDE, 20), (1, 1)]"
  using fits_of_nat [of 3 5] fits_of_nat [of 20 "0xABCDE"] fits_of_nat [of 1 1] by simp

theorem bitstream_roundtrip_witness:
  "netc_bitstream_roundtrip 4 [(5, 3), (0xABCDE, 20), (1, 1)] = Some (Inr [1, 0xABCDE, 5])"
  using bitstream_roundtrip [OF fits_witness, of 4] by (simp add: stack_bits_def)

text \<open>
   On a stream whose last byte is not zero, which every flushed stream is, no sequence of reads
  of 1 to 32 bits executes an undefined operation, whatever the bytes are: at worst a read reports
  that the stream is exhausted.
\<close>

theorem bitstream_reads_defined:
  assumes "buf \<noteq> []" and "last buf \<noteq> 0" and "\<forall>nb \<in> set nbs. 0 < nb \<and> nb \<le> 32"
  shows "pop_all netc_bsr_read (netc_bsr_init buf) nbs \<noteq> Inl C_Undefined"
  using bitstream.pop_all_defined [OF bsr_init_sentinel(1)] assms by blast

theorem bitstream_reads_defined_witness:
  "pop_all netc_bsr_read (netc_bsr_init [0xFF, 0x13]) [9, 32] \<noteq> Inl C_Undefined"
  using bitstream_reads_defined [of "[0xFF, 0x13]" "[9, 32]"] by simp

text \<open>
  C15.  The guard of \<open>netc_bsr_init\<close> against a stream without a sentinel is not effective on
  more than eight bytes: it clears the bit count and leaves bytes to load, so the next read of 8
  bits or more refills with a shift of 64 or more, which C leaves undefined.
\<close>

theorem bsr_missing_sentinel_undefined:
  assumes "8 < length buf" and "last buf = 0" and "8 \<le> nb"
  shows "netc_bsr_read (netc_bsr_init buf) nb = Inl C_Undefined"
proof -
  have ne: "buf \<noteq> []" using assms(1) by auto
  have "bsr_bits (netc_bsr_init buf) = 0 \<and> bsr_ptr (netc_bsr_init buf) = length buf - 8"
    using assms ne bsr_init_last_byte [OF ne] by (simp add: netc_bsr_init_def Let_def)
  then show ?thesis
    using assms by (simp add: netc_bsr_read_def netc_bsr_consume_def bsr_refill.simps Let_def)
qed

theorem bsr_missing_sentinel_undefined_witness:
  "netc_bsr_read (netc_bsr_init [1, 2, 3, 4, 5, 6, 7, 8, 0]) 12 = Inl C_Undefined"
  by (rule bsr_missing_sentinel_undefined) simp_all

end
