(* ===== verification/Netc_Tans.thy ===== *)
theory Netc_Tans
  imports Netc_Tans_Table Netc_Bitstream
begin

text \<open>
  The tANS codec, \<open>src/src/algo/netc_tans.c\<close>: the single-state coder, the position-context and the bigram-context coders, and the 10-bit coder.
  All of them run one step function over a table chosen per position.  The locale \<open>ans_coder\<close>
  states what one encode step and one decode step promise each other; the loops are verified once
  in it and it is interpreted for the 12-bit and for the 10-bit tables.

  The state \<open>X\<close> is a natural number; the unsigned 32-bit subtractions that C wraps are
  written out.  A coder that returns \<open>-1\<close> (or the state \<open>0\<close>) returns \<open>Inl C_Fail\<close>; a table
  access out of range is \<open>Inl C_Undefined\<close>.  Pointer arguments are never \<open>NULL\<close>; prefetches
  have no effect on the result.
\<close>

section \<open>Position and bigram contexts\<close>

definition netc_bigram_class :: "byte \<Rightarrow> byte list option \<Rightarrow> nat" where
  "netc_bigram_class prev_byte class_map =
     (case class_map of Some m \<Rightarrow> unat (m ! unat prev_byte)
      | None \<Rightarrow> unat (drop_bit 6 prev_byte))"

definition bucket_lut :: "nat list" where
  "bucket_lut = replicate 8 0 @ replicate 8 1 @ replicate 8 2 @ replicate 8 3
     @ replicate 16 4 @ replicate 16 5 @ replicate 32 6 @ replicate 32 7
     @ replicate 64 8 @ replicate 64 9"

definition netc_ctx_bucket :: "nat \<Rightarrow> nat" where
  "netc_ctx_bucket offset =
     (if offset < 256 then bucket_lut ! offset
      else if offset < 384 then 10
      else if offset < 512 then 11
      else if offset < 1024 then 12
      else if offset < 4096 then 13
      else if offset < 16384 then 14
      else 15)"

section \<open>One step\<close>

definition tans_encode_step ::
    "netc_tans_table \<Rightarrow> nat \<Rightarrow> byte \<Rightarrow> netc_bsw \<Rightarrow> cerror + (nat \<times> netc_bsw)" where
  "tans_encode_step tbl X symb bsw =
     (let e = tt_encode tbl ! unat symb;
          f = unat (en_freq e);
          lower = unat (en_lower e);
          nb_hi = unat (en_nb_hi e);
          nb = (if nb_hi = 0 \<or> X \<ge> lower then nb_hi else nb_hi - 1)
      in if nb \<ge> 32 then Inl C_Undefined
         else
           let j = u32_sub (X div 2 ^ nb) f
           in case (if nb > 0 then netc_bsw_write bsw (word_of_nat (X mod 2 ^ nb)) nb else Some bsw) of
                None \<Rightarrow> Inl C_Fail
              | Some bsw' \<Rightarrow>
                  (case nth_opt (tt_encode_state tbl) ((unat (en_cumul e) + j) mod 2 ^ 32) of
                     None \<Rightarrow> Inl C_Undefined
                   | Some x \<Rightarrow> Inr (unat x, bsw')))"

text \<open>The step of the context and 10-bit coders, which check for an absent symbol first.\<close>

definition tans_encode_step_checked ::
    "netc_tans_table \<Rightarrow> nat \<Rightarrow> byte \<Rightarrow> netc_bsw \<Rightarrow> cerror + (nat \<times> netc_bsw)" where
  "tans_encode_step_checked tbl X symb bsw =
     (if en_freq (tt_encode tbl ! unat symb) = 0 then Inl C_Fail
      else tans_encode_step tbl X symb bsw)"

text \<open>The decode step for tables of \<open>2 ^ L\<close> slots.\<close>

definition tans_decode_step ::
    "nat \<Rightarrow> netc_tans_table \<Rightarrow> nat \<Rightarrow> netc_bsr \<Rightarrow> cerror + (byte \<times> nat \<times> netc_bsr)" where
  "tans_decode_step L tbl X bsr =
     (case nth_opt (tt_decode tbl) (u32_sub X (2 ^ L)) of None \<Rightarrow> Inl C_Undefined
      | Some d \<Rightarrow>
          let nb = unat (de_nb_bits d)
          in case (if nb > 0 then netc_bsr_read bsr nb else Inr (0, bsr)) of Inl e \<Rightarrow> Inl e
             | Inr (bits_val, bsr') \<Rightarrow>
                 Inr (de_symbol d, (unat (de_next_state_base d) + unat bits_val) mod 2 ^ 32, bsr'))"

section \<open>The loops\<close>

text \<open>
  \<open>encode_loop body n\<close> is \<open>for (i = n; i-- > 0; ) body(i)\<close>; \<open>decode_loop body n dst\<close>
  appends \<open>n\<close> symbols to \<open>dst\<close>, the index being the number of symbols decoded so far.
\<close>

primrec encode_loop ::
    "(nat \<Rightarrow> nat \<Rightarrow> 'w \<Rightarrow> cerror + (nat \<times> 'w)) \<Rightarrow> nat \<Rightarrow> nat \<Rightarrow> 'w \<Rightarrow> cerror + (nat \<times> 'w)" where
  "encode_loop body 0 X w = Inr (X, w)"
| "encode_loop body (Suc i) X w =
     (case body i X w of Inl e \<Rightarrow> Inl e | Inr (X', w') \<Rightarrow> encode_loop body i X' w')"

primrec decode_loop ::
    "(byte list \<Rightarrow> nat \<Rightarrow> 'r \<Rightarrow> cerror + (byte \<times> nat \<times> 'r)) \<Rightarrow> nat \<Rightarrow> byte list \<Rightarrow> nat \<Rightarrow> 'r \<Rightarrow>
     cerror + byte list" where
  "decode_loop body 0 dst X r = Inr dst"
| "decode_loop body (Suc n) dst X r =
     (case body dst X r of Inl e \<Rightarrow> Inl e
      | Inr (b, X', r') \<Rightarrow> decode_loop body n (dst @ [b]) X' r')"

section \<open>The coders\<close>

definition netc_tans_encode ::
    "netc_tans_table \<Rightarrow> byte list \<Rightarrow> nat \<Rightarrow> netc_bsw \<Rightarrow> nat \<Rightarrow> cerror + (nat \<times> netc_bsw)" where
  "netc_tans_encode tbl src src_size bsw initial_state =
     (if \<not> tt_valid tbl \<or> src_size = 0 then Inl C_Fail
      else encode_loop (\<lambda>i X w. tans_encode_step tbl X (src ! i) w) src_size
             (max initial_state NETC_TANS_TABLE_SIZE) bsw)"

definition netc_tans_decode ::
    "netc_tans_table \<Rightarrow> netc_bsr \<Rightarrow> nat \<Rightarrow> nat \<Rightarrow> cerror + byte list" where
  "netc_tans_decode tbl bsr dst_size initial_state =
     (if \<not> tt_valid tbl \<or> dst_size = 0 then Inl C_Fail
      else if initial_state < NETC_TANS_TABLE_SIZE \<or> initial_state \<ge> 2 * NETC_TANS_TABLE_SIZE
      then Inl C_Fail
      else decode_loop (\<lambda>dst X r. tans_decode_step NETC_TANS_TABLE_LOG tbl X r) dst_size []
             initial_state bsr)"

definition netc_tans_encode_pctx ::
    "netc_tans_table list \<Rightarrow> byte list \<Rightarrow> nat \<Rightarrow> netc_bsw \<Rightarrow> nat \<Rightarrow> cerror + (nat \<times> netc_bsw)" where
  "netc_tans_encode_pctx tables src src_size bsw initial_state =
     (if src_size = 0 then Inl C_Fail
      else encode_loop
             (\<lambda>i X w. let tbl = tables ! netc_ctx_bucket i
                      in if \<not> tt_valid tbl then Inl C_Fail
                         else tans_encode_step_checked tbl X (src ! i) w)
             src_size (max initial_state NETC_TANS_TABLE_SIZE) bsw)"

definition netc_tans_decode_pctx ::
    "netc_tans_table list \<Rightarrow> netc_bsr \<Rightarrow> nat \<Rightarrow> nat \<Rightarrow> cerror + byte list" where
  "netc_tans_decode_pctx tables bsr dst_size initial_state =
     (if dst_size = 0 then Inl C_Fail
      else if initial_state < NETC_TANS_TABLE_SIZE \<or> initial_state \<ge> 2 * NETC_TANS_TABLE_SIZE
      then Inl C_Fail
      else decode_loop
             (\<lambda>dst X r. let tbl = tables ! netc_ctx_bucket (length dst)
                        in if \<not> tt_valid tbl then Inl C_Fail
                           else tans_decode_step NETC_TANS_TABLE_LOG tbl X r)
             dst_size [] initial_state bsr)"

text \<open>The table of a position in the bigram coders: the bigram table, else the unigram table.\<close>

definition bigram_select ::
    "netc_tans_table list list \<Rightarrow> netc_tans_table list \<Rightarrow> byte list option \<Rightarrow> nat \<Rightarrow> byte \<Rightarrow>
     netc_tans_table option" where
  "bigram_select bigram_tables unigram_tables class_map i prev_byte =
     (let bucket = netc_ctx_bucket i;
          bclass = netc_bigram_class prev_byte class_map
      in case nth_opt (bigram_tables ! bucket) bclass of None \<Rightarrow> None
         | Some tbl \<Rightarrow> Some (if tt_valid tbl then tbl else unigram_tables ! bucket))"

definition netc_tans_encode_pctx_bigram ::
    "netc_tans_table list list \<Rightarrow> netc_tans_table list \<Rightarrow> byte list option \<Rightarrow> byte list \<Rightarrow> nat \<Rightarrow>
     netc_bsw \<Rightarrow> nat \<Rightarrow> cerror + (nat \<times> netc_bsw)" where
  "netc_tans_encode_pctx_bigram bigram_tables unigram_tables class_map src src_size bsw initial_state =
     (if src_size = 0 then Inl C_Fail
      else encode_loop
             (\<lambda>i X w.
                case bigram_select bigram_tables unigram_tables class_map i
                       (if i > 0 then src ! (i - 1) else 0) of
                  None \<Rightarrow> Inl C_Undefined
                | Some tbl \<Rightarrow> if \<not> tt_valid tbl then Inl C_Fail
                              else tans_encode_step_checked tbl X (src ! i) w)
             src_size (max initial_state NETC_TANS_TABLE_SIZE) bsw)"

definition netc_tans_decode_pctx_bigram ::
    "netc_tans_table list list \<Rightarrow> netc_tans_table list \<Rightarrow> byte list option \<Rightarrow> netc_bsr \<Rightarrow> nat \<Rightarrow>
     nat \<Rightarrow> cerror + byte list" where
  "netc_tans_decode_pctx_bigram bigram_tables unigram_tables class_map bsr dst_size initial_state =
     (if dst_size = 0 then Inl C_Fail
      else if initial_state < NETC_TANS_TABLE_SIZE \<or> initial_state \<ge> 2 * NETC_TANS_TABLE_SIZE
      then Inl C_Fail
      else decode_loop
             (\<lambda>dst X r.
                case bigram_select bigram_tables unigram_tables class_map (length dst)
                       (if length dst > 0 then dst ! (length dst - 1) else 0) of
                  None \<Rightarrow> Inl C_Undefined
                | Some tbl \<Rightarrow> if \<not> tt_valid tbl then Inl C_Fail
                              else tans_decode_step NETC_TANS_TABLE_LOG tbl X r)
             dst_size [] initial_state bsr)"

definition netc_tans_encode_10 ::
    "netc_tans_table_10 \<Rightarrow> byte list \<Rightarrow> nat \<Rightarrow> netc_bsw \<Rightarrow> nat \<Rightarrow> cerror + (nat \<times> netc_bsw)" where
  "netc_tans_encode_10 tbl src src_size bsw initial_state =
     (if \<not> tt_valid tbl \<or> src_size = 0 then Inl C_Fail
      else encode_loop (\<lambda>i X w. tans_encode_step_checked tbl X (src ! i) w) src_size
             (max initial_state NETC_TANS_TABLE_SIZE_10) bsw)"

definition netc_tans_decode_10 ::
    "netc_tans_table_10 \<Rightarrow> netc_bsr \<Rightarrow> nat \<Rightarrow> nat \<Rightarrow> cerror + byte list" where
  "netc_tans_decode_10 tbl bsr dst_size initial_state =
     (if \<not> tt_valid tbl \<or> dst_size = 0 then Inl C_Fail
      else if initial_state < NETC_TANS_TABLE_SIZE_10 \<or> initial_state \<ge> 2 * NETC_TANS_TABLE_SIZE_10
      then Inl C_Fail
      else decode_loop (\<lambda>dst X r. tans_decode_step NETC_TANS_TABLE_LOG_10 tbl X r) dst_size []
             initial_state bsr)"

section \<open>The contract of one coding step\<close>

text \<open>
  A coder over a bit stack: a step pushes at most \<open>cost\<close> bits and its decode step, run on the
  state it produced, returns the symbol and restores both the previous state and the stack.  On any
  other stack the decode step fails or stays within the valid states.
\<close>

locale ans_coder = bit_stack push wstack winv room close reopen pop rstack rinv
  for push :: "'w \<Rightarrow> u32 \<Rightarrow> nat \<Rightarrow> 'w option"
    and wstack :: "'w \<Rightarrow> bool list" and winv :: "'w \<Rightarrow> bool" and room :: "'w \<Rightarrow> nat"
    and close :: "'w \<Rightarrow> byte list option"
    and reopen :: "byte list \<Rightarrow> 'r"
    and pop :: "'r \<Rightarrow> nat \<Rightarrow> cerror + (u32 \<times> 'r)"
    and rstack :: "'r \<Rightarrow> bool list" and rinv :: "'r \<Rightarrow> bool" +
  fixes enc :: "'t \<Rightarrow> nat \<Rightarrow> byte \<Rightarrow> 'w \<Rightarrow> cerror + (nat \<times> 'w)"
    and dec :: "'t \<Rightarrow> nat \<Rightarrow> 'r \<Rightarrow> cerror + (byte \<times> nat \<times> 'r)"
    and twf :: "'t \<Rightarrow> bool" and present :: "'t \<Rightarrow> byte \<Rightarrow> bool" and valid_state :: "nat \<Rightarrow> bool"
    and cost :: nat
  assumes enc_keeps: "twf t \<Longrightarrow> present t b \<Longrightarrow> valid_state X \<Longrightarrow> winv w \<Longrightarrow> enc t X b w = Inr (X', w') \<Longrightarrow>
        valid_state X' \<and> winv w' \<and> room w' = room w \<and> length (wstack w') \<le> length (wstack w) + cost"
    and enc_room: "twf t \<Longrightarrow> present t b \<Longrightarrow> valid_state X \<Longrightarrow> winv w \<Longrightarrow>
        length (wstack w) + cost \<le> room w \<Longrightarrow> \<exists>X' w'. enc t X b w = Inr (X', w')"
    and enc_dec: "twf t \<Longrightarrow> present t b \<Longrightarrow> valid_state X \<Longrightarrow> winv w \<Longrightarrow> enc t X b w = Inr (X', w') \<Longrightarrow>
        rinv r' \<Longrightarrow> rstack r' = wstack w' \<Longrightarrow>
        \<exists>r. dec t X' r' = Inr (b, X, r) \<and> rinv r \<and> rstack r = wstack w"
    and dec_defined: "twf t \<Longrightarrow> valid_state X \<Longrightarrow> rinv r \<Longrightarrow>
        dec t X r = Inl C_Fail \<or> (\<exists>b X' r'. dec t X r = Inr (b, X', r') \<and> valid_state X' \<and> rinv r')"
begin

lemma encode_loop_keeps:
  assumes "\<And>i. i < n \<Longrightarrow> twf (tab (take i src)) \<and> present (tab (take i src)) (src ! i)"
    and "\<And>i X w. i < n \<Longrightarrow> ebody i X w = enc (tab (take i src)) X (src ! i) w"
    and "valid_state X" and "winv w" and "encode_loop ebody n X w = Inr (X', w')"
  shows "valid_state X' \<and> winv w' \<and> room w' = room w \<and>
    length (wstack w') \<le> length (wstack w) + n * cost"
  using assms
proof (induction n arbitrary: X w)
  case (Suc n)
  obtain X1 w1 where step: "ebody n X w = Inr (X1, w1)" and rest: "encode_loop ebody n X1 w1 = Inr (X', w')"
    using Suc.prems(5) by (auto split: sum.splits)
  have 1: "valid_state X1 \<and> winv w1 \<and> room w1 = room w \<and> length (wstack w1) \<le> length (wstack w) + cost"
    using enc_keeps Suc.prems(1,2) [of n] Suc.prems(3,4) step by (metis lessI)
  have "valid_state X' \<and> winv w' \<and> room w' = room w1 \<and>
      length (wstack w') \<le> length (wstack w1) + n * cost"
    using Suc.IH [of X1 w1] Suc.prems(1,2) rest 1 by simp
  with 1 show ?case by auto
qed simp

lemma encode_loop_room:
  assumes "\<And>i. i < n \<Longrightarrow> twf (tab (take i src)) \<and> present (tab (take i src)) (src ! i)"
    and "\<And>i X w. i < n \<Longrightarrow> ebody i X w = enc (tab (take i src)) X (src ! i) w"
    and "valid_state X" and "winv w" and "length (wstack w) + n * cost \<le> room w"
  shows "\<exists>X' w'. encode_loop ebody n X w = Inr (X', w')"
  using assms
proof (induction n arbitrary: X w)
  case (Suc n)
  obtain X1 w1 where step: "enc (tab (take n src)) X (src ! n) w = Inr (X1, w1)"
    using enc_room [of "tab (take n src)" "src ! n" X w] Suc.prems by auto
  have "valid_state X1 \<and> winv w1 \<and> room w1 = room w \<and> length (wstack w1) \<le> length (wstack w) + cost"
    using enc_keeps [OF _ _ _ _ step] Suc.prems(1) [of n] Suc.prems(3,4) by simp
  then show ?case
    using Suc.IH [of X1 w1] Suc.prems step by auto
qed simp

lemma decode_loop_inverts:
  assumes "\<And>i. i < n \<Longrightarrow> twf (tab (take i src)) \<and> present (tab (take i src)) (src ! i)"
    and "\<And>i X w. i < n \<Longrightarrow> ebody i X w = enc (tab (take i src)) X (src ! i) w"
    and "\<And>i X r. i < n \<Longrightarrow> dbody (take i src) X r = dec (tab (take i src)) X r"
    and "n \<le> length src" and "valid_state X" and "winv w" and "encode_loop ebody n X w = Inr (X', w')"
    and "rinv r'" and "rstack r' = wstack w'"
  shows "\<exists>r. rinv r \<and> rstack r = wstack w \<and>
    decode_loop dbody (n + m) [] X' r' = decode_loop dbody m (take n src) X r"
  using assms
proof (induction n arbitrary: X w m)
  case (Suc n)
  let ?t = "tab (take n src)"
  obtain X1 w1 where step: "enc ?t X (src ! n) w = Inr (X1, w1)"
    and rest: "encode_loop ebody n X1 w1 = Inr (X', w')"
    using Suc.prems(2) [of n] Suc.prems(7) by (auto split: sum.splits)
  have keeps: "valid_state X1 \<and> winv w1"
    using enc_keeps [OF _ _ _ _ step] Suc.prems(1) [of n] Suc.prems(5,6) by simp
  obtain r1 where r1: "rinv r1" "rstack r1 = wstack w1"
    "decode_loop dbody (n + Suc m) [] X' r' = decode_loop dbody (Suc m) (take n src) X1 r1"
    using Suc.IH [OF Suc.prems(1) Suc.prems(2) Suc.prems(3) _ _ _ rest Suc.prems(8,9), of "Suc m"]
      keeps Suc.prems(4) by auto
  obtain r where "dec ?t X1 r1 = Inr (src ! n, X, r)" "rinv r" "rstack r = wstack w"
    using enc_dec [OF _ _ _ _ step r1(1,2)] Suc.prems(1) [of n] Suc.prems(5,6) by auto
  then show ?case
    using r1(3) Suc.prems(3) [of n] Suc.prems(4) by (auto simp: take_Suc_conv_app_nth)
qed auto

lemma coder_roundtrip:
  assumes "\<And>i. i < length src \<Longrightarrow> twf (tab (take i src)) \<and> present (tab (take i src)) (src ! i)"
    and "\<And>i X w. i < length src \<Longrightarrow> ebody i X w = enc (tab (take i src)) X (src ! i) w"
    and "\<And>i X r. i < length src \<Longrightarrow> dbody (take i src) X r = dec (tab (take i src)) X r"
    and "valid_state X" and "winv w" and "encode_loop ebody (length src) X w = Inr (X', w')"
    and "close w' = Some bytes"
  shows "valid_state X' \<and> decode_loop dbody (length src) [] X' (reopen bytes) = Inr src"
proof -
  have "valid_state X' \<and> winv w'"
    using encode_loop_keeps [OF assms(1,2,4,5,6)] by simp
  moreover from this have "rinv (reopen bytes) \<and> rstack (reopen bytes) = wstack w'"
    using close_open [OF _ assms(7)] by simp
  ultimately show ?thesis
    using decode_loop_inverts [OF assms(1,2,3) order_refl assms(4,5,6), of "reopen bytes" 0] by auto
qed

lemma coder_total:
  assumes "\<And>i. i < length src \<Longrightarrow> twf (tab (take i src)) \<and> present (tab (take i src)) (src ! i)"
    and "\<And>i X w. i < length src \<Longrightarrow> ebody i X w = enc (tab (take i src)) X (src ! i) w"
    and "valid_state X" and "winv w" and "wstack w = []" and "length src * cost + 1 \<le> room w"
  shows "\<exists>X' w' bytes. encode_loop ebody (length src) X w = Inr (X', w') \<and> close w' = Some bytes"
proof -
  obtain X' w' where enc: "encode_loop ebody (length src) X w = Inr (X', w')"
    using encode_loop_room [OF assms(1,2,3,4), where n = "length src"] assms(5,6) by auto
  have "winv w' \<and> length (wstack w') + 1 \<le> room w'"
    using encode_loop_keeps [OF assms(1,2,3,4) enc] assms(5,6) by auto
  then show ?thesis using enc close_room [of w'] by blast
qed

lemma decode_loop_defined:
  assumes "\<And>dst X r. length dst < k + n \<Longrightarrow> dbody dst X r = Inl C_Fail \<or>
      (\<exists>t. twf t \<and> dbody dst X r = dec t X r)"
    and "length dst = k" and "valid_state X" and "rinv r"
  shows "decode_loop dbody n dst X r = Inl C_Fail \<or>
    (\<exists>out. decode_loop dbody n dst X r = Inr out \<and> length out = k + n)"
  using assms
proof (induction n arbitrary: k dst X r)
  case (Suc n)
  from Suc.prems(1) [of dst X r] Suc.prems(2) consider
      "dbody dst X r = Inl C_Fail"
    | t where "twf t" "dbody dst X r = dec t X r" by auto
  then show ?case
  proof cases
    case 2
    from dec_defined [OF 2(1) Suc.prems(3,4)] show ?thesis
    proof (elim disjE exE conjE)
      fix b X' r' assume "dec t X r = Inr (b, X', r')" "valid_state X'" "rinv r'"
      then show ?thesis
        using Suc.IH [of "Suc k" "dst @ [b]" X' r'] Suc.prems(1,2) 2(2) by simp
    qed (simp add: 2)
  qed simp
qed simp

end

section \<open>The steps of well-formed tables\<close>

definition tans_present :: "netc_tans_table \<Rightarrow> byte \<Rightarrow> bool" where
  "tans_present t b \<longleftrightarrow> en_freq (tt_encode t ! unat b) \<noteq> 0"

definition tans_state :: "nat \<Rightarrow> nat \<Rightarrow> bool" where
  "tans_state L X \<longleftrightarrow> 2 ^ L \<le> X \<and> X < 2 * 2 ^ L"

lemma floor_log2_shift:
  assumes X: "tans_state L X" and nb: "nb \<le> L"
  shows "floor_log2_u32 (X div 2 ^ nb) = L - nb"
proof (rule floor_log2_unique)
  have L: "(2::nat) ^ L = 2 ^ (L - nb) * 2 ^ nb" using nb by (simp flip: power_add)
  show "2 ^ (L - nb) \<le> X div 2 ^ nb"
    using X L by (simp add: tans_state_def less_eq_div_iff_mult_less_eq)
  show "X div 2 ^ nb < 2 ^ Suc (L - nb)"
    using X L by (simp add: tans_state_def div_less_iff_less_mult)
qed

lemma encode_nb:
  assumes X: "tans_state L X" and f: "0 < f" "f \<le> 2 ^ L"
  defines "h \<equiv> L - floor_log2_u32 f"
  defines "nb \<equiv> (if h = 0 \<or> X \<ge> f * 2 ^ h then h else h - 1)"
  shows "nb \<le> L" and "f \<le> X div 2 ^ nb" and "X div 2 ^ nb < f + f"
proof -
  define m where "m = floor_log2_u32 f"
  have m: "2 ^ m \<le> f" "f < 2 ^ Suc m" using floor_log2_bounds [OF f(1)] by (auto simp: m_def)
  have f2: "f < 2 * 2 ^ L" using f(2) by (rule le_less_trans) simp
  have mL: "m \<le> L" using scaled_range(3) [OF f(1) f2] by (simp add: m_def)
  have h: "h = L - m" by (simp add: h_def m_def)
  have L: "(2::nat) ^ L = 2 ^ m * 2 ^ h" using mL by (simp add: h flip: power_add)
  show nbL: "nb \<le> L" by (simp add: nb_def h)
  have X2: "2 ^ L \<le> X" "X < 2 * 2 ^ L" using X by (simp_all add: tans_state_def)
  show "f \<le> X div 2 ^ nb"
  proof (cases "X \<ge> f * 2 ^ h")
    case True
    then show ?thesis by (simp add: nb_def less_eq_div_iff_mult_less_eq)
  next
    case False
    then have "h \<noteq> 0"
      using f(2) X2(1) by (cases "h = 0") auto
    then have "(2::nat) ^ L = 2 ^ Suc m * 2 ^ nb" using False L by (cases h) (simp_all add: nb_def)
    moreover have "f * 2 ^ nb \<le> 2 ^ Suc m * 2 ^ nb" using m(2) by (intro mult_right_mono) auto
    ultimately have "f * 2 ^ nb \<le> X" using X2(1) by linarith
    then show ?thesis by (simp add: less_eq_div_iff_mult_less_eq)
  qed
  show "X div 2 ^ nb < f + f"
  proof (cases "h = 0 \<or> X \<ge> f * 2 ^ h")
    case True
    then have nb: "nb = h" by (simp add: nb_def)
    have "2 * 2 ^ L \<le> (f + f) * 2 ^ h" unfolding L using m(1) by simp
    then have "X < (f + f) * 2 ^ h" using X2(2) by linarith
    then show ?thesis by (simp add: nb div_less_iff_less_mult)
  next
    case False
    then have "X < (f + f) * 2 ^ nb" by (cases h) (simp_all add: nb_def algebra_simps)
    then show ?thesis by (simp add: div_less_iff_less_mult)
  qed
qed

definition push_bits :: "netc_bsw \<Rightarrow> nat \<Rightarrow> nat \<Rightarrow> netc_bsw option" where
  "push_bits w X nb = (if nb > 0 then netc_bsw_write w (word_of_nat (X mod 2 ^ nb)) nb else Some w)"

lemma push_bits_refines:
  assumes "bsw_inv w" and "nb \<le> 32" and "push_bits w X nb = Some w'"
  shows "bsw_inv w' \<and> bsw_cap w' = bsw_cap w \<and>
    bsw_abs w' = bsw_abs w @ wbits nb (word_of_nat (X mod 2 ^ nb) :: u32)"
proof (cases "nb = 0")
  case False
  then have "fits (word_of_nat (X mod 2 ^ nb), nb)" using assms(2) by (intro fits_of_nat) auto
  then show ?thesis
    using bitstream.push_stack [OF assms(1)] assms(3) False by (auto simp: push_bits_def)
qed (use assms in \<open>simp add: push_bits_def\<close>)

lemma encode_step_wf:
  assumes wf: "tans_wf L t" and L: "L \<le> 14" and X: "tans_state L X" and b: "tans_present t b"
  shows "\<exists>nb slot. nb \<le> L \<and> slot < 2 ^ L \<and>
    tt_decode t ! slot = \<lparr>de_symbol = b, de_nb_bits = word_of_nat nb,
       de_next_state_base = word_of_nat (X div 2 ^ nb * 2 ^ nb)\<rparr> \<and>
    (\<forall>w. tans_encode_step t X b w =
       (case push_bits w X nb of None \<Rightarrow> Inl C_Fail | Some w' \<Rightarrow> Inr (2 ^ L + slot, w')))"
proof -
  define e where "e = tt_encode t ! unat b"
  define f where "f = unat (en_freq e)"
  define h where "h = L - floor_log2_u32 f"
  define nb where "nb = (if h = 0 \<or> X \<ge> f * 2 ^ h then h else h - 1)"
  define k where "k = X div 2 ^ nb - f"
  have b256: "unat b < NETC_TANS_SYMBOLS"
    using unsigned_less [of b] by (simp add: NETC_TANS_SYMBOLS_def)
  have f0: "0 < f" using b by (simp add: f_def e_def tans_present_def unat_gt_0)
  have sw: "f \<le> 2 ^ L" "unat (en_nb_hi e) = h" "unat (en_lower e) = f * 2 ^ h"
    and occ: "\<And>k. k < f \<Longrightarrow> \<exists>slot < 2 ^ L. unat (en_cumul e) + k < 2 ^ L \<and>
           tt_encode_state t ! (unat (en_cumul e) + k) = word_of_nat (2 ^ L + slot) \<and>
           tt_decode t ! slot = tans_decode_entry L f (unat b) k"
    using wf b256 f0 by (auto simp: tans_wf_def sym_wf_def Let_def e_def f_def h_def)
  note nb = encode_nb [OF X f0 sw(1), folded h_def, folded nb_def]
  have k: "k < f" "f + k = X div 2 ^ nb" using nb by (simp_all add: k_def)
  obtain slot where slot: "slot < 2 ^ L" "unat (en_cumul e) + k < 2 ^ L"
    "tt_encode_state t ! (unat (en_cumul e) + k) = word_of_nat (2 ^ L + slot)"
    "tt_decode t ! slot = tans_decode_entry L f (unat b) k"
    using occ [OF k(1)] by blast
  have L14: "(2::nat) ^ L \<le> 2 ^ 14" using L by (intro power_increasing) auto
  have "X < 2 ^ 32" using X L14 by (simp add: tans_state_def)
  then have "X div 2 ^ nb < 2 ^ 32" by (rule le_less_trans [OF div_le_dividend])
  then have j: "u32_sub (X div 2 ^ nb) f = k" using nb(2) by (simp add: u32_sub_exact k_def)
  have idx: "(unat (en_cumul e) + k) mod 2 ^ 32 = unat (en_cumul e) + k"
    using slot(2) L14 by simp
  have "2 ^ L + slot < 2 ^ 16" using slot(1) L14 by simp
  then have st: "unat (tt_encode_state t ! (unat (en_cumul e) + k)) = 2 ^ L + slot"
    unfolding slot(3) by (rule unat_of_nat_u16)
  have "tans_encode_step t X b w =
       (case push_bits w X nb of None \<Rightarrow> Inl C_Fail | Some w' \<Rightarrow> Inr (2 ^ L + slot, w'))" for w
    unfolding tans_encode_step_def Let_def e_def [symmetric] f_def [symmetric] sw(2,3)
      nb_def [symmetric] j idx
    using nb(1) L slot(2) wf by (auto simp: st push_bits_def tans_wf_def split: option.split)
  moreover have "tt_decode t ! slot = \<lparr>de_symbol = b, de_nb_bits = word_of_nat nb,
       de_next_state_base = word_of_nat (X div 2 ^ nb * 2 ^ nb)\<rparr>"
    using floor_log2_shift [OF X nb(1)] nb(1)
    by (simp add: slot(4) tans_decode_entry_def Let_def k(2) del: of_nat_mult)
  ultimately show ?thesis using nb(1) slot(1) by blast
qed

lemma decode_step_entry:
  assumes wf: "tans_wf L t" and L: "L \<le> 14" and slot: "slot < 2 ^ L" and nb: "nb \<le> L"
    and base: "base + 2 ^ nb \<le> 2 * 2 ^ L"
    and entry: "tt_decode t ! slot = \<lparr>de_symbol = b, de_nb_bits = word_of_nat nb,
       de_next_state_base = word_of_nat base\<rparr>"
  shows "tans_decode_step L t (2 ^ L + slot) r =
    (case (if nb > 0 then netc_bsr_read r nb else Inr (0, r)) of Inl e \<Rightarrow> Inl e
     | Inr (v, r') \<Rightarrow> Inr (b, (base + unat v) mod 2 ^ 32, r'))"
proof -
  have L14: "(2::nat) ^ L \<le> 2 ^ 14" using L by (intro power_increasing) auto
  then have "u32_sub (2 ^ L + slot) (2 ^ L) = slot" using slot by (simp add: u32_sub_exact)
  moreover have "base < 2 ^ 16" using base L14 zero_less_power [of "2::nat" nb] by simp
  then have "unat (word_of_nat base :: u16) = base"
    by (rule unat_of_nat_u16)
  moreover have "unat (word_of_nat nb :: byte) = nb"
    using nb L by (simp add: word_of_nat_unat_id)
  ultimately show ?thesis
    using slot wf by (auto simp: tans_decode_step_def entry tans_wf_def Let_def split: sum.split)
qed

lemma encode_step_cases:
  assumes "tans_wf L t" "L \<le> 14" "tans_present t b" "tans_state L X"
    and "tans_encode_step t X b w = Inr (X', w')"
  obtains nb slot where "nb \<le> L" "slot < 2 ^ L" "push_bits w X nb = Some w'" "X' = 2 ^ L + slot"
    "tt_decode t ! slot = \<lparr>de_symbol = b, de_nb_bits = word_of_nat nb,
       de_next_state_base = word_of_nat (X div 2 ^ nb * 2 ^ nb)\<rparr>"
proof -
  obtain nb slot where 1: "nb \<le> L" "slot < 2 ^ L" "tt_decode t ! slot = \<lparr>de_symbol = b,
      de_nb_bits = word_of_nat nb, de_next_state_base = word_of_nat (X div 2 ^ nb * 2 ^ nb)\<rparr>"
    and "tans_encode_step t X b w =
       (case push_bits w X nb of None \<Rightarrow> Inl C_Fail | Some w' \<Rightarrow> Inr (2 ^ L + slot, w'))"
    using encode_step_wf [OF assms(1,2,4,3)] by blast
  with assms(5) have "push_bits w X nb = Some w'" "X' = 2 ^ L + slot"
    by (cases "push_bits w X nb"; simp)+
  with 1 show thesis by (intro that)
qed

lemma encode_step_keeps:
  assumes "tans_wf L t" "L \<le> 14" "tans_present t b" "tans_state L X" "bsw_inv w"
    and "tans_encode_step t X b w = Inr (X', w')"
  shows "tans_state L X' \<and> bsw_inv w' \<and> 8 * bsw_cap w' = 8 * bsw_cap w \<and>
    length (bsw_abs w') \<le> length (bsw_abs w) + L"
proof -
  obtain nb slot where "nb \<le> L" "slot < 2 ^ L" "push_bits w X nb = Some w'" "X' = 2 ^ L + slot"
    using assms by (elim encode_step_cases)
  then show ?thesis
    using push_bits_refines [OF assms(5), of nb X w'] assms(2) by (auto simp: tans_state_def)
qed

lemma encode_step_room:
  assumes "tans_wf L t" "L \<le> 14" "tans_present t b" "tans_state L X" "bsw_inv w"
    and "length (bsw_abs w) + L \<le> 8 * bsw_cap w"
  shows "\<exists>X' w'. tans_encode_step t X b w = Inr (X', w')"
proof -
  obtain nb slot where step: "nb \<le> L" "tans_encode_step t X b w =
       (case push_bits w X nb of None \<Rightarrow> Inl C_Fail | Some w' \<Rightarrow> Inr (2 ^ L + slot, w'))"
    using encode_step_wf [OF assms(1,2,4,3)] by blast
  moreover obtain w' where "push_bits w X nb = Some w'"
    using bsw_write_succeeds [OF assms(5), of nb] assms(6) step(1) by (fastforce simp: push_bits_def)
  ultimately show ?thesis by simp
qed

lemma encode_decode_step:
  assumes "tans_wf L t" "L \<le> 14" "tans_present t b" "tans_state L X" "bsw_inv w"
    and "tans_encode_step t X b w = Inr (X', w')" and r': "bsr_inv r'" "bsr_abs r' = bsw_abs w'"
  shows "\<exists>r. tans_decode_step L t X' r' = Inr (b, X, r) \<and> bsr_inv r \<and> bsr_abs r = bsw_abs w"
proof -
  obtain nb slot where nb: "nb \<le> L" and slot: "slot < 2 ^ L" and w': "push_bits w X nb = Some w'"
    and X': "X' = 2 ^ L + slot" and entry: "tt_decode t ! slot = \<lparr>de_symbol = b,
      de_nb_bits = word_of_nat nb, de_next_state_base = word_of_nat (X div 2 ^ nb * 2 ^ nb)\<rparr>"
    using assms by (elim encode_step_cases)
  have L14: "(2::nat) ^ L \<le> 2 ^ 14" using assms(2) by (intro power_increasing) auto
  have X2: "2 ^ L \<le> X" "X < 2 * 2 ^ L" using assms(4) by (simp_all add: tans_state_def)
  have X32: "X < 2 ^ 32" using X2 L14 by simp
  have "(2::nat) ^ nb \<le> 2 ^ L" using nb by (rule power_increasing) simp
  then have "2 ^ nb \<le> X" using X2(1) by (rule order_trans)
  then have "0 < X div 2 ^ nb" "X div 2 ^ nb < 2 * 2 ^ L"
    using le_less_trans [OF div_le_dividend X2(2)] by (auto simp: div_greater_zero_iff)
  then have "X div 2 ^ nb * 2 ^ nb + 2 ^ nb \<le> 2 * 2 ^ L"
    using scaled_range(1) [of "X div 2 ^ nb" L] floor_log2_shift [OF assms(4) nb] nb by simp
  note dec = decode_step_entry [OF assms(1,2) slot nb this entry, of r']
  have sum: "(X div 2 ^ nb * 2 ^ nb + X mod 2 ^ nb) mod 2 ^ 32 = X"
    using X32 by (simp add: div_mult_mod_eq)
  have push: "bsr_abs r' = bsw_abs w @ wbits nb (word_of_nat (X mod 2 ^ nb) :: u32)"
    using push_bits_refines [OF assms(5) _ w'] nb assms(2) r'(2) by simp
  show ?thesis
  proof (cases "nb = 0")
    case True
    then show ?thesis using dec push r'(1) X32 by (simp add: X')
  next
    case False
    have "X mod 2 ^ nb < 2 ^ 32" using X32 by (rule le_less_trans [OF mod_less_eq_dividend])
    then have v: "unat (word_of_nat (X mod 2 ^ nb) :: u32) = X mod 2 ^ nb" by (rule unat_of_nat_u32)
    have "fits (word_of_nat (X mod 2 ^ nb), nb)"
      using False nb assms(2) by (intro fits_of_nat) auto
    then obtain r where "netc_bsr_read r' nb = Inr (word_of_nat (X mod 2 ^ nb), r)" "bsr_inv r"
      "bsr_abs r = bsw_abs w"
      using bitstream.pop_stack [OF r'(1) _ push] by blast
    then show ?thesis using dec False v sum by (simp add: X')
  qed
qed

lemma decode_step_defined:
  assumes wf: "tans_wf L t" and L: "L \<le> 14" and X: "tans_state L X" and r: "bsr_inv r"
  shows "tans_decode_step L t X r = Inl C_Fail \<or>
    (\<exists>b X' r'. tans_decode_step L t X r = Inr (b, X', r') \<and> tans_state L X' \<and> bsr_inv r')"
proof -
  define slot where "slot = X - 2 ^ L"
  have slot: "slot < 2 ^ L" "X = 2 ^ L + slot" using X by (auto simp: slot_def tans_state_def)
  obtain s f k where entry: "tt_decode t ! slot = tans_decode_entry L f s k" and fk: "k < f" "f \<le> 2 ^ L"
    using wf slot(1) by (auto simp: tans_wf_def slot_wf_def)
  define nb where "nb = L - floor_log2_u32 (f + k)"
  define base where "base = (f + k) * 2 ^ nb"
  have range: "base + 2 ^ nb \<le> 2 * 2 ^ L" "2 ^ L \<le> base"
    using scaled_range [of "f + k" L] fk by (auto simp: base_def nb_def)
  have nb: "nb \<le> L" by (simp add: nb_def)
  have L14: "(2::nat) ^ L \<le> 2 ^ 14" using L by (intro power_increasing) auto
  note dec = decode_step_entry [OF wf L slot(1) nb range(1), of "word_of_nat s" r, folded slot(2)]
  have e: "tt_decode t ! slot = \<lparr>de_symbol = word_of_nat s, de_nb_bits = word_of_nat nb,
      de_next_state_base = word_of_nat base\<rparr>"
    by (simp add: entry tans_decode_entry_def Let_def nb_def base_def)
  have next_state: "tans_state L ((base + v) mod 2 ^ 32)" if "v < 2 ^ nb" for v
    using range that L14 by (simp add: tans_state_def)
  show ?thesis
  proof (cases "nb = 0")
    case True
    then show ?thesis using dec [OF e] next_state [of 0] r by simp
  next
    case False
    from bsr_read_defined [OF r, of nb] False nb L
    consider "netc_bsr_read r nb = Inl C_Fail"
      | v r' where "netc_bsr_read r nb = Inr (v, r')" "bsr_inv r'" by auto
    then show ?thesis
    proof cases
      case 2
      then have "v = netc_bsr_peek r nb" by (auto simp: netc_bsr_read_def split: sum.splits)
      then have "unat v < 2 ^ nb"
        using bsr_peek_less [of nb r] False nb L by simp
      then show ?thesis using dec [OF e] 2 False next_state by simp
    qed (use dec [OF e] False in simp)
  qed
qed

interpretation ans12: ans_coder netc_bsw_write bsw_abs bsw_inv "\<lambda>w. 8 * bsw_cap w" bsw_bytes
  netc_bsr_init netc_bsr_read bsr_abs bsr_inv tans_encode_step "tans_decode_step NETC_TANS_TABLE_LOG"
  "tans_wf NETC_TANS_TABLE_LOG" tans_present "tans_state NETC_TANS_TABLE_LOG" NETC_TANS_TABLE_LOG
  by unfold_locales
    (rule encode_step_keeps encode_step_room encode_decode_step decode_step_defined;
      simp add: NETC_TANS_TABLE_LOG_def)+

interpretation ans10: ans_coder netc_bsw_write bsw_abs bsw_inv "\<lambda>w. 8 * bsw_cap w" bsw_bytes
  netc_bsr_init netc_bsr_read bsr_abs bsr_inv tans_encode_step "tans_decode_step NETC_TANS_TABLE_LOG_10"
  "tans_wf NETC_TANS_TABLE_LOG_10" tans_present "tans_state NETC_TANS_TABLE_LOG_10" NETC_TANS_TABLE_LOG_10
  by unfold_locales
    (rule encode_step_keeps encode_step_room encode_decode_step decode_step_defined;
      simp add: NETC_TANS_TABLE_LOG_10_def)+

section \<open>The coders as instances of the contract\<close>

lemma encode_loop_all_steps:
  "encode_loop body n X w = Inr z \<Longrightarrow> i < n \<Longrightarrow> \<exists>X w z. body i X w = Inr z"
proof (induction n arbitrary: X w)
  case (Suc n)
  then obtain X' w' where "body n X w = Inr (X', w')" by (auto split: sum.splits)
  with Suc show ?case by (cases "i = n") auto
qed simp

lemma tans_state_initial [simp]: "tans_state L (max (2 ^ L) (2 ^ L))" "tans_state L (2 ^ L)"
  by (simp_all add: tans_state_def)

lemma tans_state_sizes:
  "tans_state NETC_TANS_TABLE_LOG X \<longleftrightarrow> NETC_TANS_TABLE_SIZE \<le> X \<and> X < 2 * NETC_TANS_TABLE_SIZE"
  "tans_state NETC_TANS_TABLE_LOG_10 X \<longleftrightarrow> NETC_TANS_TABLE_SIZE_10 \<le> X \<and> X < 2 * NETC_TANS_TABLE_SIZE_10"
  by (simp_all add: tans_state_def tans_consts)

lemma bucket_lut_bounds: "i < 256 \<Longrightarrow> bucket_lut ! i < 10"
proof -
  have "\<forall>b \<in> set bucket_lut. b < 10" by (simp add: bucket_lut_def)
  moreover have "length bucket_lut = 256" by (simp add: bucket_lut_def)
  ultimately show "i < 256 \<Longrightarrow> bucket_lut ! i < 10" by simp
qed

lemma ctx_bucket_less [simp]: "netc_ctx_bucket i < 16"
  using bucket_lut_bounds [of i] by (auto simp: netc_ctx_bucket_def)

lemma encode_loop_checked:
  assumes "encode_loop body n X w = Inr z"
    and "\<And>i X w. i < n \<Longrightarrow> body i X w = (if ok i then tans_encode_step_checked (tab i) X (src ! i) w else Inl C_Fail)"
    and "i < n"
  shows "ok i \<and> tans_present (tab i) (src ! i)"
  using encode_loop_all_steps [OF assms(1,3)] assms(2) [OF assms(3)]
  by (auto simp: tans_encode_step_checked_def tans_present_def split: if_splits)

lemma tans_encode_decode:
  assumes "tans_wf NETC_TANS_TABLE_LOG t" and "\<And>b. b \<in> set src \<Longrightarrow> tans_present t b"
    and "netc_tans_encode t src (length src) (netc_bsw_init cap) NETC_TANS_TABLE_SIZE = Inr (X, w)"
    and "bsw_bytes w = Some bytes"
  shows "netc_tans_decode t (netc_bsr_init bytes) (length src) X = Inr src"
proof -
  have run: "encode_loop (\<lambda>i X w. tans_encode_step t X (src ! i) w) (length src)
      NETC_TANS_TABLE_SIZE (netc_bsw_init cap) = Inr (X, w)" and ne: "src \<noteq> []"
    using assms(3) by (auto simp: netc_tans_encode_def split: if_splits)
  have "tans_state NETC_TANS_TABLE_LOG X \<and> decode_loop (\<lambda>dst X r. tans_decode_step NETC_TANS_TABLE_LOG t X r)
      (length src) [] X (netc_bsr_init bytes) = Inr src"
    using assms(1,2) by (intro ans12.coder_roundtrip [OF _ _ _ _ _ run assms(4), where tab = "\<lambda>_. t"])
      (simp_all add: NETC_TANS_TABLE_SIZE_def)
  then show ?thesis
    using assms(1) ne by (simp add: netc_tans_decode_def tans_wf_def tans_state_sizes)
qed

lemma tans_encode_decode_10:
  assumes "tans_wf NETC_TANS_TABLE_LOG_10 t"
    and "netc_tans_encode_10 t src (length src) (netc_bsw_init cap) NETC_TANS_TABLE_SIZE_10 = Inr (X, w)"
    and "bsw_bytes w = Some bytes"
  shows "netc_tans_decode_10 t (netc_bsr_init bytes) (length src) X = Inr src"
proof -
  have run: "encode_loop (\<lambda>i X w. tans_encode_step_checked t X (src ! i) w) (length src)
      NETC_TANS_TABLE_SIZE_10 (netc_bsw_init cap) = Inr (X, w)" and ne: "src \<noteq> []"
    using assms(2) by (auto simp: netc_tans_encode_10_def split: if_splits)
  have p: "tans_present t (src ! i)" if "i < length src" for i
    using encode_loop_checked [OF run, where ok = "\<lambda>_. True" and tab = "\<lambda>_. t" and i = i] that by simp
  have "tans_state NETC_TANS_TABLE_LOG_10 X \<and> decode_loop (\<lambda>dst X r. tans_decode_step NETC_TANS_TABLE_LOG_10 t X r)
      (length src) [] X (netc_bsr_init bytes) = Inr src"
    using assms(1) p by (intro ans10.coder_roundtrip [OF _ _ _ _ _ run assms(3), where tab = "\<lambda>_. t"])
      (simp_all add: NETC_TANS_TABLE_SIZE_10_def tans_encode_step_checked_def tans_present_def)
  then show ?thesis
    using assms(1) ne by (simp add: netc_tans_decode_10_def tans_wf_def tans_state_sizes)
qed

text \<open>Every valid table of a dictionary is well formed.\<close>

definition tables_wf :: "netc_tans_table list \<Rightarrow> bool" where
  "tables_wf ts \<longleftrightarrow> length ts = 16 \<and> (\<forall>t \<in> set ts. tt_valid t \<longrightarrow> tans_wf NETC_TANS_TABLE_LOG t)"

lemma tables_wf_nth: "tables_wf ts \<Longrightarrow> tt_valid (ts ! netc_ctx_bucket i) \<Longrightarrow>
    tans_wf NETC_TANS_TABLE_LOG (ts ! netc_ctx_bucket i)"
  by (simp add: tables_wf_def)

lemma tans_encode_decode_pctx:
  assumes wf: "tables_wf tables"
    and enc: "netc_tans_encode_pctx tables src (length src) (netc_bsw_init cap) NETC_TANS_TABLE_SIZE = Inr (X, w)"
    and "bsw_bytes w = Some bytes"
  shows "netc_tans_decode_pctx tables (netc_bsr_init bytes) (length src) X = Inr src"
proof -
  let ?tab = "\<lambda>i. tables ! netc_ctx_bucket i"
  let ?body = "\<lambda>i X w. let tbl = ?tab i in if \<not> tt_valid tbl then Inl C_Fail
      else tans_encode_step_checked tbl X (src ! i) w"
  have run: "encode_loop ?body (length src) NETC_TANS_TABLE_SIZE (netc_bsw_init cap) = Inr (X, w)"
    and ne: "src \<noteq> []"
    using enc by (auto simp: netc_tans_encode_pctx_def split: if_splits)
  have p: "tt_valid (?tab i) \<and> tans_present (?tab i) (src ! i)" if "i < length src" for i
    using encode_loop_checked [OF run, where ok = "\<lambda>i. tt_valid (?tab i)" and tab = ?tab and src = src
        and i = i] that
    by (simp add: Let_def)
  have "tans_state NETC_TANS_TABLE_LOG X \<and> decode_loop (\<lambda>dst X r. let tbl = ?tab (length dst)
      in if \<not> tt_valid tbl then Inl C_Fail else tans_decode_step NETC_TANS_TABLE_LOG tbl X r)
      (length src) [] X (netc_bsr_init bytes) = Inr src"
    using p tables_wf_nth [OF wf]
    by (intro ans12.coder_roundtrip [OF _ _ _ _ _ run assms(3), where tab = "\<lambda>dst. ?tab (length dst)"])
      (simp_all add: NETC_TANS_TABLE_SIZE_def tans_encode_step_checked_def tans_present_def Let_def)
  then show ?thesis
    using ne by (simp add: netc_tans_decode_pctx_def tans_state_sizes)
qed

definition bigram_wf :: "netc_tans_table list list \<Rightarrow> byte list option \<Rightarrow> bool" where
  "bigram_wf bts class_map \<longleftrightarrow> length bts = 16 \<and>
     (\<forall>row \<in> set bts. length row = 8 \<and> (\<forall>t \<in> set row. tt_valid t \<longrightarrow> tans_wf NETC_TANS_TABLE_LOG t)) \<and>
     (case class_map of None \<Rightarrow> True | Some m \<Rightarrow> length m = 256 \<and> (\<forall>c \<in> set m. unat c < 8))"

lemma option_the_eq: "x = Some y \<Longrightarrow> the x = y"
  by simp

lemma bigram_class_less:
  assumes "bigram_wf bts class_map"
  shows "netc_bigram_class b class_map < 8"
proof (cases class_map)
  case None
  have "unat b div 64 < 4" using unat_byte_less [of b] by (simp only: div_less_iff_less_mult)
  then show ?thesis
    by (simp add: None netc_bigram_class_def drop_bit_eq_div unat_div_distrib)
next
  case (Some m)
  then have "unat b < length m" using assms unsigned_less [of b] by (simp add: bigram_wf_def)
  then show ?thesis using assms Some by (simp add: netc_bigram_class_def bigram_wf_def)
qed

lemma bigram_select_wf:
  assumes "bigram_wf bts class_map" and "tables_wf uts"
  shows "\<exists>t. bigram_select bts uts class_map i b = Some t \<and>
    (tt_valid t \<longrightarrow> tans_wf NETC_TANS_TABLE_LOG t)"
proof -
  define row where "row = bts ! netc_ctx_bucket i"
  have "row \<in> set bts" using assms(1) by (simp add: bigram_wf_def row_def)
  then have row: "length row = 8" "\<forall>t \<in> set row. tt_valid t \<longrightarrow> tans_wf NETC_TANS_TABLE_LOG t"
    using assms(1) by (simp_all add: bigram_wf_def)
  then have "row ! netc_bigram_class b class_map \<in> set row"
    and "netc_bigram_class b class_map < length row"
    using bigram_class_less [OF assms(1)] by simp_all
  then show ?thesis
    using row(2) tables_wf_nth [OF assms(2)] by (simp add: bigram_select_def Let_def row_def [symmetric])
qed

lemma tans_encode_decode_bigram:
  assumes wf: "bigram_wf bts class_map" "tables_wf uts"
    and enc: "netc_tans_encode_pctx_bigram bts uts class_map src (length src) (netc_bsw_init cap)
      NETC_TANS_TABLE_SIZE = Inr (X, w)"
    and "bsw_bytes w = Some bytes"
  shows "netc_tans_decode_pctx_bigram bts uts class_map (netc_bsr_init bytes) (length src) X = Inr src"
proof -
  let ?sel = "\<lambda>i b. bigram_select bts uts class_map i b"
  let ?prev = "\<lambda>dst. if length dst > 0 then dst ! (length dst - 1) else (0 :: byte)"
  let ?tab = "\<lambda>dst. the (?sel (length dst) (?prev dst))"
  have sel: "?sel i b = Some (the (?sel i b))"
    and sel_wf: "tt_valid (the (?sel i b)) \<Longrightarrow> tans_wf NETC_TANS_TABLE_LOG (the (?sel i b))" for i b
    using bigram_select_wf [OF wf, of i b] by auto
  have prev: "?prev (take i src) = (if i > 0 then src ! (i - 1) else 0)" if "i < length src" for i
    using that by simp
  have body: "(case ?sel i (if i > 0 then src ! (i - 1) else 0) of None \<Rightarrow> Inl C_Undefined
      | Some tbl \<Rightarrow> if \<not> tt_valid tbl then Inl C_Fail else tans_encode_step_checked tbl X (src ! i) w)
      = (if tt_valid (?tab (take i src)) then tans_encode_step_checked (?tab (take i src)) X (src ! i) w
         else Inl C_Fail)" if i: "i < length src" for i X w
  proof -
    have len: "length (take i src) = i" using i by simp
    obtain t where t: "?sel i (if i > 0 then src ! (i - 1) else 0) = Some t"
      using bigram_select_wf [OF wf] by blast
    then have tab: "?tab (take i src) = t" unfolding prev [OF i] unfolding len by (rule option_the_eq)
    show ?thesis unfolding t tab by simp
  qed
  have run: "encode_loop (\<lambda>i X w. case ?sel i (if i > 0 then src ! (i - 1) else 0) of None \<Rightarrow> Inl C_Undefined
      | Some tbl \<Rightarrow> if \<not> tt_valid tbl then Inl C_Fail else tans_encode_step_checked tbl X (src ! i) w)
      (length src) NETC_TANS_TABLE_SIZE (netc_bsw_init cap) = Inr (X, w)" and ne: "src \<noteq> []"
    using enc by (auto simp: netc_tans_encode_pctx_bigram_def split: if_splits)
  have p: "tt_valid (?tab (take i src)) \<and> tans_present (?tab (take i src)) (src ! i)" if "i < length src" for i
    using encode_loop_checked [OF run body that] by simp
  have "tans_state NETC_TANS_TABLE_LOG X \<and> decode_loop (\<lambda>dst X r.
      case ?sel (length dst) (?prev dst) of None \<Rightarrow> Inl C_Undefined
      | Some tbl \<Rightarrow> if \<not> tt_valid tbl then Inl C_Fail else tans_decode_step NETC_TANS_TABLE_LOG tbl X r)
      (length src) [] X (netc_bsr_init bytes) = Inr src"
  proof (rule ans12.coder_roundtrip [OF _ _ _ _ _ run assms(4), where tab = ?tab])
    fix i X r assume i: "i < length src"
    obtain t where t: "?sel (length (take i src)) (?prev (take i src)) = Some t"
      using bigram_select_wf [OF wf] by blast
    have valid: "tt_valid t" using p [OF i] unfolding t by simp
    show "(case ?sel (length (take i src)) (?prev (take i src)) of None \<Rightarrow> Inl C_Undefined
      | Some tbl \<Rightarrow> if \<not> tt_valid tbl then Inl C_Fail else tans_decode_step NETC_TANS_TABLE_LOG tbl X r)
      = tans_decode_step NETC_TANS_TABLE_LOG (?tab (take i src)) X r"
      unfolding t using valid by simp
  qed (use p sel_wf in \<open>simp_all add: body NETC_TANS_TABLE_SIZE_def tans_encode_step_checked_def
        tans_present_def\<close>)
  then show ?thesis
    using ne by (simp add: netc_tans_decode_pctx_bigram_def tans_state_sizes)
qed

section \<open>Enough room\<close>

lemma tans_encode_total:
  assumes "tans_wf NETC_TANS_TABLE_LOG t" and "\<And>b. b \<in> set src \<Longrightarrow> tans_present t b"
    and "src \<noteq> []" and "length src * NETC_TANS_TABLE_LOG + 1 \<le> 8 * cap"
  shows "\<exists>X w bytes. netc_tans_encode t src (length src) (netc_bsw_init cap) NETC_TANS_TABLE_SIZE
      = Inr (X, w) \<and> bsw_bytes w = Some bytes"
proof -
  have "\<exists>X w bytes. encode_loop (\<lambda>i X w. tans_encode_step t X (src ! i) w) (length src)
      NETC_TANS_TABLE_SIZE (netc_bsw_init cap) = Inr (X, w) \<and> bsw_bytes w = Some bytes"
    using assms by (intro ans12.coder_total [where tab = "\<lambda>_. t"]) (simp_all add: NETC_TANS_TABLE_SIZE_def)
  then show ?thesis
    using assms(1,3) by (simp add: netc_tans_encode_def tans_wf_def)
qed

lemma tans_encode_total_10:
  assumes "tans_wf NETC_TANS_TABLE_LOG_10 t" and "\<And>b. b \<in> set src \<Longrightarrow> tans_present t b"
    and "src \<noteq> []" and "length src * NETC_TANS_TABLE_LOG_10 + 1 \<le> 8 * cap"
  shows "\<exists>X w bytes. netc_tans_encode_10 t src (length src) (netc_bsw_init cap) NETC_TANS_TABLE_SIZE_10
      = Inr (X, w) \<and> bsw_bytes w = Some bytes"
proof -
  have "\<exists>X w bytes. encode_loop (\<lambda>i X w. tans_encode_step_checked t X (src ! i) w) (length src)
      NETC_TANS_TABLE_SIZE_10 (netc_bsw_init cap) = Inr (X, w) \<and> bsw_bytes w = Some bytes"
    using assms by (intro ans10.coder_total [where tab = "\<lambda>_. t"])
      (simp_all add: NETC_TANS_TABLE_SIZE_10_def tans_encode_step_checked_def tans_present_def)
  then show ?thesis
    using assms(1,3) by (simp add: netc_tans_encode_10_def tans_wf_def)
qed

definition prev_byte :: "byte list \<Rightarrow> nat \<Rightarrow> byte" where
  "prev_byte src i = (if i > 0 then src ! (i - 1) else 0)"

lemma prev_byte_take: "i < length src \<Longrightarrow> prev_byte (take i src) i = prev_byte src i"
  by (simp add: prev_byte_def)

definition bigram_codable ::
    "netc_tans_table list list \<Rightarrow> netc_tans_table list \<Rightarrow> byte list option \<Rightarrow> byte list \<Rightarrow> nat \<Rightarrow> bool" where
  "bigram_codable bts uts class_map src i \<longleftrightarrow>
     (case bigram_select bts uts class_map i (prev_byte src i) of None \<Rightarrow> False
      | Some t \<Rightarrow> tt_valid t \<and> tans_present t (src ! i))"

lemma tans_encode_total_bigram:
  assumes "bigram_wf bts class_map" and "tables_wf uts"
    and cod: "\<And>i. i < length src \<Longrightarrow> bigram_codable bts uts class_map src i"
    and "src \<noteq> []" and "length src * NETC_TANS_TABLE_LOG + 1 \<le> 8 * cap"
  shows "\<exists>X w bytes. netc_tans_encode_pctx_bigram bts uts class_map src (length src) (netc_bsw_init cap)
      NETC_TANS_TABLE_SIZE = Inr (X, w) \<and> bsw_bytes w = Some bytes"
proof -
  let ?tab = "\<lambda>dst. the (bigram_select bts uts class_map (length dst) (prev_byte dst (length dst)))"
  have sel: "bigram_select bts uts class_map i (prev_byte src i) = Some (?tab (take i src)) \<and>
      tt_valid (?tab (take i src)) \<and> tans_present (?tab (take i src)) (src ! i)" if "i < length src" for i
    using cod [OF that] that by (auto simp: bigram_codable_def prev_byte_take split: option.splits)
  have "\<exists>X w bytes. encode_loop (\<lambda>i X w.
      case bigram_select bts uts class_map i (prev_byte src i) of None \<Rightarrow> Inl C_Undefined
      | Some tbl \<Rightarrow> if \<not> tt_valid tbl then Inl C_Fail else tans_encode_step_checked tbl X (src ! i) w)
      (length src) NETC_TANS_TABLE_SIZE (netc_bsw_init cap) = Inr (X, w) \<and> bsw_bytes w = Some bytes"
  proof (rule ans12.coder_total [where tab = ?tab])
    fix i assume i: "i < length src"
    show "tans_wf NETC_TANS_TABLE_LOG (?tab (take i src)) \<and> tans_present (?tab (take i src)) (src ! i)"
      using sel [OF i] bigram_select_wf [OF assms(1,2), of i "prev_byte src i"] by force
  next
    fix i X w assume i: "i < length src"
    show "(case bigram_select bts uts class_map i (prev_byte src i) of None \<Rightarrow> Inl C_Undefined
      | Some tbl \<Rightarrow> if \<not> tt_valid tbl then Inl C_Fail else tans_encode_step_checked tbl X (src ! i) w)
      = tans_encode_step (?tab (take i src)) X (src ! i) w"
      using sel [OF i] by (simp add: tans_encode_step_checked_def tans_present_def)
  qed (use assms in \<open>simp_all add: NETC_TANS_TABLE_SIZE_def\<close>)
  then show ?thesis
    using assms(4) by (simp add: netc_tans_encode_pctx_bigram_def prev_byte_def)
qed

lemma tans_encode_total_pctx:
  assumes "tables_wf tables"
    and "\<And>i. i < length src \<Longrightarrow> tt_valid (tables ! netc_ctx_bucket i) \<and>
      tans_present (tables ! netc_ctx_bucket i) (src ! i)"
    and "src \<noteq> []" and "length src * NETC_TANS_TABLE_LOG + 1 \<le> 8 * cap"
  shows "\<exists>X w bytes. netc_tans_encode_pctx tables src (length src) (netc_bsw_init cap)
      NETC_TANS_TABLE_SIZE = Inr (X, w) \<and> bsw_bytes w = Some bytes"
proof -
  let ?tab = "\<lambda>i. tables ! netc_ctx_bucket i"
  have "\<exists>X w bytes. encode_loop (\<lambda>i X w. let tbl = ?tab i in if \<not> tt_valid tbl then Inl C_Fail
      else tans_encode_step_checked tbl X (src ! i) w)
      (length src) NETC_TANS_TABLE_SIZE (netc_bsw_init cap) = Inr (X, w) \<and> bsw_bytes w = Some bytes"
    using assms tables_wf_nth [OF assms(1)]
    by (intro ans12.coder_total [where tab = "\<lambda>dst. ?tab (length dst)"])
      (simp_all add: NETC_TANS_TABLE_SIZE_def tans_encode_step_checked_def tans_present_def Let_def)
  then show ?thesis
    using assms(3) by (simp add: netc_tans_encode_pctx_def)
qed

section \<open>Tables of a frequency table\<close>

lemma netc_tans_build_present:
  assumes "length freq = NETC_TANS_SYMBOLS" and "freq_total freq = NETC_TANS_TABLE_SIZE"
  shows "\<exists>t. netc_tans_build freq = Some t \<and> tans_wf NETC_TANS_TABLE_LOG t \<and>
    (\<forall>b. tans_present t b \<longleftrightarrow> freq ! unat b \<noteq> 0)"
  using tans_build_wf [of NETC_TANS_SPREAD_STEP NETC_TANS_TABLE_LOG freq] assms
  by (auto simp: netc_tans_build_def tans_consts tans_present_def NETC_TANS_SYMBOLS_def)

lemma netc_tans_build_10_present:
  assumes "length freq = NETC_TANS_SYMBOLS" and "freq_total freq = NETC_TANS_TABLE_SIZE_10"
  shows "\<exists>t. netc_tans_build_10 freq = Some t \<and> tans_wf NETC_TANS_TABLE_LOG_10 t \<and>
    (\<forall>b. tans_present t b \<longleftrightarrow> freq ! unat b \<noteq> 0)"
  using tans_build_wf [of NETC_TANS_SPREAD_STEP_10 NETC_TANS_TABLE_LOG_10 freq] assms
  by (auto simp: netc_tans_build_10_def tans_consts tans_present_def NETC_TANS_SYMBOLS_def)

lemma uniform_freq:
  "length (replicate 256 16 :: netc_freq_table) = NETC_TANS_SYMBOLS"
  "freq_total (replicate 256 16) = NETC_TANS_TABLE_SIZE"
  "length (replicate 256 4 :: netc_freq_table) = NETC_TANS_SYMBOLS"
  "freq_total (replicate 256 4) = NETC_TANS_TABLE_SIZE_10"
  by (simp_all add: NETC_TANS_SYMBOLS_def freq_total_def sum_list_replicate tans_consts)

lemma uniform_table:
  "tans_wf NETC_TANS_TABLE_LOG (the (netc_tans_build (replicate 256 16)))"
  "tans_present (the (netc_tans_build (replicate 256 16))) b"
  using netc_tans_build_present [OF uniform_freq(1,2)] by auto

lemma uniform_tables_wf: "tables_wf (replicate 16 (the (netc_tans_build (replicate 256 16))))"
  using uniform_table(1) by (simp add: tables_wf_def)

section \<open>Properties of the codec\<close>

text \<open>
  C17.  For every frequency table that sums to 4096 and every non-empty packet of symbols it
  contains, the single-state coder succeeds in a buffer of 12 bits per symbol and one sentinel bit,
  and decoding the flushed stream from the final state returns the packet.
\<close>

theorem tans_roundtrip:
  assumes "length freq = NETC_TANS_SYMBOLS" and "freq_total freq = NETC_TANS_TABLE_SIZE"
    and "\<forall>b \<in> set src. freq ! unat b \<noteq> 0" and "src \<noteq> []" and "length src * 12 < 8 * cap"
  shows "\<exists>t X w w'. netc_tans_build freq = Some t \<and>
    netc_tans_encode t src (length src) (netc_bsw_init cap) NETC_TANS_TABLE_SIZE = Inr (X, w) \<and>
    netc_bsw_flush w = Some w' \<and>
    netc_tans_decode t (netc_bsr_init (bsw_buf w')) (length src) X = Inr src"
proof -
  obtain t where t: "netc_tans_build freq = Some t" "tans_wf NETC_TANS_TABLE_LOG t"
    and p: "\<And>b. b \<in> set src \<Longrightarrow> tans_present t b"
    using netc_tans_build_present [OF assms(1,2)] assms(3) by auto
  obtain X w bytes where "netc_tans_encode t src (length src) (netc_bsw_init cap) NETC_TANS_TABLE_SIZE
      = Inr (X, w)" "bsw_bytes w = Some bytes"
    using tans_encode_total [OF t(2) p assms(4), where cap = cap] assms(5) by (auto simp: NETC_TANS_TABLE_LOG_def)
  then show ?thesis
    using t(1) tans_encode_decode [OF t(2) p] by (auto simp: bsw_bytes_def)
qed

theorem tans_roundtrip_witness:
  "\<exists>t X w w'. netc_tans_build (replicate 256 16) = Some t \<and>
    netc_tans_encode t [7, 7, 200] 3 (netc_bsw_init 8) NETC_TANS_TABLE_SIZE = Inr (X, w) \<and>
    netc_bsw_flush w = Some w' \<and>
    netc_tans_decode t (netc_bsr_init (bsw_buf w')) 3 X = Inr [7, 7, 200]"
  using tans_roundtrip [OF uniform_freq(1,2), of "[7, 7, 200]" 8] by (simp add: numeral_3_eq_3)

text \<open>
   The same for the 10-bit coder: every frequency table that sums to 1024, 10 bits per symbol.
\<close>

theorem tans_roundtrip_10:
  assumes "length freq = NETC_TANS_SYMBOLS" and "freq_total freq = NETC_TANS_TABLE_SIZE_10"
    and "\<forall>b \<in> set src. freq ! unat b \<noteq> 0" and "src \<noteq> []" and "length src * 10 < 8 * cap"
  shows "\<exists>t X w w'. netc_tans_build_10 freq = Some t \<and>
    netc_tans_encode_10 t src (length src) (netc_bsw_init cap) NETC_TANS_TABLE_SIZE_10 = Inr (X, w) \<and>
    netc_bsw_flush w = Some w' \<and>
    netc_tans_decode_10 t (netc_bsr_init (bsw_buf w')) (length src) X = Inr src"
proof -
  obtain t where t: "netc_tans_build_10 freq = Some t" "tans_wf NETC_TANS_TABLE_LOG_10 t"
    and p: "\<And>b. b \<in> set src \<Longrightarrow> tans_present t b"
    using netc_tans_build_10_present [OF assms(1,2)] assms(3) by auto
  obtain X w bytes where "netc_tans_encode_10 t src (length src) (netc_bsw_init cap) NETC_TANS_TABLE_SIZE_10
      = Inr (X, w)" "bsw_bytes w = Some bytes"
    using tans_encode_total_10 [OF t(2) p assms(4), where cap = cap] assms(5) by (auto simp: NETC_TANS_TABLE_LOG_10_def)
  then show ?thesis
    using t(1) tans_encode_decode_10 [OF t(2)] by (auto simp: bsw_bytes_def)
qed

theorem tans_roundtrip_10_witness:
  "\<exists>t X w w'. netc_tans_build_10 (replicate 256 4) = Some t \<and>
    netc_tans_encode_10 t [7, 7, 200] 3 (netc_bsw_init 8) NETC_TANS_TABLE_SIZE_10 = Inr (X, w) \<and>
    netc_bsw_flush w = Some w' \<and>
    netc_tans_decode_10 t (netc_bsr_init (bsw_buf w')) 3 X = Inr [7, 7, 200]"
  using tans_roundtrip_10 [OF uniform_freq(3,4), of "[7, 7, 200]" 8] by (simp add: numeral_3_eq_3)

text \<open>
   The position-context coder switches tables at every byte: when the table of every position
  is valid and contains the byte there, encoding succeeds in 12 bits per symbol and a sentinel bit
  and the decoder, choosing its tables from the position alone, returns the packet.
\<close>

theorem tans_pctx_roundtrip:
  assumes "tables_wf tables"
    and "\<forall>i < length src. tt_valid (tables ! netc_ctx_bucket i) \<and>
      tans_present (tables ! netc_ctx_bucket i) (src ! i)"
    and "src \<noteq> []" and "length src * 12 < 8 * cap"
  shows "\<exists>X w w'.
    netc_tans_encode_pctx tables src (length src) (netc_bsw_init cap) NETC_TANS_TABLE_SIZE = Inr (X, w) \<and>
    netc_bsw_flush w = Some w' \<and>
    netc_tans_decode_pctx tables (netc_bsr_init (bsw_buf w')) (length src) X = Inr src"
proof -
  obtain X w bytes where "netc_tans_encode_pctx tables src (length src) (netc_bsw_init cap)
      NETC_TANS_TABLE_SIZE = Inr (X, w)" "bsw_bytes w = Some bytes"
    using tans_encode_total_pctx [OF assms(1) _ assms(3), where cap = cap] assms(2,4)
    by (auto simp: NETC_TANS_TABLE_LOG_def)
  then show ?thesis
    using tans_encode_decode_pctx [OF assms(1)] by (auto simp: bsw_bytes_def)
qed

theorem tans_pctx_roundtrip_witness:
  "\<exists>X w w'. netc_tans_encode_pctx (replicate 16 (the (netc_tans_build (replicate 256 16))))
      [1, 2, 3] 3 (netc_bsw_init 8) NETC_TANS_TABLE_SIZE = Inr (X, w) \<and>
    netc_bsw_flush w = Some w' \<and>
    netc_tans_decode_pctx (replicate 16 (the (netc_tans_build (replicate 256 16))))
      (netc_bsr_init (bsw_buf w')) 3 X = Inr [1, 2, 3]"
  using tans_pctx_roundtrip [OF uniform_tables_wf, of "[1, 2, 3]" 8] uniform_table
  by (simp add: tans_wf_def numeral_3_eq_3)

text \<open>
  C18.  The bigram coder also lets the previous byte choose the table.  The encoder runs from the
  last byte to the first and reads the previous byte from the packet; the decoder runs forwards and
  reads it from its own output.  The choices agree, and the round trip holds.
\<close>

theorem tans_bigram_roundtrip:
  assumes "bigram_wf bigram_tables class_map" and "tables_wf unigram_tables"
    and "\<forall>i < length src. bigram_codable bigram_tables unigram_tables class_map src i"
    and "src \<noteq> []" and "length src * 12 < 8 * cap"
  shows "\<exists>X w w'.
    netc_tans_encode_pctx_bigram bigram_tables unigram_tables class_map src (length src)
      (netc_bsw_init cap) NETC_TANS_TABLE_SIZE = Inr (X, w) \<and>
    netc_bsw_flush w = Some w' \<and>
    netc_tans_decode_pctx_bigram bigram_tables unigram_tables class_map
      (netc_bsr_init (bsw_buf w')) (length src) X = Inr src"
proof -
  obtain X w bytes where "netc_tans_encode_pctx_bigram bigram_tables unigram_tables class_map src
      (length src) (netc_bsw_init cap) NETC_TANS_TABLE_SIZE = Inr (X, w)" "bsw_bytes w = Some bytes"
    using tans_encode_total_bigram [OF assms(1,2) _ assms(4), where cap = cap] assms(3,5)
    by (auto simp: NETC_TANS_TABLE_LOG_def)
  then show ?thesis
    using tans_encode_decode_bigram [OF assms(1,2)] by (auto simp: bsw_bytes_def)
qed

theorem tans_bigram_roundtrip_witness:
  "\<exists>X w w'. netc_tans_encode_pctx_bigram
      (replicate 16 (replicate 8 (the (netc_tans_build (replicate 256 16)))))
      (replicate 16 (the (netc_tans_build (replicate 256 16)))) None
      [1, 2, 3] 3 (netc_bsw_init 8) NETC_TANS_TABLE_SIZE = Inr (X, w) \<and>
    netc_bsw_flush w = Some w' \<and>
    netc_tans_decode_pctx_bigram
      (replicate 16 (replicate 8 (the (netc_tans_build (replicate 256 16)))))
      (replicate 16 (the (netc_tans_build (replicate 256 16)))) None
      (netc_bsr_init (bsw_buf w')) 3 X = Inr [1, 2, 3]"
proof -
  let ?t = "the (netc_tans_build (replicate 256 16))"
  have wf: "bigram_wf (replicate 16 (replicate 8 ?t)) None"
    using uniform_table(1) by (simp add: bigram_wf_def)
  have "bigram_codable (replicate 16 (replicate 8 ?t)) (replicate 16 ?t) None src i" for src i
    using uniform_table bigram_class_less [OF wf]
    by (simp add: bigram_codable_def bigram_select_def tans_wf_def Let_def)
  then show ?thesis
    using tans_bigram_roundtrip [OF wf uniform_tables_wf, of "[1, 2, 3]" 8]
    by (simp add: numeral_3_eq_3)
qed

end
