(* ===== verification/Netc_Tans_X2.thy ===== *)
theory Netc_Tans_X2
  imports Netc_Tans
begin

text \<open>
  The tANS coder with two interleaved states, \<open>netc_tans_encode_x2\<close> and
  \<open>netc_tans_decode_x2\<close> in \<open>src/src/algo/netc_tans.c\<close>, and the behaviour of all decoders on
  arbitrary streams.  For an even number of symbols the two routines are inverse.  For an odd number
  they are not: the encoder gives the even positions to the first state and the odd positions to the
  second, the decoder takes the first two symbols from the first state.
\<close>

section \<open>Two interleaved states\<close>

function encode_x2_loop ::
    "netc_tans_table \<Rightarrow> byte list \<Rightarrow> nat \<Rightarrow> nat \<Rightarrow> nat \<Rightarrow> netc_bsw \<Rightarrow>
     cerror + (nat \<times> nat \<times> netc_bsw)" where
  "encode_x2_loop tbl src i X0 X1 bsw =
     (if i < 2 then Inr (X0, X1, bsw)
      else case tans_encode_step tbl X1 (src ! (i - 2 + 1)) bsw of Inl e \<Rightarrow> Inl e
        | Inr (X1', bsw1) \<Rightarrow>
            (case tans_encode_step tbl X0 (src ! (i - 2)) bsw1 of Inl e \<Rightarrow> Inl e
             | Inr (X0', bsw2) \<Rightarrow> encode_x2_loop tbl src (i - 2) X0' X1' bsw2))"
  by pat_completeness auto
termination
  by (relation "measure (\<lambda>(tbl, src, i, X0, X1, bsw). i)") auto

declare encode_x2_loop.simps [simp del]

definition netc_tans_encode_x2 ::
    "netc_tans_table \<Rightarrow> byte list \<Rightarrow> nat \<Rightarrow> netc_bsw \<Rightarrow> cerror + (nat \<times> nat \<times> netc_bsw)" where
  "netc_tans_encode_x2 tbl src src_size bsw =
     (if \<not> tt_valid tbl \<or> src_size < 2 then Inl C_Fail
      else let X0 = NETC_TANS_TABLE_SIZE; X1 = NETC_TANS_TABLE_SIZE; i = src_size
           in if odd i
              then (case tans_encode_step tbl X0 (src ! (i - 1)) bsw of Inl e \<Rightarrow> Inl e
                    | Inr (X0', bsw') \<Rightarrow> encode_x2_loop tbl src (i - 1) X0' X1 bsw')
              else encode_x2_loop tbl src i X0 X1 bsw)"

text \<open>
  One pass of the decoder's pair loop: both entries are looked up before the two reads.
\<close>

definition decode_x2_pair ::
    "netc_tans_table \<Rightarrow> nat \<Rightarrow> nat \<Rightarrow> netc_bsr \<Rightarrow> cerror + (byte \<times> byte \<times> nat \<times> nat \<times> netc_bsr)" where
  "decode_x2_pair tbl X0 X1 bsr =
     (case nth_opt (tt_decode tbl) (u32_sub X0 NETC_TANS_TABLE_SIZE) of None \<Rightarrow> Inl C_Undefined
      | Some d0 \<Rightarrow> (case nth_opt (tt_decode tbl) (u32_sub X1 NETC_TANS_TABLE_SIZE) of None \<Rightarrow> Inl C_Undefined
        | Some d1 \<Rightarrow>
            let nb0 = unat (de_nb_bits d0); nb1 = unat (de_nb_bits d1)
            in case (if nb0 > 0 then netc_bsr_read bsr nb0 else Inr (0, bsr)) of Inl e \<Rightarrow> Inl e
               | Inr (bv0, bsr1) \<Rightarrow>
                   (case (if nb1 > 0 then netc_bsr_read bsr1 nb1 else Inr (0, bsr1)) of Inl e \<Rightarrow> Inl e
                    | Inr (bv1, bsr2) \<Rightarrow>
                        Inr (de_symbol d0, de_symbol d1,
                             (unat (de_next_state_base d0) + unat bv0) mod 2 ^ 32,
                             (unat (de_next_state_base d1) + unat bv1) mod 2 ^ 32, bsr2))))"

function decode_x2_loop ::
    "netc_tans_table \<Rightarrow> nat \<Rightarrow> byte list \<Rightarrow> nat \<Rightarrow> nat \<Rightarrow> netc_bsr \<Rightarrow> cerror + byte list" where
  "decode_x2_loop tbl dst_size dst X0 X1 bsr =
     (if length dst + 1 < dst_size
      then case decode_x2_pair tbl X0 X1 bsr of Inl e \<Rightarrow> Inl e
        | Inr (b0, b1, X0', X1', bsr') \<Rightarrow> decode_x2_loop tbl dst_size (dst @ [b0, b1]) X0' X1' bsr'
      else Inr dst)"
  by pat_completeness auto
termination
  by (relation "measure (\<lambda>(tbl, dst_size, dst, X0, X1, bsr). dst_size - length dst)") auto

declare decode_x2_loop.simps [simp del]

definition netc_tans_decode_x2 ::
    "netc_tans_table \<Rightarrow> netc_bsr \<Rightarrow> nat \<Rightarrow> nat \<Rightarrow> nat \<Rightarrow> cerror + byte list" where
  "netc_tans_decode_x2 tbl bsr dst_size initial_state0 initial_state1 =
     (if \<not> tt_valid tbl \<or> dst_size < 2 then Inl C_Fail
      else if initial_state0 < NETC_TANS_TABLE_SIZE \<or> initial_state0 \<ge> 2 * NETC_TANS_TABLE_SIZE
      then Inl C_Fail
      else if initial_state1 < NETC_TANS_TABLE_SIZE \<or> initial_state1 \<ge> 2 * NETC_TANS_TABLE_SIZE
      then Inl C_Fail
      else if odd dst_size
      then (case tans_decode_step NETC_TANS_TABLE_LOG tbl initial_state0 bsr of Inl e \<Rightarrow> Inl e
            | Inr (b, X0, bsr') \<Rightarrow> decode_x2_loop tbl dst_size [b] X0 initial_state1 bsr')
      else decode_x2_loop tbl dst_size [] initial_state0 initial_state1 bsr)"

lemma Suc_Suc_minus_2: "Suc (Suc k) - 2 = k"
  by simp

lemma encode_x2_loop_less: "i < 2 \<Longrightarrow> encode_x2_loop t src i X0 X1 w = Inr (X0, X1, w)"
  and encode_x2_loop_pair: "encode_x2_loop t src (Suc (Suc k)) X0 X1 w =
    (case tans_encode_step t X1 (src ! Suc k) w of Inl e \<Rightarrow> Inl e
     | Inr (X1', w1) \<Rightarrow>
         (case tans_encode_step t X0 (src ! k) w1 of Inl e \<Rightarrow> Inl e
          | Inr (X0', w2) \<Rightarrow> encode_x2_loop t src k X0' X1' w2))"
  by (simp_all add: encode_x2_loop.simps [of t src i] encode_x2_loop.simps [of t src "Suc (Suc k)"]
      Suc_Suc_minus_2 cong: sum.case_cong)

section \<open>Even sizes\<close>

lemma decode_pair_steps:
  assumes "tans_decode_step NETC_TANS_TABLE_LOG t X0 r = Inr (b0, X0', r1)"
    and "tans_decode_step NETC_TANS_TABLE_LOG t X1 r1 = Inr (b1, X1', r2)"
  shows "decode_x2_pair t X0 X1 r = Inr (b0, b1, X0', X1', r2)"
  using assms
  by (auto simp: decode_x2_pair_def tans_decode_step_def NETC_TANS_TABLE_SIZE_def Let_def
      split: option.splits sum.splits prod.splits if_splits)

lemma encode_x2_loop_inverts:
  assumes "tans_wf NETC_TANS_TABLE_LOG t" and "\<And>b. b \<in> set src \<Longrightarrow> tans_present t b"
    and "even i" and "i \<le> length src"
    and "tans_state NETC_TANS_TABLE_LOG X0" and "tans_state NETC_TANS_TABLE_LOG X1" and "bsw_inv w"
    and "encode_x2_loop t src i X0 X1 w = Inr (Y0, Y1, w')"
  shows "tans_state NETC_TANS_TABLE_LOG Y0 \<and> tans_state NETC_TANS_TABLE_LOG Y1 \<and> bsw_inv w' \<and>
    (\<forall>r' n. bsr_inv r' \<longrightarrow> bsr_abs r' = bsw_abs w' \<longrightarrow> i \<le> n \<longrightarrow>
      (\<exists>r. bsr_inv r \<and> bsr_abs r = bsw_abs w \<and>
        decode_x2_loop t n [] Y0 Y1 r' = decode_x2_loop t n (take i src) X0 X1 r))"
  using assms(3-)
proof (induction i arbitrary: X0 X1 w rule: less_induct)
  case (less i)
  show ?case
  proof (cases "i < 2")
    case True
    then have "i = 0" using less.prems(1) by (cases i) auto
    then show ?thesis using less.prems by (auto simp: encode_x2_loop_less)
  next
    case False
    define k where "k = i - 2"
    have k: "i = Suc (Suc k)" "k < i" "even k" "Suc k < length src"
      using False less.prems(1,2) by (auto simp: k_def)
    obtain X1' w1 X0' w2 where step1: "tans_encode_step t X1 (src ! Suc k) w = Inr (X1', w1)"
      and step0: "tans_encode_step t X0 (src ! k) w1 = Inr (X0', w2)"
      and rest: "encode_x2_loop t src k X0' X1' w2 = Inr (Y0, Y1, w')"
      using less.prems(6) k(1) by (auto simp: encode_x2_loop_pair split: sum.splits)
    have p: "tans_present t (src ! k)" "tans_present t (src ! Suc k)"
      using assms(2) k(4) by auto
    have 1: "tans_state NETC_TANS_TABLE_LOG X1'" "bsw_inv w1"
      using ans12.enc_keeps [OF assms(1) p(2) less.prems(4,5) step1] by auto
    have 2: "tans_state NETC_TANS_TABLE_LOG X0'" "bsw_inv w2"
      using ans12.enc_keeps [OF assms(1) p(1) less.prems(3) 1(2) step0] by auto
    have IH: "tans_state NETC_TANS_TABLE_LOG Y0 \<and> tans_state NETC_TANS_TABLE_LOG Y1 \<and> bsw_inv w' \<and>
      (\<forall>r' n. bsr_inv r' \<longrightarrow> bsr_abs r' = bsw_abs w' \<longrightarrow> k \<le> n \<longrightarrow>
        (\<exists>r. bsr_inv r \<and> bsr_abs r = bsw_abs w2 \<and>
          decode_x2_loop t n [] Y0 Y1 r' = decode_x2_loop t n (take k src) X0' X1' r))"
      using less.IH [OF k(2,3) _ 2(1) 1(1) 2(2) rest] k(4) by simp
    have "\<exists>r. bsr_inv r \<and> bsr_abs r = bsw_abs w \<and>
        decode_x2_loop t n [] Y0 Y1 r' = decode_x2_loop t n (take i src) X0 X1 r"
      if r': "bsr_inv r'" "bsr_abs r' = bsw_abs w'" "i \<le> n" for r' n
    proof -
      obtain r2 where r2: "bsr_inv r2" "bsr_abs r2 = bsw_abs w2"
        "decode_x2_loop t n [] Y0 Y1 r' = decode_x2_loop t n (take k src) X0' X1' r2"
        using IH r'(1,2) Suc_leD [OF Suc_leD [OF r'(3) [unfolded k(1)]]] by blast
      obtain r1 where r1: "tans_decode_step NETC_TANS_TABLE_LOG t X0' r2 = Inr (src ! k, X0, r1)"
        "bsr_inv r1" "bsr_abs r1 = bsw_abs w1"
        using ans12.enc_dec [OF assms(1) p(1) less.prems(3) 1(2) step0 r2(1,2)] by blast
      obtain r where r: "tans_decode_step NETC_TANS_TABLE_LOG t X1' r1 = Inr (src ! Suc k, X1, r)"
        "bsr_inv r" "bsr_abs r = bsw_abs w"
        using ans12.enc_dec [OF assms(1) p(2) less.prems(4,5) step1 r1(2,3)] by blast
      have "take i src = take k src @ [src ! k, src ! Suc k]"
        using k(1,4) by (simp add: take_Suc_conv_app_nth)
      then show ?thesis
        using r2(3) r decode_pair_steps [OF r1(1) r(1)] k(1,4) r'(3)
        by (auto simp: decode_x2_loop.simps [of t n "take k src"])
    qed
    with IH show ?thesis by blast
  qed
qed

lemma tans_encode_decode_x2_even:
  assumes wf: "tans_wf NETC_TANS_TABLE_LOG t" "\<And>b. b \<in> set src \<Longrightarrow> tans_present t b"
    and ev: "even (length src)"
    and enc: "netc_tans_encode_x2 t src (length src) (netc_bsw_init cap) = Inr (Y0, Y1, w)"
    and fl: "bsw_bytes w = Some bytes"
  shows "netc_tans_decode_x2 t (netc_bsr_init bytes) (length src) Y0 Y1 = Inr src"
proof -
  have run: "encode_x2_loop t src (length src) NETC_TANS_TABLE_SIZE NETC_TANS_TABLE_SIZE
      (netc_bsw_init cap) = Inr (Y0, Y1, w)" and two: "2 \<le> length src"
    using enc ev by (auto simp: netc_tans_encode_x2_def split: if_splits)
  have init: "tans_state NETC_TANS_TABLE_LOG NETC_TANS_TABLE_SIZE"
    by (simp add: NETC_TANS_TABLE_SIZE_def)
  note inv = encode_x2_loop_inverts [OF wf ev order_refl init init bsw_inv_init run]
  then obtain r where "decode_x2_loop t (length src) [] Y0 Y1 (netc_bsr_init bytes)
      = decode_x2_loop t (length src) (take (length src) src) NETC_TANS_TABLE_SIZE NETC_TANS_TABLE_SIZE r"
    using bitstream.close_open [OF _ fl] by blast
  then show ?thesis
    using wf(1) two ev inv
    by (simp add: netc_tans_decode_x2_def tans_wf_def tans_state_sizes decode_x2_loop.simps [of t _ src])
qed

lemma encode_x2_loop_room:
  assumes "tans_wf NETC_TANS_TABLE_LOG t" and "\<And>b. b \<in> set src \<Longrightarrow> tans_present t b"
    and "i \<le> length src"
    and "tans_state NETC_TANS_TABLE_LOG X0" and "tans_state NETC_TANS_TABLE_LOG X1" and "bsw_inv w"
    and "length (bsw_abs w) + i * NETC_TANS_TABLE_LOG \<le> 8 * bsw_cap w"
  shows "\<exists>Y0 Y1 w'. encode_x2_loop t src i X0 X1 w = Inr (Y0, Y1, w') \<and> bsw_inv w' \<and>
    bsw_cap w' = bsw_cap w \<and> length (bsw_abs w') \<le> length (bsw_abs w) + i * NETC_TANS_TABLE_LOG"
  using assms(3-)
proof (induction i arbitrary: X0 X1 w rule: less_induct)
  case (less i)
  show ?case
  proof (cases "i < 2")
    case True
    then show ?thesis using less.prems by (auto simp: encode_x2_loop_less)
  next
    case False
    define k where "k = i - 2"
    have k: "i = Suc (Suc k)" "k < i" "Suc k < length src"
      using False less.prems(1) by (auto simp: k_def)
    have p: "tans_present t (src ! k)" "tans_present t (src ! Suc k)"
      using assms(2) k(3) by auto
    obtain X1' w1 where step1: "tans_encode_step t X1 (src ! Suc k) w = Inr (X1', w1)"
      using ans12.enc_room [OF assms(1) p(2) less.prems(3,4)] less.prems(5) k(1) by auto
    have 1: "tans_state NETC_TANS_TABLE_LOG X1' \<and> bsw_inv w1 \<and> 8 * bsw_cap w1 = 8 * bsw_cap w \<and>
        length (bsw_abs w1) \<le> length (bsw_abs w) + NETC_TANS_TABLE_LOG"
      by (rule ans12.enc_keeps [OF assms(1) p(2) less.prems(3,4) step1])
    then obtain X0' w2 where step0: "tans_encode_step t X0 (src ! k) w1 = Inr (X0', w2)"
      using ans12.enc_room [OF assms(1) p(1) less.prems(2), of w1] less.prems(5) k(1) by auto
    have 2: "tans_state NETC_TANS_TABLE_LOG X0' \<and> bsw_inv w2 \<and> 8 * bsw_cap w2 = 8 * bsw_cap w1 \<and>
        length (bsw_abs w2) \<le> length (bsw_abs w1) + NETC_TANS_TABLE_LOG"
      by (rule ans12.enc_keeps [OF assms(1) p(1) less.prems(2) _ step0]) (use 1 in simp)
    have "length (bsw_abs w2) + k * NETC_TANS_TABLE_LOG \<le> 8 * bsw_cap w2"
      using 1 2 less.prems(5) k(1) by simp
    then obtain Y0 Y1 w' where "encode_x2_loop t src k X0' X1' w2 = Inr (Y0, Y1, w')" "bsw_inv w'"
        "bsw_cap w' = bsw_cap w2" "length (bsw_abs w') \<le> length (bsw_abs w2) + k * NETC_TANS_TABLE_LOG"
      using less.IH [OF k(2), of X0' X1' w2] k(3) 1 2 by auto
    then show ?thesis
      using step1 step0 1 2 k(1) by (auto simp: encode_x2_loop_pair)
  qed
qed

lemma tans_encode_total_x2:
  assumes wf: "tans_wf NETC_TANS_TABLE_LOG t" "\<And>b. b \<in> set src \<Longrightarrow> tans_present t b"
    and two: "2 \<le> length src" and cap: "length src * NETC_TANS_TABLE_LOG + 1 \<le> 8 * cap"
  shows "\<exists>Y0 Y1 w bytes. netc_tans_encode_x2 t src (length src) (netc_bsw_init cap) = Inr (Y0, Y1, w) \<and>
    bsw_bytes w = Some bytes"
proof -
  have init: "tans_state NETC_TANS_TABLE_LOG NETC_TANS_TABLE_SIZE"
    by (simp add: NETC_TANS_TABLE_SIZE_def)
  have "\<exists>Y0 Y1 w. netc_tans_encode_x2 t src (length src) (netc_bsw_init cap) = Inr (Y0, Y1, w) \<and>
      bsw_inv w \<and> bsw_cap w = cap \<and> length (bsw_abs w) \<le> length src * NETC_TANS_TABLE_LOG"
  proof (cases "even (length src)")
    case True
    then show ?thesis
      using encode_x2_loop_room [OF wf order_refl init init bsw_inv_init, of src cap] two cap wf(1)
      by (simp add: netc_tans_encode_x2_def tans_wf_def)
  next
    case False
    define n where "n = length src - 1"
    have n: "length src = Suc n" using two by (simp add: n_def)
    have p: "tans_present t (src ! n)" using wf(2) n by simp
    obtain X0 w1 where step: "tans_encode_step t NETC_TANS_TABLE_SIZE (src ! n) (netc_bsw_init cap) = Inr (X0, w1)"
      using ans12.enc_room [OF wf(1) p init, of "netc_bsw_init cap"] cap n by auto
    have 1: "tans_state NETC_TANS_TABLE_LOG X0 \<and> bsw_inv w1 \<and> 8 * bsw_cap w1 = 8 * bsw_cap (netc_bsw_init cap) \<and>
        length (bsw_abs w1) \<le> length (bsw_abs (netc_bsw_init cap)) + NETC_TANS_TABLE_LOG"
      by (rule ans12.enc_keeps [OF wf(1) p init _ step]) simp
    obtain Y0 Y1 w where "encode_x2_loop t src n X0 NETC_TANS_TABLE_SIZE w1 = Inr (Y0, Y1, w)" "bsw_inv w"
      "bsw_cap w = bsw_cap w1" "length (bsw_abs w) \<le> length (bsw_abs w1) + n * NETC_TANS_TABLE_LOG"
      using encode_x2_loop_room [OF wf _ _ init, where i = n and w = w1 and src = src and ?X0.0 = X0] 1 cap n by auto
    then show ?thesis
      using False two wf(1) step 1 n by (simp add: netc_tans_encode_x2_def tans_wf_def)
  qed
  then show ?thesis
    using bitstream.close_room cap by fastforce
qed

section \<open>Odd sizes\<close>

definition state_symbol :: "netc_tans_table \<Rightarrow> nat \<Rightarrow> byte" where
  "state_symbol t X = de_symbol (tt_decode t ! (X - NETC_TANS_TABLE_SIZE))"

lemma encode_step_symbol:
  assumes "tans_wf NETC_TANS_TABLE_LOG t" "tans_present t b" "tans_state NETC_TANS_TABLE_LOG X"
    and "tans_encode_step t X b w = Inr (X', w')"
  shows "state_symbol t X' = b"
  by (rule encode_step_cases [OF assms(1) _ assms(2,3,4)])
     (simp_all add: state_symbol_def NETC_TANS_TABLE_SIZE_def NETC_TANS_TABLE_LOG_def)

lemma encode_x2_loop_first_state:
  assumes "tans_wf NETC_TANS_TABLE_LOG t" and "\<And>b. b \<in> set src \<Longrightarrow> tans_present t b"
    and "even i" and "2 \<le> i" and "i < length src"
    and "tans_state NETC_TANS_TABLE_LOG X0" and "tans_state NETC_TANS_TABLE_LOG X1" and "bsw_inv w"
    and "state_symbol t X0 = src ! i"
    and "encode_x2_loop t src i X0 X1 w = Inr (Y0, Y1, w')"
    and "bsr_inv r'" and "bsr_abs r' = bsw_abs w'"
  shows "\<exists>X r. tans_decode_step NETC_TANS_TABLE_LOG t Y0 r' = Inr (src ! 0, X, r) \<and>
    tans_state NETC_TANS_TABLE_LOG X \<and> state_symbol t X = src ! 2"
  using assms(3-10)
proof (induction i arbitrary: X0 X1 w rule: less_induct)
  case (less i)
  define k where "k = i - 2"
  have k: "i = Suc (Suc k)" "k < i" "even k" "Suc k < length src"
    using less.prems(1,2,3) by (auto simp: k_def)
  obtain X1' w1 X0' w2 where step1: "tans_encode_step t X1 (src ! Suc k) w = Inr (X1', w1)"
    and step0: "tans_encode_step t X0 (src ! k) w1 = Inr (X0', w2)"
    and rest: "encode_x2_loop t src k X0' X1' w2 = Inr (Y0, Y1, w')"
    using less.prems(8) k(1) by (auto simp: encode_x2_loop_pair split: sum.splits)
  have p: "tans_present t (src ! k)" "tans_present t (src ! Suc k)"
    using assms(2) k(4) by auto
  have 1: "tans_state NETC_TANS_TABLE_LOG X1'" "bsw_inv w1"
    using ans12.enc_keeps [OF assms(1) p(2) less.prems(5,6) step1] by auto
  have 2: "tans_state NETC_TANS_TABLE_LOG X0'" "bsw_inv w2"
    using ans12.enc_keeps [OF assms(1) p(1) less.prems(4) 1(2) step0] by auto
  show ?case
  proof (cases "k = 0")
    case True
    then have "Y0 = X0'" "w' = w2" using rest by (simp_all add: encode_x2_loop_less)
    then show ?thesis
      using ans12.enc_dec [OF assms(1) p(1) less.prems(4) 1(2) step0 assms(11)] assms(12) True
        less.prems(4,7) k(1) by (auto simp: numeral_2_eq_2)
  next
    case False
    then have "2 \<le> k" using k(3) by presburger
    then show ?thesis
      using less.IH [OF k(2,3) _ _ 2(1) 1(1) 2(2) _ rest] k(4)
        encode_step_symbol [OF assms(1) p(1) less.prems(4) step0] by simp
  qed
qed

lemma decode_x2_loop_prefix:
  "decode_x2_loop t n dst X0 X1 r = Inr out \<Longrightarrow> \<exists>ext. out = dst @ ext"
proof (induction t n dst X0 X1 r rule: decode_x2_loop.induct)
  case (1 t n dst X0 X1 r)
  show ?case
  proof (cases "length dst + 1 < n")
    case True
    then obtain b0 b1 X0' X1' r' where "decode_x2_pair t X0 X1 r = Inr (b0, b1, X0', X1', r')"
      "decode_x2_loop t n (dst @ [b0, b1]) X0' X1' r' = Inr out"
      using "1.prems" by (auto simp: decode_x2_loop.simps [of t n dst] split: sum.splits)
    with True show ?thesis using "1.IH" by fastforce
  next
    case False
    then show ?thesis using "1.prems" by (simp add: decode_x2_loop.simps [of t n dst])
  qed
qed

lemma decode_x2_pair_first:
  assumes "tans_state NETC_TANS_TABLE_LOG X0" and "decode_x2_pair t X0 X1 r = Inr (b0, b1, X0', X1', r')"
  shows "b0 = state_symbol t X0"
proof -
  have "u32_sub X0 NETC_TANS_TABLE_SIZE = X0 - NETC_TANS_TABLE_SIZE"
    using assms(1) by (intro u32_sub_exact) (auto simp: tans_state_def tans_consts)
  then show ?thesis
    using assms(2) by (auto simp: decode_x2_pair_def state_symbol_def Let_def nth_opt_eq_Some
        split: option.splits sum.splits)
qed

section \<open>Properties of the interleaved coder\<close>

text \<open>
   For an even number of at least two symbols the interleaved coder succeeds in 12 bits per
  symbol and a sentinel bit, and the interleaved decoder returns the packet.
\<close>

theorem tans_x2_even_roundtrip:
  assumes "tans_wf NETC_TANS_TABLE_LOG t" and "\<forall>b \<in> set src. tans_present t b"
    and "even (length src)" and "2 \<le> length src" and "length src * 12 < 8 * cap"
  shows "\<exists>X0 X1 w w'. netc_tans_encode_x2 t src (length src) (netc_bsw_init cap) = Inr (X0, X1, w) \<and>
    netc_bsw_flush w = Some w' \<and>
    netc_tans_decode_x2 t (netc_bsr_init (bsw_buf w')) (length src) X0 X1 = Inr src"
proof -
  have p: "\<And>b. b \<in> set src \<Longrightarrow> tans_present t b" using assms(2) by blast
  obtain X0 X1 w bytes where "netc_tans_encode_x2 t src (length src) (netc_bsw_init cap) = Inr (X0, X1, w)"
    "bsw_bytes w = Some bytes"
    using tans_encode_total_x2 [OF assms(1) p assms(4), of cap] assms(5)
    by (auto simp: NETC_TANS_TABLE_LOG_def)
  then show ?thesis
    using tans_encode_decode_x2_even [OF assms(1) p assms(3)] by (auto simp: bsw_bytes_def)
qed

theorem tans_x2_even_roundtrip_witness:
  "\<exists>X0 X1 w w'. netc_tans_encode_x2 (the (netc_tans_build (replicate 256 16))) [1, 2, 3, 4] 4
      (netc_bsw_init 8) = Inr (X0, X1, w) \<and> netc_bsw_flush w = Some w' \<and>
    netc_tans_decode_x2 (the (netc_tans_build (replicate 256 16))) (netc_bsr_init (bsw_buf w')) 4 X0 X1
      = Inr [1, 2, 3, 4]"
proof -
  have len: "length [1, 2, 3, 4 :: byte] = 4" by simp
  show ?thesis
    by (rule tans_x2_even_roundtrip [OF uniform_table(1), of "[1, 2, 3, 4]" 8, unfolded len])
       (simp_all add: uniform_table(2))
qed

text \<open>
  C19.  For an odd number of at least three symbols the interleaved decoder does not return the
  packet unless its second and third bytes are equal: both routines succeed in encoding, but the
  decoder puts the third symbol in the second place, or fails.
\<close>

theorem tans_x2_odd_not_inverse:
  assumes "tans_wf NETC_TANS_TABLE_LOG t" and "\<forall>b \<in> set src. tans_present t b"
    and "odd (length src)" and "3 \<le> length src" and "length src * 12 < 8 * cap"
    and "src ! 1 \<noteq> src ! 2"
  shows "\<exists>X0 X1 w w'. netc_tans_encode_x2 t src (length src) (netc_bsw_init cap) = Inr (X0, X1, w) \<and>
    netc_bsw_flush w = Some w' \<and>
    netc_tans_decode_x2 t (netc_bsr_init (bsw_buf w')) (length src) X0 X1 \<noteq> Inr src"
proof -
  have p: "\<And>b. b \<in> set src \<Longrightarrow> tans_present t b" using assms(2) by blast
  define n where "n = length src - 1"
  have n: "length src = Suc n" "even n" "2 \<le> n" using assms(3,4) by (auto simp: n_def)
  have init: "tans_state NETC_TANS_TABLE_LOG NETC_TANS_TABLE_SIZE"
    by (simp add: NETC_TANS_TABLE_SIZE_def)
  obtain Y0 Y1 w bytes where enc: "netc_tans_encode_x2 t src (length src) (netc_bsw_init cap) = Inr (Y0, Y1, w)"
    and fl: "bsw_bytes w = Some bytes"
    using tans_encode_total_x2 [OF assms(1) p, of src cap] assms(4,5)
    by (auto simp: NETC_TANS_TABLE_LOG_def)
  obtain X0 w1 where step: "tans_encode_step t NETC_TANS_TABLE_SIZE (src ! n) (netc_bsw_init cap) = Inr (X0, w1)"
    and run: "encode_x2_loop t src n X0 NETC_TANS_TABLE_SIZE w1 = Inr (Y0, Y1, w)"
    using enc n assms(1) by (auto simp: netc_tans_encode_x2_def tans_wf_def split: if_splits sum.splits)
  have pn: "tans_present t (src ! n)" using p n(1) by simp
  have 1: "tans_state NETC_TANS_TABLE_LOG X0" "bsw_inv w1"
    using ans12.enc_keeps [OF assms(1) pn init _ step] by auto
  have "bsw_inv w"
    using encode_x2_loop_inverts [OF assms(1) p n(2) _ 1(1) init 1(2) run] n(1) by auto
  note r = bitstream.close_open [OF this fl]
  obtain X r1 where dec: "tans_decode_step NETC_TANS_TABLE_LOG t Y0 (netc_bsr_init bytes) = Inr (src ! 0, X, r1)"
    and X: "tans_state NETC_TANS_TABLE_LOG X" "state_symbol t X = src ! 2"
    using encode_x2_loop_first_state [OF assms(1) p n(2,3) _ 1(1) init 1(2) _ run conjunct1 [OF r]
        conjunct2 [OF r]] encode_step_symbol [OF assms(1) pn init step] n(1) by auto
  have "netc_tans_decode_x2 t (netc_bsr_init bytes) (length src) Y0 Y1 \<noteq> Inr src"
  proof
    assume "netc_tans_decode_x2 t (netc_bsr_init bytes) (length src) Y0 Y1 = Inr src"
    then have "decode_x2_loop t (length src) [src ! 0] X Y1 r1 = Inr src"
      using dec n by (auto simp: netc_tans_decode_x2_def split: if_splits)
    then obtain b0 b1 X0' X1' r2 where "decode_x2_pair t X Y1 r1 = Inr (b0, b1, X0', X1', r2)"
      and "decode_x2_loop t (length src) [src ! 0, b0, b1] X0' X1' r2 = Inr src"
      using n by (auto simp: decode_x2_loop.simps [of t _ "[src ! 0]"] split: if_splits sum.splits)
    then obtain ext where "src = [src ! 0, src ! 2, b1] @ ext"
      using decode_x2_loop_prefix decode_x2_pair_first [OF X(1)] X(2) by metis
    then have "src ! 1 = src ! 2" by (metis One_nat_def append_Cons nth_Cons_0 nth_Cons_Suc)
    with assms(6) show False ..
  qed
  with enc fl show ?thesis by (auto simp: bsw_bytes_def)
qed

theorem tans_x2_odd_not_inverse_witness:
  "\<exists>X0 X1 w w'. netc_tans_encode_x2 (the (netc_tans_build (replicate 256 16))) [1, 2, 3] 3
      (netc_bsw_init 8) = Inr (X0, X1, w) \<and> netc_bsw_flush w = Some w' \<and>
    netc_tans_decode_x2 (the (netc_tans_build (replicate 256 16))) (netc_bsr_init (bsw_buf w')) 3 X0 X1
      \<noteq> Inr [1, 2, 3]"
proof -
  have len: "length [1, 2, 3 :: byte] = 3" by simp
  show ?thesis
    by (rule tans_x2_odd_not_inverse [OF uniform_table(1), of "[1, 2, 3]" 8, unfolded len])
       (simp_all add: uniform_table(2))
qed

section \<open>Arbitrary streams and absent symbols\<close>

lemma decode_pair_ok:
  assumes "tans_wf NETC_TANS_TABLE_LOG t" and "tans_state NETC_TANS_TABLE_LOG X0"
    and "tans_state NETC_TANS_TABLE_LOG X1" and "bsr_inv r"
  shows "decode_x2_pair t X0 X1 r = Inl C_Fail \<or>
    (\<exists>b0 b1 X0' X1' r'. decode_x2_pair t X0 X1 r = Inr (b0, b1, X0', X1', r') \<and>
      tans_state NETC_TANS_TABLE_LOG X0' \<and> tans_state NETC_TANS_TABLE_LOG X1' \<and> bsr_inv r')"
  using ans12.dec_defined [OF assms(1,2,4)]
proof (elim disjE exE conjE)
  assume "tans_decode_step NETC_TANS_TABLE_LOG t X0 r = Inl C_Fail"
  moreover have "u32_sub X1 NETC_TANS_TABLE_SIZE < length (tt_decode t)"
    using assms(1,3) by (subst u32_sub_exact) (auto simp: tans_wf_def tans_state_def tans_consts)
  ultimately show ?thesis
    by (auto simp: decode_x2_pair_def tans_decode_step_def NETC_TANS_TABLE_SIZE_def Let_def
        split: option.splits sum.splits if_splits)
next
  fix b0 X0' r1
  assume 0: "tans_decode_step NETC_TANS_TABLE_LOG t X0 r = Inr (b0, X0', r1)"
    "tans_state NETC_TANS_TABLE_LOG X0'" "bsr_inv r1"
  from ans12.dec_defined [OF assms(1,3) 0(3)] show ?thesis
  proof (elim disjE exE conjE)
    assume "tans_decode_step NETC_TANS_TABLE_LOG t X1 r1 = Inl C_Fail"
    then show ?thesis
      using 0(1) by (auto simp: decode_x2_pair_def tans_decode_step_def NETC_TANS_TABLE_SIZE_def Let_def
          split: option.splits sum.splits prod.splits if_splits)
  next
    fix b1 X1' r2
    assume 1: "tans_decode_step NETC_TANS_TABLE_LOG t X1 r1 = Inr (b1, X1', r2)"
      "tans_state NETC_TANS_TABLE_LOG X1'" "bsr_inv r2"
    then show ?thesis using decode_pair_steps [OF 0(1) 1(1)] 0(2) by blast
  qed
qed

definition decoded_ok :: "cerror + byte list \<Rightarrow> nat \<Rightarrow> bool" where
  "decoded_ok out n \<longleftrightarrow> out = Inl C_Fail \<or> (\<exists>dst. out = Inr dst \<and> length dst = n)"

lemma decoded_ok_simps [simp]:
  "decoded_ok (Inl e) n \<longleftrightarrow> e = C_Fail" "decoded_ok (Inr dst) n \<longleftrightarrow> length dst = n"
  by (simp_all add: decoded_ok_def)

lemma decode_loop_ok_12:
  assumes "\<And>dst X r. dbody dst X r = Inl C_Fail \<or>
      (\<exists>t. tans_wf NETC_TANS_TABLE_LOG t \<and> dbody dst X r = tans_decode_step NETC_TANS_TABLE_LOG t X r)"
    and "tans_state NETC_TANS_TABLE_LOG X" and "bsr_inv r"
  shows "decoded_ok (decode_loop dbody n [] X r) n"
proof -
  have "decode_loop dbody n [] X r = Inl C_Fail \<or>
      (\<exists>out. decode_loop dbody n [] X r = Inr out \<and> length out = 0 + n)"
    by (rule ans12.decode_loop_defined [where dbody = dbody]) (use assms in simp_all)
  then show ?thesis by (simp add: decoded_ok_def)
qed

lemma tans_decode_ok:
  assumes "tans_wf NETC_TANS_TABLE_LOG t" and "bsr_inv r"
  shows "decoded_ok (netc_tans_decode t r n X) n"
proof -
  have "decoded_ok (decode_loop (\<lambda>dst X r. tans_decode_step NETC_TANS_TABLE_LOG t X r) n [] X r) n"
    if "tans_state NETC_TANS_TABLE_LOG X"
    by (rule decode_loop_ok_12 [OF _ that assms(2)]) (use assms(1) in blast)
  then show ?thesis by (simp add: netc_tans_decode_def tans_state_sizes)
qed

lemma tans_decode_10_ok:
  assumes "tans_wf NETC_TANS_TABLE_LOG_10 t" and "bsr_inv r"
  shows "decoded_ok (netc_tans_decode_10 t r n X) n"
proof -
  have "decoded_ok (decode_loop (\<lambda>dst X r. tans_decode_step NETC_TANS_TABLE_LOG_10 t X r) n [] X r) n"
    if "tans_state NETC_TANS_TABLE_LOG_10 X"
    unfolding decoded_ok_def
    using ans10.decode_loop_defined [OF _ _ that assms(2), of 0 n
        "\<lambda>dst X r. tans_decode_step NETC_TANS_TABLE_LOG_10 t X r" "[]"] assms(1) by auto
  then show ?thesis by (simp add: netc_tans_decode_10_def tans_state_sizes)
qed

lemma tans_decode_pctx_ok:
  assumes "tables_wf tables" and "bsr_inv r"
  shows "decoded_ok (netc_tans_decode_pctx tables r n X) n"
proof -
  have "decoded_ok (decode_loop (\<lambda>dst X r. let tbl = tables ! netc_ctx_bucket (length dst)
      in if \<not> tt_valid tbl then Inl C_Fail else tans_decode_step NETC_TANS_TABLE_LOG tbl X r) n [] X r) n"
    if "tans_state NETC_TANS_TABLE_LOG X"
    by (rule decode_loop_ok_12 [OF _ that assms(2)]) (use tables_wf_nth [OF assms(1)] in \<open>metis\<close>)
  then show ?thesis by (simp add: netc_tans_decode_pctx_def tans_state_sizes)
qed

lemma tans_decode_bigram_ok:
  assumes "bigram_wf bts class_map" and "tables_wf uts" and "bsr_inv r"
  shows "decoded_ok (netc_tans_decode_pctx_bigram bts uts class_map r n X) n"
proof -
  have "decoded_ok (decode_loop (\<lambda>dst X r.
      case bigram_select bts uts class_map (length dst)
        (if length dst > 0 then dst ! (length dst - 1) else 0) of None \<Rightarrow> Inl C_Undefined
      | Some tbl \<Rightarrow> if \<not> tt_valid tbl then Inl C_Fail
          else tans_decode_step NETC_TANS_TABLE_LOG tbl X r) n [] X r) n"
    if "tans_state NETC_TANS_TABLE_LOG X"
  proof (rule decode_loop_ok_12 [OF _ that assms(3)])
    fix dst :: "byte list" and X r
    let ?b = "if length dst > 0 then dst ! (length dst - 1) else 0"
    obtain t where t: "bigram_select bts uts class_map (length dst) ?b = Some t"
      "tt_valid t \<longrightarrow> tans_wf NETC_TANS_TABLE_LOG t"
      using bigram_select_wf [OF assms(1,2)] by blast
    show "(case bigram_select bts uts class_map (length dst) ?b of None \<Rightarrow> Inl C_Undefined
      | Some tbl \<Rightarrow> if \<not> tt_valid tbl then Inl C_Fail else tans_decode_step NETC_TANS_TABLE_LOG tbl X r)
      = Inl C_Fail \<or> (\<exists>t. tans_wf NETC_TANS_TABLE_LOG t \<and>
     (case bigram_select bts uts class_map (length dst) ?b of None \<Rightarrow> Inl C_Undefined
      | Some tbl \<Rightarrow> if \<not> tt_valid tbl then Inl C_Fail else tans_decode_step NETC_TANS_TABLE_LOG tbl X r)
      = tans_decode_step NETC_TANS_TABLE_LOG t X r)"
      unfolding t(1) using t(2) by (cases "tt_valid t") auto
  qed
  then show ?thesis by (simp add: netc_tans_decode_pctx_bigram_def tans_state_sizes)
qed

lemma decode_x2_loop_ok:
  assumes "tans_wf NETC_TANS_TABLE_LOG t" and "tans_state NETC_TANS_TABLE_LOG X0"
    and "tans_state NETC_TANS_TABLE_LOG X1" and "bsr_inv r"
    and "length dst \<le> n" and "even (n - length dst)"
  shows "decoded_ok (decode_x2_loop t n dst X0 X1 r) n"
  using assms(2-)
proof (induction "n - length dst" arbitrary: dst X0 X1 r rule: less_induct)
  case less
  show ?case
  proof (cases "length dst + 1 < n")
    case False
    with less.prems(4,5) have "n - length dst < 2" "even (n - length dst)" by linarith+
    then have "n - length dst = 0" by presburger
    with less.prems(4) have "length dst = n" by simp
    then show ?thesis by (simp add: decode_x2_loop.simps [of t n dst])
  next
    case True
    consider "decode_x2_pair t X0 X1 r = Inl C_Fail"
      | b0 b1 X0' X1' r' where "decode_x2_pair t X0 X1 r = Inr (b0, b1, X0', X1', r')"
        "tans_state NETC_TANS_TABLE_LOG X0'" "tans_state NETC_TANS_TABLE_LOG X1'" "bsr_inv r'"
      using decode_pair_ok [OF assms(1) less.prems(1,2,3)] by blast
    then show ?thesis
    proof cases
      case 2
      have "decoded_ok (decode_x2_loop t n (dst @ [b0, b1]) X0' X1' r') n"
        using 2(2-) True less.prems(5) by (intro less.hyps) auto
      then show ?thesis using 2(1) True by (simp add: decode_x2_loop.simps [of t n dst])
    qed (use True in \<open>simp add: decode_x2_loop.simps [of t n dst]\<close>)
  qed
qed

lemma tans_decode_x2_ok:
  assumes "tans_wf NETC_TANS_TABLE_LOG t" and "bsr_inv r"
  shows "decoded_ok (netc_tans_decode_x2 t r n X0 X1) n"
proof -
  let ?S = "tans_state NETC_TANS_TABLE_LOG"
  have ev: "decoded_ok (decode_x2_loop t n [] X0 X1 r) n" if "?S X0" "?S X1" "even n"
    using decode_x2_loop_ok [OF assms(1) that(1,2) assms(2), of "[]" n] that(3) by simp
  have od: "decoded_ok (case tans_decode_step NETC_TANS_TABLE_LOG t X0 r of Inl e \<Rightarrow> Inl e
      | Inr (b, X0', r') \<Rightarrow> decode_x2_loop t n [b] X0' X1 r') n" if "?S X0" "?S X1" "odd n"
    using ans12.dec_defined [OF assms(1) that(1) assms(2)]
  proof (elim disjE exE conjE)
    fix b X' r' assume 1: "tans_decode_step NETC_TANS_TABLE_LOG t X0 r = Inr (b, X', r')" "?S X'" "bsr_inv r'"
    have "decoded_ok (decode_x2_loop t n [b] X' X1 r') n"
      using decode_x2_loop_ok [OF assms(1) 1(2) that(2) 1(3), of "[b]" n] that(3) by (cases n) auto
    then show ?thesis by (simp add: 1)
  qed simp
  show ?thesis
    using ev od by (simp add: netc_tans_decode_x2_def tans_state_sizes)
qed

text \<open>
  C20.  The decoders are safe on every stream whose last byte is not zero, on every initial state and
  for every size, whatever the bytes are: they fail, or they return exactly the requested number of
  bytes.  No table access is out of range and no shift is too wide.
\<close>

theorem tans_decoders_defined:
  assumes "stream \<noteq> []" and "last stream \<noteq> 0"
    and "tans_wf NETC_TANS_TABLE_LOG t" and "tans_wf NETC_TANS_TABLE_LOG_10 t10"
    and "tables_wf tables" and "bigram_wf bigram_tables class_map"
  shows "decoded_ok (netc_tans_decode t (netc_bsr_init stream) n X) n \<and>
    decoded_ok (netc_tans_decode_x2 t (netc_bsr_init stream) n X X') n \<and>
    decoded_ok (netc_tans_decode_10 t10 (netc_bsr_init stream) n X) n \<and>
    decoded_ok (netc_tans_decode_pctx tables (netc_bsr_init stream) n X) n \<and>
    decoded_ok (netc_tans_decode_pctx_bigram bigram_tables tables class_map (netc_bsr_init stream) n X) n"
  using bsr_init_sentinel(1) [OF assms(1,2)] assms(3-)
  by (simp add: tans_decode_ok tans_decode_x2_ok tans_decode_10_ok tans_decode_pctx_ok tans_decode_bigram_ok)

theorem tans_decoders_defined_witness:
  "decoded_ok (netc_tans_decode_pctx_bigram
      (replicate 16 (replicate 8 (the (netc_tans_build (replicate 256 16)))))
      (replicate 16 (the (netc_tans_build (replicate 256 16)))) None
      (netc_bsr_init [0x5A, 0xFF, 0x13]) 5 7777) 5"
proof -
  let ?t = "the (netc_tans_build (replicate 256 16))"
  have wf: "bigram_wf (replicate 16 (replicate 8 ?t)) None"
    using uniform_table(1) by (simp add: bigram_wf_def)
  obtain t10 where t10: "tans_wf NETC_TANS_TABLE_LOG_10 t10"
    using netc_tans_build_10_present [OF uniform_freq(3,4)] by blast
  show ?thesis
    using tans_decoders_defined [OF _ _ uniform_table(1) t10 uniform_tables_wf wf, of "[0x5A, 0xFF, 0x13]" 5 7777]
    by simp
qed

text \<open>
   The single-state and the interleaved encoder have no check for a symbol that the table does
  not contain, which the other encoders have: encoding such a symbol reads \<open>encode_state\<close> out of
  range.  The checked encoders report an error.
\<close>

theorem tans_absent_symbol:
  assumes "tans_wf NETC_TANS_TABLE_LOG t" and "\<not> tans_present t b"
  shows "netc_tans_encode t (src @ [b]) (length src + 1) w NETC_TANS_TABLE_SIZE = Inl C_Undefined \<and>
    netc_tans_encode_x2 t (src @ [b, b]) (length src + 2) w = Inl C_Undefined \<and>
    netc_tans_encode_pctx (replicate 16 t) (src @ [b]) (length src + 1) w NETC_TANS_TABLE_SIZE = Inl C_Fail"
proof -
  have len: "length (tt_encode_state t) = NETC_TANS_TABLE_SIZE"
    using assms(1) by (simp add: tans_wf_def NETC_TANS_TABLE_SIZE_def)
  have "sym_wf NETC_TANS_TABLE_LOG t (unat b)"
    using assms(1) by (simp add: tans_wf_def NETC_TANS_SYMBOLS_def)
  then have e: "tt_encode t ! unat b = \<lparr>en_freq = 0, en_lower = 0, en_cumul = 0, en_nb_hi = 0\<rparr>"
    using assms(2) by (simp add: sym_wf_def tans_present_def)
  have step: "tans_encode_step t NETC_TANS_TABLE_SIZE b w = Inl C_Undefined"
    using len by (simp add: tans_encode_step_def e u32_sub_exact tans_consts Let_def)
  have "encode_x2_loop t (src @ [b, b]) (Suc (Suc (length src))) NETC_TANS_TABLE_SIZE NETC_TANS_TABLE_SIZE w
      = Inl C_Undefined"
    by (simp add: encode_x2_loop_pair nth_append step)
  then show ?thesis
    using assms step by (simp add: netc_tans_encode_def netc_tans_encode_x2_def netc_tans_encode_pctx_def
        tans_wf_def tans_encode_step_checked_def tans_present_def nth_append Let_def)
qed

theorem tans_absent_symbol_witness:
  "netc_tans_encode (the (netc_tans_build (4096 # replicate 255 0))) [0, 1] 2 (netc_bsw_init 8)
     NETC_TANS_TABLE_SIZE = Inl C_Undefined"
proof -
  let ?f = "4096 # replicate 255 0 :: netc_freq_table"
  have "length ?f = NETC_TANS_SYMBOLS" "freq_total ?f = NETC_TANS_TABLE_SIZE"
    by (simp_all add: NETC_TANS_SYMBOLS_def freq_total_def tans_consts)
  then obtain t where t: "netc_tans_build ?f = Some t" "tans_wf NETC_TANS_TABLE_LOG t" "\<not> tans_present t 1"
    using netc_tans_build_present [of ?f] by auto
  show ?thesis
    using tans_absent_symbol [OF t(2,3), of "[0]" "netc_bsw_init 8"] t(1) by (simp add: numeral_2_eq_2)
qed

end
