(* ===== verification/Netc_Lzp.thy ===== *)
theory Netc_Lzp
  imports Netc_Prelude
begin

text \<open>
  Byte prediction by position and previous byte, \<open>src/src/algo/netc_lzp.h\<close>: the flag-and-literal
  coder, the XOR pre-filter that the packet pipeline uses, and the confidence-counter update of the
  adaptive mode.  A table is the list of its \<open>2 ^ 17\<close> entries.
\<close>

definition NETC_LZP_HT_SIZE :: nat where "NETC_LZP_HT_SIZE = 2 ^ 17"

record netc_lzp_entry =
  lzp_value :: byte
  lzp_valid :: byte

type_synonym lzp_table = "netc_lzp_entry list"

definition netc_lzp_hash :: "byte \<Rightarrow> nat \<Rightarrow> nat" where
  "netc_lzp_hash prev_byte pos =
     (let p = (word_of_nat pos :: u32);
          h = (2166136261 XOR ucast prev_byte) * 16777619;
          h = (h XOR (p AND 0xFFFF)) * 16777619;
          h = (h XOR drop_bit 16 p) * 16777619
      in unat (h AND 0x1FFFF))"

definition netc_lzp_hash3 :: "byte list \<Rightarrow> nat" where
  "netc_lzp_hash3 p =
     (let h = (2166136261 XOR ucast (p ! 0)) * 16777619 :: u32;
          h = (h XOR ucast (p ! 1)) * 16777619;
          h = (h XOR ucast (p ! 2)) * 16777619
      in unat (h AND 0x1FFFF))"

lemma lzp_hash_less: "netc_lzp_hash b i < NETC_LZP_HT_SIZE"
proof -
  have "unat (w AND 0x1FFFF :: u32) < 2 ^ 17" for w
  proof -
    have "w AND 0x1FFFF \<le> 0x1FFFF" by (rule word_and_le1)
    then show ?thesis by (simp add: word_le_nat_alt)
  qed
  then show ?thesis by (simp add: netc_lzp_hash_def NETC_LZP_HT_SIZE_def Let_def)
qed

text \<open>The table entry for position \<open>i\<close> of \<open>data\<close>, whose previous byte is 0 at the start.\<close>

definition lzp_entry_at :: "lzp_table \<Rightarrow> byte list \<Rightarrow> nat \<Rightarrow> netc_lzp_entry" where
  "lzp_entry_at tbl data i =
     tbl ! netc_lzp_hash (if i > 0 then data ! (i - 1) else 0) i"

lemma lzp_entry_at_cong:
  "take i xs = take i ys \<Longrightarrow> i \<le> length xs \<Longrightarrow> i \<le> length ys \<Longrightarrow> lzp_entry_at tbl xs i = lzp_entry_at tbl ys i"
proof -
  assume eq: "take i xs = take i ys" and len: "i \<le> length xs" "i \<le> length ys"
  have "xs ! (i - 1) = ys ! (i - 1)" if "i > 0"
  proof -
    have "take i xs ! (i - 1) = take i ys ! (i - 1)" by (simp add: eq)
    then show ?thesis using that len by simp
  qed
  then show ?thesis by (simp add: lzp_entry_at_def)
qed

section \<open>XOR pre-filter\<close>

definition lzp_prediction :: "lzp_table \<Rightarrow> byte list \<Rightarrow> nat \<Rightarrow> byte" where
  "lzp_prediction tbl data i =
     (if lzp_valid (lzp_entry_at tbl data i) \<noteq> 0 then lzp_value (lzp_entry_at tbl data i) else 0)"

definition netc_lzp_xor_filter :: "byte list \<Rightarrow> lzp_table \<Rightarrow> byte list" where
  "netc_lzp_xor_filter src tbl =
     map (\<lambda>i. src ! i XOR lzp_prediction tbl src i) [0..<length src]"

text \<open>The inverse reads the previous byte from its own output.\<close>

definition netc_lzp_xor_unfilter :: "byte list \<Rightarrow> lzp_table \<Rightarrow> byte list" where
  "netc_lzp_xor_unfilter src tbl =
     fold (\<lambda>i dst. dst @ [src ! i XOR lzp_prediction tbl dst i]) [0..<length src] []"

lemma lzp_prediction_take: "i < length src \<Longrightarrow> lzp_prediction tbl (take i src) i = lzp_prediction tbl src i"
  using lzp_entry_at_cong [of i "take i src" src tbl] by (simp add: lzp_prediction_def)

lemma length_lzp_filter [simp]: "length (netc_lzp_xor_filter src tbl) = length src"
  by (simp add: netc_lzp_xor_filter_def)

lemma length_lzp_unfilter [simp]: "length (netc_lzp_xor_unfilter src tbl) = length src"
proof -
  have "length (fold (\<lambda>i dst. dst @ [src ! i XOR lzp_prediction tbl dst i]) [0..<n] []) = n" for n
    by (induction n) simp_all
  then show ?thesis by (simp add: netc_lzp_xor_unfilter_def)
qed

lemma lzp_unfilter_prefix:
  "n \<le> length src \<Longrightarrow>
   fold (\<lambda>i dst. dst @ [netc_lzp_xor_filter src tbl ! i XOR lzp_prediction tbl dst i]) [0..<n] [] = take n src"
proof (induction n)
  case (Suc n)
  then have "fold (\<lambda>i dst. dst @ [netc_lzp_xor_filter src tbl ! i XOR lzp_prediction tbl dst i]) [0..<n] []
      = take n src" by simp
  then show ?case
    using Suc.prems
    by (simp add: netc_lzp_xor_filter_def lzp_prediction_take xor.assoc take_Suc_conv_app_nth)
qed simp

lemma lzp_unfilter_filter: "netc_lzp_xor_unfilter (netc_lzp_xor_filter src tbl) tbl = src"
  using lzp_unfilter_prefix [of "length src" src tbl] by (simp add: netc_lzp_xor_unfilter_def)

section \<open>Flag-and-literal coder\<close>

text \<open>
  Flags are packed most significant bit first: bit \<open>7 - i mod 8\<close> of byte \<open>i div 8\<close>.  The counter
  of literals is 16 bits wide.
\<close>

definition lzp_hit :: "lzp_table \<Rightarrow> byte list \<Rightarrow> nat \<Rightarrow> bool" where
  "lzp_hit tbl src i \<longleftrightarrow>
     lzp_valid (lzp_entry_at tbl src i) \<noteq> 0 \<and> lzp_value (lzp_entry_at tbl src i) = src ! i"

definition netc_lzp_predict :: "byte list \<Rightarrow> lzp_table \<Rightarrow> nat \<Rightarrow> byte list option" where
  "netc_lzp_predict src tbl dst_cap =
     (let src_size = length src in
      if src_size < 2 then None
      else let flag_bytes = (src_size + 7) div 8 in
        if dst_cap < 2 + flag_bytes + src_size then None
        else
          let (flags, lits) = fold (\<lambda>i (flags, lits).
                if lzp_hit tbl src i
                then (flags[i div 8 := (flags ! (i div 8)) OR drop_bit (i mod 8) 0x80], lits)
                else (flags, lits @ [src ! i]))
              [0..<src_size] (replicate flag_bytes 0, []);
              n_literals = (word_of_nat (length lits) :: u16);
              total = 2 + flag_bytes + unat n_literals
          in if total < src_size then Some (netc_write_u16_le n_literals @ flags @ lits) else None)"

primrec lzp_reconstruct_loop ::
    "lzp_table \<Rightarrow> byte list \<Rightarrow> byte list \<Rightarrow> nat \<Rightarrow> nat \<Rightarrow> nat \<Rightarrow> byte list \<Rightarrow> (nat \<times> byte list) option" where
  "lzp_reconstruct_loop tbl flag_data lit_data n_literals 0 lit_idx dst = Some (lit_idx, dst)"
| "lzp_reconstruct_loop tbl flag_data lit_data n_literals (Suc n) lit_idx dst =
     (let i = length dst;
          flag = bit (flag_data ! (i div 8)) (7 - i mod 8);
          e = lzp_entry_at tbl dst i
      in if flag
         then if lzp_valid e = 0 then None
              else lzp_reconstruct_loop tbl flag_data lit_data n_literals n lit_idx (dst @ [lzp_value e])
         else if lit_idx \<ge> n_literals then None
         else lzp_reconstruct_loop tbl flag_data lit_data n_literals n (lit_idx + 1) (dst @ [lit_data ! lit_idx]))"

definition netc_lzp_reconstruct :: "byte list \<Rightarrow> lzp_table \<Rightarrow> nat \<Rightarrow> byte list option" where
  "netc_lzp_reconstruct src tbl dst_size =
     (if dst_size < 2 then None
      else if length src < 2 then None
      else let n_literals = unat (netc_read_u16_le src);
               flag_bytes = (dst_size + 7) div 8
           in if length src < 2 + flag_bytes + n_literals then None
              else case lzp_reconstruct_loop tbl (drop 2 src) (drop (2 + flag_bytes) src) n_literals dst_size 0 [] of
                     None \<Rightarrow> None
                   | Some (lit_idx, dst) \<Rightarrow> if lit_idx = n_literals then Some dst else None)"

section \<open>Adaptive update\<close>

definition lzp_update_entry :: "byte \<Rightarrow> netc_lzp_entry \<Rightarrow> netc_lzp_entry" where
  "lzp_update_entry b e =
     (if lzp_valid e = 0 then e\<lparr>lzp_value := b, lzp_valid := 1\<rparr>
      else if lzp_value e \<noteq> b
      then if lzp_valid e > 1 then e\<lparr>lzp_valid := lzp_valid e - 1\<rparr>
           else e\<lparr>lzp_value := b, lzp_valid := 1\<rparr>
      else if lzp_valid e < 255 then e\<lparr>lzp_valid := lzp_valid e + 1\<rparr> else e)"

definition netc_lzp_adaptive_update :: "lzp_table \<Rightarrow> byte list \<Rightarrow> lzp_table" where
  "netc_lzp_adaptive_update tbl data =
     fold (\<lambda>i tbl. let h = netc_lzp_hash (if i > 0 then data ! (i - 1) else 0) i
                   in tbl[h := lzp_update_entry (data ! i) (tbl ! h)])
       [0..<length data] tbl"

lemma length_lzp_update [simp]: "length (netc_lzp_adaptive_update tbl data) = length tbl"
proof -
  have "length (fold (\<lambda>i tbl. let h = netc_lzp_hash (if i > 0 then data ! (i - 1) else 0) i
      in tbl[h := lzp_update_entry (data ! i) (tbl ! h)]) is tbl) = length tbl" for "is"
    by (induction "is" arbitrary: tbl) (simp_all add: Let_def)
  then show ?thesis by (simp only: netc_lzp_adaptive_update_def)
qed

lemma lzp_update_entry_valid: "lzp_valid (lzp_update_entry b e) \<noteq> 0"
proof -
  have "lzp_valid e - 1 \<noteq> 0" if "lzp_valid e > 1" using that by auto
  moreover have "lzp_valid e + 1 \<noteq> 0" if "lzp_valid e < 255"
  proof
    assume "lzp_valid e + 1 = 0"
    then have "lzp_valid e = - 1" by (simp add: eq_neg_iff_add_eq_0)
    then have "lzp_valid e = 255" by simp
    with that show False by simp
  qed
  ultimately show ?thesis by (auto simp: lzp_update_entry_def)
qed

section \<open>The coder round-trips\<close>

definition miss_count :: "lzp_table \<Rightarrow> byte list \<Rightarrow> nat \<Rightarrow> nat" where
  "miss_count tbl src n = length (filter (\<lambda>i. \<not> lzp_hit tbl src i) [0..<n])"

lemma bit_flag_mask: "k < 8 \<Longrightarrow> bit (drop_bit k (0x80 :: byte)) m \<longleftrightarrow> m = 7 - k"
proof -
  assume k: "k < 8"
  have "bit (push_bit 7 1 :: byte) i \<longleftrightarrow> i = 7" for i
    by (simp only: bit_push_bit_iff bit_1_iff possible_bit_word) auto
  then have b: "bit (0x80 :: byte) i \<longleftrightarrow> i = 7" for i by simp
  have "bit (drop_bit k (0x80 :: byte)) m \<longleftrightarrow> bit (0x80 :: byte) (k + m)"
    by (simp only: bit_drop_bit_eq comp_def)
  also have "\<dots> \<longleftrightarrow> k + m = 7" by (rule b)
  finally show ?thesis using k by linarith
qed

lemma predict_loop:
  assumes "n \<le> length src" and "length src \<le> 8 * fb"
  shows "\<exists>flags. fold (\<lambda>i (flags, lits).
      if lzp_hit tbl src i
      then (flags[i div 8 := (flags ! (i div 8)) OR drop_bit (i mod 8) (0x80 :: byte)], lits)
      else (flags, lits @ [src ! i])) [0..<n] (replicate fb 0, [])
    = (flags, map (\<lambda>i. src ! i) (filter (\<lambda>i. \<not> lzp_hit tbl src i) [0..<n])) \<and> length flags = fb \<and>
    (\<forall>i < 8 * fb. bit (flags ! (i div 8)) (7 - i mod 8) \<longleftrightarrow> i < n \<and> lzp_hit tbl src i)"
  using assms(1)
proof (induction n)
  case (Suc n)
  then obtain flags where f: "fold (\<lambda>i (flags, lits).
      if lzp_hit tbl src i
      then (flags[i div 8 := (flags ! (i div 8)) OR drop_bit (i mod 8) (0x80 :: byte)], lits)
      else (flags, lits @ [src ! i])) [0..<n] (replicate fb 0, [])
    = (flags, map (\<lambda>i. src ! i) (filter (\<lambda>i. \<not> lzp_hit tbl src i) [0..<n]))" "length flags = fb"
    "\<forall>i < 8 * fb. bit (flags ! (i div 8)) (7 - i mod 8) \<longleftrightarrow> i < n \<and> lzp_hit tbl src i"
    by auto
  show ?case
  proof (cases "lzp_hit tbl src n")
    case True
    have n: "n div 8 < fb" using Suc.prems assms(2) by (simp add: div_less_iff_less_mult)
    have "bit (flags[n div 8 := flags ! (n div 8) OR drop_bit (n mod 8) 0x80] ! (i div 8)) (7 - i mod 8)
        \<longleftrightarrow> i < Suc n \<and> lzp_hit tbl src i" if i: "i < 8 * fb" for i
    proof (cases "i div 8 = n div 8")
      case same: True
      have "7 - i mod 8 = 7 - n mod 8 \<longleftrightarrow> i mod 8 = n mod 8"
        using mod_less_divisor [of 8 i] mod_less_divisor [of 8 n] by linarith
      also have "\<dots> \<longleftrightarrow> i = n" using same div_mult_mod_eq [of i 8] div_mult_mod_eq [of n 8] by auto
      finally have "7 - i mod 8 = 7 - n mod 8 \<longleftrightarrow> i = n" .
      moreover have "bit (flags ! (i div 8)) (7 - i mod 8) \<longleftrightarrow> i < n \<and> lzp_hit tbl src i"
        using f(3) i by blast
      ultimately have "bit (flags ! (n div 8) OR drop_bit (n mod 8) 0x80) (7 - i mod 8)
          \<longleftrightarrow> (i < n \<and> lzp_hit tbl src i) \<or> i = n"
        using same by (simp only: bit_or_iff bit_flag_mask [OF mod_less_divisor [of 8 n]] zero_less_numeral)
      then show ?thesis
        using same n f(2) True by (cases "i = n") (simp_all add: less_Suc_eq)
    next
      case False
      then have "i \<noteq> n" by auto
      with False show ?thesis using f(3) i by (auto simp: less_Suc_eq)
    qed
    with f True show ?thesis by simp
  next
    case False
    with f show ?thesis by (auto simp: less_Suc_eq)
  qed
qed auto

lemma reconstruct_loop:
  assumes flags: "\<And>i. i < length src \<Longrightarrow> bit (flag_data ! (i div 8)) (7 - i mod 8) \<longleftrightarrow> lzp_hit tbl src i"
    and lits: "\<And>i. i < length src \<Longrightarrow> \<not> lzp_hit tbl src i \<Longrightarrow> lit_data ! miss_count tbl src i = src ! i"
    and k: "k + n = length src"
  shows "lzp_reconstruct_loop tbl flag_data lit_data (miss_count tbl src (length src)) n (miss_count tbl src k) (take k src)
    = Some (miss_count tbl src (length src), src)"
  using k
proof (induction n arbitrary: k)
  case (Suc n)
  have k: "k < length src" "length (take k src) = k" using Suc.prems by auto
  have e: "lzp_entry_at tbl (take k src) k = lzp_entry_at tbl src k"
    using k by (intro lzp_entry_at_cong) auto
  have next_take: "take k src @ [src ! k] = take (Suc k) src" using k by (simp add: take_Suc_conv_app_nth)
  show ?case
  proof (cases "lzp_hit tbl src k")
    case True
    then have "miss_count tbl src (Suc k) = miss_count tbl src k" by (simp add: miss_count_def)
    then show ?thesis
      using Suc.IH [of "Suc k"] Suc.prems flags [OF k(1)] True k(2) e next_take
      by (simp add: lzp_hit_def)
  next
    case False
    then have c: "miss_count tbl src (Suc k) = Suc (miss_count tbl src k)" by (simp add: miss_count_def)
    have "miss_count tbl src (Suc k) \<le> miss_count tbl src (length src)"
    proof -
      show ?thesis unfolding miss_count_def upt_split [OF k(1)] by simp
    qed
    then show ?thesis
      using Suc.IH [of "Suc k"] Suc.prems flags [OF k(1)] False k e next_take lits [OF k(1) False] c
      by simp
  qed
qed simp

lemma nth_miss_literals:
  assumes "i < n" and "\<not> lzp_hit tbl src i"
  shows "map (\<lambda>i. src ! i) (filter (\<lambda>i. \<not> lzp_hit tbl src i) [0..<n]) ! miss_count tbl src i = src ! i"
proof -
  show ?thesis
    unfolding upt_split [OF assms(1)] using assms(2) by (simp add: miss_count_def nth_append)
qed

lemma lzp_reconstruct_predict:
  assumes "netc_lzp_predict src tbl cap = Some enc" and small: "length src < 2 ^ 16"
  shows "netc_lzp_reconstruct enc tbl (length src) = Some src \<and> length enc < length src"
proof -
  define n where "n = length src"
  define fb where "fb = (n + 7) div 8"
  define lits where "lits = map (\<lambda>i. src ! i) (filter (\<lambda>i. \<not> lzp_hit tbl src i) [0..<n])"
  have "n \<le> 8 * fb" unfolding fb_def by linarith
  then obtain flags where fl: "fold (\<lambda>i (flags, lits).
      if lzp_hit tbl src i
      then (flags[i div 8 := (flags ! (i div 8)) OR drop_bit (i mod 8) (0x80 :: byte)], lits)
      else (flags, lits @ [src ! i])) [0..<n] (replicate fb 0, []) = (flags, lits)" "length flags = fb"
    "\<forall>i < 8 * fb. bit (flags ! (i div 8)) (7 - i mod 8) \<longleftrightarrow> i < n \<and> lzp_hit tbl src i"
    using predict_loop [of n src fb tbl] by (auto simp: n_def lits_def)
  have len: "length lits = miss_count tbl src n" by (simp add: lits_def miss_count_def)
  have "miss_count tbl src n \<le> n" unfolding miss_count_def using length_filter_le [of _ "[0..<n]"] by simp
  then have u: "unat (word_of_nat (length lits) :: u16) = length lits"
    using small by (intro unat_of_nat_u16) (simp add: len n_def)
  have enc: "2 \<le> n" "enc = netc_write_u16_le (word_of_nat (length lits)) @ flags @ lits"
    "2 + fb + length lits < n"
    using assms(1) fl(1) u by (auto simp: netc_lzp_predict_def Let_def n_def [symmetric] fb_def [symmetric] split: if_splits)
  have "lzp_reconstruct_loop tbl (flags @ lits) lits (miss_count tbl src n) n 0 [] = Some (miss_count tbl src n, src)"
  proof -
    have "bit ((flags @ lits) ! (i div 8)) (7 - i mod 8) \<longleftrightarrow> lzp_hit tbl src i" if "i < length src" for i
    proof -
      have "i < 8 * fb" using that \<open>n \<le> 8 * fb\<close> by (simp add: n_def)
      then have "i div 8 < fb" by (simp add: div_less_iff_less_mult mult.commute)
      then show ?thesis using fl(2,3) \<open>i < 8 * fb\<close> that by (simp add: nth_append n_def)
    qed
    moreover have "lits ! miss_count tbl src i = src ! i" if "i < length src" "\<not> lzp_hit tbl src i" for i
      using nth_miss_literals that by (simp add: lits_def n_def)
    ultimately show ?thesis
      using reconstruct_loop [of src "flags @ lits" tbl lits 0 n] by (simp add: n_def miss_count_def)
  qed
  moreover have "drop 2 enc = flags @ lits" "drop (2 + fb) enc = lits"
    using fl(2) by (simp_all add: enc(2) netc_write_u16_le_def)
  ultimately have "netc_lzp_reconstruct enc tbl n = Some src"
    using enc(1) u fl(2) len by (simp add: netc_lzp_reconstruct_def fb_def [symmetric] Let_def) (simp add: enc(2))
  then show ?thesis using enc fl(2) by (simp add: n_def)
qed

text \<open>
  C25.  The XOR pre-filter is inverted by its sequential inverse for every table and packet, and
  whatever the flag-and-literal coder returns for a packet below 64 KB is shorter than the packet and
  reconstructs to it.
\<close>

theorem lzp_roundtrip:
  assumes "length src < 2 ^ 16"
  shows "netc_lzp_xor_unfilter (netc_lzp_xor_filter src tbl) tbl = src \<and>
    (netc_lzp_predict src tbl cap = Some enc \<longrightarrow>
       netc_lzp_reconstruct enc tbl (length src) = Some src \<and> length enc < length src)"
  using lzp_unfilter_filter lzp_reconstruct_predict assms by blast

lemma lzp_example:
  "netc_lzp_predict (replicate 8 0) (replicate NETC_LZP_HT_SIZE \<lparr>lzp_value = 0, lzp_valid = 1\<rparr>) 16
     = Some [0, 0, 0xFF]"
proof -
  let ?t = "replicate NETC_LZP_HT_SIZE \<lparr>lzp_value = 0, lzp_valid = 1\<rparr>"
  have hit: "lzp_hit ?t (replicate 8 0) i" if "i < 8" for i
    using that by (simp add: lzp_hit_def lzp_entry_at_def lzp_hash_less del: replicate_Suc)
  have "[0..<8] = [0, 1, 2, 3, 4, 5, 6, 7 :: nat]" by (simp add: upt_rec)
  then show ?thesis
    using hit by (simp add: netc_lzp_predict_def Let_def netc_write_u16_le_def)
qed

theorem lzp_roundtrip_witness:
  "netc_lzp_reconstruct [0, 0, 0xFF] (replicate NETC_LZP_HT_SIZE \<lparr>lzp_value = 0, lzp_valid = 1\<rparr>) 8
     = Some (replicate 8 0)"
  using lzp_roundtrip [of "replicate 8 0"] lzp_example by fastforce

end
