(* ===== verification/Netc_Crc32.thy ===== *)
theory Netc_Crc32
  imports Netc_Prelude
begin

text \<open>
  CRC-32, \<open>src/src/util/netc_crc32.c\<close>: the table-driven checksum that protects dictionary
  blobs.  The table of 256 words is checked against the bit-by-bit division by the reflected
  polynomial, the byte loop is shown to be that division on the whole buffer, and the incremental
  form to be the checksum of the concatenation.
\<close>

definition CRC32_TABLE :: "u32 list" where
  "CRC32_TABLE =
    [0x00000000, 0x77073096, 0xEE0E612C, 0x990951BA, 0x076DC419, 0x706AF48F, 0xE963A535, 0x9E6495A3,
     0x0EDB8832, 0x79DCB8A4, 0xE0D5E91E, 0x97D2D988, 0x09B64C2B, 0x7EB17CBD, 0xE7B82D07, 0x90BF1D91,
     0x1DB71064, 0x6AB020F2, 0xF3B97148, 0x84BE41DE, 0x1ADAD47D, 0x6DDDE4EB, 0xF4D4B551, 0x83D385C7,
     0x136C9856, 0x646BA8C0, 0xFD62F97A, 0x8A65C9EC, 0x14015C4F, 0x63066CD9, 0xFA0F3D63, 0x8D080DF5,
     0x3B6E20C8, 0x4C69105E, 0xD56041E4, 0xA2677172, 0x3C03E4D1, 0x4B04D447, 0xD20D85FD, 0xA50AB56B,
     0x35B5A8FA, 0x42B2986C, 0xDBBBC9D6, 0xACBCF940, 0x32D86CE3, 0x45DF5C75, 0xDCD60DCF, 0xABD13D59,
     0x26D930AC, 0x51DE003A, 0xC8D75180, 0xBFD06116, 0x21B4F4B5, 0x56B3C423, 0xCFBA9599, 0xB8BDA50F,
     0x2802B89E, 0x5F058808, 0xC60CD9B2, 0xB10BE924, 0x2F6F7C87, 0x58684C11, 0xC1611DAB, 0xB6662D3D,
     0x76DC4190, 0x01DB7106, 0x98D220BC, 0xEFD5102A, 0x71B18589, 0x06B6B51F, 0x9FBFE4A5, 0xE8B8D433,
     0x7807C9A2, 0x0F00F934, 0x9609A88E, 0xE10E9818, 0x7F6A0DBB, 0x086D3D2D, 0x91646C97, 0xE6635C01,
     0x6B6B51F4, 0x1C6C6162, 0x856530D8, 0xF262004E, 0x6C0695ED, 0x1B01A57B, 0x8208F4C1, 0xF50FC457,
     0x65B0D9C6, 0x12B7E950, 0x8BBEB8EA, 0xFCB9887C, 0x62DD1DDF, 0x15DA2D49, 0x8CD37CF3, 0xFBD44C65,
     0x4DB26158, 0x3AB551CE, 0xA3BC0074, 0xD4BB30E2, 0x4ADFA541, 0x3DD895D7, 0xA4D1C46D, 0xD3D6F4FB,
     0x4369E96A, 0x346ED9FC, 0xAD678846, 0xDA60B8D0, 0x44042D73, 0x33031DE5, 0xAA0A4C5F, 0xDD0D7CC9,
     0x5005713C, 0x270241AA, 0xBE0B1010, 0xC90C2086, 0x5768B525, 0x206F85B3, 0xB966D409, 0xCE61E49F,
     0x5EDEF90E, 0x29D9C998, 0xB0D09822, 0xC7D7A8B4, 0x59B33D17, 0x2EB40D81, 0xB7BD5C3B, 0xC0BA6CAD,
     0xEDB88320, 0x9ABFB3B6, 0x03B6E20C, 0x74B1D29A, 0xEAD54739, 0x9DD277AF, 0x04DB2615, 0x73DC1683,
     0xE3630B12, 0x94643B84, 0x0D6D6A3E, 0x7A6A5AA8, 0xE40ECF0B, 0x9309FF9D, 0x0A00AE27, 0x7D079EB1,
     0xF00F9344, 0x8708A3D2, 0x1E01F268, 0x6906C2FE, 0xF762575D, 0x806567CB, 0x196C3671, 0x6E6B06E7,
     0xFED41B76, 0x89D32BE0, 0x10DA7A5A, 0x67DD4ACC, 0xF9B9DF6F, 0x8EBEEFF9, 0x17B7BE43, 0x60B08ED5,
     0xD6D6A3E8, 0xA1D1937E, 0x38D8C2C4, 0x4FDFF252, 0xD1BB67F1, 0xA6BC5767, 0x3FB506DD, 0x48B2364B,
     0xD80D2BDA, 0xAF0A1B4C, 0x36034AF6, 0x41047A60, 0xDF60EFC3, 0xA867DF55, 0x316E8EEF, 0x4669BE79,
     0xCB61B38C, 0xBC66831A, 0x256FD2A0, 0x5268E236, 0xCC0C7795, 0xBB0B4703, 0x220216B9, 0x5505262F,
     0xC5BA3BBE, 0xB2BD0B28, 0x2BB45A92, 0x5CB36A04, 0xC2D7FFA7, 0xB5D0CF31, 0x2CD99E8B, 0x5BDEAE1D,
     0x9B64C2B0, 0xEC63F226, 0x756AA39C, 0x026D930A, 0x9C0906A9, 0xEB0E363F, 0x72076785, 0x05005713,
     0x95BF4A82, 0xE2B87A14, 0x7BB12BAE, 0x0CB61B38, 0x92D28E9B, 0xE5D5BE0D, 0x7CDCEFB7, 0x0BDBDF21,
     0x86D3D2D4, 0xF1D4E242, 0x68DDB3F8, 0x1FDA836E, 0x81BE16CD, 0xF6B9265B, 0x6FB077E1, 0x18B74777,
     0x88085AE6, 0xFF0F6A70, 0x66063BCA, 0x11010B5C, 0x8F659EFF, 0xF862AE69, 0x616BFFD3, 0x166CCF45,
     0xA00AE278, 0xD70DD2EE, 0x4E048354, 0x3903B3C2, 0xA7672661, 0xD06016F7, 0x4969474D, 0x3E6E77DB,
     0xAED16A4A, 0xD9D65ADC, 0x40DF0B66, 0x37D83BF0, 0xA9BCAE53, 0xDEBB9EC5, 0x47B2CF7F, 0x30B5FFE9,
     0xBDBDF21C, 0xCABAC28A, 0x53B39330, 0x24B4A3A6, 0xBAD03605, 0xCDD70693, 0x54DE5729, 0x23D967BF,
     0xB3667A2E, 0xC4614AB8, 0x5D681B02, 0x2A6F2B94, 0xB40BBE37, 0xC30C8EA1, 0x5A05DF1B, 0x2D02EF8D]"

definition crc32_step :: "byte \<Rightarrow> u32 \<Rightarrow> u32" where
  "crc32_step b crc = CRC32_TABLE ! unat ((crc XOR ucast b) AND 0xFF) XOR drop_bit 8 crc"

definition netc_crc32 :: "byte list \<Rightarrow> u32" where
  "netc_crc32 data = fold crc32_step data 0xFFFFFFFF XOR 0xFFFFFFFF"

definition netc_crc32_continue :: "u32 \<Rightarrow> byte list \<Rightarrow> u32" where
  "netc_crc32_continue prev_crc data = fold crc32_step data (prev_crc XOR 0xFFFFFFFF) XOR 0xFFFFFFFF"

section \<open>The bitwise definition\<close>

text \<open>One step of the division by the reflected polynomial \<open>0xEDB88320\<close>.\<close>

definition crc32_bit :: "u32 \<Rightarrow> u32" where
  "crc32_bit c = (if bit c 0 then drop_bit 1 c XOR 0xEDB88320 else drop_bit 1 c)"

definition crc32_ref :: "byte list \<Rightarrow> u32" where
  "crc32_ref data = fold (\<lambda>b c. (crc32_bit ^^ 8) (c XOR ucast b)) data 0xFFFFFFFF XOR 0xFFFFFFFF"

lemma crc32_bit_xor: "crc32_bit (a XOR b) = crc32_bit a XOR crc32_bit b"
  by (simp add: crc32_bit_def bit_simps xor.assoc xor.commute xor.left_commute)

lemma crc32_bits_xor: "(crc32_bit ^^ n) (a XOR b) = (crc32_bit ^^ n) a XOR (crc32_bit ^^ n) b"
  by (induction n) (simp_all add: crc32_bit_xor)

text \<open>
  Every entry of the table is the division of its index.  The division is linear over XOR, so the
  table doubles: the entries from \<open>2 ^ k\<close> on are the first \<open>2 ^ k\<close> entries XORed with the entry
  at \<open>2 ^ k\<close>.
\<close>

definition crc32_of :: "nat \<Rightarrow> u32" where
  "crc32_of n = (crc32_bit ^^ 8) (word_of_nat n)"

lemma word_of_nat_add_pow:
  assumes "r < 2 ^ k"
  shows "(word_of_nat (2 ^ k + r) :: u32) = word_of_nat (2 ^ k) XOR word_of_nat r"
proof -
  have "\<not> bit r k" using assms by (simp add: bit_iff_odd)
  then have "(2 ^ k :: u32) AND word_of_nat r = 0"
    by (intro bit_word_eqI) (auto simp: bit_simps)
  then have "(2 ^ k :: u32) + word_of_nat r = 2 ^ k XOR word_of_nat r"
    by (rule disjunctive_add_eq_xor)
  then show ?thesis by simp
qed

lemma crc32_of_add_pow: "r < 2 ^ k \<Longrightarrow> crc32_of (2 ^ k + r) = crc32_of r XOR crc32_of (2 ^ k)"
  by (simp only: crc32_of_def word_of_nat_add_pow crc32_bits_xor xor.commute)

lemma crc32_doubling:
  "map crc32_of [0..<2 ^ Suc k] = map crc32_of [0..<2 ^ k] @ map (\<lambda>x. x XOR crc32_of (2 ^ k)) (map crc32_of [0..<2 ^ k])"
proof -
  have "[0..<2 ^ Suc k] = [0..<2 ^ k] @ map (\<lambda>r. 2 ^ k + r) [0..<2 ^ k]"
    using upt_add_eq_append [of 0 "2 ^ k" "2 ^ k"] map_add_upt [of "2 ^ k" "2 ^ k"]
    by (simp add: add.commute mult_2)
  then show ?thesis by (simp add: crc32_of_add_pow)
qed

lemma funpow_8: "(f ^^ 8) x = f (f (f (f (f (f (f (f x)))))))"
  by (simp add: eval_nat_numeral)

lemma crc32_basis:
  "crc32_of 0 = 0" "crc32_of 1 = 0x77073096" "crc32_of 2 = 0xEE0E612C" "crc32_of 4 = 0x076DC419"
  "crc32_of 8 = 0x0EDB8832" "crc32_of 16 = 0x1DB71064" "crc32_of 32 = 0x3B6E20C8"
  "crc32_of 64 = 0x76DC4190" "crc32_of 128 = 0xEDB88320"
  by (simp_all add: crc32_of_def funpow_8 crc32_bit_def)

lemma crc32_doubling_at:
  assumes "n = 2 ^ k"
  shows "map crc32_of [0..<n + n] = (let t = map crc32_of [0..<n] in t @ map (\<lambda>x. x XOR crc32_of n) t)"
  using crc32_doubling [of k] assms by (simp add: mult_2 Let_def)

lemma crc32_table_entries: "CRC32_TABLE = map crc32_of [0..<256]"
proof -
  have t0: "map crc32_of [0..<1] = [0]" by (simp add: crc32_basis)
  note d = crc32_doubling_at [of 1 0] crc32_doubling_at [of 2 1] crc32_doubling_at [of 4 2]
    crc32_doubling_at [of 8 3] crc32_doubling_at [of 16 4] crc32_doubling_at [of 32 5]
    crc32_doubling_at [of 64 6] crc32_doubling_at [of 128 7]
  have sums: "(1::nat) + 1 = 2" "(2::nat) + 2 = 4" "(4::nat) + 4 = 8" "(8::nat) + 8 = 16" "(16::nat) + 16 = 32"
    "(32::nat) + 32 = 64" "(64::nat) + 64 = 128" "(128::nat) + 128 = 256"
    and pows: "(1::nat) = 2 ^ 0" "(2::nat) = 2 ^ 1" "(4::nat) = 2 ^ 2" "(8::nat) = 2 ^ 3" "(16::nat) = 2 ^ 4"
    "(32::nat) = 2 ^ 5" "(64::nat) = 2 ^ 6" "(128::nat) = 2 ^ 7" by simp_all
  note e = d(1) [OF pows(1)] d(2) [OF pows(2)] d(3) [OF pows(3)] d(4) [OF pows(4)] d(5) [OF pows(5)]
    d(6) [OF pows(6)] d(7) [OF pows(7)] d(8) [OF pows(8)]
  show ?thesis
    unfolding e [unfolded sums] t0 crc32_basis Let_def by (simp add: CRC32_TABLE_def)
qed

lemma crc32_table_nth: "CRC32_TABLE ! unat (b AND 0xFF) = (crc32_bit ^^ 8) (b AND 0xFF)" for b :: u32
proof -
  have "unat (b AND 0xFF) < 256"
    using word_and_le1 [of b "0xFF"] by (simp add: word_le_nat_alt)
  then show ?thesis by (simp add: crc32_table_entries crc32_of_def)
qed

text \<open>Eight divisions of a word whose low byte is zero only shift.\<close>

lemma crc32_bit_even: "\<not> bit c 0 \<Longrightarrow> crc32_bit c = drop_bit 1 c"
  by (simp add: crc32_bit_def)

lemma crc32_bits_shift:
  assumes "\<And>i. i < n \<Longrightarrow> \<not> bit c i"
  shows "(crc32_bit ^^ n) c = drop_bit n c"
  using assms
proof (induction n)
  case (Suc n)
  then have "(crc32_bit ^^ n) c = drop_bit n c" by simp
  moreover have "\<not> bit (drop_bit n c) 0" using Suc.prems [of n] by (simp add: bit_simps)
  ultimately show ?case by (simp add: crc32_bit_even drop_bit_drop_bit del: bit_0)
qed simp

lemma crc32_step_ref: "crc32_step b c = (crc32_bit ^^ 8) (c XOR ucast b)"
proof -
  define x where "x = c XOR ucast b"
  define hi where "hi = x AND NOT 0xFF"
  have ff: "(0xFF :: u32) = mask 8" by (simp add: mask_eq_exp_minus_1)
  have split: "x = (x AND 0xFF) XOR hi"
    unfolding hi_def ff by (rule bit_word_eqI) (auto simp: bit_simps)
  have "(crc32_bit ^^ 8) hi = drop_bit 8 hi"
    unfolding hi_def ff by (rule crc32_bits_shift) (simp add: bit_simps)
  also have "\<dots> = drop_bit 8 c"
    unfolding hi_def x_def ff by (rule bit_word_eqI) (auto simp: bit_simps dest: bit_imp_le_length)
  finally have "(crc32_bit ^^ 8) x = CRC32_TABLE ! unat (x AND 0xFF) XOR drop_bit 8 c"
    using crc32_bits_xor [of 8 "x AND 0xFF" hi] split crc32_table_nth [of x] by simp
  then show ?thesis by (simp add: crc32_step_def x_def)
qed

text \<open>
  C24.  The table-driven checksum is the bit-by-bit CRC-32 of the buffer, and continuing a checksum
  with more bytes gives the checksum of the concatenation, so a checksum may be computed in pieces.
\<close>

theorem crc32_correct:
  "netc_crc32 data = crc32_ref data \<and> netc_crc32_continue (netc_crc32 data) more = netc_crc32 (data @ more)"
proof -
  have "crc32_step = (\<lambda>b c. (crc32_bit ^^ 8) (c XOR ucast b))"
    by (intro ext crc32_step_ref)
  then show ?thesis
    by (simp add: netc_crc32_def crc32_ref_def netc_crc32_continue_def xor.assoc)
qed

text \<open>The test vector of the source: the checksum of the digits 1 to 9 is \<open>0xCBF43926\<close>.\<close>

lemma crc32_test_vector: "netc_crc32 [0x31, 0x32, 0x33, 0x34, 0x35, 0x36, 0x37, 0x38, 0x39] = 0xCBF43926"
  by (simp add: netc_crc32_def crc32_step_ref funpow_8 crc32_bit_def)

end
