(* ===== verification/Netc_Header.thy ===== *)
theory Netc_Header
  imports Netc_Prelude
begin

text \<open>
  Packet headers, \<open>src/src/core/netc_internal.h\<close>: the 8-byte legacy header and the compact header
  of 2 or 4 bytes, whose first byte packs flags, algorithm and context bucket.  The packet-type table
  and the function that chooses a type are shown to be inverse on the types of the table, and the
  flag combinations that the compact header cannot represent are characterised.
\<close>

section \<open>Flags and algorithms\<close>

definition NETC_PKT_FLAG_DELTA :: byte where "NETC_PKT_FLAG_DELTA = 0x01"
definition NETC_PKT_FLAG_BIGRAM :: byte where "NETC_PKT_FLAG_BIGRAM = 0x02"
definition NETC_PKT_FLAG_PASSTHRU :: byte where "NETC_PKT_FLAG_PASSTHRU = 0x04"
definition NETC_PKT_FLAG_DICT_ID :: byte where "NETC_PKT_FLAG_DICT_ID = 0x08"
definition NETC_PKT_FLAG_MREG :: byte where "NETC_PKT_FLAG_MREG = 0x10"
definition NETC_PKT_FLAG_RLE :: byte where "NETC_PKT_FLAG_RLE = 0x20"
definition NETC_PKT_FLAG_X2 :: byte where "NETC_PKT_FLAG_X2 = 0x40"
definition NETC_PKT_FLAG_LZ77 :: byte where "NETC_PKT_FLAG_LZ77 = 0x80"

definition NETC_ALG_TANS :: byte where "NETC_ALG_TANS = 0x01"
definition NETC_ALG_LZ77X :: byte where "NETC_ALG_LZ77X = 0x03"
definition NETC_ALG_TANS_PCTX :: byte where "NETC_ALG_TANS_PCTX = 0x04"
definition NETC_ALG_LZP :: byte where "NETC_ALG_LZP = 0x05"
definition NETC_ALG_TANS_10 :: byte where "NETC_ALG_TANS_10 = 0x06"
definition NETC_ALG_PASSTHRU :: byte where "NETC_ALG_PASSTHRU = 0xFF"

definition NETC_HEADER_SIZE :: nat where "NETC_HEADER_SIZE = 8"
definition NETC_MAX_PACKET_SIZE :: nat where "NETC_MAX_PACKET_SIZE = 65535"

lemmas pkt_consts = NETC_PKT_FLAG_DELTA_def NETC_PKT_FLAG_BIGRAM_def NETC_PKT_FLAG_PASSTHRU_def
  NETC_PKT_FLAG_DICT_ID_def NETC_PKT_FLAG_MREG_def NETC_PKT_FLAG_RLE_def NETC_PKT_FLAG_X2_def
  NETC_PKT_FLAG_LZ77_def NETC_ALG_TANS_def NETC_ALG_LZ77X_def NETC_ALG_TANS_PCTX_def
  NETC_ALG_LZP_def NETC_ALG_TANS_10_def NETC_ALG_PASSTHRU_def

definition has_flag :: "byte \<Rightarrow> byte \<Rightarrow> bool" where
  "has_flag flags f \<longleftrightarrow> flags AND f \<noteq> 0"

section \<open>Legacy header\<close>

record netc_pkt_header =
  hdr_original_size :: u16
  hdr_compressed_size :: u16
  hdr_flags :: byte
  hdr_algorithm :: byte
  hdr_model_id :: byte
  hdr_context_seq :: byte

definition netc_hdr_write :: "netc_pkt_header \<Rightarrow> byte list" where
  "netc_hdr_write h =
     netc_write_u16_le (hdr_original_size h) @ netc_write_u16_le (hdr_compressed_size h)
     @ [hdr_flags h, hdr_algorithm h, hdr_model_id h, hdr_context_seq h]"

definition netc_hdr_read :: "byte list \<Rightarrow> netc_pkt_header" where
  "netc_hdr_read b =
     \<lparr>hdr_original_size = netc_read_u16_le b, hdr_compressed_size = netc_read_u16_le (drop 2 b),
      hdr_flags = b ! 4, hdr_algorithm = b ! 5, hdr_model_id = b ! 6, hdr_context_seq = b ! 7\<rparr>"

section \<open>Compact packet types\<close>

text \<open>Sixteen consecutive types, one per context bucket in the high nibble of the algorithm.\<close>

definition bucketed :: "byte \<Rightarrow> byte \<Rightarrow> (byte \<times> byte) list" where
  "bucketed flags alg = map (\<lambda>b. (flags, alg OR push_bit 4 (word_of_nat b))) [0..<16]"

definition pkt_types_lo :: "(byte \<times> byte) list" where
  "pkt_types_lo =
    [(NETC_PKT_FLAG_PASSTHRU OR NETC_PKT_FLAG_DICT_ID, NETC_ALG_PASSTHRU),
     (NETC_PKT_FLAG_PASSTHRU OR NETC_PKT_FLAG_LZ77 OR NETC_PKT_FLAG_DICT_ID, NETC_ALG_PASSTHRU),
     (NETC_PKT_FLAG_PASSTHRU OR NETC_PKT_FLAG_LZ77 OR NETC_PKT_FLAG_DELTA OR NETC_PKT_FLAG_DICT_ID, NETC_ALG_PASSTHRU),
     (NETC_PKT_FLAG_PASSTHRU OR NETC_PKT_FLAG_RLE OR NETC_PKT_FLAG_DICT_ID, NETC_ALG_PASSTHRU),
     (NETC_PKT_FLAG_DICT_ID, NETC_ALG_TANS_PCTX),
     (NETC_PKT_FLAG_DELTA OR NETC_PKT_FLAG_DICT_ID, NETC_ALG_TANS_PCTX),
     (NETC_PKT_FLAG_DICT_ID, NETC_ALG_TANS_PCTX OR 0x10),
     (NETC_PKT_FLAG_DELTA OR NETC_PKT_FLAG_DICT_ID, NETC_ALG_TANS_PCTX OR 0x10),
     (NETC_PKT_FLAG_MREG OR NETC_PKT_FLAG_DICT_ID, NETC_ALG_TANS),
     (NETC_PKT_FLAG_MREG OR NETC_PKT_FLAG_DELTA OR NETC_PKT_FLAG_DICT_ID, NETC_ALG_TANS),
     (NETC_PKT_FLAG_MREG OR NETC_PKT_FLAG_X2 OR NETC_PKT_FLAG_DICT_ID, NETC_ALG_TANS),
     (NETC_PKT_FLAG_MREG OR NETC_PKT_FLAG_X2 OR NETC_PKT_FLAG_DELTA OR NETC_PKT_FLAG_DICT_ID, NETC_ALG_TANS),
     (NETC_PKT_FLAG_MREG OR NETC_PKT_FLAG_BIGRAM OR NETC_PKT_FLAG_DICT_ID, NETC_ALG_TANS),
     (NETC_PKT_FLAG_MREG OR NETC_PKT_FLAG_BIGRAM OR NETC_PKT_FLAG_DELTA OR NETC_PKT_FLAG_DICT_ID, NETC_ALG_TANS),
     (NETC_PKT_FLAG_DICT_ID, NETC_ALG_LZ77X),
     (0, 0)]
    @ bucketed NETC_PKT_FLAG_DICT_ID NETC_ALG_TANS
    @ bucketed (NETC_PKT_FLAG_DELTA OR NETC_PKT_FLAG_DICT_ID) NETC_ALG_TANS
    @ bucketed (NETC_PKT_FLAG_BIGRAM OR NETC_PKT_FLAG_DICT_ID) NETC_ALG_TANS
    @ bucketed (NETC_PKT_FLAG_BIGRAM OR NETC_PKT_FLAG_DELTA OR NETC_PKT_FLAG_DICT_ID) NETC_ALG_TANS
    @ bucketed (NETC_PKT_FLAG_X2 OR NETC_PKT_FLAG_DICT_ID) NETC_ALG_TANS
    @ bucketed (NETC_PKT_FLAG_X2 OR NETC_PKT_FLAG_DELTA OR NETC_PKT_FLAG_DICT_ID) NETC_ALG_TANS"

definition pkt_types_hi :: "(byte \<times> byte) list" where
  "pkt_types_hi =
    bucketed NETC_PKT_FLAG_DICT_ID NETC_ALG_LZP
    @ bucketed (NETC_PKT_FLAG_DELTA OR NETC_PKT_FLAG_DICT_ID) NETC_ALG_LZP
    @ bucketed (NETC_PKT_FLAG_BIGRAM OR NETC_PKT_FLAG_DICT_ID) NETC_ALG_LZP
    @ bucketed (NETC_PKT_FLAG_BIGRAM OR NETC_PKT_FLAG_DELTA OR NETC_PKT_FLAG_DICT_ID) NETC_ALG_LZP
    @ bucketed NETC_PKT_FLAG_DICT_ID NETC_ALG_TANS_10
    @ bucketed (NETC_PKT_FLAG_DELTA OR NETC_PKT_FLAG_DICT_ID) NETC_ALG_TANS_10
    @ [(NETC_PKT_FLAG_BIGRAM OR NETC_PKT_FLAG_DICT_ID, NETC_ALG_TANS_PCTX),
       (NETC_PKT_FLAG_BIGRAM OR NETC_PKT_FLAG_DELTA OR NETC_PKT_FLAG_DICT_ID, NETC_ALG_TANS_PCTX),
       (NETC_PKT_FLAG_BIGRAM OR NETC_PKT_FLAG_DICT_ID, NETC_ALG_TANS_PCTX OR 0x10),
       (NETC_PKT_FLAG_BIGRAM OR NETC_PKT_FLAG_DELTA OR NETC_PKT_FLAG_DICT_ID, NETC_ALG_TANS_PCTX OR 0x10),
       (NETC_PKT_FLAG_DELTA OR NETC_PKT_FLAG_RLE OR NETC_PKT_FLAG_DICT_ID, NETC_ALG_TANS_PCTX),
       (NETC_PKT_FLAG_DELTA OR NETC_PKT_FLAG_RLE OR NETC_PKT_FLAG_DICT_ID, NETC_ALG_TANS_PCTX OR 0x10),
       (NETC_PKT_FLAG_BIGRAM OR NETC_PKT_FLAG_DELTA OR NETC_PKT_FLAG_RLE OR NETC_PKT_FLAG_DICT_ID, NETC_ALG_TANS_PCTX),
       (NETC_PKT_FLAG_BIGRAM OR NETC_PKT_FLAG_DELTA OR NETC_PKT_FLAG_RLE OR NETC_PKT_FLAG_DICT_ID, NETC_ALG_TANS_PCTX OR 0x10)]
    @ replicate 39 (0, 0) @ [(0xFF, 0xFF)]"

definition netc_pkt_type_table :: "(byte \<times> byte) list" where
  "netc_pkt_type_table = pkt_types_lo @ pkt_types_hi"

definition netc_compact_type_encode :: "byte \<Rightarrow> byte \<Rightarrow> byte" where
  "netc_compact_type_encode flags algorithm =
     (let alg_lo = algorithm AND 0x0F;
          bucket = drop_bit 4 algorithm AND 0x0F;
          delta = (if has_flag flags NETC_PKT_FLAG_DELTA then 1 else 0);
          bigram = (if has_flag flags NETC_PKT_FLAG_BIGRAM then 1 else 0);
          x2 = (if has_flag flags NETC_PKT_FLAG_X2 then 1 else 0) :: byte
      in if has_flag flags NETC_PKT_FLAG_PASSTHRU
         then if has_flag flags NETC_PKT_FLAG_LZ77 then 0x01 + delta
              else if has_flag flags NETC_PKT_FLAG_RLE then 0x03 else 0x00
         else if alg_lo = NETC_ALG_TANS_PCTX
         then let lzp = (if bucket \<noteq> 0 then 1 else 0)
              in if has_flag flags NETC_PKT_FLAG_RLE then 0xD4 + lzp + bigram * 2
                 else if bigram \<noteq> 0 then 0xD0 + delta + lzp * 2
                 else 0x04 + delta + lzp * 2
         else if alg_lo = NETC_ALG_LZ77X then 0x0E
         else if has_flag flags NETC_PKT_FLAG_MREG
         then if bigram \<noteq> 0 then 0x0C + delta else if x2 \<noteq> 0 then 0x0A + delta else 0x08 + delta
         else if alg_lo = NETC_ALG_TANS
         then (if bigram \<noteq> 0 \<and> delta \<noteq> 0 then 0x40 else if bigram \<noteq> 0 then 0x30
               else if x2 \<noteq> 0 \<and> delta \<noteq> 0 then 0x60 else if x2 \<noteq> 0 then 0x50
               else if delta \<noteq> 0 then 0x20 else 0x10) + bucket
         else if alg_lo = NETC_ALG_LZP
         then (if bigram \<noteq> 0 \<and> delta \<noteq> 0 then 0xA0 else if bigram \<noteq> 0 then 0x90
               else if delta \<noteq> 0 then 0x80 else 0x70) + bucket
         else if alg_lo = NETC_ALG_TANS_10
         then (if delta \<noteq> 0 then 0xC0 else 0xB0) + bucket
         else 0xFF)"

section \<open>Compact header\<close>

definition netc_hdr_write_compact :: "byte \<Rightarrow> u16 \<Rightarrow> byte list" where
  "netc_hdr_write_compact pkt_type original_size =
     (if original_size \<le> 127 then [pkt_type, ucast original_size]
      else [pkt_type, 0x80] @ netc_write_u16_le original_size)"

text \<open>The bytes consumed, 0 on error, and the size, flags and algorithm read.\<close>

definition netc_hdr_read_compact :: "byte list \<Rightarrow> (nat \<times> u16 \<times> byte \<times> byte) option" where
  "netc_hdr_read_compact src =
     (if length src < 2 then None
      else let pkt_type = src ! 0;
               (flags, algorithm) = netc_pkt_type_table ! unat pkt_type
           in if pkt_type = 0xFF \<or> flags = 0 \<and> algorithm = 0 then None
              else if src ! 1 AND 0x80 = 0 then Some (2, ucast (src ! 1 AND 0x7F), flags, algorithm)
              else if length src < 4 then None
              else Some (4, netc_read_u16_le (drop 2 src), flags, algorithm))"

definition netc_hdr_emit :: "netc_pkt_header \<Rightarrow> bool \<Rightarrow> byte list" where
  "netc_hdr_emit h compact =
     (if compact
      then netc_hdr_write_compact (netc_compact_type_encode (hdr_flags h) (hdr_algorithm h)) (hdr_original_size h)
      else netc_hdr_write h)"

section \<open>The type table and the type chooser\<close>

lemma length_pkt_type_table: "length netc_pkt_type_table = 256"
  by (simp add: netc_pkt_type_table_def pkt_types_lo_def pkt_types_hi_def bucketed_def)

definition type_used :: "byte \<times> byte \<Rightarrow> bool" where
  "type_used e \<longleftrightarrow> e \<noteq> (0, 0) \<and> e \<noteq> (0xFF, 0xFF)"

lemma type_table_encode:
  "list_all (\<lambda>(n, e). type_used e \<longrightarrow> netc_compact_type_encode (fst e) (snd e) = word_of_nat n)
     (zip [0..<256] netc_pkt_type_table)"
  by code_simp

lemma type_encode_table:
  assumes "type_used (netc_pkt_type_table ! unat t)"
  shows "netc_compact_type_encode (fst (netc_pkt_type_table ! unat t)) (snd (netc_pkt_type_table ! unat t)) = t"
proof -
  have t: "unat t < 256" by simp
  then have "(unat t, netc_pkt_type_table ! unat t) \<in> set (zip [0..<256] netc_pkt_type_table)"
    by (auto simp: set_zip length_pkt_type_table intro!: exI [of _ "unat t"])
  then show ?thesis
    using type_table_encode assms by (auto simp: list_all_iff split: prod.splits)
qed

text \<open>The type that the chooser assigns to a pair of the table leads back to that pair.\<close>

lemma type_lookup_encode:
  assumes "(flags, alg) \<in> set netc_pkt_type_table" and "type_used (flags, alg)"
  shows "netc_pkt_type_table ! unat (netc_compact_type_encode flags alg) = (flags, alg)"
proof -
  obtain n where n: "n < 256" "netc_pkt_type_table ! n = (flags, alg)"
    using assms(1) by (auto simp: in_set_conv_nth length_pkt_type_table)
  have u: "unat (word_of_nat n :: byte) = n" using n(1) by (simp add: unat_of_nat_byte)
  have "netc_compact_type_encode flags alg = word_of_nat n"
    using type_encode_table [of "word_of_nat n"] n assms(2) u by simp
  then show ?thesis using n u by simp
qed

lemma type_used_lookup:
  fixes t :: byte
  assumes "type_used (netc_pkt_type_table ! unat t)" shows "t \<noteq> 0xFF"
proof
  assume t: "t = 0xFF"
  have "netc_pkt_type_table ! 255 = (0xFF, 0xFF)"
    by (simp add: netc_pkt_type_table_def pkt_types_lo_def pkt_types_hi_def bucketed_def nth_append)
  then show False using assms t by (simp add: type_used_def)
qed

text \<open>Outside the sentinel, a table entry is either used or zero.\<close>

lemma type_unused_zero:
  fixes t :: byte
  assumes "t \<noteq> 0xFF" and "\<not> type_used (netc_pkt_type_table ! unat t)"
  shows "netc_pkt_type_table ! unat t = (0, 0)"
proof -
  have all: "list_all (\<lambda>(n, e). n = 255 \<or> type_used e \<or> e = (0, 0)) (zip [0..<256] netc_pkt_type_table)"
    by code_simp
  have "unat t \<noteq> 255"
  proof
    assume "unat t = 255"
    then have "word_of_nat (unat t) = (0xFF :: byte)" by simp
    then show False using assms(1) by simp
  qed
  moreover have "(unat t, netc_pkt_type_table ! unat t) \<in> set (zip [0..<256] netc_pkt_type_table)"
    by (auto simp: set_zip length_pkt_type_table intro!: exI [of _ "unat t"])
  ultimately show ?thesis using all assms(2) unfolding list_all_iff by (metis (mono_tags) case_prod_conv)
qed

section \<open>Reading headers back\<close>

lemma short_size_byte:
  assumes "(sz :: u16) \<le> 127"
  shows "ucast sz AND (0x80 :: byte) = 0" and "ucast (ucast sz AND (0x7F :: byte)) = sz"
proof -
  have all: "list_all (\<lambda>n. (ucast (word_of_nat n :: u16) AND (0x80 :: byte)) = 0
      \<and> ucast (ucast (word_of_nat n :: u16) AND (0x7F :: byte)) = (word_of_nat n :: u16)) [0..<128]"
    by code_simp
  have "unat sz < 128" using assms by (simp add: word_le_nat_alt)
  then have "unat sz \<in> set [0..<128]" by simp
  then have "(ucast (word_of_nat (unat sz) :: u16) AND (0x80 :: byte)) = 0
      \<and> ucast (ucast (word_of_nat (unat sz) :: u16) AND (0x7F :: byte)) = (word_of_nat (unat sz) :: u16)"
    using all by (simp only: list_all_iff)
  then show "ucast sz AND (0x80 :: byte) = 0" and "ucast (ucast sz AND (0x7F :: byte)) = sz"
    by simp_all
qed

lemma hdr_read_type:
  fixes t :: byte
  shows "netc_hdr_read_compact (t # bs) =
     (if type_used (netc_pkt_type_table ! unat t)
      then case bs of
          [] \<Rightarrow> None
        | s # bs' \<Rightarrow>
            if s AND 0x80 = 0 then Some (2, ucast (s AND 0x7F), netc_pkt_type_table ! unat t)
            else if length bs' < 2 then None
            else Some (4, netc_read_u16_le bs', netc_pkt_type_table ! unat t)
      else None)"
proof -
  obtain fl al where e: "netc_pkt_type_table ! unat t = (fl, al)" by fastforce
  show ?thesis
  proof (cases "type_used (fl, al)")
    case True
    then have "t \<noteq> 0xFF" "\<not> (fl = 0 \<and> al = 0)"
      using type_used_lookup [of t] e by (auto simp: type_used_def)
    then show ?thesis using e True
      by (cases bs) (auto simp: netc_hdr_read_compact_def Let_def)
  next
    case False
    then have "t = 0xFF \<or> fl = 0 \<and> al = 0" using type_unused_zero [of t] e by auto
    then show ?thesis using e False by (auto simp: netc_hdr_read_compact_def)
  qed
qed

lemma hdr_read_write_compact:
  "netc_hdr_read_compact (netc_hdr_write_compact t sz @ rest) =
     (if type_used (netc_pkt_type_table ! unat t)
      then Some (length (netc_hdr_write_compact t sz), sz, netc_pkt_type_table ! unat t) else None)"
proof (cases "sz \<le> 127")
  case True
  then show ?thesis
    using short_size_byte [OF True] by (simp add: netc_hdr_write_compact_def hdr_read_type)
next
  case False
  then show ?thesis by (simp add: netc_hdr_write_compact_def hdr_read_type)
qed

lemma hdr_read_write:
  "netc_hdr_read (netc_hdr_write h @ rest) = h"
proof -
  obtain a b c d e f where
    h: "h = \<lparr>hdr_original_size = a, hdr_compressed_size = b, hdr_flags = c,
             hdr_algorithm = d, hdr_model_id = e, hdr_context_seq = f\<rparr>"
    by (cases h) auto
  have "drop 2 (netc_hdr_write h @ rest) = netc_write_u16_le b @ [c, d, e, f] @ rest"
    by (simp add: netc_hdr_write_def h)
  moreover have "drop 4 (netc_hdr_write h @ rest) = [c, d, e, f] @ rest"
    by (simp add: netc_hdr_write_def h)
  moreover have "(netc_hdr_write h @ rest) ! (4 + i) = drop 4 (netc_hdr_write h @ rest) ! i" for i
    by (rule nth_drop [symmetric]) (simp add: netc_hdr_write_def)
  ultimately have "\<And>i. (netc_hdr_write h @ rest) ! (4 + i) = ([c, d, e, f] @ rest) ! i"
    and d2: "drop 2 (netc_hdr_write h @ rest) = netc_write_u16_le b @ [c, d, e, f] @ rest" by auto
  from this(1) [of 0] this(1) [of 1] this(1) [of 2] this(1) [of 3]
  show ?thesis
    unfolding netc_hdr_read_def d2 by (simp add: h) (simp add: netc_hdr_write_def)
qed

lemma length_hdr_write [simp]: "length (netc_hdr_write h) = NETC_HEADER_SIZE"
  by (simp add: netc_hdr_write_def NETC_HEADER_SIZE_def)

text \<open>
  The legacy header is read back field by field, whatever follows it in the buffer.
\<close>
theorem legacy_header_roundtrip:
  "netc_hdr_read (netc_hdr_write h @ rest) = h \<and> length (netc_hdr_write h) = NETC_HEADER_SIZE"
  by (simp add: hdr_read_write)

text \<open>
  C26. The compact header carries flags and algorithm exactly when the packet-type table has an
  entry for them.  For a pair of the table the reader returns the header that was emitted, of 2 bytes
  for a size up to 127 and of 4 bytes otherwise; for any other pair it never returns the flags and the
  algorithm that were emitted.
\<close>
theorem compact_header_exact:
  "netc_hdr_read_compact (netc_hdr_emit h True @ rest)
     = Some (if hdr_original_size h \<le> 127 then 2 else 4, hdr_original_size h, hdr_flags h, hdr_algorithm h)
   \<longleftrightarrow> (hdr_flags h, hdr_algorithm h) \<in> set netc_pkt_type_table \<and> type_used (hdr_flags h, hdr_algorithm h)"
proof -
  let ?p = "(hdr_flags h, hdr_algorithm h)"
  let ?t = "netc_compact_type_encode (hdr_flags h) (hdr_algorithm h)"
  have "netc_pkt_type_table ! unat ?t \<in> set netc_pkt_type_table"
    by (simp add: length_pkt_type_table)
  then have "netc_pkt_type_table ! unat ?t = ?p \<and> type_used (netc_pkt_type_table ! unat ?t)
      \<longleftrightarrow> ?p \<in> set netc_pkt_type_table \<and> type_used ?p"
    using type_lookup_encode [of "hdr_flags h" "hdr_algorithm h"] by auto
  moreover have "length (netc_hdr_write_compact ?t (hdr_original_size h))
      = (if hdr_original_size h \<le> 127 then 2 else 4)"
    by (simp add: netc_hdr_write_compact_def)
  ultimately show ?thesis
    by (simp only: netc_hdr_emit_def hdr_read_write_compact if_True option.inject prod.inject
        split: if_splits) auto
qed

text \<open>
  C27. The compact header loses the marker of order-2 delta prediction (the RLE flag together with the
  delta flag): for every packet type with delta that the header can represent, whatever its coder, table
  index and other flags, except the position-context types, a header with the marker is read back as the
  same type without it, which selects order-1 prediction.
\<close>
theorem compact_header_loses_order2:
  assumes "(base, alg) \<in> set netc_pkt_type_table" and "has_flag base NETC_PKT_FLAG_DELTA" and "\<not> has_flag base NETC_PKT_FLAG_RLE"
    and "alg AND 0x0F \<noteq> NETC_ALG_TANS_PCTX" and "hdr_flags h = base OR NETC_PKT_FLAG_RLE" and "hdr_algorithm h = alg"
  shows "netc_hdr_read_compact (netc_hdr_emit h True @ rest)
     = Some (if hdr_original_size h \<le> 127 then 2 else 4, hdr_original_size h, base, alg) \<and> base \<noteq> hdr_flags h"
proof -
  have all: "list_all (\<lambda>(base, alg). has_flag base NETC_PKT_FLAG_DELTA \<longrightarrow> \<not> has_flag base NETC_PKT_FLAG_RLE
       \<longrightarrow> alg AND 0x0F \<noteq> NETC_ALG_TANS_PCTX
       \<longrightarrow> netc_pkt_type_table ! unat (netc_compact_type_encode (base OR NETC_PKT_FLAG_RLE) alg) = (base, alg)
         \<and> type_used (base, alg) \<and> has_flag (base OR NETC_PKT_FLAG_RLE) NETC_PKT_FLAG_RLE) netc_pkt_type_table"
    by code_simp
  then have "netc_pkt_type_table ! unat (netc_compact_type_encode (base OR NETC_PKT_FLAG_RLE) alg) = (base, alg)
      \<and> type_used (base, alg)" and "has_flag (hdr_flags h) NETC_PKT_FLAG_RLE"
    using assms unfolding list_all_iff by auto
  moreover have "length (netc_hdr_write_compact t (hdr_original_size h))
      = (if hdr_original_size h \<le> 127 then 2 else 4)" for t
    by (simp add: netc_hdr_write_compact_def)
  moreover have "base \<noteq> hdr_flags h" using calculation(2) assms(3) by metis
  ultimately show ?thesis
    using assms(5,6) by (simp add: netc_hdr_emit_def hdr_read_write_compact)
qed

theorem compact_header_loses_order2_witness:
  "netc_hdr_read_compact (netc_hdr_emit
      \<lparr>hdr_original_size = 64, hdr_compressed_size = 0, hdr_flags = 0x29, hdr_algorithm = 0x31,
       hdr_model_id = 1, hdr_context_seq = 0\<rparr> True @ [])
     = Some (2, 64, 0x09, 0x31) \<and> 0x09 \<noteq> (0x29 :: byte)"
proof -
  have "List.member netc_pkt_type_table (0x09, 0x31)" by code_simp
  then have "(0x09, 0x31) \<in> set netc_pkt_type_table" by simp
  from compact_header_loses_order2 [OF this, of
      "\<lparr>hdr_original_size = 64, hdr_compressed_size = 0, hdr_flags = 0x29, hdr_algorithm = 0x31,
       hdr_model_id = 1, hdr_context_seq = 0\<rparr>" "[]"]
  show ?thesis by (simp add: pkt_consts has_flag_def)
qed

end
