(* ===== verification/Netc_Dict.thy ===== *)
theory Netc_Dict
  imports Netc_Tans_X2 Netc_Lzp Netc_Crc32 Netc_Header
begin

text \<open>
  Dictionaries, \<open>src/src/core/netc_dict.c\<close>: the trained model and its serialised form.  The fixed
  arrays of the C struct are lists, a \<open>NULL\<close> hash table is \<open>None\<close>, and allocation succeeds.
  \<open>netc_dict_load\<close> is shown to invert \<open>netc_dict_save\<close>, to accept only blobs with the right
  checksum, and to build only well-formed tables; the class map of a loaded dictionary is the one part
  that it does not validate.
\<close>

definition NETC_DICT_MAGIC :: u32 where "NETC_DICT_MAGIC = 0x4E455443"
definition NETC_DICT_VERSION :: byte where "NETC_DICT_VERSION = 5"
definition NETC_DICT_FLAG_LZP :: byte where "NETC_DICT_FLAG_LZP = 0x01"
definition NETC_CTX_COUNT :: nat where "NETC_CTX_COUNT = 16"
definition NETC_BIGRAM_CTX_COUNT :: nat where "NETC_BIGRAM_CTX_COUNT = 8"
definition NETC_BIGRAM_CTX_COUNT_V4 :: nat where "NETC_BIGRAM_CTX_COUNT_V4 = 4"

record netc_dict =
  d_magic :: u32
  d_version :: byte
  d_model_id :: byte
  d_ctx_count :: byte
  d_dict_flags :: byte
  d_tables :: "netc_tans_table list"
  d_bigram_tables :: "netc_tans_table list list"
  d_bigram_class_map :: "byte list"
  d_bigram_class_count :: byte
  d_lzp_table :: "lzp_table option"
  d_checksum :: u32

section \<open>Blob layout\<close>

definition DICT_HEADER_SIZE :: nat where "DICT_HEADER_SIZE = 8"
definition DICT_FREQ_BYTES :: nat where "DICT_FREQ_BYTES = NETC_CTX_COUNT * NETC_TANS_SYMBOLS * 2"
definition DICT_LZP_SECTION_SIZE :: nat where "DICT_LZP_SECTION_SIZE = 4 + NETC_LZP_HT_SIZE * 2"
definition DICT_V4_BASE_SIZE :: nat where
  "DICT_V4_BASE_SIZE = DICT_HEADER_SIZE + DICT_FREQ_BYTES + NETC_CTX_COUNT * NETC_BIGRAM_CTX_COUNT_V4 * NETC_TANS_SYMBOLS * 2"
definition DICT_V3_BLOB_SIZE :: nat where "DICT_V3_BLOB_SIZE = DICT_V4_BASE_SIZE + 4"
definition DICT_V5_BASE_SIZE :: nat where
  "DICT_V5_BASE_SIZE = DICT_HEADER_SIZE + 256 + DICT_FREQ_BYTES
     + NETC_CTX_COUNT * NETC_BIGRAM_CTX_COUNT * NETC_TANS_SYMBOLS * 2"

lemmas dict_sizes = DICT_HEADER_SIZE_def DICT_FREQ_BYTES_def DICT_LZP_SECTION_SIZE_def DICT_V4_BASE_SIZE_def
  DICT_V3_BLOB_SIZE_def DICT_V5_BASE_SIZE_def NETC_CTX_COUNT_def NETC_BIGRAM_CTX_COUNT_def
  NETC_BIGRAM_CTX_COUNT_V4_def NETC_TANS_SYMBOLS_def NETC_LZP_HT_SIZE_def

definition dict_blob_size_v :: "byte \<Rightarrow> byte \<Rightarrow> nat" where
  "dict_blob_size_v version dict_flags =
     (if version \<ge> 5 then DICT_V5_BASE_SIZE else DICT_V4_BASE_SIZE)
     + (if has_flag dict_flags NETC_DICT_FLAG_LZP then DICT_LZP_SECTION_SIZE else 0) + 4"

definition dict_blob_checksum :: "byte list \<Rightarrow> nat \<Rightarrow> u32" where
  "dict_blob_checksum blob blob_size = netc_crc32 (take (blob_size - 4) blob)"

section \<open>Saving\<close>

definition freq_bytes :: "netc_freq_table \<Rightarrow> byte list" where
  "freq_bytes freq = concat (map netc_write_u16_le freq)"

definition lzp_bytes :: "lzp_table \<Rightarrow> byte list" where
  "lzp_bytes tbl = concat (map (\<lambda>e. [lzp_value e, lzp_valid e]) tbl)"

definition dict_classes :: "byte \<Rightarrow> nat" where
  "dict_classes version = (if version \<ge> 5 then NETC_BIGRAM_CTX_COUNT else NETC_BIGRAM_CTX_COUNT_V4)"

text \<open>Everything before the checksum; writing an LZP table that is not there is undefined.\<close>

definition dict_body :: "netc_dict \<Rightarrow> cerror + byte list" where
  "dict_body d =
     (let body = netc_write_u32_le (d_magic d)
            @ [d_version d, d_model_id d, d_ctx_count d, d_dict_flags d]
            @ (if d_version d \<ge> 5 then d_bigram_class_map d else [])
            @ concat (map (\<lambda>t. freq_bytes (tt_freq t)) (d_tables d))
            @ concat (map (\<lambda>row. concat (map (\<lambda>t. freq_bytes (tt_freq t)) (take (dict_classes (d_version d)) row)))
                       (d_bigram_tables d))
      in if has_flag (d_dict_flags d) NETC_DICT_FLAG_LZP
         then (case d_lzp_table d of
                 None \<Rightarrow> Inl C_Undefined
               | Some tbl \<Rightarrow> Inr (body @ netc_write_u32_le (word_of_nat NETC_LZP_HT_SIZE) @ lzp_bytes tbl))
         else Inr body)"

definition netc_dict_save :: "netc_dict \<Rightarrow> cerror + byte list" where
  "netc_dict_save d =
     (case dict_body d of Inl e \<Rightarrow> Inl e | Inr body \<Rightarrow> Inr (body @ netc_write_u32_le (d_checksum d)))"

section \<open>Loading\<close>

definition read_freq :: "byte list \<Rightarrow> nat \<Rightarrow> netc_freq_table" where
  "read_freq b off = map (\<lambda>s. netc_read_u16_le (drop (off + 2 * s) b)) [0..<NETC_TANS_SYMBOLS]"

text \<open>
  Consecutive frequency tables, each given to the builder; the first that it rejects ends the load.
\<close>

definition read_tables :: "byte list \<Rightarrow> nat \<Rightarrow> nat \<Rightarrow> netc_tans_table list option" where
  "read_tables b off n = those (map (\<lambda>k. netc_tans_build (read_freq b (off + 512 * k))) [0..<n])"

definition read_lzp :: "byte list \<Rightarrow> nat \<Rightarrow> nat \<Rightarrow> lzp_table" where
  "read_lzp b off n =
     map (\<lambda>h. \<lparr>lzp_value = b ! (off + 2 * h), lzp_valid = b ! (off + 2 * h + 1)\<rparr>) [0..<n]
     @ replicate (NETC_LZP_HT_SIZE - n) \<lparr>lzp_value = 0, lzp_valid = 0\<rparr>"

text \<open>A table of a dictionary cleared by \<open>calloc\<close>.\<close>

definition zero_tans_table :: netc_tans_table where
  "zero_tans_table = \<lparr>tt_decode = replicate NETC_TANS_TABLE_SIZE \<lparr>de_symbol = 0, de_nb_bits = 0, de_next_state_base = 0\<rparr>,
     tt_encode_state = replicate NETC_TANS_TABLE_SIZE 0,
     tt_encode = replicate NETC_TANS_SYMBOLS \<lparr>en_freq = 0, en_lower = 0, en_cumul = 0, en_nb_hi = 0\<rparr>,
     tt_freq = replicate NETC_TANS_SYMBOLS 0, tt_valid = False\<rparr>"

definition default_class_map :: "byte list" where
  "default_class_map = map (\<lambda>i. word_of_nat (i div 64)) [0..<256]"

definition rows_of :: "nat \<Rightarrow> netc_tans_table list \<Rightarrow> netc_tans_table list list" where
  "rows_of n ts = map (\<lambda>b. take n (drop (n * b) ts) @ replicate (NETC_BIGRAM_CTX_COUNT - n) zero_tans_table)
                    [0..<NETC_CTX_COUNT]"

definition dict_parse :: "byte list \<Rightarrow> byte \<Rightarrow> byte \<Rightarrow> u32 \<Rightarrow> netc_result + netc_dict" where
  "dict_parse b version dflags stored_cksum =
     (let (class_map, class_count, off) =
            (if version \<ge> 5 then (take 256 (drop 8 b), word_of_nat NETC_BIGRAM_CTX_COUNT, 8 + 256)
             else (default_class_map, word_of_nat NETC_BIGRAM_CTX_COUNT_V4, 8));
          n_classes = dict_classes version
      in case read_tables b off NETC_CTX_COUNT of
           None \<Rightarrow> Inl NETC_ERR_DICT_INVALID
         | Some tables \<Rightarrow>
             (case read_tables b (off + DICT_FREQ_BYTES) (NETC_CTX_COUNT * n_classes) of
                None \<Rightarrow> Inl NETC_ERR_DICT_INVALID
              | Some btables \<Rightarrow>
                  let d = \<lparr>d_magic = NETC_DICT_MAGIC, d_version = version, d_model_id = b ! 5,
                           d_ctx_count = b ! 6, d_dict_flags = dflags, d_tables = tables,
                           d_bigram_tables = rows_of n_classes btables, d_bigram_class_map = class_map,
                           d_bigram_class_count = class_count, d_lzp_table = None,
                           d_checksum = stored_cksum\<rparr>;
                      off = off + DICT_FREQ_BYTES + 512 * (NETC_CTX_COUNT * n_classes)
                  in if has_flag dflags NETC_DICT_FLAG_LZP
                     then let lzp_ht_size = unat (netc_read_u32_le (drop off b))
                          in if lzp_ht_size > NETC_LZP_HT_SIZE then Inl NETC_ERR_DICT_INVALID
                             else Inr (d\<lparr>d_lzp_table := Some (read_lzp b (off + 4) lzp_ht_size)\<rparr>)
                     else Inr d))"

definition netc_dict_load :: "byte list \<Rightarrow> netc_result + netc_dict" where
  "netc_dict_load b =
     (if length b < DICT_V3_BLOB_SIZE then Inl NETC_ERR_DICT_INVALID
      else if netc_read_u32_le b \<noteq> NETC_DICT_MAGIC then Inl NETC_ERR_DICT_INVALID
      else let version = b ! 4
           in if version < 3 \<or> version > NETC_DICT_VERSION then Inl NETC_ERR_VERSION
              else if b ! 6 \<noteq> word_of_nat NETC_CTX_COUNT then Inl NETC_ERR_VERSION
              else let dflags = b ! 7; expected_sz = dict_blob_size_v version dflags
                   in if length b < expected_sz then Inl NETC_ERR_DICT_INVALID
                      else let stored_cksum = netc_read_u32_le (drop (expected_sz - 4) b)
                           in if stored_cksum \<noteq> dict_blob_checksum b expected_sz then Inl NETC_ERR_DICT_INVALID
                              else dict_parse b version dflags stored_cksum)"

definition netc_dict_model_id :: "netc_dict option \<Rightarrow> byte" where
  "netc_dict_model_id dict = (case dict of None \<Rightarrow> 0 | Some d \<Rightarrow> d_model_id d)"

section \<open>Well-formed dictionaries\<close>

text \<open>A table that the builder returned.\<close>

definition built :: "netc_tans_table \<Rightarrow> bool" where
  "built t \<longleftrightarrow> length (tt_freq t) = NETC_TANS_SYMBOLS \<and> netc_tans_build (tt_freq t) = Some t"

definition class_map_ok :: "byte list \<Rightarrow> bool" where
  "class_map_ok m \<longleftrightarrow> length m = 256 \<and> (\<forall>c \<in> set m. unat c < NETC_BIGRAM_CTX_COUNT)"

text \<open>What the entropy coder needs of a dictionary; \<open>dict_wf\<close> holds of trained and of loaded ones.\<close>

definition dict_wf :: "netc_dict \<Rightarrow> bool" where
  "dict_wf d \<longleftrightarrow> length (d_tables d) = NETC_CTX_COUNT \<and> (\<forall>t \<in> set (d_tables d). built t)
     \<and> length (d_bigram_tables d) = NETC_CTX_COUNT
     \<and> (\<forall>row \<in> set (d_bigram_tables d). length row = NETC_BIGRAM_CTX_COUNT
          \<and> (\<forall>c < NETC_BIGRAM_CTX_COUNT. if c < dict_classes (d_version d) then built (row ! c)
                                           else row ! c = zero_tans_table))
     \<and> (case d_lzp_table d of None \<Rightarrow> True | Some tbl \<Rightarrow> length tbl = NETC_LZP_HT_SIZE)"

text \<open>The dictionaries that a blob represents.\<close>

definition dict_storable :: "netc_dict \<Rightarrow> bool" where
  "dict_storable d \<longleftrightarrow> dict_wf d \<and> d_magic d = NETC_DICT_MAGIC \<and> 3 \<le> d_version d \<and> d_version d \<le> NETC_DICT_VERSION
     \<and> d_ctx_count d = word_of_nat NETC_CTX_COUNT
     \<and> (if d_version d \<ge> 5
        then length (d_bigram_class_map d) = 256 \<and> d_bigram_class_count d = word_of_nat NETC_BIGRAM_CTX_COUNT
        else d_bigram_class_map d = default_class_map \<and> d_bigram_class_count d = word_of_nat NETC_BIGRAM_CTX_COUNT_V4)
     \<and> (has_flag (d_dict_flags d) NETC_DICT_FLAG_LZP \<longleftrightarrow> d_lzp_table d \<noteq> None)
     \<and> (\<exists>body. dict_body d = Inr body \<and> d_checksum d = netc_crc32 body)"

lemma length_freq_bytes [simp]: "length (freq_bytes f) = 2 * length f"
  by (induction f) (simp_all add: freq_bytes_def)

lemma length_lzp_bytes [simp]: "length (lzp_bytes t) = 2 * length t"
  by (induction t) (simp_all add: lzp_bytes_def)

lemma drop_freq_bytes: "drop (2 * s) (freq_bytes f) = freq_bytes (drop s f)"
proof (induction f arbitrary: s)
  case (Cons x xs)
  show ?case
  proof (cases s)
    case (Suc s')
    have "drop (2 * Suc s') (netc_write_u16_le x @ freq_bytes xs) = drop (2 * s') (freq_bytes xs)"
      by simp
    then show ?thesis using Cons Suc by (simp add: freq_bytes_def)
  qed simp
qed (simp add: freq_bytes_def)

lemma read_freq_bytes:
  assumes "length f = NETC_TANS_SYMBOLS" and "off = length pre"
  shows "read_freq (pre @ freq_bytes f @ rest) off = f"
proof (rule nth_equalityI)
  show "length (read_freq (pre @ freq_bytes f @ rest) off) = length f" by (simp add: read_freq_def assms(1))
  fix s assume "s < length (read_freq (pre @ freq_bytes f @ rest) off)"
  then have s: "s < NETC_TANS_SYMBOLS" by (simp add: read_freq_def)
  have "drop (off + 2 * s) (pre @ freq_bytes f @ rest) = drop (2 * s) (freq_bytes f) @ rest"
    using s assms by (simp add: add.commute)
  also have "\<dots> = netc_write_u16_le (f ! s) @ freq_bytes (drop (Suc s) f) @ rest"
    using s assms(1) Cons_nth_drop_Suc [of s f] unfolding drop_freq_bytes
    by (metis append.assoc concat.simps(2) freq_bytes_def list.simps(9))
  finally show "read_freq (pre @ freq_bytes f @ rest) off ! s = f ! s"
    using s by (simp add: read_freq_def)
qed

lemma those_map_Some: "(\<And>x. x \<in> set xs \<Longrightarrow> f x = Some (g x)) \<Longrightarrow> those (map f xs) = Some (map g xs)"
  by (induction xs) simp_all

lemma those_Some_nth: "those ys = Some xs \<Longrightarrow> length ys = length xs \<and> (\<forall>k < length xs. ys ! k = Some (xs ! k))"
proof (induction ys arbitrary: xs)
  case (Cons y ys)
  then show ?case by (auto simp: nth_Cons' split: option.splits)
qed simp

abbreviation tables_bytes :: "netc_tans_table list \<Rightarrow> byte list" where
  "tables_bytes ts \<equiv> concat (map (\<lambda>t. freq_bytes (tt_freq t)) ts)"

lemma length_tables_bytes:
  assumes "\<forall>t \<in> set ts. length (tt_freq t) = NETC_TANS_SYMBOLS"
  shows "length (tables_bytes ts) = 512 * length ts"
  using assms by (induction ts) (simp_all add: NETC_TANS_SYMBOLS_def)

lemma read_tables_bytes:
  assumes built: "\<forall>t \<in> set ts. built t" and off: "off = length pre"
  shows "read_tables (pre @ tables_bytes ts @ rest) off (length ts) = Some ts"
proof -
  have len: "\<forall>t \<in> set ts. length (tt_freq t) = NETC_TANS_SYMBOLS" using built by (simp add: built_def)
  have "netc_tans_build (read_freq (pre @ tables_bytes ts @ rest) (off + 512 * k)) = Some (ts ! k)"
    if k: "k < length ts" for k
  proof -
    have "tables_bytes (take k ts @ ts ! k # drop (Suc k) ts)
        = tables_bytes (take k ts) @ freq_bytes (tt_freq (ts ! k)) @ tables_bytes (drop (Suc k) ts)" by simp
    then have "tables_bytes ts = tables_bytes (take k ts) @ freq_bytes (tt_freq (ts ! k)) @ tables_bytes (drop (Suc k) ts)"
      by (simp only: id_take_nth_drop [OF k, symmetric])
    moreover have "length (tables_bytes (take k ts)) = 512 * k"
      using length_tables_bytes [of "take k ts"] len k by (auto dest: in_set_takeD)
    ultimately have "read_freq (pre @ tables_bytes ts @ rest) (off + 512 * k) = tt_freq (ts ! k)"
      using read_freq_bytes [of "tt_freq (ts ! k)" "off + 512 * k" "pre @ tables_bytes (take k ts)"
          "tables_bytes (drop (Suc k) ts) @ rest"] len k off by simp
    then show ?thesis using built k by (simp add: built_def)
  qed
  then have "those (map (\<lambda>k. netc_tans_build (read_freq (pre @ tables_bytes ts @ rest) (off + 512 * k))) [0..<length ts])
      = Some (map (\<lambda>k. ts ! k) [0..<length ts])"
    by (intro those_map_Some) simp
  then show ?thesis by (simp add: read_tables_def map_nth)
qed

lemma lzp_bytes_nth:
  assumes "h < length t"
  shows "lzp_bytes t ! (2 * h) = lzp_value (t ! h)" and "lzp_bytes t ! (2 * h + 1) = lzp_valid (t ! h)"
  using assms
proof (induction t arbitrary: h)
  case (Cons e t)
  { case 1 then show ?case using Cons by (cases h) (simp_all add: lzp_bytes_def) }
  { case 2 then show ?case using Cons by (cases h) (simp_all add: lzp_bytes_def) }
qed simp_all

lemma read_lzp_bytes:
  assumes "length t = NETC_LZP_HT_SIZE" and "off = length pre"
  shows "read_lzp (pre @ lzp_bytes t @ rest) off NETC_LZP_HT_SIZE = t"
proof -
  have "(pre @ lzp_bytes t @ rest) ! (off + j) = lzp_bytes t ! j" if "j < 2 * NETC_LZP_HT_SIZE" for j
    using that assms by (simp add: nth_append)
  from this [of "2 * h" for h] this [of "2 * h + 1" for h]
  have "\<lparr>lzp_value = (pre @ lzp_bytes t @ rest) ! (off + 2 * h),
         lzp_valid = (pre @ lzp_bytes t @ rest) ! (off + 2 * h + 1)\<rparr> = t ! h" if "h < NETC_LZP_HT_SIZE" for h
    using that assms(1) lzp_bytes_nth [of h t] by (simp add: add.assoc)
  then have "map (\<lambda>h. \<lparr>lzp_value = (pre @ lzp_bytes t @ rest) ! (off + 2 * h),
         lzp_valid = (pre @ lzp_bytes t @ rest) ! (off + 2 * h + 1)\<rparr>) [0..<NETC_LZP_HT_SIZE]
       = map (\<lambda>h. t ! h) [0..<NETC_LZP_HT_SIZE]"
    by (intro map_cong) auto
  then show ?thesis using assms(1) by (simp add: read_lzp_def map_nth_upt_take)
qed

text \<open>The rows of bigram tables, from their first \<open>n\<close> columns in sequence.\<close>

lemma concat_take_slice:
  assumes "\<forall>row \<in> set rows. n \<le> length row" and "b < length rows"
  shows "take n (drop (n * b) (concat (map (take n) rows))) = take n (rows ! b)"
  using assms
proof (induction rows arbitrary: b)
  case (Cons r rows)
  have len: "length (take n r) = n" using Cons.prems(1) by simp
  show ?case
  proof (cases b)
    case 0
    then show ?thesis using len by simp
  next
    case (Suc b')
    have "drop (n * b) (take n r @ concat (map (take n) rows)) = drop (n * b') (concat (map (take n) rows))"
      using len Suc by simp
    then show ?thesis using Cons Suc by simp
  qed
qed simp

lemma rows_of_concat:
  assumes "length rows = NETC_CTX_COUNT" and "n \<le> NETC_BIGRAM_CTX_COUNT"
    and rows: "\<forall>row \<in> set rows. length row = NETC_BIGRAM_CTX_COUNT
      \<and> (\<forall>c < NETC_BIGRAM_CTX_COUNT. n \<le> c \<longrightarrow> row ! c = zero_tans_table)"
  shows "rows_of n (concat (map (take n) rows)) = rows"
proof (rule nth_equalityI)
  show "length (rows_of n (concat (map (take n) rows))) = length rows" by (simp add: rows_of_def assms(1))
  fix b assume "b < length (rows_of n (concat (map (take n) rows)))"
  then have b: "b < length rows" by (simp add: rows_of_def assms(1))
  have row: "length (rows ! b) = NETC_BIGRAM_CTX_COUNT"
    "\<And>c. c < NETC_BIGRAM_CTX_COUNT \<Longrightarrow> n \<le> c \<Longrightarrow> rows ! b ! c = zero_tans_table"
    using rows b by auto
  have "take n (rows ! b) @ replicate (NETC_BIGRAM_CTX_COUNT - n) zero_tans_table = rows ! b"
    using row assms(2) by (intro nth_equalityI) (auto simp: nth_append min_def)
  then show "rows_of n (concat (map (take n) rows)) ! b = rows ! b"
    using concat_take_slice [of rows n b] rows assms(1,2) b by (simp add: rows_of_def)
qed

lemma concat_map_tables_bytes: "concat (map (\<lambda>row. tables_bytes (take n row)) rows) = tables_bytes (concat (map (take n) rows))"
  by (induction rows) simp_all

section \<open>Loading inverts saving\<close>

lemma built_facts:
  assumes "built t"
  shows "length (tt_freq t) = NETC_TANS_SYMBOLS" and "tans_wf NETC_TANS_TABLE_LOG t" and "tt_valid t"
    and "freq_total (tt_freq t) = NETC_TANS_TABLE_SIZE"
proof -
  show len: "length (tt_freq t) = NETC_TANS_SYMBOLS" using assms by (simp add: built_def)
  show total: "freq_total (tt_freq t) = NETC_TANS_TABLE_SIZE"
    using assms by (simp add: built_def netc_tans_build_def tans_build_def tans_consts split: if_splits)
  show "tans_wf NETC_TANS_TABLE_LOG t" using netc_tans_build_present [OF len total] assms by (auto simp: built_def)
  then show "tt_valid t" by (simp add: tans_wf_def)
qed

lemma built_buildI:
  assumes "netc_tans_build f = Some t" and "length f = NETC_TANS_SYMBOLS" shows "built t"
proof -
  have "tt_freq t = f"
    using assms(1) by (auto simp: netc_tans_build_def tans_build_def Let_def split: if_splits prod.splits)
  then show ?thesis using assms by (simp add: built_def)
qed

lemma read_tables_built:
  assumes "read_tables b off n = Some ts"
  shows "length ts = n \<and> (\<forall>t \<in> set ts. built t)"
proof -
  note th = those_Some_nth [OF assms [unfolded read_tables_def]]
  have "built (ts ! k)" if "k < length ts" for k
    using th that by (intro built_buildI [of "read_freq b (off + 512 * k)"]) (auto simp: read_freq_def)
  then show ?thesis using th by (auto simp: in_set_conv_nth)
qed

lemma dict_classes_le: "dict_classes v \<le> NETC_BIGRAM_CTX_COUNT"
  by (simp add: dict_classes_def NETC_BIGRAM_CTX_COUNT_def NETC_BIGRAM_CTX_COUNT_V4_def)

lemma dict_wf_rows:
  assumes "dict_wf d"
  shows "\<forall>t \<in> set (concat (map (take (dict_classes (d_version d))) (d_bigram_tables d))). built t"
    and "length (concat (map (take (dict_classes (d_version d))) (d_bigram_tables d)))
           = NETC_CTX_COUNT * dict_classes (d_version d)"
    and "rows_of (dict_classes (d_version d)) (concat (map (take (dict_classes (d_version d))) (d_bigram_tables d)))
           = d_bigram_tables d"
proof -
  let ?n = "dict_classes (d_version d)"
  have rows: "length row = NETC_BIGRAM_CTX_COUNT"
    "\<And>c. c < NETC_BIGRAM_CTX_COUNT \<Longrightarrow> if c < ?n then built (row ! c) else row ! c = zero_tans_table"
    if "row \<in> set (d_bigram_tables d)" for row
    using assms that by (auto simp: dict_wf_def)
  show "\<forall>t \<in> set (concat (map (take ?n) (d_bigram_tables d))). built t"
  proof
    fix t assume "t \<in> set (concat (map (take ?n) (d_bigram_tables d)))"
    then obtain row c where "row \<in> set (d_bigram_tables d)" "c < ?n" "c < length row" "t = row ! c"
      by (auto simp: in_set_conv_nth)
    then show "built t" using rows(1) [of row] rows(2) [of row c] by simp
  qed
  have "length (take ?n row) = ?n" if "row \<in> set (d_bigram_tables d)" for row
    using rows(1) [OF that] dict_classes_le by simp
  then have "length (concat (map (take ?n) rs)) = length rs * ?n" if "set rs \<subseteq> set (d_bigram_tables d)" for rs
    using that by (induction rs) auto
  then show "length (concat (map (take ?n) (d_bigram_tables d))) = NETC_CTX_COUNT * ?n"
    using assms by (simp add: dict_wf_def)
  show "rows_of ?n (concat (map (take ?n) (d_bigram_tables d))) = d_bigram_tables d"
    using assms rows dict_classes_le by (intro rows_of_concat) (auto simp: dict_wf_def)
qed

text \<open>The parts of the body of a storable dictionary, with their sizes.\<close>

definition dict_head :: "netc_dict \<Rightarrow> byte list" where
  "dict_head d = netc_write_u32_le (d_magic d) @ [d_version d, d_model_id d, d_ctx_count d, d_dict_flags d]
     @ (if d_version d \<ge> 5 then d_bigram_class_map d else [])"

definition dict_tail :: "netc_dict \<Rightarrow> byte list" where
  "dict_tail d = (case d_lzp_table d of None \<Rightarrow> []
     | Some tbl \<Rightarrow> netc_write_u32_le (word_of_nat NETC_LZP_HT_SIZE) @ lzp_bytes tbl)"

lemma dict_body_parts:
  assumes "has_flag (d_dict_flags d) NETC_DICT_FLAG_LZP \<longleftrightarrow> d_lzp_table d \<noteq> None"
  shows "dict_body d = Inr (dict_head d @ tables_bytes (d_tables d)
     @ tables_bytes (concat (map (take (dict_classes (d_version d))) (d_bigram_tables d))) @ dict_tail d)"
  using assms
  by (cases "d_lzp_table d") (simp_all add: dict_body_def dict_head_def dict_tail_def concat_map_tables_bytes)

lemma dict_part_sizes:
  assumes "dict_storable d"
  shows "length (dict_head d) = (if d_version d \<ge> 5 then 8 + 256 else 8)"
    and "length (tables_bytes (d_tables d)) = DICT_FREQ_BYTES"
    and "length (tables_bytes (concat (map (take (dict_classes (d_version d))) (d_bigram_tables d))))
           = 512 * (NETC_CTX_COUNT * dict_classes (d_version d))"
    and "length (dict_tail d) = (if has_flag (d_dict_flags d) NETC_DICT_FLAG_LZP then DICT_LZP_SECTION_SIZE else 0)"
proof -
  have wf: "dict_wf d" using assms by (simp add: dict_storable_def)
  show "length (dict_head d) = (if d_version d \<ge> 5 then 8 + 256 else 8)"
    using assms by (simp add: dict_head_def dict_storable_def)
  have "\<forall>t \<in> set (d_tables d). length (tt_freq t) = NETC_TANS_SYMBOLS"
    using wf built_facts(1) by (simp add: dict_wf_def)
  then show "length (tables_bytes (d_tables d)) = DICT_FREQ_BYTES"
    using length_tables_bytes wf by (simp add: dict_wf_def dict_sizes)
  have "\<forall>t \<in> set (concat (map (take (dict_classes (d_version d))) (d_bigram_tables d))). length (tt_freq t) = NETC_TANS_SYMBOLS"
    using dict_wf_rows(1) [OF wf] built_facts(1) by blast
  then show "length (tables_bytes (concat (map (take (dict_classes (d_version d))) (d_bigram_tables d))))
           = 512 * (NETC_CTX_COUNT * dict_classes (d_version d))"
    using length_tables_bytes dict_wf_rows(2) [OF wf] by metis
  show "length (dict_tail d) = (if has_flag (d_dict_flags d) NETC_DICT_FLAG_LZP then DICT_LZP_SECTION_SIZE else 0)"
    using assms by (auto simp: dict_tail_def dict_storable_def dict_wf_def DICT_LZP_SECTION_SIZE_def split: option.splits)
qed

lemma dict_parse_body:
  assumes st: "dict_storable d" and body: "dict_body d = Inr body"
  shows "dict_parse (body @ rest) (d_version d) (d_dict_flags d) (d_checksum d) = Inr d"
    and "length body + 4 = dict_blob_size_v (d_version d) (d_dict_flags d)"
proof -
  let ?n = "dict_classes (d_version d)"
  let ?off = "if d_version d \<ge> 5 then 8 + 256 else 8 :: nat"
  let ?bts = "concat (map (take ?n) (d_bigram_tables d))"
  have wf: "dict_wf d" and fl: "has_flag (d_dict_flags d) NETC_DICT_FLAG_LZP \<longleftrightarrow> d_lzp_table d \<noteq> None"
    using st by (simp_all add: dict_storable_def)
  note sz = dict_part_sizes [OF st]
  have eq: "body = dict_head d @ tables_bytes (d_tables d) @ tables_bytes ?bts @ dict_tail d"
    using dict_body_parts [OF fl] body by simp
  have len: "length body + 4 = length (dict_head d) + DICT_FREQ_BYTES + 512 * (NETC_CTX_COUNT * ?n)
      + length (dict_tail d) + 4" using eq sz(2,3) by simp
  then show "length body + 4 = dict_blob_size_v (d_version d) (d_dict_flags d)"
    unfolding len sz(1,4) by (simp add: dict_blob_size_v_def dict_classes_def dict_sizes)
  have t: "read_tables (body @ rest) ?off NETC_CTX_COUNT = Some (d_tables d)"
    using read_tables_bytes [of "d_tables d" ?off "dict_head d" "tables_bytes ?bts @ dict_tail d @ rest"] wf sz(1)
    by (simp add: eq dict_wf_def)
  have bt: "read_tables (body @ rest) (?off + DICT_FREQ_BYTES) (NETC_CTX_COUNT * ?n) = Some ?bts"
    using read_tables_bytes [of ?bts "?off + DICT_FREQ_BYTES" "dict_head d @ tables_bytes (d_tables d)" "dict_tail d @ rest"]
      dict_wf_rows(1,2) [OF wf] sz(1,2) by (simp add: eq)
  have hd: "(body @ rest) ! 5 = d_model_id d" "(body @ rest) ! 6 = d_ctx_count d"
    by (simp_all add: eq dict_head_def netc_write_u32_le_def)
  have cm: "d_version d \<ge> 5 \<Longrightarrow> take 256 (drop 8 (body @ rest)) = d_bigram_class_map d"
    using st by (simp add: eq dict_head_def dict_storable_def)
  let ?lo = "?off + DICT_FREQ_BYTES + 512 * (NETC_CTX_COUNT * ?n)"
  have tail: "drop ?lo (body @ rest) = dict_tail d @ rest" using sz by (simp add: eq)
  have lzp: "unat (netc_read_u32_le (drop ?lo (body @ rest))) = NETC_LZP_HT_SIZE
      \<and> read_lzp (body @ rest) (?lo + 4) NETC_LZP_HT_SIZE = tbl" if some: "d_lzp_table d = Some tbl" for tbl
  proof
    have lt: "length tbl = NETC_LZP_HT_SIZE" using wf some by (simp add: dict_wf_def)
    show "unat (netc_read_u32_le (drop ?lo (body @ rest))) = NETC_LZP_HT_SIZE"
      unfolding tail using some by (simp add: dict_tail_def NETC_LZP_HT_SIZE_def)
    show "read_lzp (body @ rest) (?lo + 4) NETC_LZP_HT_SIZE = tbl"
      using read_lzp_bytes [OF lt, of "?lo + 4" "dict_head d @ tables_bytes (d_tables d) @ tables_bytes ?bts
          @ netc_write_u32_le (word_of_nat NETC_LZP_HT_SIZE)" rest] sz(1-3) some
      by (simp add: eq dict_tail_def add.assoc)
  qed
  define cc :: byte where "cc = (if d_version d \<ge> 5 then word_of_nat NETC_BIGRAM_CTX_COUNT else word_of_nat NETC_BIGRAM_CTX_COUNT_V4)"
  define m where "m = (if d_version d \<ge> 5 then take 256 (drop 8 (body @ rest)) else default_class_map)"
  have triple: "(if d_version d \<ge> 5 then (take 256 (drop 8 (body @ rest)), word_of_nat NETC_BIGRAM_CTX_COUNT, 8 + 256)
      else (default_class_map, word_of_nat NETC_BIGRAM_CTX_COUNT_V4, 8)) = (m, cc, ?off)"
    by (simp add: m_def cc_def)
  have mc: "m = d_bigram_class_map d" "cc = d_bigram_class_count d"
    using cm st by (auto simp: m_def cc_def dict_storable_def split: if_splits)
  have d: "\<lparr>d_magic = NETC_DICT_MAGIC, d_version = d_version d, d_model_id = d_model_id d, d_ctx_count = d_ctx_count d,
      d_dict_flags = d_dict_flags d, d_tables = d_tables d, d_bigram_tables = d_bigram_tables d,
      d_bigram_class_map = d_bigram_class_map d, d_bigram_class_count = d_bigram_class_count d,
      d_lzp_table = d_lzp_table d, d_checksum = d_checksum d\<rparr> = d"
    using st by (simp add: dict_storable_def)
  show "dict_parse (body @ rest) (d_version d) (d_dict_flags d) (d_checksum d) = Inr d"
    unfolding dict_parse_def triple prod.case Let_def t bt option.case hd dict_wf_rows(3) [OF wf] mc
    using lzp fl d by (cases "d_lzp_table d") simp_all
qed

lemma dict_load_save:
  assumes st: "dict_storable d"
  shows "\<exists>blob. netc_dict_save d = Inr blob \<and> length blob = dict_blob_size_v (d_version d) (d_dict_flags d)
     \<and> netc_dict_load (blob @ extra) = Inr d"
proof -
  obtain body where body: "dict_body d = Inr body" and ck: "d_checksum d = netc_crc32 body"
    using st by (auto simp: dict_storable_def)
  let ?b = "body @ netc_write_u32_le (d_checksum d) @ extra"
  note p = dict_parse_body [OF st body]
  have head: "body = dict_head d @ tables_bytes (d_tables d)
      @ tables_bytes (concat (map (take (dict_classes (d_version d))) (d_bigram_tables d))) @ dict_tail d"
    using dict_body_parts [of d] body st by (simp add: dict_storable_def)
  have fields: "netc_read_u32_le ?b = d_magic d" "?b ! 4 = d_version d" "?b ! 6 = d_ctx_count d" "?b ! 7 = d_dict_flags d"
    by (simp_all add: head dict_head_def) (simp_all add: netc_write_u32_le_def)
  have sz: "dict_blob_size_v (d_version d) (d_dict_flags d) = length body + 4" using p(2) by simp
  have ver: "\<not> (d_version d < 3 \<or> d_version d > NETC_DICT_VERSION)" "d_magic d = NETC_DICT_MAGIC"
    "d_ctx_count d = word_of_nat NETC_CTX_COUNT"
    using st by (auto simp: dict_storable_def)
  have min: "DICT_V3_BLOB_SIZE \<le> length body + 4"
    using sz by (simp add: dict_blob_size_v_def dict_sizes split: if_splits)
  have "netc_dict_load ?b = dict_parse ?b (d_version d) (d_dict_flags d) (d_checksum d)"
    using min ver unfolding netc_dict_load_def fields Let_def sz by (simp add: dict_blob_checksum_def ck)
  then show ?thesis using p body by (simp add: netc_dict_save_def)
qed

text \<open>
  C30.  Saving and loading are inverse: a storable dictionary (version 3 to 5, with or without an LZP
  table) is serialised to a blob of the documented size, and loading that blob, whatever follows it,
  returns the same dictionary with its coding tables rebuilt.
\<close>
theorem dict_save_load_roundtrip:
  assumes "dict_storable d"
  shows "\<exists>blob. netc_dict_save d = Inr blob \<and> length blob = dict_blob_size_v (d_version d) (d_dict_flags d)
     \<and> netc_dict_load (blob @ extra) = Inr d"
  by (rule dict_load_save [OF assms])

text \<open>A dictionary of uniform tables, for the witnesses.\<close>

definition uniform_dict0 :: netc_dict where
  "uniform_dict0 = \<lparr>d_magic = NETC_DICT_MAGIC, d_version = 5, d_model_id = 1, d_ctx_count = 16, d_dict_flags = 0,
     d_tables = replicate 16 (the (netc_tans_build (replicate 256 16))),
     d_bigram_tables = replicate 16 (replicate 8 (the (netc_tans_build (replicate 256 16)))),
     d_bigram_class_map = replicate 256 0, d_bigram_class_count = 8, d_lzp_table = None, d_checksum = 0\<rparr>"

definition uniform_dict :: netc_dict where
  "uniform_dict = uniform_dict0\<lparr>d_checksum := netc_crc32 (projr (dict_body uniform_dict0))\<rparr>"

lemma uniform_built: "built (the (netc_tans_build (replicate 256 16)))"
  using netc_tans_build_present [OF uniform_freq(1,2)] built_buildI [OF _ uniform_freq(1)] by fastforce

lemma uniform_dict_wf: "dict_wf uniform_dict"
  using uniform_built
  by (simp add: dict_wf_def uniform_dict_def uniform_dict0_def dict_classes_def dict_sizes)

lemma dict_body_checksum [simp]: "dict_body (d\<lparr>d_checksum := c\<rparr>) = dict_body d"
  by (simp add: dict_body_def Let_def split: option.split)

lemma uniform_dict_storable: "dict_storable uniform_dict"
proof -
  have body: "dict_body uniform_dict = dict_body uniform_dict0"
    by (simp add: uniform_dict_def)
  have "\<exists>b. dict_body uniform_dict0 = Inr b"
    by (simp add: dict_body_def uniform_dict0_def has_flag_def Let_def)
  then have "\<exists>b. dict_body uniform_dict = Inr b \<and> d_checksum uniform_dict = netc_crc32 b"
    unfolding body by (auto simp: uniform_dict_def)
  then show ?thesis using uniform_dict_wf
    by (simp add: dict_storable_def) (simp add: uniform_dict_def uniform_dict0_def NETC_DICT_VERSION_def has_flag_def dict_sizes)
qed

theorem dict_save_load_roundtrip_witness:
  "\<exists>blob. netc_dict_save uniform_dict = Inr blob \<and> length blob = 73996 \<and> netc_dict_load (blob @ [1, 2]) = Inr uniform_dict"
  using dict_save_load_roundtrip [OF uniform_dict_storable, of "[1, 2]"]
  by (simp add: uniform_dict_def uniform_dict0_def dict_blob_size_v_def dict_sizes has_flag_def)

section \<open>What loading guarantees\<close>

lemma length_read_lzp [simp]: "n \<le> NETC_LZP_HT_SIZE \<Longrightarrow> length (read_lzp b off n) = NETC_LZP_HT_SIZE"
  by (simp add: read_lzp_def)

lemma rows_of_nth:
  assumes "length ts = NETC_CTX_COUNT * n" and "b < NETC_CTX_COUNT" and "c < NETC_BIGRAM_CTX_COUNT" and "n \<le> NETC_BIGRAM_CTX_COUNT"
  shows "length (rows_of n ts ! b) = NETC_BIGRAM_CTX_COUNT
    \<and> (if c < n then rows_of n ts ! b ! c \<in> set ts else rows_of n ts ! b ! c = zero_tans_table)"
proof -
  have "n * b + n \<le> length ts"
    using assms(1,2) mult_le_mono1 [of "Suc b" NETC_CTX_COUNT n] by (simp add: mult.commute)
  then show ?thesis using assms(2-4) by (auto simp: rows_of_def nth_append)
qed

lemma dict_load_facts:
  assumes "netc_dict_load b = Inr d"
  shows "dict_wf d"
    and "netc_read_u32_le (drop (dict_blob_size_v (b ! 4) (b ! 7) - 4) b)
           = netc_crc32 (take (dict_blob_size_v (b ! 4) (b ! 7) - 4) b)"
    and "length (d_bigram_class_map d) = 256"
proof -
  have len: "length b \<ge> dict_blob_size_v (b ! 4) (b ! 7)"
    and ck: "netc_read_u32_le (drop (dict_blob_size_v (b ! 4) (b ! 7) - 4) b)
      = netc_crc32 (take (dict_blob_size_v (b ! 4) (b ! 7) - 4) b)"
    and parse: "dict_parse b (b ! 4) (b ! 7) (netc_read_u32_le (drop (dict_blob_size_v (b ! 4) (b ! 7) - 4) b)) = Inr d"
    using assms by (auto simp: netc_dict_load_def Let_def dict_blob_checksum_def split: if_splits)
  show "netc_read_u32_le (drop (dict_blob_size_v (b ! 4) (b ! 7) - 4) b)
      = netc_crc32 (take (dict_blob_size_v (b ! 4) (b ! 7) - 4) b)" by (rule ck)
  let ?n = "dict_classes (b ! 4)"
  obtain off ts bts where
    t: "read_tables b off NETC_CTX_COUNT = Some ts" "read_tables b (off + DICT_FREQ_BYTES) (NETC_CTX_COUNT * ?n) = Some bts"
    and d: "d_tables d = ts" "d_bigram_tables d = rows_of ?n bts" "d_version d = b ! 4"
    and lzp: "\<forall>tbl. d_lzp_table d = Some tbl \<longrightarrow> length tbl = NETC_LZP_HT_SIZE"
    and cm: "d_bigram_class_map d = (if b ! 4 \<ge> 5 then take 256 (drop 8 b) else default_class_map)"
  proof -
    obtain m cc off where tr: "(if b ! 4 \<ge> 5 then (take 256 (drop 8 b), word_of_nat NETC_BIGRAM_CTX_COUNT, 8 + 256)
        else (default_class_map, word_of_nat NETC_BIGRAM_CTX_COUNT_V4, 8)) = (m, cc :: byte, off :: nat)"
      using prod_cases3 by blast
    note p = parse [unfolded dict_parse_def tr Let_def prod.case]
    obtain ts where ts: "read_tables b off NETC_CTX_COUNT = Some ts" using p by (auto split: option.splits)
    obtain bts where bts: "read_tables b (off + DICT_FREQ_BYTES) (NETC_CTX_COUNT * ?n) = Some bts"
      using p ts by (auto split: option.splits)
    have "m = (if b ! 4 \<ge> 5 then take 256 (drop 8 b) else default_class_map)" using tr by (auto split: if_splits)
    then show ?thesis
      using p ts bts by (intro that [OF ts bts]) (auto simp: not_less split: if_splits)
  qed
  note bt = read_tables_built [OF t(2)]
  have "(\<forall>row \<in> set (d_bigram_tables d). length row = NETC_BIGRAM_CTX_COUNT
      \<and> (\<forall>c < NETC_BIGRAM_CTX_COUNT. if c < ?n then built (row ! c) else row ! c = zero_tans_table))"
  proof
    fix row assume "row \<in> set (d_bigram_tables d)"
    then obtain i where "i < NETC_CTX_COUNT" "row = rows_of ?n bts ! i"
      using d(2) by (auto simp: in_set_conv_nth rows_of_def)
    then show "length row = NETC_BIGRAM_CTX_COUNT
      \<and> (\<forall>c < NETC_BIGRAM_CTX_COUNT. if c < ?n then built (row ! c) else row ! c = zero_tans_table)"
      using rows_of_nth [of bts ?n i] rows_of_nth [of bts ?n i 0] bt dict_classes_le [of "b ! 4"]
      by (auto simp: NETC_BIGRAM_CTX_COUNT_def)
  qed
  then show "dict_wf d"
    using read_tables_built [OF t(1)] d lzp by (auto simp: dict_wf_def rows_of_def split: option.splits)
  show "length (d_bigram_class_map d) = 256"
    using cm len by (auto simp: default_class_map_def dict_blob_size_v_def dict_sizes)
qed

lemma dict_tables_wf:
  assumes "dict_wf d"
  shows "tables_wf (d_tables d)"
    and "class_map_ok (d_bigram_class_map d) \<Longrightarrow> bigram_wf (d_bigram_tables d) (Some (d_bigram_class_map d))"
proof -
  show "tables_wf (d_tables d)"
    using assms built_facts(2) by (auto simp: tables_wf_def dict_wf_def NETC_CTX_COUNT_def)
  have "tans_wf NETC_TANS_TABLE_LOG t" if row: "row \<in> set (d_bigram_tables d)" and t: "t \<in> set row" "tt_valid t" for row t
  proof -
    obtain c where c: "c < NETC_BIGRAM_CTX_COUNT" "t = row ! c" "length row = NETC_BIGRAM_CTX_COUNT"
      using assms row t(1) by (auto simp: dict_wf_def in_set_conv_nth)
    then have "if c < dict_classes (d_version d) then built t else t = zero_tans_table"
      using assms row by (auto simp: dict_wf_def)
    then show ?thesis using t(2) built_facts(2) by (auto simp: zero_tans_table_def split: if_splits)
  qed
  then show "bigram_wf (d_bigram_tables d) (Some (d_bigram_class_map d))" if "class_map_ok (d_bigram_class_map d)"
    using assms that by (auto simp: bigram_wf_def class_map_ok_def dict_wf_def NETC_CTX_COUNT_def NETC_BIGRAM_CTX_COUNT_def)
qed

text \<open>
  C31.  Every dictionary that loads carries the CRC-32 of its blob and has only tables that the builder
  accepted: sixteen valid unigram tables, and bigram tables that are valid for the classes of the format
  version and cleared for the others.
\<close>
theorem dict_load_sound:
  assumes "netc_dict_load b = Inr d"
  shows "dict_wf d \<and> tables_wf (d_tables d) \<and> (\<forall>t \<in> set (d_tables d). tt_valid t)
     \<and> netc_read_u32_le (drop (dict_blob_size_v (b ! 4) (b ! 7) - 4) b)
         = netc_crc32 (take (dict_blob_size_v (b ! 4) (b ! 7) - 4) b)"
  using dict_load_facts(1,2) [OF assms] dict_tables_wf(1) [of d] built_facts(3) by (auto simp: dict_wf_def)

theorem dict_load_sound_witness:
  "\<exists>b. netc_dict_load b = Inr uniform_dict \<and> dict_wf uniform_dict \<and> (\<forall>t \<in> set (d_tables uniform_dict). tt_valid t)"
proof -
  obtain b where b: "netc_dict_load b = Inr uniform_dict" using dict_load_save [OF uniform_dict_storable] by blast
  show ?thesis using dict_load_sound [OF b] b by blast
qed

text \<open>A dictionary like the uniform one, with class 200 for every byte value.\<close>

definition stray_class_dict0 :: netc_dict where
  "stray_class_dict0 = uniform_dict0\<lparr>d_bigram_class_map := replicate 256 200\<rparr>"

definition stray_class_dict :: netc_dict where
  "stray_class_dict = stray_class_dict0\<lparr>d_checksum := netc_crc32 (projr (dict_body stray_class_dict0))\<rparr>"

lemma stray_class_dict_storable: "dict_storable stray_class_dict"
proof -
  have "\<exists>b. dict_body stray_class_dict0 = Inr b"
    by (simp add: dict_body_def stray_class_dict0_def uniform_dict0_def has_flag_def Let_def)
  then have "\<exists>b. dict_body stray_class_dict = Inr b \<and> d_checksum stray_class_dict = netc_crc32 b"
    by (auto simp: stray_class_dict_def)
  moreover have "dict_wf stray_class_dict"
    using uniform_built
    by (simp add: dict_wf_def stray_class_dict_def stray_class_dict0_def uniform_dict0_def dict_classes_def dict_sizes)
  ultimately show ?thesis
    by (simp add: dict_storable_def)
       (simp add: stray_class_dict_def stray_class_dict0_def uniform_dict0_def NETC_DICT_VERSION_def has_flag_def dict_sizes)
qed

text \<open>
   The class map of a blob is not validated: there is a blob with a correct checksum that loads,
  and with the loaded dictionary the bigram coder indexes the eight class tables of a bucket out of
  range on every packet.
\<close>
theorem dict_load_class_map_unchecked:
  "\<exists>b d. netc_dict_load b = Inr d \<and> \<not> class_map_ok (d_bigram_class_map d)
     \<and> netc_tans_encode_pctx_bigram (d_bigram_tables d) (d_tables d) (Some (d_bigram_class_map d))
         (src @ [x]) (length src + 1) w NETC_TANS_TABLE_SIZE = Inl C_Undefined"
proof -
  obtain b where b: "netc_dict_load b = Inr stray_class_dict" using dict_load_save [OF stray_class_dict_storable] by blast
  have map: "d_bigram_class_map stray_class_dict = replicate 256 200"
    by (simp add: stray_class_dict_def stray_class_dict0_def)
  have bt: "d_bigram_tables stray_class_dict = replicate 16 (replicate 8 (the (netc_tans_build (replicate 256 16))))"
    by (simp add: stray_class_dict_def stray_class_dict0_def uniform_dict0_def)
  have "bigram_select (d_bigram_tables stray_class_dict) uts (Some (d_bigram_class_map stray_class_dict)) i p = None" for uts i p
    by (simp add: bigram_select_def netc_bigram_class_def map bt nth_opt_def)
  then show ?thesis
    using b by (intro exI [of _ b] exI [of _ stray_class_dict])
      (simp add: netc_tans_encode_pctx_bigram_def class_map_ok_def map NETC_BIGRAM_CTX_COUNT_def)
qed

end
