(* ===== verification/Netc_Freq.thy ===== *)
theory Netc_Freq
  imports Netc_Tans_Table
begin

text \<open>
  Frequency tables: the normalisation of counts to the table size (\<open>freq_normalize\<close> of
  \<open>src/src/core/netc_dict.c\<close> and its copy in \<open>src/src/algo/netc_adaptive.c\<close>) and the
  rescaling of a 12-bit table to 10 bits (\<open>netc_freq_rescale_12_to_10\<close> of
  \<open>src/src/algo/netc_tans.c\<close>).  Counts are \<open>uint64_t\<close> values, with the wrap of their product
  written out.
\<close>

section \<open>Normalisation\<close>

definition norm_bonus :: "nat list \<Rightarrow> nat \<Rightarrow> nat \<Rightarrow> nat" where
  "norm_bonus raw tot s =
     (if raw ! s = 0 then 0
      else min (raw ! s * (NETC_TANS_TABLE_SIZE - NETC_TANS_SYMBOLS) mod 2 ^ 64 div tot) 0xFFFE)"

text \<open>One iteration of the loop of phase 2, on \<open>out\<close>, \<open>table_sum\<close>, \<open>max_sym\<close> and \<open>max_val\<close>.\<close>

definition norm_step :: "nat list \<Rightarrow> nat \<Rightarrow> nat \<Rightarrow> netc_freq_table \<times> nat \<times> nat \<times> nat
    \<Rightarrow> netc_freq_table \<times> nat \<times> nat \<times> nat" where
  "norm_step raw tot s = (\<lambda>(out, table_sum, max_sym, max_val).
     if raw ! s = 0 then (out, table_sum, max_sym, max_val)
     else let bonus = norm_bonus raw tot s;
              out = out[s := word_of_nat (1 + bonus)];
              table_sum = (table_sum + bonus) mod 2 ^ 32
          in if unat (out ! s) > max_val then (out, table_sum, s, unat (out ! s))
             else (out, table_sum, max_sym, max_val))"

text \<open>The fallback of the correction: take one from every entry above 1 until the excess is gone.\<close>

definition norm_trim :: "nat \<Rightarrow> netc_freq_table \<Rightarrow> netc_freq_table" where
  "norm_trim excess out =
     fst (fold (\<lambda>s (out, excess). if excess > 0 \<and> unat (out ! s) > 1 then (out[s := out ! s - 1], excess - 1)
                                  else (out, excess)) [0..<NETC_TANS_SYMBOLS] (out, excess))"

definition freq_normalize :: "nat list \<Rightarrow> nat \<Rightarrow> netc_freq_table" where
  "freq_normalize raw tot =
     (if tot = 0 then replicate NETC_TANS_SYMBOLS (word_of_nat (NETC_TANS_TABLE_SIZE div NETC_TANS_SYMBOLS))
      else
        let (out, table_sum, max_sym, max_val) =
              fold (norm_step raw tot) [0..<NETC_TANS_SYMBOLS]
                (replicate NETC_TANS_SYMBOLS 1, NETC_TANS_SYMBOLS, 0, 1)
        in if table_sum < NETC_TANS_TABLE_SIZE
           then out[max_sym := word_of_nat (unat (out ! max_sym) + (NETC_TANS_TABLE_SIZE - table_sum))]
           else if table_sum > NETC_TANS_TABLE_SIZE
           then let excess = table_sum - NETC_TANS_TABLE_SIZE
                in if unat (out ! max_sym) > excess mod 2 ^ 16 + 1
                   then out[max_sym := out ! max_sym - word_of_nat excess]
                   else norm_trim excess out
           else out)"

text \<open>The adaptive tables use the same algorithm on blended counts.\<close>

definition freq_normalize_adaptive :: "nat list \<Rightarrow> nat \<Rightarrow> netc_freq_table" where
  "freq_normalize_adaptive blended tot = freq_normalize blended tot"

section \<open>Rescaling to 10 bits\<close>

definition rescale_entry :: "u16 \<Rightarrow> nat" where
  "rescale_entry f =
     (if f = 0 then 0
      else let scaled = (unat f * NETC_TANS_TABLE_SIZE_10 + NETC_TANS_TABLE_SIZE div 2) div NETC_TANS_TABLE_SIZE
           in if scaled = 0 then 1 else scaled)"

text \<open>The first symbol with the largest frequency, if any frequency is not zero.\<close>

definition rescale_largest :: "netc_freq_table \<Rightarrow> nat option" where
  "rescale_largest freq12 =
     snd (fold (\<lambda>s (mx, best). if unat (freq12 ! s) > mx then (unat (freq12 ! s), Some s) else (mx, best))
       [0..<NETC_TANS_SYMBOLS] (0, None))"

definition rescale_redistribute :: "nat \<Rightarrow> netc_freq_table \<Rightarrow> int \<Rightarrow> netc_freq_table" where
  "rescale_redistribute largest f10 diff =
     fst (fold (\<lambda>s (f10, diff).
            if diff = 0 \<or> s = largest \<or> f10 ! s = 0 then (f10, diff)
            else if diff > 0 then (f10[s := f10 ! s + 1], diff - 1)
            else if unat (f10 ! s) > 1 then (f10[s := f10 ! s - 1], diff + 1)
            else (f10, diff)) [0..<NETC_TANS_SYMBOLS] (f10, diff))"

definition netc_freq_rescale_12_to_10 :: "netc_freq_table \<Rightarrow> netc_freq_table option" where
  "netc_freq_rescale_12_to_10 freq12 =
     (if freq_total freq12 \<noteq> NETC_TANS_TABLE_SIZE then None
      else let f10 = map (\<lambda>f. word_of_nat (rescale_entry f)) freq12;
               total10 = sum_list (map rescale_entry freq12)
           in case rescale_largest freq12 of
                None \<Rightarrow> None
              | Some largest \<Rightarrow>
                  let diff = int NETC_TANS_TABLE_SIZE_10 - int total10;
                      new_freq = int (unat (f10 ! largest)) + diff
                  in if new_freq < 1
                     then let f10 = f10[largest := 1];
                              diff = int NETC_TANS_TABLE_SIZE_10 - int (freq_total f10)
                          in Some (rescale_redistribute largest f10 diff)
                     else Some (f10[largest := word_of_int new_freq]))"

section \<open>Normalisation is exact\<close>

lemma norm_fold:
  assumes "tot \<noteq> 0" and "n \<le> NETC_TANS_SYMBOLS" and "(\<Sum>s<n. norm_bonus raw tot s) \<le> 3840"
  shows "\<exists>ms mv. ms < NETC_TANS_SYMBOLS \<and>
     fold (norm_step raw tot) [0..<n] (replicate NETC_TANS_SYMBOLS 1, NETC_TANS_SYMBOLS, 0, 1)
     = (map (\<lambda>s. if s < n then word_of_nat (1 + norm_bonus raw tot s) else 1) [0..<NETC_TANS_SYMBOLS],
        NETC_TANS_SYMBOLS + (\<Sum>s<n. norm_bonus raw tot s), ms, mv)"
  using assms(2,3)
proof (induction n)
  case 0
  have "replicate NETC_TANS_SYMBOLS (1 :: u16)
      = map (\<lambda>s. if s < 0 then word_of_nat (1 + norm_bonus raw tot s) else 1) [0..<NETC_TANS_SYMBOLS]"
    by (simp add: map_replicate_const)
  then show ?case by (simp add: NETC_TANS_SYMBOLS_def)
next
  case (Suc n)
  let ?out = "\<lambda>n. map (\<lambda>s. if s < n then word_of_nat (1 + norm_bonus raw tot s) else (1 :: u16)) [0..<NETC_TANS_SYMBOLS]"
  let ?sum = "\<lambda>n. \<Sum>s<n. norm_bonus raw tot s"
  have le: "?sum n \<le> 3840" "n < NETC_TANS_SYMBOLS" using Suc.prems by simp_all
  obtain ms mv where IH: "ms < NETC_TANS_SYMBOLS"
    "fold (norm_step raw tot) [0..<n] (replicate NETC_TANS_SYMBOLS 1, NETC_TANS_SYMBOLS, 0, 1)
      = (?out n, NETC_TANS_SYMBOLS + ?sum n, ms, mv)"
    using Suc.IH le by auto
  have upd: "(?out n)[n := word_of_nat (1 + norm_bonus raw tot n)] = ?out (Suc n)"
    using le(2) by (intro nth_equalityI) (auto simp: nth_list_update less_Suc_eq)
  have zero: "?out (Suc n) = ?out n" if "norm_bonus raw tot n = 0"
    using that by (intro map_cong) (auto simp: less_Suc_eq)
  have s: "NETC_TANS_SYMBOLS + ?sum (Suc n) < 2 ^ 32" using Suc.prems(2) by (simp add: NETC_TANS_SYMBOLS_def)
  have "\<exists>ms' mv'. ms' < NETC_TANS_SYMBOLS \<and> norm_step raw tot n (?out n, NETC_TANS_SYMBOLS + ?sum n, ms, mv)
      = (?out (Suc n), NETC_TANS_SYMBOLS + ?sum (Suc n), ms', mv')"
  proof (cases "raw ! n = 0")
    case True
    then have "norm_bonus raw tot n = 0" by (simp add: norm_bonus_def)
    then show ?thesis using True IH(1) zero by (simp add: norm_step_def)
  next
    case False
    then show ?thesis using IH(1) le(2) s upd
      by (simp add: norm_step_def Let_def add.assoc del: of_nat_add of_nat_Suc)
  qed
  then show ?case using IH(2) by auto
qed

lemma sum_floor_shares:
  assumes "tot = (\<Sum>s<n. r s)" and "0 < (tot :: nat)"
  shows "(\<Sum>s<n. r s * k div tot) \<le> k"
proof -
  have "(\<Sum>s<n. r s * k div tot) * tot = (\<Sum>s<n. r s * k div tot * tot)" by (simp add: sum_distrib_right)
  also have "\<dots> \<le> (\<Sum>s<n. r s * k)" by (intro sum_mono) simp
  also have "\<dots> = k * tot" using assms(1) by (simp add: sum_distrib_left [symmetric] mult.commute [of _ k])
  finally show ?thesis using assms(2) by simp
qed

lemma freq_total_index: "length freq = n \<Longrightarrow> freq_total freq = (\<Sum>s<n. unat (freq ! s))"
  by (auto simp: freq_total_def sum_list_sum_nth atLeast0LessThan)

lemma freq_total_ge: "i < length freq \<Longrightarrow> unat (freq ! i) \<le> freq_total freq"
  unfolding freq_total_def by (rule elem_le_sum_list [of i "map unat freq", simplified]) simp

lemma freq_total_update:
  assumes "i < length freq"
  shows "freq_total (freq[i := v]) = freq_total freq - unat (freq ! i) + unat v"
  using assms sum_list_update [of i "map unat freq" "unat v"] freq_total_ge [OF assms]
  by (simp add: freq_total_def map_update)

lemma norm_bonus_sum:
  assumes "length raw = NETC_TANS_SYMBOLS" and "tot = sum_list raw" and "0 < tot" and "tot < 2 ^ 52"
  shows "(\<Sum>s<NETC_TANS_SYMBOLS. norm_bonus raw tot s) \<le> 3840"
proof -
  have tot: "tot = (\<Sum>s<NETC_TANS_SYMBOLS. raw ! s)"
    using assms(1,2) by (simp add: sum_list_sum_nth atLeast0LessThan)
  have "norm_bonus raw tot s \<le> raw ! s * 3840 div tot" for s
  proof -
    have "norm_bonus raw tot s \<le> raw ! s * 3840 mod 2 ^ 64 div tot"
      by (simp add: norm_bonus_def NETC_TANS_SYMBOLS_def tans_consts)
    also have "\<dots> \<le> raw ! s * 3840 div tot" by (intro div_le_mono) simp
    finally show ?thesis .
  qed
  then have "(\<Sum>s<NETC_TANS_SYMBOLS. norm_bonus raw tot s) \<le> (\<Sum>s<NETC_TANS_SYMBOLS. raw ! s * 3840 div tot)"
    by (intro sum_mono) simp
  also have "\<dots> \<le> 3840" by (rule sum_floor_shares [OF tot assms(3)])
  finally show ?thesis .
qed

lemma freq_normalize_ok:
  assumes len: "length raw = NETC_TANS_SYMBOLS" and tot: "tot = sum_list raw" and lim: "tot < 2 ^ 52"
  shows "length (freq_normalize raw tot) = NETC_TANS_SYMBOLS"
    and "freq_total (freq_normalize raw tot) = NETC_TANS_TABLE_SIZE"
    and "\<forall>f \<in> set (freq_normalize raw tot). f \<noteq> 0"
proof -
  have main: "length (freq_normalize raw tot) = NETC_TANS_SYMBOLS
      \<and> freq_total (freq_normalize raw tot) = NETC_TANS_TABLE_SIZE
      \<and> (\<forall>f \<in> set (freq_normalize raw tot). f \<noteq> 0)"
  proof (cases "tot = 0")
    case True
    then show ?thesis
      by (simp add: freq_normalize_def freq_total_def NETC_TANS_SYMBOLS_def tans_consts sum_list_replicate)
  next
    case False
    let ?b = "norm_bonus raw tot"
    define out where "out = map (\<lambda>s. word_of_nat (1 + ?b s) :: u16) [0..<NETC_TANS_SYMBOLS]"
    have lo [simp]: "length out = NETC_TANS_SYMBOLS" by (simp add: out_def)
    let ?sum = "\<Sum>s<NETC_TANS_SYMBOLS. ?b s"
    have sum: "?sum \<le> 3840" using norm_bonus_sum [OF len tot _ lim] False by simp
    have "?b s \<le> ?sum" if "s < NETC_TANS_SYMBOLS" for s
      using that by (intro member_le_sum) auto
    then have b: "1 + ?b s < 2 ^ 12" if "s < NETC_TANS_SYMBOLS" for s using that sum by fastforce
    have u: "unat (out ! s) = 1 + ?b s" if "s < NETC_TANS_SYMBOLS" for s
      using b [OF that] that by (simp add: out_def unat_of_nat_u16 del: of_nat_add of_nat_Suc)
    have ft: "freq_total out = NETC_TANS_SYMBOLS + ?sum"
    proof -
      have "freq_total out = (\<Sum>s<NETC_TANS_SYMBOLS. unat (out ! s))" by (rule freq_total_index) simp
      also have "\<dots> = (\<Sum>s<NETC_TANS_SYMBOLS. 1 + ?b s)" by (rule sum.cong) (use u in auto)
      finally show ?thesis by (simp only: sum.distrib) simp
    qed
    obtain ms mv where ms: "ms < NETC_TANS_SYMBOLS" and
      fold: "fold (norm_step raw tot) [0..<NETC_TANS_SYMBOLS] (replicate NETC_TANS_SYMBOLS 1, NETC_TANS_SYMBOLS, 0, 1)
        = (map (\<lambda>s. if s < NETC_TANS_SYMBOLS then word_of_nat (1 + ?b s) else 1) [0..<NETC_TANS_SYMBOLS],
           NETC_TANS_SYMBOLS + ?sum, ms, mv)"
      using norm_fold [OF False order_refl sum] by blast
    have "map (\<lambda>s. if s < NETC_TANS_SYMBOLS then word_of_nat (1 + ?b s) else 1) [0..<NETC_TANS_SYMBOLS] = out"
      by (simp add: out_def)
    note fold = fold [unfolded this]
    have nz: "\<forall>f \<in> set out. f \<noteq> 0"
    proof
      fix f assume "f \<in> set out"
      then obtain s where "s < NETC_TANS_SYMBOLS" "f = out ! s" by (auto simp: in_set_conv_nth)
      then show "f \<noteq> 0" using u [of s] by (metis add_is_0 one_neq_zero unat_0)
    qed
    let ?d = "NETC_TANS_TABLE_SIZE - (NETC_TANS_SYMBOLS + ?sum)"
    define v where "v = (word_of_nat (unat (out ! ms) + ?d) :: u16)"
    have v: "unat v = unat (out ! ms) + ?d"
      unfolding v_def using u [OF ms] b [OF ms]
      by (intro unat_of_nat_u16) (simp add: NETC_TANS_SYMBOLS_def tans_consts)
    then have v0: "v \<noteq> 0" using u [OF ms] by (metis add_is_0 one_neq_zero unat_0)
    have "freq_total (out[ms := v]) = NETC_TANS_TABLE_SIZE"
      using freq_total_update [of ms out v] ft v sum ms freq_total_ge [of ms out]
      by (simp add: NETC_TANS_SYMBOLS_def tans_consts)
    moreover have "\<forall>f \<in> set (out[ms := v]). f \<noteq> 0"
      using nz v0 set_update_subset_insert [of out ms v] by auto
    moreover have "freq_normalize raw tot = (if NETC_TANS_SYMBOLS + ?sum < NETC_TANS_TABLE_SIZE then out[ms := v] else out)"
      using False sum unfolding freq_normalize_def fold v_def by (simp add: NETC_TANS_SYMBOLS_def tans_consts)
    ultimately show ?thesis
      using nz ft sum by (simp add: NETC_TANS_SYMBOLS_def tans_consts)
  qed
  then show "length (freq_normalize raw tot) = NETC_TANS_SYMBOLS"
    and "freq_total (freq_normalize raw tot) = NETC_TANS_TABLE_SIZE"
    and "\<forall>f \<in> set (freq_normalize raw tot). f \<noteq> 0" by blast+
qed

text \<open>
  C29.  Normalisation is exact: for every histogram of 256 counts (below \<open>2 ^ 52\<close> in sum, so that
  the product fits 64 bits) the normalised frequencies sum to 4096 and none is zero, so that the table
  builder accepts them and every byte value can be encoded with the table.
\<close>
theorem freq_normalize_exact:
  assumes "length raw = NETC_TANS_SYMBOLS" and "sum_list raw < 2 ^ 52"
  shows "\<exists>t. netc_tans_build (freq_normalize raw (sum_list raw)) = Some t \<and> tans_wf NETC_TANS_TABLE_LOG t
       \<and> (\<forall>s < NETC_TANS_SYMBOLS. tt_freq t ! s \<noteq> 0)"
proof -
  note n = freq_normalize_ok [OF assms(1) refl assms(2)]
  obtain t where t: "netc_tans_build (freq_normalize raw (sum_list raw)) = Some t"
    "tans_wf NETC_TANS_TABLE_LOG t" "tt_freq t = freq_normalize raw (sum_list raw)"
    using tans_build_wf [of NETC_TANS_SPREAD_STEP NETC_TANS_TABLE_LOG "freq_normalize raw (sum_list raw)"] n(1,2)
    by (auto simp: netc_tans_build_def tans_consts)
  moreover have "\<forall>s < NETC_TANS_SYMBOLS. tt_freq t ! s \<noteq> 0"
    using n(1,3) t(3) by (auto simp: nth_mem)
  ultimately show ?thesis by blast
qed

theorem freq_normalize_exact_witness:
  "\<exists>t. netc_tans_build (freq_normalize (replicate 256 3) 768) = Some t \<and> tans_wf NETC_TANS_TABLE_LOG t
     \<and> (\<forall>s < NETC_TANS_SYMBOLS. tt_freq t ! s \<noteq> 0)"
  using freq_normalize_exact [of "replicate 256 3"] by (simp add: NETC_TANS_SYMBOLS_def sum_list_replicate)

section \<open>Rescaling\<close>

lemma rescale_entry_bounds:
  "rescale_entry f = 0 \<longleftrightarrow> f = 0" "rescale_entry f < 2 ^ 15"
proof -
  have "unat f < 2 ^ 16" using unsigned_less [of f, where 'a = nat] by simp
  then have "(unat f * 1024 + 2048) div 4096 < 2 ^ 15" by simp
  then show "rescale_entry f = 0 \<longleftrightarrow> f = 0" "rescale_entry f < 2 ^ 15"
    by (auto simp: rescale_entry_def Let_def tans_consts)
qed

lemma rescale_largest_Some:
  assumes "rescale_largest freq = Some l" shows "l < NETC_TANS_SYMBOLS \<and> freq ! l \<noteq> 0"
proof -
  let ?f = "\<lambda>s (mx, best). if unat (freq ! s) > mx then (unat (freq ! s), Some s) else (mx, best)"
  have "snd (fold ?f [0..<n] (0, None)) = Some l \<Longrightarrow> l < n \<and> freq ! l \<noteq> 0" for n
  proof (induction n arbitrary: l)
    case (Suc n)
    obtain mx best where fb: "fold ?f [0..<n] (0, None) = (mx, best)" by fastforce
    then show ?case using Suc by (fastforce split: if_splits)
  qed simp
  then show ?thesis using assms by (simp add: rescale_largest_def)
qed

lemma rescale_largest_exists:
  assumes "s < NETC_TANS_SYMBOLS" and "freq ! s \<noteq> 0" shows "\<exists>l. rescale_largest freq = Some l"
proof -
  let ?f = "\<lambda>s (mx, best). if unat (freq ! s) > mx then (unat (freq ! s), Some s) else (mx, best)"
  have "snd (fold ?f [0..<n] (0, None)) = None \<Longrightarrow> fst (fold ?f [0..<n] (0, None)) = 0 \<and> (\<forall>s<n. freq ! s = 0)" for n
  proof (induction n)
    case (Suc n)
    obtain mx best where fb: "fold ?f [0..<n] (0, None) = (mx, best)" by fastforce
    then show ?case using Suc by (auto simp: less_Suc_eq unat_eq_zero split: if_splits)
  qed simp
  then show ?thesis using assms by (cases "rescale_largest freq") (auto simp: rescale_largest_def)
qed

lemma rescale_defined:
  assumes "length freq12 = NETC_TANS_SYMBOLS" and "freq_total freq12 = NETC_TANS_TABLE_SIZE"
  shows "\<exists>freq10. netc_freq_rescale_12_to_10 freq12 = Some freq10"
proof -
  have "\<exists>s < NETC_TANS_SYMBOLS. freq12 ! s \<noteq> 0"
  proof (rule ccontr)
    assume "\<not> ?thesis"
    then have "freq_total freq12 = 0" using assms(1) by (simp add: freq_total_index)
    then show False using assms(2) by (simp add: tans_consts)
  qed
  then obtain l where "rescale_largest freq12 = Some l" using rescale_largest_exists by blast
  then show ?thesis using assms(2) unfolding netc_freq_rescale_12_to_10_def Let_def by simp
qed

lemma u16_suc_nonzero: "unat x < 2 ^ 15 \<Longrightarrow> x + 1 \<noteq> (0 :: u16)"
proof
  assume x: "unat x < 2 ^ 15" and "x + 1 = 0"
  then have "x = - 1" by (simp only: eq_neg_iff_add_eq_0)
  then show False using x by (simp add: unsigned_minus_1_eq_mask mask_eq_exp_minus_1)
qed

lemma u16_pred: "unat x > 1 \<Longrightarrow> unat (x - 1 :: u16) = unat x - 1"
  by (metis less_one not_less_zero unat_minus_one unsigned_0)

text \<open>
  The redistribution keeps the symbols that occur, and takes at most one from each entry above 1.
\<close>

lemma rescale_redistribute_keeps:
  assumes f: "\<And>s. s < NETC_TANS_SYMBOLS \<Longrightarrow> unat (f10 ! s) < 2 ^ 15" and len: "length f10 = NETC_TANS_SYMBOLS"
  shows "length (rescale_redistribute largest f10 diff) = NETC_TANS_SYMBOLS"
    and "\<forall>s < NETC_TANS_SYMBOLS. rescale_redistribute largest f10 diff ! s = 0 \<longleftrightarrow> f10 ! s = 0"
    and "freq_total f10 \<le> freq_total (rescale_redistribute largest f10 diff)
           + card {s. s < NETC_TANS_SYMBOLS \<and> unat (f10 ! s) > 1}"
proof -
  let ?g = "\<lambda>s (g, diff :: int).
            if diff = 0 \<or> s = largest \<or> g ! s = 0 then (g, diff)
            else if diff > 0 then (g[s := g ! s + 1], diff - 1)
            else if unat (g ! s) > 1 then (g[s := g ! s - 1], diff + 1)
            else (g, diff)"
  let ?I = "\<lambda>n g. length g = NETC_TANS_SYMBOLS \<and> (\<forall>s < NETC_TANS_SYMBOLS. g ! s = 0 \<longleftrightarrow> f10 ! s = 0)
     \<and> (\<forall>s < NETC_TANS_SYMBOLS. n \<le> s \<longrightarrow> g ! s = f10 ! s)
     \<and> freq_total f10 \<le> freq_total g + card {s. s < n \<and> unat (f10 ! s) > 1}"
  have inv: "?I n (fst (fold ?g [0..<n] (f10, diff)))" if "n \<le> NETC_TANS_SYMBOLS" for n
    using that
  proof (induction n)
    case (Suc n)
    obtain g d where g: "fold ?g [0..<n] (f10, diff) = (g, d)" by fastforce
    have I: "?I n g" and n: "n < NETC_TANS_SYMBOLS" using Suc g by simp_all
    have gn: "g ! n = f10 ! n" "unat (g ! n) < 2 ^ 15" using I n f by auto
    have card: "card {s. s < n \<and> unat (f10 ! s) > 1} \<le> card {s. s < Suc n \<and> unat (f10 ! s) > 1}"
      by (intro card_mono) auto
    have same: "?I (Suc n) g" using I card by (meson Suc_leD add_left_mono order_trans)
    have inc: "?I (Suc n) (g[n := g ! n + 1])" if "g ! n \<noteq> 0"
    proof -
      have "unat (g ! n) \<le> unat (g ! n + 1)"
        using gn(2) u16_suc_nonzero [of "g ! n"] by (metis Suc_n_not_le_n add.commute nat_le_linear unatSuc)
      then have "freq_total g \<le> freq_total (g[n := g ! n + 1])"
        using freq_total_update [of n g "g ! n + 1"] freq_total_ge [of n g] I n by simp
      then show ?thesis using I n gn u16_suc_nonzero [of "g ! n"] that card
        by (auto simp: nth_list_update intro: order_trans)
    qed
    have dec: "?I (Suc n) (g[n := g ! n - 1])" if u: "unat (g ! n) > 1"
    proof -
      have "{s. s < Suc n \<and> unat (f10 ! s) > 1} = insert n {s. s < n \<and> unat (f10 ! s) > 1}"
        using u gn(1) by (auto simp: less_Suc_eq)
      then have c: "card {s. s < Suc n \<and> unat (f10 ! s) > 1} = Suc (card {s. s < n \<and> unat (f10 ! s) > 1})" by simp
      have nz: "g ! n - 1 \<noteq> 0" "g ! n \<noteq> 0" using u16_pred [OF u] u by (auto simp: unat_eq_zero [symmetric])
      have "freq_total g \<le> Suc (freq_total (g[n := g ! n - 1]))"
        using freq_total_update [of n g "g ! n - 1"] freq_total_ge [of n g] I n u16_pred [OF u] u by simp
      then show ?thesis using I n gn nz c by (auto simp: nth_list_update)
    qed
    show ?case using same inc dec g by simp
  qed (simp add: len)
  then have "?I NETC_TANS_SYMBOLS (rescale_redistribute largest f10 diff)"
    unfolding rescale_redistribute_def by blast
  then show "length (rescale_redistribute largest f10 diff) = NETC_TANS_SYMBOLS"
    and "\<forall>s < NETC_TANS_SYMBOLS. rescale_redistribute largest f10 diff ! s = 0 \<longleftrightarrow> f10 ! s = 0"
    and "freq_total f10 \<le> freq_total (rescale_redistribute largest f10 diff)
           + card {s. s < NETC_TANS_SYMBOLS \<and> unat (f10 ! s) > 1}"
    by blast+
qed

lemma rescaled_nth:
  assumes "s < length freq12"
  shows "unat (map (\<lambda>f. word_of_nat (rescale_entry f) :: u16) freq12 ! s) = rescale_entry (freq12 ! s)"
  using assms rescale_entry_bounds(2) [of "freq12 ! s"] by (simp add: unat_of_nat_u16)

lemma rescaled_zero_iff:
  assumes "s < length freq12"
  shows "map (\<lambda>f. word_of_nat (rescale_entry f) :: u16) freq12 ! s = 0 \<longleftrightarrow> freq12 ! s = 0"
  using rescaled_nth [OF assms] rescale_entry_bounds(1) [of "freq12 ! s"] unat_eq_zero by metis

lemma rescaled_total:
  "freq_total (map (\<lambda>f. word_of_nat (rescale_entry f) :: u16) freq12) = sum_list (map rescale_entry freq12)"
proof -
  have "map unat (map (\<lambda>f. word_of_nat (rescale_entry f) :: u16) freq12) = map rescale_entry freq12"
  proof (rule nth_equalityI)
    fix i assume "i < length (map unat (map (\<lambda>f. word_of_nat (rescale_entry f) :: u16) freq12))"
    then show "map unat (map (\<lambda>f. word_of_nat (rescale_entry f) :: u16) freq12) ! i = map rescale_entry freq12 ! i"
      using rescaled_nth [of i freq12] by simp
  qed simp
  then show ?thesis by (simp only: freq_total_def)
qed

text \<open>
   The rescaled table has 256 entries and gives a frequency to exactly the symbols that the 12-bit
  table contains; when the largest symbol can absorb the rounding error, the frequencies sum to 1024,
  so that the 10-bit builder accepts the table.
\<close>
theorem freq_rescale_support:
  assumes "length freq12 = NETC_TANS_SYMBOLS" and "netc_freq_rescale_12_to_10 freq12 = Some freq10"
  shows "length freq10 = NETC_TANS_SYMBOLS
       \<and> (\<forall>s < NETC_TANS_SYMBOLS. freq10 ! s = 0 \<longleftrightarrow> freq12 ! s = 0)
       \<and> ((\<exists>l. rescale_largest freq12 = Some l
             \<and> sum_list (map rescale_entry freq12) < NETC_TANS_TABLE_SIZE_10 + rescale_entry (freq12 ! l))
          \<longrightarrow> freq_total freq10 = NETC_TANS_TABLE_SIZE_10)"
proof -
  define f where "f = map (\<lambda>f. word_of_nat (rescale_entry f) :: u16) freq12"
  define tot where "tot = sum_list (map rescale_entry freq12)"
  have lf: "length f = NETC_TANS_SYMBOLS" by (simp add: f_def assms(1))
  have z: "f ! s = 0 \<longleftrightarrow> freq12 ! s = 0" if "s < NETC_TANS_SYMBOLS" for s
    using rescaled_zero_iff [of s freq12] that assms(1) by (simp add: f_def)
  have u: "unat (f ! s) = rescale_entry (freq12 ! s)" if "s < NETC_TANS_SYMBOLS" for s
    using rescaled_nth [of s freq12] that assms(1) by (simp add: f_def)
  obtain l where l: "rescale_largest freq12 = Some l" "l < NETC_TANS_SYMBOLS" "freq12 ! l \<noteq> 0"
    using assms(2) rescale_largest_Some [of freq12]
    by (cases "rescale_largest freq12") (auto simp: netc_freq_rescale_12_to_10_def Let_def split: if_splits)
  define nf where "nf = int (unat (f ! l)) + (int NETC_TANS_TABLE_SIZE_10 - int tot)"
  have r: "Some freq10 = (if nf < 1 then Some (rescale_redistribute l (f[l := 1])
              (int NETC_TANS_TABLE_SIZE_10 - int (freq_total (f[l := 1]))))
            else Some (f[l := word_of_int nf]))"
    using assms(2) l(1) unfolding nf_def f_def tot_def netc_freq_rescale_12_to_10_def Let_def
    by (simp split: if_splits)
  show ?thesis
  proof (cases "nf < 1")
    case True
    have small: "unat (f[l := 1] ! s) < 2 ^ 15" if "s < NETC_TANS_SYMBOLS" for s
      using that u [OF that] rescale_entry_bounds(2) [of "freq12 ! s"] lf
      by (cases "s = l") (simp_all add: nth_list_update)
    have "length (f[l := 1]) = NETC_TANS_SYMBOLS" using lf by simp
    note k = rescale_redistribute_keeps [OF small this, of l]
    have "f[l := 1] ! s = 0 \<longleftrightarrow> freq12 ! s = 0" if "s < NETC_TANS_SYMBOLS" for s
      using that z [OF that] l lf by (auto simp: nth_list_update)
    moreover have "\<not> tot < NETC_TANS_TABLE_SIZE_10 + rescale_entry (freq12 ! l)"
      using True u [OF l(2)] by (simp add: nf_def)
    ultimately show ?thesis using r True k(1,2) l(1) by (auto simp: tot_def)
  next
    case False
    have "f ! l \<noteq> 0" using z l by simp
    have le: "unat (f ! l) \<le> tot"
      using freq_total_ge [of l f] l(2) lf rescaled_total [of freq12] by (simp add: f_def tot_def)
    then have "int (unat (f ! l)) \<le> int tot" by (rule zle_int [THEN iffD2])
    then have "nf \<le> 1024" unfolding nf_def by (simp add: tans_consts del: of_nat_unat)
    then have v: "unat (word_of_int nf :: u16) = nat nf"
      using False by (simp add: unsigned_of_int take_bit_eq_mod)
    then have v0: "(word_of_int nf :: u16) \<noteq> 0" using False by (auto simp: unat_eq_zero [symmetric])
    have ft: "freq_total f = tot" using rescaled_total [of freq12] by (simp add: f_def tot_def)
    have "freq_total (f[l := word_of_int nf]) = tot - unat (f ! l) + nat nf"
      using freq_total_update [of l f "word_of_int nf"] l(2) lf v ft by simp
    moreover have "nat nf = unat (f ! l) + NETC_TANS_TABLE_SIZE_10 - tot"
      using False unfolding nf_def by linarith
    moreover have "tot \<le> unat (f ! l) + NETC_TANS_TABLE_SIZE_10" using False unfolding nf_def by linarith
    ultimately have "freq_total (f[l := word_of_int nf]) = NETC_TANS_TABLE_SIZE_10" using le by linarith
    then show ?thesis using r False z l lf v0 by (auto simp: nth_list_update)
  qed
qed

theorem freq_rescale_support_witness:
  "\<exists>freq10. netc_freq_rescale_12_to_10 (replicate 256 16) = Some freq10 \<and> length freq10 = NETC_TANS_SYMBOLS
     \<and> (\<forall>s < NETC_TANS_SYMBOLS. freq10 ! s \<noteq> 0)"
proof -
  obtain freq10 where f: "netc_freq_rescale_12_to_10 (replicate 256 16) = Some freq10"
    using rescale_defined [of "replicate 256 16"]
    by (auto simp: freq_total_def sum_list_replicate tans_consts NETC_TANS_SYMBOLS_def)
  show ?thesis
    using freq_rescale_support [OF _ f] f by (auto simp: NETC_TANS_SYMBOLS_def)
qed

text \<open>A histogram of sixteen equally frequent byte values, and the table that it is normalised to.\<close>

definition hist16 :: "nat list" where
  "hist16 = replicate 240 0 @ replicate 16 1"

definition freq16 :: netc_freq_table where
  "freq16 = replicate 240 1 @ replicate 16 241"

lemma sum_upto_append:
  "(\<Sum>s<m + n. g s) = (\<Sum>s<m. g s) + (\<Sum>s<n. g (m + s))"
  for g :: "nat \<Rightarrow> nat"
  by (induction n) (simp_all add: add.assoc)

lemma hist16_normalized: "freq_normalize hist16 16 = freq16"
proof -
  have b: "norm_bonus hist16 16 s = (if s < 240 then 0 else 240)" if "s < 256" for s
    using that by (simp add: norm_bonus_def hist16_def nth_append NETC_TANS_SYMBOLS_def tans_consts)
  have "(\<Sum>s<240 + 16. norm_bonus hist16 16 s)
      = (\<Sum>s<240. norm_bonus hist16 16 s) + (\<Sum>s<16. norm_bonus hist16 16 (240 + s))"
    by (rule sum_upto_append)
  also have "\<dots> = 3840" using b by simp
  finally have sum: "(\<Sum>s<NETC_TANS_SYMBOLS. norm_bonus hist16 16 s) = 3840" by (simp add: NETC_TANS_SYMBOLS_def)
  have out: "map (\<lambda>s. if s < NETC_TANS_SYMBOLS then word_of_nat (1 + norm_bonus hist16 16 s) else 1)
      [0..<NETC_TANS_SYMBOLS] = freq16"
    by (intro nth_equalityI) (auto simp: NETC_TANS_SYMBOLS_def b freq16_def nth_append)
  obtain ms mv where "fold (norm_step hist16 16) [0..<NETC_TANS_SYMBOLS]
      (replicate NETC_TANS_SYMBOLS 1, NETC_TANS_SYMBOLS, 0, 1) = (freq16, NETC_TANS_SYMBOLS + 3840, ms, mv)"
    using norm_fold [of 16 NETC_TANS_SYMBOLS hist16] sum out by auto
  then show ?thesis by (simp add: freq_normalize_def NETC_TANS_SYMBOLS_def tans_consts)
qed

text \<open>
   The rescaling can report success with frequencies that do not sum to 1024: on the table that
  normalisation produces for sixteen equally frequent byte values (every other byte value has the
  frequency 1) the largest symbol cannot absorb the rounding error and the redistribution takes at
  most one from each entry, so that the 10-bit builder rejects the result.
\<close>
theorem freq_rescale_not_exact:
  "\<exists>freq10. netc_freq_rescale_12_to_10 (freq_normalize hist16 16) = Some freq10
     \<and> freq_total freq10 > NETC_TANS_TABLE_SIZE_10 \<and> netc_tans_build_10 freq10 = None"
proof -
  define f where "f = map (\<lambda>f. word_of_nat (rescale_entry f) :: u16) freq16"
  have f: "f = replicate 240 1 @ replicate 16 60"
    by (simp add: f_def freq16_def rescale_entry_def tans_consts map_replicate_const)
  have len: "length f = NETC_TANS_SYMBOLS" by (simp add: f NETC_TANS_SYMBOLS_def)
  have tot: "sum_list (map rescale_entry freq16) = 1200" "freq_total f = 1200"
    by (simp_all add: freq16_def rescale_entry_def tans_consts sum_list_replicate f freq_total_def)
  have big: "freq_total freq16 = NETC_TANS_TABLE_SIZE" "length freq16 = NETC_TANS_SYMBOLS"
    by (simp_all add: freq16_def freq_total_def sum_list_replicate tans_consts NETC_TANS_SYMBOLS_def)
  obtain freq10 where r: "netc_freq_rescale_12_to_10 freq16 = Some freq10"
    using rescale_defined [OF big(2,1)] by blast
  obtain l where l: "rescale_largest freq16 = Some l" "l < NETC_TANS_SYMBOLS"
    using r rescale_largest_Some by (auto simp: netc_freq_rescale_12_to_10_def Let_def split: if_splits option.splits)
  have fl: "unat (f ! s) \<le> 60" if "s < NETC_TANS_SYMBOLS" for s
    using that by (simp add: f nth_append NETC_TANS_SYMBOLS_def)
  define g where "g = f[l := 1]"
  have g: "length g = NETC_TANS_SYMBOLS" using len by (simp add: g_def)
  have gs: "unat (g ! s) < 2 ^ 15" if "s < NETC_TANS_SYMBOLS" for s
    using fl [OF that] that len by (cases "s = l") (simp_all add: g_def nth_list_update)
  have neg: "int (unat (f ! l)) + (int NETC_TANS_TABLE_SIZE_10 - int 1200) < 1"
  proof -
    have "int (unat (f ! l)) \<le> 60" using fl [OF l(2)] by linarith
    then show ?thesis by (simp add: tans_consts del: of_nat_unat)
  qed
  have f10: "freq10 = rescale_redistribute l g (int NETC_TANS_TABLE_SIZE_10 - int (freq_total g))"
    using r neg unfolding netc_freq_rescale_12_to_10_def Let_def f_def [symmetric] g_def
    unfolding l(1) big(1) tot(1) option.case by (simp only: if_True if_False simp_thms option.inject)
  have low: "unat (g ! s) \<le> 1" if "s < 240" for s
    using that l(2) by (cases "s = l") (simp_all add: g_def f nth_append nth_list_update NETC_TANS_SYMBOLS_def)
  have "{s. s < NETC_TANS_SYMBOLS \<and> unat (g ! s) > 1} \<subseteq> {240..<256}"
  proof
    fix s assume "s \<in> {s. s < NETC_TANS_SYMBOLS \<and> unat (g ! s) > 1}"
    then show "s \<in> {240..<256}" using low [of s] by (cases "s < 240") (simp_all add: NETC_TANS_SYMBOLS_def)
  qed
  then have "card {s. s < NETC_TANS_SYMBOLS \<and> unat (g ! s) > 1} \<le> card {240..<256 :: nat}"
    by (intro card_mono) auto
  moreover have "freq_total g \<ge> 1140"
    using freq_total_update [of l f 1] fl [OF l(2)] tot(2) l(2) len freq_total_ge [of l f] by (simp add: g_def)
  ultimately have "freq_total freq10 > NETC_TANS_TABLE_SIZE_10"
    using rescale_redistribute_keeps(3) [OF gs g, of l "int NETC_TANS_TABLE_SIZE_10 - int (freq_total g)"] unfolding f10 by (simp add: tans_consts)
  then show ?thesis using r
    by (auto simp: hist16_normalized netc_tans_build_10_def tans_build_def tans_consts)
qed

end
