(* ===== verification/Netc_Delta.thy ===== *)
theory Netc_Delta
  imports Netc_Prelude
begin

text \<open>
  Field-class-aware delta prediction, \<open>src/src/algo/netc_delta.h\<close>: residuals against the
  previous packet (order 1) or against the linear extrapolation of the two previous packets
  (order 2).  The byte offset selects XOR (header and body) or wrapping subtraction (sub-header
  and tail).  Each loop reads and writes index \<open>i\<close> only, so the in-place use that the header
  allows for decoding has the same result as the out-of-place map below.
\<close>

definition NETC_DELTA_HEADER_END :: nat where "NETC_DELTA_HEADER_END = 16"
definition NETC_DELTA_SUBHEADER_END :: nat where "NETC_DELTA_SUBHEADER_END = 64"
definition NETC_DELTA_BODY_END :: nat where "NETC_DELTA_BODY_END = 256"
definition NETC_DELTA_MIN_SIZE :: nat where "NETC_DELTA_MIN_SIZE = 8"

definition netc_delta_xor_class :: "nat \<Rightarrow> bool" where
  "netc_delta_xor_class i \<longleftrightarrow>
     i < NETC_DELTA_HEADER_END \<or> (i \<ge> NETC_DELTA_SUBHEADER_END \<and> i < NETC_DELTA_BODY_END)"

definition netc_delta_encode :: "byte list \<Rightarrow> byte list \<Rightarrow> nat \<Rightarrow> byte list" where
  "netc_delta_encode prev cur sz =
     map (\<lambda>i. if netc_delta_xor_class i then cur ! i XOR prev ! i else cur ! i - prev ! i)
       [0..<sz]"

definition netc_delta_decode :: "byte list \<Rightarrow> byte list \<Rightarrow> nat \<Rightarrow> byte list" where
  "netc_delta_decode prev residual sz =
     map (\<lambda>i. if netc_delta_xor_class i then residual ! i XOR prev ! i
              else residual ! i + prev ! i)
       [0..<sz]"

definition netc_delta_predict2 :: "byte \<Rightarrow> byte \<Rightarrow> byte" where
  "netc_delta_predict2 prev prev2 = 2 * prev - prev2"

definition netc_delta_encode_order2 :: "byte list \<Rightarrow> byte list \<Rightarrow> byte list \<Rightarrow> nat \<Rightarrow> byte list" where
  "netc_delta_encode_order2 prev2 prev cur sz =
     map (\<lambda>i. let predicted = netc_delta_predict2 (prev ! i) (prev2 ! i)
              in if netc_delta_xor_class i then cur ! i XOR predicted else cur ! i - predicted)
       [0..<sz]"

definition netc_delta_decode_order2 :: "byte list \<Rightarrow> byte list \<Rightarrow> byte list \<Rightarrow> nat \<Rightarrow> byte list" where
  "netc_delta_decode_order2 prev2 prev residual sz =
     map (\<lambda>i. let predicted = netc_delta_predict2 (prev ! i) (prev2 ! i)
              in if netc_delta_xor_class i then residual ! i XOR predicted
                 else residual ! i + predicted)
       [0..<sz]"

lemma length_delta [simp]:
  "length (netc_delta_encode prev cur n) = n"
  "length (netc_delta_decode prev res n) = n"
  "length (netc_delta_encode_order2 prev2 prev cur n) = n"
  "length (netc_delta_decode_order2 prev2 prev res n) = n"
  by (simp_all add: netc_delta_encode_def netc_delta_decode_def
      netc_delta_encode_order2_def netc_delta_decode_order2_def)

section \<open>The contract of a byte predictor\<close>

text \<open>
  What both orders share: a residual operation and its inverse, applied position by position
  against a prediction.  The round trip is proved once for any prediction.
\<close>

locale byte_residual =
  fixes residual :: "nat \<Rightarrow> byte \<Rightarrow> byte \<Rightarrow> byte"
    and restore :: "nat \<Rightarrow> byte \<Rightarrow> byte \<Rightarrow> byte"
  assumes restore_residual: "restore i (residual i c p) p = c"
begin

lemma restore_map:
  assumes "n \<le> length cur"
  shows "map (\<lambda>i. restore i (map (\<lambda>i. residual i (cur ! i) (pred i)) [0..<n] ! i) (pred i)) [0..<n]
       = take n cur"
proof -
  have "map (\<lambda>i. restore i (map (\<lambda>i. residual i (cur ! i) (pred i)) [0..<n] ! i) (pred i)) [0..<n]
      = map (\<lambda>i. cur ! i) [0..<n]"
    by (rule map_cong) (auto simp: restore_residual)
  then show ?thesis using assms by (simp add: map_nth_upt_take)
qed

end

text \<open>The field-class operation of \<open>netc_delta.h\<close> satisfies the contract.\<close>

interpretation delta_class: byte_residual
  "\<lambda>i c p. if netc_delta_xor_class i then c XOR p else c - p"
  "\<lambda>i r p. if netc_delta_xor_class i then r XOR p else r + p"
  by unfold_locales (simp add: xor.assoc)

lemma delta_decode_encode:
  assumes "n \<le> length cur"
  shows "netc_delta_decode prev (netc_delta_encode prev cur n) n = take n cur"
  unfolding netc_delta_decode_def netc_delta_encode_def
  by (rule delta_class.restore_map [OF assms, of "\<lambda>i. prev ! i"])

lemma delta_decode_encode_order2:
  assumes "n \<le> length cur"
  shows "netc_delta_decode_order2 prev2 prev (netc_delta_encode_order2 prev2 prev cur n) n
       = take n cur"
  unfolding netc_delta_decode_order2_def netc_delta_encode_order2_def Let_def
  by (rule delta_class.restore_map
      [OF assms, of "\<lambda>i. netc_delta_predict2 (prev ! i) (prev2 ! i)"])

text \<open>
  C13.  For every packet and every pair of earlier packets, decoding the residuals of
  either delta order against the same history returns the packet: prediction loses nothing, on
  XOR regions and on wrapping-subtraction regions alike.
\<close>

theorem delta_roundtrip:
  "netc_delta_decode prev (netc_delta_encode prev cur (length cur)) (length cur) = cur \<and>
   netc_delta_decode_order2 prev2 prev
     (netc_delta_encode_order2 prev2 prev cur (length cur)) (length cur) = cur"
  using delta_decode_encode [of "length cur" cur prev]
    delta_decode_encode_order2 [of "length cur" cur prev2 prev]
  by simp

end
