(* ===== verification/Netc_Simd.thy ===== *)
theory Netc_Simd
  imports Netc_Delta Netc_Crc32
begin

text \<open>
  Bulk operations behind the dispatch table, \<open>src/src/simd/\<close>: delta coding, byte histogram and
  CRC-32 update in the generic, SSE4.2, AVX2 and NEON versions.  A vector register is the list of its
  byte lanes; a vector loop writes one register of lanes per step and a scalar loop one byte per step,
  and every version runs its loops over the same index \<open>i\<close>.  All versions of delta coding and of
  the histogram are shown to be equal to the scalar code of \<open>netc_delta.h\<close> and of
  \<open>netc_simd_generic.c\<close>, so the level that \<open>netc_simd_ops_init\<close> picks cannot be observed
  through them.  The CRC-32 of the NEON version with hardware instructions is shown to differ.
\<close>

section \<open>Delta coding\<close>

text \<open>
  \<open>while (i + w <= end) { store(out + i, op(load(a + i), load(b + i))); i += w; }\<close>, where the
  output is filled up to \<open>i\<close>.  A scalar loop is the case of one lane.
\<close>

type_synonym lanes_op = "byte \<Rightarrow> byte \<Rightarrow> byte"

function lanes_loop :: "nat \<Rightarrow> lanes_op \<Rightarrow> byte list \<Rightarrow> byte list \<Rightarrow> nat \<Rightarrow> byte list \<Rightarrow> byte list" where
  "lanes_loop w f a b stop out =
     (let i = length out
      in if 0 < w \<and> i + w \<le> stop
         then lanes_loop w f a b stop (out @ map (\<lambda>k. f (a ! (i + k)) (b ! (i + k))) [0..<w])
         else out)"
  by pat_completeness auto

termination
  by (relation "measure (\<lambda>(w, f, a, b, stop, out). stop - length out)") auto

declare lanes_loop.simps [simp del]

text \<open>The scalar code, with the field classes written out as numbers.\<close>

definition netc_delta_encode_generic :: "byte list \<Rightarrow> byte list \<Rightarrow> nat \<Rightarrow> byte list" where
  "netc_delta_encode_generic prev cur len =
     map (\<lambda>i. if i < 16 \<or> 64 \<le> i \<and> i < 256 then cur ! i XOR prev ! i else cur ! i - prev ! i) [0..<len]"

definition netc_delta_decode_generic :: "byte list \<Rightarrow> byte list \<Rightarrow> nat \<Rightarrow> byte list" where
  "netc_delta_decode_generic prev residual len =
     map (\<lambda>i. if i < 16 \<or> 64 \<le> i \<and> i < 256 then residual ! i XOR prev ! i else residual ! i + prev ! i)
       [0..<len]"

definition netc_delta_encode_sse42 :: "byte list \<Rightarrow> byte list \<Rightarrow> nat \<Rightarrow> byte list" where
  "netc_delta_encode_sse42 prev cur len =
     (let out = lanes_loop 1 (XOR) cur prev (min len 16) [];
          out = lanes_loop 16 (-) cur prev (min len 64) out;
          out = lanes_loop 1 (-) cur prev (min len 64) out;
          out = lanes_loop 16 (XOR) cur prev (min len 256) out;
          out = lanes_loop 1 (XOR) cur prev (min len 256) out;
          out = lanes_loop 16 (-) cur prev len out
      in lanes_loop 1 (-) cur prev len out)"

definition netc_delta_decode_sse42 :: "byte list \<Rightarrow> byte list \<Rightarrow> nat \<Rightarrow> byte list" where
  "netc_delta_decode_sse42 prev residual len =
     (let out = lanes_loop 1 (XOR) residual prev (min len 16) [];
          out = lanes_loop 16 (+) residual prev (min len 64) out;
          out = lanes_loop 1 (+) residual prev (min len 64) out;
          out = lanes_loop 16 (XOR) residual prev (min len 256) out;
          out = lanes_loop 1 (XOR) residual prev (min len 256) out;
          out = lanes_loop 16 (+) residual prev len out
      in lanes_loop 1 (+) residual prev len out)"

definition netc_delta_encode_avx2 :: "byte list \<Rightarrow> byte list \<Rightarrow> nat \<Rightarrow> byte list" where
  "netc_delta_encode_avx2 prev cur len =
     (let out = lanes_loop 1 (XOR) cur prev (min len 16) [];
          out = lanes_loop 16 (-) cur prev (min len 64) out;
          out = lanes_loop 1 (-) cur prev (min len 64) out;
          out = lanes_loop 32 (XOR) cur prev (min len 256) out;
          out = lanes_loop 16 (XOR) cur prev (min len 256) out;
          out = lanes_loop 1 (XOR) cur prev (min len 256) out;
          out = lanes_loop 32 (-) cur prev len out;
          out = lanes_loop 16 (-) cur prev len out
      in lanes_loop 1 (-) cur prev len out)"

definition netc_delta_decode_avx2 :: "byte list \<Rightarrow> byte list \<Rightarrow> nat \<Rightarrow> byte list" where
  "netc_delta_decode_avx2 prev residual len =
     (let out = lanes_loop 1 (XOR) residual prev (min len 16) [];
          out = lanes_loop 16 (+) residual prev (min len 64) out;
          out = lanes_loop 1 (+) residual prev (min len 64) out;
          out = lanes_loop 32 (XOR) residual prev (min len 256) out;
          out = lanes_loop 16 (XOR) residual prev (min len 256) out;
          out = lanes_loop 1 (XOR) residual prev (min len 256) out;
          out = lanes_loop 32 (+) residual prev len out;
          out = lanes_loop 16 (+) residual prev len out
      in lanes_loop 1 (+) residual prev len out)"

definition netc_delta_encode_neon :: "byte list \<Rightarrow> byte list \<Rightarrow> nat \<Rightarrow> byte list" where
  "netc_delta_encode_neon prev cur len =
     (let out = lanes_loop 1 (XOR) cur prev (min len 16) [];
          out = lanes_loop 16 (-) cur prev (min len 64) out;
          out = lanes_loop 1 (-) cur prev (min len 64) out;
          out = lanes_loop 16 (XOR) cur prev (min len 256) out;
          out = lanes_loop 1 (XOR) cur prev (min len 256) out;
          out = lanes_loop 16 (-) cur prev len out
      in lanes_loop 1 (-) cur prev len out)"

definition netc_delta_decode_neon :: "byte list \<Rightarrow> byte list \<Rightarrow> nat \<Rightarrow> byte list" where
  "netc_delta_decode_neon prev residual len =
     (let out = lanes_loop 1 (XOR) residual prev (min len 16) [];
          out = lanes_loop 16 (+) residual prev (min len 64) out;
          out = lanes_loop 1 (+) residual prev (min len 64) out;
          out = lanes_loop 16 (XOR) residual prev (min len 256) out;
          out = lanes_loop 1 (XOR) residual prev (min len 256) out;
          out = lanes_loop 16 (+) residual prev len out
      in lanes_loop 1 (+) residual prev len out)"

section \<open>Histograms\<close>

definition freq_inc :: "byte \<Rightarrow> u32 list \<Rightarrow> u32 list" where
  "freq_inc b freq = freq[unat b := freq ! unat b + 1]"

definition netc_freq_count_generic :: "byte list \<Rightarrow> nat \<Rightarrow> u32 list \<Rightarrow> u32 list" where
  "netc_freq_count_generic data len freq = fold freq_inc (take len data) freq"

text \<open>
  \<open>for (; i + 16 <= len; i += 16)\<close> with the sixteen increments of the loop body.
\<close>

function freq_chunks16 :: "byte list \<Rightarrow> nat \<Rightarrow> nat \<Rightarrow> u32 list \<Rightarrow> u32 list" where
  "freq_chunks16 data len i freq =
     (if i + 16 \<le> len then freq_chunks16 data len (i + 16) (fold freq_inc (take 16 (drop i data)) freq)
      else fold freq_inc (take (len - i) (drop i data)) freq)"
  by pat_completeness auto

termination
  by (relation "measure (\<lambda>(data, len, i, freq). len - i)") auto

declare freq_chunks16.simps [simp del]

definition netc_freq_count_sse42 :: "byte list \<Rightarrow> nat \<Rightarrow> u32 list \<Rightarrow> u32 list" where
  "netc_freq_count_sse42 data len freq = freq_chunks16 data len 0 freq"

definition netc_freq_count_neon :: "byte list \<Rightarrow> nat \<Rightarrow> u32 list \<Rightarrow> u32 list" where
  "netc_freq_count_neon data len freq = freq_chunks16 data len 0 freq"

text \<open>Four partial histograms; a chunk of 32 bytes gives its bytes to them in turn.\<close>

definition every4 :: "nat \<Rightarrow> byte list \<Rightarrow> byte list" where
  "every4 j b = map (\<lambda>k. b ! (4 * k + j)) [0..<8]"

function freq_chunks32 :: "byte list \<Rightarrow> nat \<Rightarrow> nat \<Rightarrow> u32 list \<times> u32 list \<times> u32 list \<times> u32 list
    \<Rightarrow> u32 list \<times> u32 list \<times> u32 list \<times> u32 list" where
  "freq_chunks32 data len i (h0, h1, h2, h3) =
     (if i + 32 \<le> len
      then let b = take 32 (drop i data)
           in freq_chunks32 data len (i + 32)
                (fold freq_inc (every4 0 b) h0, fold freq_inc (every4 1 b) h1,
                 fold freq_inc (every4 2 b) h2, fold freq_inc (every4 3 b) h3)
      else (fold freq_inc (take (len - i) (drop i data)) h0, h1, h2, h3))"
  by pat_completeness auto

termination
  by (relation "measure (\<lambda>(data, len, i, hs). len - i)") auto

declare freq_chunks32.simps [simp del]

definition netc_freq_count_avx2 :: "byte list \<Rightarrow> nat \<Rightarrow> u32 list \<Rightarrow> u32 list" where
  "netc_freq_count_avx2 data len freq =
     (let z = replicate 256 0; (h0, h1, h2, h3) = freq_chunks32 data len 0 (z, z, z, z)
      in map (\<lambda>k. freq ! k + (h0 ! k + h1 ! k + h2 ! k + h3 ! k)) [0..<256])"

section \<open>CRC-32 update\<close>

definition netc_crc32_update_generic :: "u32 \<Rightarrow> byte list \<Rightarrow> u32" where
  "netc_crc32_update_generic crc data = netc_crc32_continue crc data"

definition netc_crc32_update_sse42 :: "u32 \<Rightarrow> byte list \<Rightarrow> u32" where
  "netc_crc32_update_sse42 crc data = netc_crc32_update_generic crc data"

text \<open>
  The version with the CRC-32 instructions of Armv8.1, which are parameters: \<open>crc32d\<close>,
  \<open>crc32w\<close> and \<open>crc32b\<close> take the bytes that the operand holds in memory.  Without the
  instructions (\<open>None\<close>) the function is the generic one.
\<close>

record arm_crc =
  arm_crc32d :: "u32 \<Rightarrow> byte list \<Rightarrow> u32"
  arm_crc32w :: "u32 \<Rightarrow> byte list \<Rightarrow> u32"
  arm_crc32b :: "u32 \<Rightarrow> byte \<Rightarrow> u32"

function crc32_blocks :: "nat \<Rightarrow> (u32 \<Rightarrow> byte list \<Rightarrow> u32) \<Rightarrow> u32 \<Rightarrow> byte list \<Rightarrow> u32 \<times> byte list" where
  "crc32_blocks w f crc data =
     (if 0 < w \<and> w \<le> length data then crc32_blocks w f (f crc (take w data)) (drop w data) else (crc, data))"
  by pat_completeness auto

termination
  by (relation "measure (\<lambda>(w, f, crc, data). length data)") auto

declare crc32_blocks.simps [simp del]

definition netc_crc32_update_neon :: "arm_crc option \<Rightarrow> u32 \<Rightarrow> byte list \<Rightarrow> u32" where
  "netc_crc32_update_neon hw crc data =
     (case hw of
        None \<Rightarrow> netc_crc32_update_generic crc data
      | Some a \<Rightarrow>
          let (crc, rest) = crc32_blocks 8 (arm_crc32d a) crc data;
              (crc, rest) = crc32_blocks 4 (arm_crc32w a) crc rest
          in fold (\<lambda>b c. arm_crc32b a c b) rest crc)"

section \<open>Dispatch\<close>

definition NETC_SIMD_LEVEL_AUTO :: byte where "NETC_SIMD_LEVEL_AUTO = 0"
definition NETC_SIMD_LEVEL_GENERIC :: byte where "NETC_SIMD_LEVEL_GENERIC = 1"
definition NETC_SIMD_LEVEL_SSE42 :: byte where "NETC_SIMD_LEVEL_SSE42 = 2"
definition NETC_SIMD_LEVEL_AVX2 :: byte where "NETC_SIMD_LEVEL_AVX2 = 3"
definition NETC_SIMD_LEVEL_NEON :: byte where "NETC_SIMD_LEVEL_NEON = 4"

record netc_simd_ops =
  ops_delta_encode :: "byte list \<Rightarrow> byte list \<Rightarrow> nat \<Rightarrow> byte list"
  ops_delta_decode :: "byte list \<Rightarrow> byte list \<Rightarrow> nat \<Rightarrow> byte list"
  ops_freq_count :: "byte list \<Rightarrow> nat \<Rightarrow> u32 list \<Rightarrow> u32 list"
  ops_crc32_update :: "u32 \<Rightarrow> byte list \<Rightarrow> u32"
  ops_level :: byte

definition netc_simd_level_name :: "byte \<Rightarrow> string" where
  "netc_simd_level_name level =
     (if level = NETC_SIMD_LEVEL_GENERIC then ''generic''
      else if level = NETC_SIMD_LEVEL_SSE42 then ''sse42''
      else if level = NETC_SIMD_LEVEL_AVX2 then ''avx2''
      else if level = NETC_SIMD_LEVEL_NEON then ''neon''
      else ''auto'')"

text \<open>
  What the build compiles in (the preprocessor conditions of \<open>netc_simd_ops_init\<close>) and what the
  processor reports (the \<open>netc__has_*\<close> functions) are data of the platform.
\<close>

record netc_platform =
  built_avx2 :: bool
  built_sse42 :: bool
  built_neon :: bool
  cpu_avx2 :: bool
  cpu_sse42 :: bool
  cpu_neon :: bool
  cpu_arm_crc :: "arm_crc option"

definition netc_simd_detect :: "netc_platform \<Rightarrow> byte" where
  "netc_simd_detect pf =
     (if cpu_avx2 pf then NETC_SIMD_LEVEL_AVX2
      else if cpu_sse42 pf then NETC_SIMD_LEVEL_SSE42
      else if cpu_neon pf then NETC_SIMD_LEVEL_NEON
      else NETC_SIMD_LEVEL_GENERIC)"

definition netc_simd_ops_init :: "netc_platform \<Rightarrow> byte \<Rightarrow> netc_simd_ops" where
  "netc_simd_ops_init pf level0 =
     (let level = (if level0 = NETC_SIMD_LEVEL_AUTO then netc_simd_detect pf else level0)
      in if built_avx2 pf \<and> level \<ge> NETC_SIMD_LEVEL_AVX2 \<and> cpu_avx2 pf
         then \<lparr>ops_delta_encode = netc_delta_encode_avx2, ops_delta_decode = netc_delta_decode_avx2,
               ops_freq_count = netc_freq_count_avx2, ops_crc32_update = netc_crc32_update_sse42,
               ops_level = NETC_SIMD_LEVEL_AVX2\<rparr>
         else if built_sse42 pf \<and> level \<ge> NETC_SIMD_LEVEL_SSE42 \<and> cpu_sse42 pf
         then \<lparr>ops_delta_encode = netc_delta_encode_sse42, ops_delta_decode = netc_delta_decode_sse42,
               ops_freq_count = netc_freq_count_sse42, ops_crc32_update = netc_crc32_update_sse42,
               ops_level = NETC_SIMD_LEVEL_SSE42\<rparr>
         else if built_neon pf \<and> level \<ge> NETC_SIMD_LEVEL_NEON \<and> cpu_neon pf
         then \<lparr>ops_delta_encode = netc_delta_encode_neon, ops_delta_decode = netc_delta_decode_neon,
               ops_freq_count = netc_freq_count_neon,
               ops_crc32_update = netc_crc32_update_neon (cpu_arm_crc pf),
               ops_level = NETC_SIMD_LEVEL_NEON\<rparr>
         else \<lparr>ops_delta_encode = netc_delta_encode_generic, ops_delta_decode = netc_delta_decode_generic,
               ops_freq_count = netc_freq_count_generic, ops_crc32_update = netc_crc32_update_generic,
               ops_level = NETC_SIMD_LEVEL_GENERIC\<rparr>)"

section \<open>Equality of the delta versions\<close>

text \<open>
  A loop that computes, on its range, the bytes of a target extends a prefix of that target to a
  longer prefix; the one-lane loop extends it to the end of the range.
\<close>

lemma take_extend:
  assumes "n + w \<le> length T" and "\<And>k. k < w \<Longrightarrow> T ! (n + k) = g (n + k)"
  shows "take n T @ map (\<lambda>k. g (n + k)) [0..<w] = take (n + w) T"
proof (rule nth_equalityI)
  fix i assume i: "i < length (take n T @ map (\<lambda>k. g (n + k)) [0..<w])"
  show "(take n T @ map (\<lambda>k. g (n + k)) [0..<w]) ! i = take (n + w) T ! i"
    using i assms(1) assms(2) [of "i - n"] by (auto simp: nth_append)
qed (use assms in simp)

lemma lanes_loop_prefix:
  assumes "out = take n T" and "n \<le> length T" and "stop \<le> length T"
    and "\<And>i. n \<le> i \<Longrightarrow> i < stop \<Longrightarrow> T ! i = f (a ! i) (b ! i)"
  shows "\<exists>m. n \<le> m \<and> m \<le> max n stop \<and> (w = 1 \<longrightarrow> m = max n stop) \<and> lanes_loop w f a b stop out = take m T"
  using assms
proof (induction w f a b stop out arbitrary: n rule: lanes_loop.induct)
  case (1 w f a b stop out)
  have len: "length out = n" using "1.prems"(1,2) by simp
  show ?case
  proof (cases "0 < w \<and> n + w \<le> stop")
    case True
    have ext: "out @ map (\<lambda>k. f (a ! (n + k)) (b ! (n + k))) [0..<w] = take (n + w) T"
      unfolding "1.prems"(1) using True "1.prems"(3,4) by (intro take_extend) auto
    obtain m where m: "n + w \<le> m" "m \<le> max (n + w) stop" "w = 1 \<longrightarrow> m = max (n + w) stop"
      "lanes_loop w f a b stop (take (n + w) T) = take m T"
      using "1.IH" [of n "n + w"] True len ext "1.prems"(3,4) by auto
    then show ?thesis using True len ext
      by (intro exI [of _ m]) (auto simp: lanes_loop.simps [of w f a b stop out])
  next
    case False
    then have "lanes_loop w f a b stop out = out"
      using len by (auto simp: lanes_loop.simps [of w f a b stop out])
    then show ?thesis using False "1.prems"(1) by (intro exI [of _ n]) auto
  qed
qed

text \<open>
  A region: one or more vector loops over the same range and then the scalar loop fill the range.
\<close>

lemma lanes_loop_step:
  assumes "\<exists>m. n \<le> m \<and> m \<le> max n e \<and> out = take m T" and "n \<le> length T" and "e \<le> length T"
    and "\<And>i. n \<le> i \<Longrightarrow> i < e \<Longrightarrow> T ! i = f (a ! i) (b ! i)"
  shows "\<exists>m. n \<le> m \<and> m \<le> max n e \<and> lanes_loop w f a b e out = take m T"
    and "lanes_loop 1 f a b e out = take (max n e) T"
proof -
  obtain m where m: "n \<le> m" "m \<le> max n e" "out = take m T" using assms(1) by blast
  have ml: "m \<le> length T" using m(2) assms(2,3) by simp
  have eq: "T ! i = f (a ! i) (b ! i)" if "m \<le> i" "i < e" for i using assms(4) that m(1) by simp
  note prefix = lanes_loop_prefix [where f = f and a = a and b = b, OF m(3) ml assms(3) eq]
  obtain k where k: "m \<le> k" "k \<le> max m e" "lanes_loop w f a b e out = take k T"
    using prefix by blast
  then show "\<exists>m. n \<le> m \<and> m \<le> max n e \<and> lanes_loop w f a b e out = take m T"
    using m by (intro exI [of _ k]) auto
  obtain k' where "k' = max m e" "lanes_loop 1 f a b e out = take k' T"
    using prefix [of 1] by blast
  moreover have "max m e = max n e" using m(1,2) by linarith
  ultimately show "lanes_loop 1 f a b e out = take (max n e) T" by simp
qed

text \<open>The four regions with their vector loops, for any operation per region.\<close>

lemma region_done:
  assumes "n \<le> e" and "e \<le> length T"
    and "\<And>i. n \<le> i \<Longrightarrow> i < e \<Longrightarrow> T ! i = f (a ! i) (b ! i)"
  shows "lanes_loop 1 f a b e (take n T) = take e T"
    and "lanes_loop 1 f a b e (lanes_loop v f a b e (take n T)) = take e T"
    and "lanes_loop 1 f a b e (lanes_loop v f a b e (lanes_loop w f a b e (take n T))) = take e T"
proof -
  have n: "n \<le> length T" and m: "max n e = e" using assms(1,2) by simp_all
  have s0: "\<exists>m. n \<le> m \<and> m \<le> max n e \<and> take n T = take m T" by auto
  note step1 = lanes_loop_step(1) [where n = n and e = e and T = T and f = f and a = a and b = b,
      OF _ n assms(2,3)]
  note step2 = lanes_loop_step(2) [where n = n and e = e and T = T and f = f and a = a and b = b,
      OF _ n assms(2,3), unfolded m]
  show "lanes_loop 1 f a b e (take n T) = take e T"
    by (rule step2 [OF s0 [unfolded m]])
  show "lanes_loop 1 f a b e (lanes_loop v f a b e (take n T)) = take e T"
    by (rule step2 [OF step1 [OF s0, unfolded m]])
  show "lanes_loop 1 f a b e (lanes_loop v f a b e (lanes_loop w f a b e (take n T))) = take e T"
    by (rule step2 [OF step1 [OF step1 [OF s0], unfolded m]])
qed

lemma four_regions:
  assumes T: "length T = len"
    and hdr: "\<And>i. i < len \<Longrightarrow> i < 16 \<Longrightarrow> T ! i = f (a ! i) (b ! i)"
    and sub: "\<And>i. i < len \<Longrightarrow> 16 \<le> i \<Longrightarrow> i < 64 \<Longrightarrow> T ! i = g (a ! i) (b ! i)"
    and body: "\<And>i. i < len \<Longrightarrow> 64 \<le> i \<Longrightarrow> i < 256 \<Longrightarrow> T ! i = f (a ! i) (b ! i)"
    and tail: "\<And>i. i < len \<Longrightarrow> 256 \<le> i \<Longrightarrow> T ! i = g (a ! i) (b ! i)"
  shows "lanes_loop 1 g a b len (lanes_loop 16 g a b len
           (lanes_loop 1 f a b (min len 256) (lanes_loop 16 f a b (min len 256)
             (lanes_loop 1 g a b (min len 64) (lanes_loop 16 g a b (min len 64)
               (lanes_loop 1 f a b (min len 16) [])))))) = T"
    and "lanes_loop 1 g a b len (lanes_loop 16 g a b len (lanes_loop 32 g a b len
           (lanes_loop 1 f a b (min len 256) (lanes_loop 16 f a b (min len 256) (lanes_loop 32 f a b (min len 256)
             (lanes_loop 1 g a b (min len 64) (lanes_loop 16 g a b (min len 64)
               (lanes_loop 1 f a b (min len 16) [])))))))) = T"
proof -
  have r1: "lanes_loop 1 f a b (min len 16) [] = take (min len 16) T"
    using region_done(1) [of 0 "min len 16" T f a b] T hdr by simp
  have r2: "lanes_loop 1 g a b (min len 64) (lanes_loop 16 g a b (min len 64) (take (min len 16) T))
      = take (min len 64) T"
    using T sub by (intro region_done(2)) auto
  have r3: "lanes_loop 1 f a b (min len 256) (lanes_loop 16 f a b (min len 256) (take (min len 64) T))
      = take (min len 256) T"
    "lanes_loop 1 f a b (min len 256) (lanes_loop 16 f a b (min len 256)
       (lanes_loop 32 f a b (min len 256) (take (min len 64) T))) = take (min len 256) T"
    using T body by (intro region_done(2,3); auto)+
  have r4: "lanes_loop 1 g a b len (lanes_loop 16 g a b len (take (min len 256) T)) = take len T"
    "lanes_loop 1 g a b len (lanes_loop 16 g a b len (lanes_loop 32 g a b len (take (min len 256) T)))
      = take len T"
    using T tail by (intro region_done(2,3); auto)+
  show "lanes_loop 1 g a b len (lanes_loop 16 g a b len
           (lanes_loop 1 f a b (min len 256) (lanes_loop 16 f a b (min len 256)
             (lanes_loop 1 g a b (min len 64) (lanes_loop 16 g a b (min len 64)
               (lanes_loop 1 f a b (min len 16) [])))))) = T"
    unfolding r1 r2 r3 r4 using T by simp
  show "lanes_loop 1 g a b len (lanes_loop 16 g a b len (lanes_loop 32 g a b len
           (lanes_loop 1 f a b (min len 256) (lanes_loop 16 f a b (min len 256) (lanes_loop 32 f a b (min len 256)
             (lanes_loop 1 g a b (min len 64) (lanes_loop 16 g a b (min len 64)
               (lanes_loop 1 f a b (min len 16) [])))))))) = T"
    unfolding r1 r2 r3 r4 using T by simp
qed

lemma delta_generic:
  "netc_delta_encode_generic = netc_delta_encode" "netc_delta_decode_generic = netc_delta_decode"
  by (auto simp: netc_delta_encode_generic_def netc_delta_encode_def netc_delta_decode_generic_def
      netc_delta_decode_def netc_delta_xor_class_def NETC_DELTA_HEADER_END_def
      NETC_DELTA_SUBHEADER_END_def NETC_DELTA_BODY_END_def fun_eq_iff)

lemma delta_vector:
  "netc_delta_encode_sse42 = netc_delta_encode_generic" "netc_delta_decode_sse42 = netc_delta_decode_generic"
  "netc_delta_encode_avx2 = netc_delta_encode_generic" "netc_delta_decode_avx2 = netc_delta_decode_generic"
  "netc_delta_encode_neon = netc_delta_encode_generic" "netc_delta_decode_neon = netc_delta_decode_generic"
proof -
  have e: "length (netc_delta_encode_generic prev cur len) = len"
    "length (netc_delta_decode_generic prev cur len) = len" for prev cur len
    by (simp_all add: netc_delta_encode_generic_def netc_delta_decode_generic_def)
  note enc = four_regions [where f = "(XOR)" and g = "(-)", OF e(1)]
  note dec = four_regions [where f = "(XOR)" and g = "(+)", OF e(2)]
  show "netc_delta_encode_sse42 = netc_delta_encode_generic"
    unfolding fun_eq_iff netc_delta_encode_sse42_def Let_def
    by (intro allI enc(1); simp add: netc_delta_encode_generic_def)
  show "netc_delta_decode_sse42 = netc_delta_decode_generic"
    unfolding fun_eq_iff netc_delta_decode_sse42_def Let_def
    by (intro allI dec(1); simp add: netc_delta_decode_generic_def)
  show "netc_delta_encode_avx2 = netc_delta_encode_generic"
    unfolding fun_eq_iff netc_delta_encode_avx2_def Let_def
    by (intro allI enc(2); simp add: netc_delta_encode_generic_def)
  show "netc_delta_decode_avx2 = netc_delta_decode_generic"
    unfolding fun_eq_iff netc_delta_decode_avx2_def Let_def
    by (intro allI dec(2); simp add: netc_delta_decode_generic_def)
  show "netc_delta_encode_neon = netc_delta_encode_generic"
    unfolding fun_eq_iff netc_delta_encode_neon_def Let_def
    by (intro allI enc(1); simp add: netc_delta_encode_generic_def)
  show "netc_delta_decode_neon = netc_delta_decode_generic"
    unfolding fun_eq_iff netc_delta_decode_neon_def Let_def
    by (intro allI dec(1); simp add: netc_delta_decode_generic_def)
qed

section \<open>Equality of the histograms\<close>

lemma length_freq_inc [simp]: "length (freq_inc b freq) = length freq"
  by (simp add: freq_inc_def)

lemma length_fold_freq_inc [simp]: "length (fold freq_inc xs freq) = length freq"
  by (induction xs arbitrary: freq) simp_all

lemma freq_inc_nth:
  "length freq = 256 \<Longrightarrow> k < 256 \<Longrightarrow> freq_inc b freq ! k = freq ! k + (if unat b = k then 1 else 0)"
  by (auto simp: freq_inc_def)

text \<open>The histogram adds to each entry the number of its occurrences, modulo \<open>2 ^ 32\<close>.\<close>

lemma fold_freq_inc_nth:
  assumes "length freq = 256" and "k < 256"
  shows "fold freq_inc xs freq ! k = freq ! k + of_nat (length (filter (\<lambda>b. unat b = k) xs))"
  using assms by (induction xs arbitrary: freq) (auto simp: freq_inc_nth)

lemma freq_chunks16_fold:
  "freq_chunks16 data len i freq = fold freq_inc (take (len - i) (drop i data)) freq"
proof (induction data len i freq rule: freq_chunks16.induct)
  case (1 data len i freq)
  show ?case
  proof (cases "i + 16 \<le> len")
    case True
    have "take (len - i) (drop i data)
        = take 16 (drop i data) @ take (len - (i + 16)) (drop (i + 16) data)"
      using take_add [of 16 "len - (i + 16)" "drop i data"] True by (simp add: add.commute)
    then show ?thesis using 1 True by (simp add: freq_chunks16.simps [of data len i freq])
  next
    case False
    then show ?thesis by (simp add: freq_chunks16.simps [of data len i freq])
  qed
qed

lemma filter_upt_mod4:
  "length (filter Q [0..<4 * n]) = length (filter (\<lambda>k. Q (4 * k)) [0..<n])
     + length (filter (\<lambda>k. Q (4 * k + 1)) [0..<n]) + length (filter (\<lambda>k. Q (4 * k + 2)) [0..<n])
     + length (filter (\<lambda>k. Q (4 * k + 3)) [0..<n])"
proof (induction n)
  case (Suc n)
  have four: "4 * Suc n = Suc (Suc (Suc (Suc (4 * n))))" by simp
  have "[0..<4 * Suc n] = [0..<4 * n] @ [4 * n, 4 * n + 1, 4 * n + 2, 4 * n + 3]"
    unfolding four by (simp add: numeral_3_eq_3)
  then show ?case using Suc by simp
qed simp

lemma filter_every4:
  assumes "length b = 32"
  shows "length (filter P b) = length (filter P (every4 0 b)) + length (filter P (every4 1 b))
       + length (filter P (every4 2 b)) + length (filter P (every4 3 b))"
proof -
  have "map (\<lambda>i. b ! i) [0..<4 * 8] = b" using assms by (simp add: map_nth_upt_take)
  then have "length (filter P b) = length (filter P (map (\<lambda>i. b ! i) [0..<4 * 8]))" by simp
  also have "\<dots> = length (filter (\<lambda>i. P (b ! i)) [0..<4 * 8])"
    unfolding filter_map length_map comp_def ..
  also have "\<dots> = length (filter P (every4 0 b)) + length (filter P (every4 1 b))
       + length (filter P (every4 2 b)) + length (filter P (every4 3 b))"
    unfolding filter_upt_mod4 every4_def filter_map length_map by (simp add: comp_def)
  finally show ?thesis .
qed

definition hist_sum :: "u32 list \<times> u32 list \<times> u32 list \<times> u32 list \<Rightarrow> nat \<Rightarrow> u32" where
  "hist_sum hs k = (case hs of (h0, h1, h2, h3) \<Rightarrow> h0 ! k + h1 ! k + h2 ! k + h3 ! k)"

lemma freq_chunks32_sum:
  assumes "len \<le> length data" and "i \<le> len" and "k < 256"
    and "length h0 = 256" and "length h1 = 256" and "length h2 = 256" and "length h3 = 256"
  shows "hist_sum (freq_chunks32 data len i (h0, h1, h2, h3)) k
       = hist_sum (h0, h1, h2, h3) k + of_nat (length (filter (\<lambda>b. unat b = k) (take (len - i) (drop i data))))"
  using assms
proof (induction data len i "(h0, h1, h2, h3)" arbitrary: h0 h1 h2 h3 rule: freq_chunks32.induct)
  case (1 data len i h0 h1 h2 h3)
  let ?b = "take 32 (drop i data)"
  show ?case
  proof (cases "i + 32 \<le> len")
    case True
    have "take (len - i) (drop i data) = ?b @ take (len - (i + 32)) (drop (i + 32) data)"
      using take_add [of 32 "len - (i + 32)" "drop i data"] True by (simp add: add.commute)
    moreover have "length ?b = 32" using True "1.prems"(1) by simp
    ultimately show ?thesis
      using "1.hyps" [OF True refl] True "1.prems" filter_every4 [of ?b "\<lambda>b. unat b = k"]
      by (simp add: freq_chunks32.simps [of data len i h0] Let_def hist_sum_def fold_freq_inc_nth)
  next
    case False
    then show ?thesis using "1.prems"
      by (simp add: freq_chunks32.simps [of data len i h0] hist_sum_def fold_freq_inc_nth)
  qed
qed

lemma freq_count_vector:
  assumes "len \<le> length data" and "length freq = 256"
  shows "netc_freq_count_sse42 data len freq = netc_freq_count_generic data len freq"
    and "netc_freq_count_neon data len freq = netc_freq_count_generic data len freq"
    and "netc_freq_count_avx2 data len freq = netc_freq_count_generic data len freq"
proof -
  show "netc_freq_count_sse42 data len freq = netc_freq_count_generic data len freq"
    "netc_freq_count_neon data len freq = netc_freq_count_generic data len freq"
    by (simp_all add: netc_freq_count_sse42_def netc_freq_count_neon_def netc_freq_count_generic_def
        freq_chunks16_fold)
  let ?z = "replicate 256 (0 :: u32)"
  obtain h0 h1 h2 h3 where h: "freq_chunks32 data len 0 (?z, ?z, ?z, ?z) = (h0, h1, h2, h3)"
    by (metis prod_cases4)
  have "freq ! k + (h0 ! k + h1 ! k + h2 ! k + h3 ! k) = fold freq_inc (take len data) freq ! k"
    if "k < 256" for k
    using freq_chunks32_sum [of len data 0 k ?z ?z ?z ?z] h that assms
    by (simp add: hist_sum_def fold_freq_inc_nth)
  then show "netc_freq_count_avx2 data len freq = netc_freq_count_generic data len freq"
    using assms(2) unfolding netc_freq_count_avx2_def netc_freq_count_generic_def Let_def h
    by (intro nth_equalityI) auto
qed

section \<open>Properties\<close>

text \<open>
  C28.  Whatever the build, the processor and the requested level, the delta operations of the
  dispatch table are the scalar ones of \<open>netc_delta.h\<close>, and the histogram adds to every entry the
  number of occurrences of its byte: two peers with different processors produce the same residuals.
\<close>
theorem simd_dispatch_transparent:
  "ops_delta_encode (netc_simd_ops_init pf level) = netc_delta_encode
   \<and> ops_delta_decode (netc_simd_ops_init pf level) = netc_delta_decode
   \<and> (\<forall>data freq k. length freq = 256 \<longrightarrow> k < 256 \<longrightarrow>
        ops_freq_count (netc_simd_ops_init pf level) data (length data) freq ! k
        = freq ! k + of_nat (length (filter (\<lambda>b. unat b = k) data)))"
proof -
  have g: "netc_freq_count_generic data (length data) freq ! k
      = freq ! k + of_nat (length (filter (\<lambda>b. unat b = k) data))"
    if "length freq = 256" "k < 256" for data freq k
    using that by (simp add: netc_freq_count_generic_def fold_freq_inc_nth)
  show ?thesis
    by (simp add: netc_simd_ops_init_def Let_def delta_vector delta_generic freq_count_vector g)
qed

theorem simd_dispatch_transparent_witness:
  "ops_freq_count (netc_simd_ops_init
      \<lparr>built_avx2 = True, built_sse42 = True, built_neon = False, cpu_avx2 = True, cpu_sse42 = True,
       cpu_neon = False, cpu_arm_crc = None\<rparr> 0) [7, 8, 7] 3 (replicate 256 0) ! 7 = 2"
  using simd_dispatch_transparent [of "\<lparr>built_avx2 = True, built_sse42 = True, built_neon = False,
      cpu_avx2 = True, cpu_sse42 = True, cpu_neon = False, cpu_arm_crc = None\<rparr>" 0,
      THEN conjunct2, THEN conjunct2, rule_format, of "replicate 256 0" 7 "[7, 8, 7]"]
  by (simp add: numeral_3_eq_3)

lemma fold_steps_eq_blocks:
  assumes "\<And>c d. length d = w \<Longrightarrow> f c d = fold crc32_step d c" and "0 < w"
    and "crc32_blocks w f crc data = (crc', rest)"
  shows "fold crc32_step rest crc' = fold crc32_step data crc"
  using assms
proof (induction w f crc data rule: crc32_blocks.induct)
  case (1 w f crc data)
  show ?case
  proof (cases "w \<le> length data")
    case True
    have "fold crc32_step (take w data @ drop w data) crc
        = fold crc32_step (drop w data) (fold crc32_step (take w data) crc)"
      by (simp only: fold_append comp_apply)
    then show ?thesis using 1 True by (simp add: crc32_blocks.simps [of w f crc data])
  next
    case False
    then show ?thesis using "1.prems" by (simp add: crc32_blocks.simps [of w f crc data])
  qed
qed

text \<open>
   With instructions that perform the byte steps of CRC-32 on the bytes of their operand, as the
  Arm instructions do, the hardware version of the NEON update is the plain fold of those steps,
  without the inversion of the value before and after that the generic version performs: the two
  agree only up to that inversion, and on the update of 0 with one zero byte they differ.
\<close>
theorem neon_crc_not_inverted:
  assumes "\<And>c d. length d = 8 \<Longrightarrow> arm_crc32d a c d = fold crc32_step d c"
    and "\<And>c d. length d = 4 \<Longrightarrow> arm_crc32w a c d = fold crc32_step d c"
    and "\<And>c b. arm_crc32b a c b = crc32_step b c"
  shows "netc_crc32_update_neon (Some a) (crc XOR 0xFFFFFFFF) data XOR 0xFFFFFFFF
           = netc_crc32_update_generic crc data
       \<and> netc_crc32_update_neon (Some a) 0 [0] \<noteq> netc_crc32_update_generic 0 [0]"
proof -
  have fold: "netc_crc32_update_neon (Some a) c data = fold crc32_step data c" for c data
  proof -
    obtain c1 r1 where b1: "crc32_blocks 8 (arm_crc32d a) c data = (c1, r1)" by fastforce
    obtain c2 r2 where b2: "crc32_blocks 4 (arm_crc32w a) c1 r1 = (c2, r2)" by fastforce
    have "fold crc32_step r2 c2 = fold crc32_step data c"
      using fold_steps_eq_blocks [OF assms(1) _ b1] fold_steps_eq_blocks [OF assms(2) _ b2] by simp
    moreover have "(\<lambda>b c. arm_crc32b a c b) = crc32_step" using assms(3) by (simp add: fun_eq_iff)
    ultimately show ?thesis by (simp add: netc_crc32_update_neon_def b1 b2)
  qed
  have "crc32_step 0 0 \<noteq> crc32_step 0 0xFFFFFFFF XOR 0xFFFFFFFF"
    by (simp add: crc32_step_def CRC32_TABLE_def)
  then show ?thesis
    by (simp add: fold netc_crc32_update_generic_def netc_crc32_continue_def)
qed

theorem neon_crc_not_inverted_witness:
  "netc_crc32_update_neon (Some \<lparr>arm_crc32d = \<lambda>c d. fold crc32_step d c, arm_crc32w = \<lambda>c d. fold crc32_step d c,
       arm_crc32b = \<lambda>c b. crc32_step b c\<rparr>) 0 [0] \<noteq> netc_crc32_update_generic 0 [0]"
  using neon_crc_not_inverted [of "\<lparr>arm_crc32d = \<lambda>c d. fold crc32_step d c,
      arm_crc32w = \<lambda>c d. fold crc32_step d c, arm_crc32b = \<lambda>c b. crc32_step b c\<rparr>"]
  by simp

end
