(* ===== verification/Netc_Ctx.thy ===== *)
theory Netc_Ctx
  imports Netc_Dict Netc_Freq Netc_Simd
begin

text \<open>
  Contexts, \<open>src/src/core/netc_ctx.c\<close>, \<open>src/src/core/netc_internal.h\<close> and
  \<open>src/src/algo/netc_adaptive.h/.c\<close>: the per-connection state, its creation and reset, the history
  that compression and decompression share (ring buffer and previous packets) and the adaptive tables.
  The ring buffer refines a sliding window over the byte stream; every operation keeps the context
  well-formed, whatever the packets.

  A buffer pointer that is \<open>NULL\<close> is \<open>None\<close>, except for the ring, which is the empty list
  (\<open>ring == NULL\<close> and \<open>ring_size == 0\<close> are treated alike everywhere).  The buffers of the previous
  packets hold their valid bytes only: nothing reads beyond \<open>prev_pkt_size\<close>.  The arena is scratch
  memory, of which only the size outlives a call.  Allocation succeeds.
\<close>

section \<open>Configuration and state\<close>

definition NETC_CFG_FLAG_STATEFUL :: u32 where "NETC_CFG_FLAG_STATEFUL = 0x01"
definition NETC_CFG_FLAG_STATELESS :: u32 where "NETC_CFG_FLAG_STATELESS = 0x02"
definition NETC_CFG_FLAG_DELTA :: u32 where "NETC_CFG_FLAG_DELTA = 0x04"
definition NETC_CFG_FLAG_BIGRAM :: u32 where "NETC_CFG_FLAG_BIGRAM = 0x08"
definition NETC_CFG_FLAG_STATS :: u32 where "NETC_CFG_FLAG_STATS = 0x10"
definition NETC_CFG_FLAG_COMPACT_HDR :: u32 where "NETC_CFG_FLAG_COMPACT_HDR = 0x20"
definition NETC_CFG_FLAG_FAST_COMPRESS :: u32 where "NETC_CFG_FLAG_FAST_COMPRESS = 0x100"
definition NETC_CFG_FLAG_ADAPTIVE :: u32 where "NETC_CFG_FLAG_ADAPTIVE = 0x200"

definition NETC_DEFAULT_RING_SIZE :: nat where "NETC_DEFAULT_RING_SIZE = 64 * 1024"
definition NETC_DEFAULT_ARENA_SIZE :: nat where "NETC_DEFAULT_ARENA_SIZE = NETC_MAX_PACKET_SIZE * 2 + 64"
definition NETC_ADAPTIVE_INTERVAL :: nat where "NETC_ADAPTIVE_INTERVAL = 128"
definition NETC_ADAPTIVE_ALPHA_NUM :: nat where "NETC_ADAPTIVE_ALPHA_NUM = 3"
definition NETC_ADAPTIVE_ALPHA_DEN :: nat where "NETC_ADAPTIVE_ALPHA_DEN = 4"

definition has_cfg :: "u32 \<Rightarrow> u32 \<Rightarrow> bool" where
  "has_cfg flags f \<longleftrightarrow> flags AND f \<noteq> 0"

record netc_cfg =
  cfg_flags :: u32
  cfg_ring_buffer_size :: nat
  cfg_compression_level :: byte
  cfg_simd_level :: byte
  cfg_arena_size :: nat

record netc_stats =
  st_packets_compressed :: u64
  st_packets_decompressed :: u64
  st_bytes_in :: u64
  st_bytes_out :: u64
  st_passthrough_count :: u64

definition zero_stats :: netc_stats where
  "zero_stats = \<lparr>st_packets_compressed = 0, st_packets_decompressed = 0, st_bytes_in = 0, st_bytes_out = 0,
     st_passthrough_count = 0\<rparr>"

record netc_ctx =
  c_dict :: "netc_dict option"
  c_flags :: u32
  c_compression_level :: byte
  c_simd_level :: byte
  c_ring :: "byte list"
  c_ring_pos :: nat
  c_simd_ops :: netc_simd_ops
  c_prev_pkt :: "byte list option"
  c_prev2_pkt :: "byte list option"
  c_context_seq :: byte
  c_arena_size :: nat
  c_stats :: netc_stats
  c_adapt_freq :: "u32 list option"
  c_adapt_total :: "u32 list"
  c_adapt_tables :: "netc_tans_table list option"
  c_adapt_lzp :: "lzp_table option"
  c_adapt_pkt_count :: u32

definition c_prev_pkt_size :: "netc_ctx \<Rightarrow> nat" where
  "c_prev_pkt_size ctx = (case c_prev_pkt ctx of None \<Rightarrow> 0 | Some p \<Rightarrow> length p)"

definition netc_get_tables :: "netc_ctx \<Rightarrow> netc_dict \<Rightarrow> netc_tans_table list" where
  "netc_get_tables ctx d = (case c_adapt_tables ctx of Some ts \<Rightarrow> ts | None \<Rightarrow> d_tables d)"

definition netc_get_lzp_table :: "netc_ctx \<Rightarrow> lzp_table option" where
  "netc_get_lzp_table ctx =
     (case c_adapt_lzp ctx of Some t \<Rightarrow> Some t
      | None \<Rightarrow> (case c_dict ctx of Some d \<Rightarrow> d_lzp_table d | None \<Rightarrow> None))"

section \<open>Lifecycle\<close>

definition NETC_CFG_DEFAULT :: netc_cfg where
  "NETC_CFG_DEFAULT = \<lparr>cfg_flags = NETC_CFG_FLAG_STATEFUL, cfg_ring_buffer_size = 0, cfg_compression_level = 5,
     cfg_simd_level = 0, cfg_arena_size = 0\<rparr>"

definition boost_lzp :: "lzp_table \<Rightarrow> lzp_table" where
  "boost_lzp tbl = map (\<lambda>e. if lzp_valid e \<noteq> 0 then e\<lparr>lzp_valid := 4\<rparr> else e) tbl"

definition clone_tables :: "netc_dict option \<Rightarrow> netc_tans_table list" where
  "clone_tables dict = (case dict of Some d \<Rightarrow> d_tables d | None \<Rightarrow> replicate NETC_CTX_COUNT zero_tans_table)"

definition netc_ctx_create :: "netc_platform \<Rightarrow> netc_dict option \<Rightarrow> netc_cfg option \<Rightarrow> netc_ctx option" where
  "netc_ctx_create pf dict cfg0 =
     (let cfg = (case cfg0 of None \<Rightarrow> NETC_CFG_DEFAULT | Some c \<Rightarrow> c);
          stateful = has_cfg (cfg_flags cfg) NETC_CFG_FLAG_STATEFUL;
          adaptive = has_cfg (cfg_flags cfg) NETC_CFG_FLAG_ADAPTIVE;
          ring_size = (if cfg_ring_buffer_size cfg > 0 then cfg_ring_buffer_size cfg mod 2 ^ 32
                       else NETC_DEFAULT_RING_SIZE)
      in if adaptive \<and> \<not> stateful then None
         else Some
           \<lparr>c_dict = dict, c_flags = cfg_flags cfg, c_compression_level = cfg_compression_level cfg,
            c_simd_level = cfg_simd_level cfg,
            c_ring = (if stateful then replicate ring_size 0 else []), c_ring_pos = 0,
            c_simd_ops = netc_simd_ops_init pf (cfg_simd_level cfg),
            c_prev_pkt = (if stateful then Some [] else None),
            c_prev2_pkt = (if adaptive then Some [] else None),
            c_context_seq = 0,
            c_arena_size = (if cfg_arena_size cfg > 0 then cfg_arena_size cfg else NETC_DEFAULT_ARENA_SIZE),
            c_stats = zero_stats,
            c_adapt_freq = (if adaptive then Some (replicate (NETC_CTX_COUNT * 256) 0) else None),
            c_adapt_total = (if adaptive then replicate NETC_CTX_COUNT 0 else []),
            c_adapt_tables = (if adaptive then Some (clone_tables dict) else None),
            c_adapt_lzp = (if adaptive then map_option boost_lzp (Option.bind dict d_lzp_table) else None),
            c_adapt_pkt_count = 0\<rparr>)"

text \<open>
  A reset keeps the tables of an adaptive context without dictionary, and the LZP table unless both the
  context and the dictionary have one.
\<close>

definition netc_ctx_reset :: "netc_ctx \<Rightarrow> netc_ctx" where
  "netc_ctx_reset ctx =
     (let ctx = ctx\<lparr>c_ring := replicate (length (c_ring ctx)) 0,
                    c_ring_pos := (if c_ring ctx = [] then c_ring_pos ctx else 0),
                    c_prev_pkt := map_option (\<lambda>_. []) (c_prev_pkt ctx),
                    c_context_seq := 0, c_stats := zero_stats,
                    c_prev2_pkt := map_option (\<lambda>_. []) (c_prev2_pkt ctx)\<rparr>
      in case c_adapt_freq ctx of
           None \<Rightarrow> ctx
         | Some freq \<Rightarrow>
             ctx\<lparr>c_adapt_freq := Some (replicate (length freq) 0),
                 c_adapt_total := replicate (length (c_adapt_total ctx)) 0,
                 c_adapt_tables := (case c_dict ctx of None \<Rightarrow> c_adapt_tables ctx
                                    | Some d \<Rightarrow> map_option (\<lambda>_. d_tables d) (c_adapt_tables ctx)),
                 c_adapt_lzp := (case Option.bind (c_dict ctx) d_lzp_table of None \<Rightarrow> c_adapt_lzp ctx
                                 | Some t \<Rightarrow> map_option (\<lambda>_. boost_lzp t) (c_adapt_lzp ctx)),
                 c_adapt_pkt_count := 0\<rparr>)"

definition netc_ctx_stats :: "netc_ctx option \<Rightarrow> netc_result + netc_stats" where
  "netc_ctx_stats ctx =
     (case ctx of None \<Rightarrow> Inl NETC_ERR_CTX_NULL
      | Some c \<Rightarrow> if \<not> has_cfg (c_flags c) NETC_CFG_FLAG_STATS then Inl NETC_ERR_UNSUPPORTED else Inr (c_stats c))"

definition netc_ctx_simd_level :: "netc_ctx option \<Rightarrow> byte" where
  "netc_ctx_simd_level ctx = (case ctx of None \<Rightarrow> 0 | Some c \<Rightarrow> ops_level (c_simd_ops c))"

definition netc_strerror :: "netc_result \<Rightarrow> string" where
  "netc_strerror r =
     (case r of
        NETC_OK \<Rightarrow> ''success''
      | NETC_ERR_NOMEM \<Rightarrow> ''memory allocation failure''
      | NETC_ERR_TOOBIG \<Rightarrow> ''input exceeds NETC_MAX_PACKET_SIZE''
      | NETC_ERR_CORRUPT \<Rightarrow> ''corrupt or truncated compressed data''
      | NETC_ERR_DICT_INVALID \<Rightarrow> ''dictionary checksum mismatch or bad format''
      | NETC_ERR_BUF_SMALL \<Rightarrow> ''output buffer capacity insufficient''
      | NETC_ERR_CTX_NULL \<Rightarrow> ''NULL context pointer''
      | NETC_ERR_UNSUPPORTED \<Rightarrow> ''algorithm or feature not supported''
      | NETC_ERR_VERSION \<Rightarrow> ''model_id or dictionary format version mismatch''
      | NETC_ERR_INVALID_ARG \<Rightarrow> ''invalid argument'')"

section \<open>History\<close>

text \<open>\<open>memcpy(ring + pos, data, len)\<close> inside the ring.\<close>

definition ring_write :: "byte list \<Rightarrow> nat \<Rightarrow> byte list \<Rightarrow> byte list" where
  "ring_write ring pos data = take pos ring @ data @ drop (pos + length data) ring"

definition ctx_ring_append :: "netc_ctx \<Rightarrow> byte list \<Rightarrow> netc_ctx" where
  "ctx_ring_append ctx data0 =
     (if c_ring ctx = [] \<or> data0 = [] then ctx
      else let rs = length (c_ring ctx);
               (data, pos) = (if length data0 \<ge> rs then (drop (length data0 - rs) data0, 0)
                              else (data0, c_ring_pos ctx));
               len = length data;
               tail = rs - pos;
               ring = (if len \<le> tail then ring_write (c_ring ctx) pos data
                       else ring_write (ring_write (c_ring ctx) pos (take tail data)) 0 (drop tail data))
           in ctx\<lparr>c_ring := ring, c_ring_pos := (pos + len) mod rs\<rparr>)"

definition decomp_ring_append :: "netc_ctx \<Rightarrow> byte list \<Rightarrow> netc_ctx" where
  "decomp_ring_append ctx data = ctx_ring_append ctx data"

definition compress_update_prev :: "netc_ctx \<Rightarrow> byte list \<Rightarrow> netc_ctx" where
  "compress_update_prev ctx src =
     (case c_prev_pkt ctx of
        None \<Rightarrow> ctx
      | Some prev \<Rightarrow> ctx\<lparr>c_prev2_pkt := map_option (\<lambda>_. prev) (c_prev2_pkt ctx), c_prev_pkt := Some src\<rparr>)"

definition decomp_update_prev :: "netc_ctx \<Rightarrow> byte list \<Rightarrow> netc_ctx" where
  "decomp_update_prev ctx dst = compress_update_prev ctx dst"

section \<open>Adaptive tables\<close>

definition blend :: "nat \<Rightarrow> nat \<Rightarrow> nat \<Rightarrow> nat" where
  "blend acc bucket_total dict_freq =
     (if bucket_total > 0
      then acc * NETC_ADAPTIVE_ALPHA_NUM
           + dict_freq * bucket_total div NETC_TANS_TABLE_SIZE * (NETC_ADAPTIVE_ALPHA_DEN - NETC_ADAPTIVE_ALPHA_NUM)
      else dict_freq)"

text \<open>All values stay far below \<open>2 ^ 64\<close>, see \<open>blended_sum_less\<close>.\<close>

definition blended :: "u32 list \<Rightarrow> u32 list \<Rightarrow> netc_tans_table list \<Rightarrow> nat \<Rightarrow> nat list" where
  "blended acc acc_total dict_tables b =
     map (\<lambda>s. blend (unat (acc ! (b * 256 + s))) (unat (acc_total ! b)) (unat (tt_freq (dict_tables ! b) ! s)))
       [0..<NETC_TANS_SYMBOLS]"

definition rebuild_bucket :: "u32 list \<Rightarrow> u32 list \<Rightarrow> netc_tans_table list \<Rightarrow> nat \<Rightarrow> netc_tans_table" where
  "rebuild_bucket acc acc_total dict_tables b =
     (let bl = blended acc acc_total dict_tables b
      in case netc_tans_build (freq_normalize_adaptive bl (sum_list bl)) of
           Some t \<Rightarrow> t | None \<Rightarrow> dict_tables ! b)"

definition netc_adaptive_tables_rebuild :: "netc_ctx \<Rightarrow> netc_ctx" where
  "netc_adaptive_tables_rebuild ctx =
     (case (c_adapt_freq ctx, c_adapt_tables ctx, c_dict ctx) of
        (Some acc, Some _, Some d) \<Rightarrow>
          ctx\<lparr>c_adapt_tables := Some (map (rebuild_bucket acc (c_adapt_total ctx) (d_tables d)) [0..<NETC_CTX_COUNT])\<rparr>
      | _ \<Rightarrow> ctx)"

definition count_byte :: "byte list \<Rightarrow> nat \<Rightarrow> u32 list \<times> u32 list \<Rightarrow> u32 list \<times> u32 list" where
  "count_byte data i = (\<lambda>(freq, tot).
     let b = netc_ctx_bucket i; k = b * 256 + unat (data ! i)
     in (freq[k := freq ! k + 1], tot[b := tot ! b + 1]))"

definition netc_adaptive_update :: "netc_ctx \<Rightarrow> byte list \<Rightarrow> netc_ctx" where
  "netc_adaptive_update ctx data =
     (case c_adapt_freq ctx of
        None \<Rightarrow> ctx
      | Some freq \<Rightarrow>
          let (freq, tot) = fold (count_byte data) [0..<length data] (freq, c_adapt_total ctx);
              ctx = ctx\<lparr>c_adapt_freq := Some freq, c_adapt_total := tot,
                        c_adapt_pkt_count := c_adapt_pkt_count ctx + 1\<rparr>
          in if unat (c_adapt_pkt_count ctx) \<ge> NETC_ADAPTIVE_INTERVAL
             then (netc_adaptive_tables_rebuild ctx)\<lparr>c_adapt_pkt_count := 0\<rparr>
             else ctx)"

definition ctx_lzp_update :: "netc_ctx \<Rightarrow> byte list \<Rightarrow> netc_ctx" where
  "ctx_lzp_update ctx data = ctx\<lparr>c_adapt_lzp := map_option (\<lambda>t. netc_lzp_adaptive_update t data) (c_adapt_lzp ctx)\<rparr>"

section \<open>The ring as a sliding window\<close>

text \<open>
  The contract of a history buffer: a window over the bytes written so far, which a write shifts by the
  bytes written.  What the packet codecs need follows from it once: two buffers that agree and receive
  the same writes agree, and after enough bytes the window no longer depends on its beginning.
\<close>

locale byte_window =
  fixes inv :: "'s \<Rightarrow> bool" and window :: "'s \<Rightarrow> byte list" and push :: "'s \<Rightarrow> byte list \<Rightarrow> 's"
  assumes push_inv: "inv s \<Longrightarrow> inv (push s data)"
    and push_window: "inv s \<Longrightarrow> window (push s data) = drop (length data) (window s @ data)"
begin

lemma window_length: "inv s \<Longrightarrow> length (window (push s data)) = length (window s)"
  by (simp add: push_window)

lemma window_pushes:
  "inv s \<Longrightarrow> inv (fold (\<lambda>d s. push s d) ds s)
     \<and> window (fold (\<lambda>d s. push s d) ds s) = drop (length (concat ds)) (window s @ concat ds)"
proof (induction ds arbitrary: s)
  case (Cons d ds)
  have "drop (length (concat ds)) (drop (length d) (window s @ d) @ concat ds)
      = drop (length d + length (concat ds)) (window s @ d @ concat ds)"
  proof -
    have "drop (length d) (window s @ d) @ concat ds = drop (length d) ((window s @ d) @ concat ds)"
      by (subst drop_append [of _ "window s @ d"]) simp
    then show ?thesis by (simp only: drop_drop add.commute append.assoc)
  qed
  then show ?case using Cons push_inv push_window by simp
qed simp

lemma windows_agree:
  assumes "inv s" and "inv s'" and "length (window s) = length (window s')"
    and "window s = window s' \<or> length (window s) \<le> length (concat ds)"
  shows "window (fold (\<lambda>d s. push s d) ds s) = window (fold (\<lambda>d s. push s d) ds s')"
  using window_pushes [OF assms(1), of ds] window_pushes [OF assms(2), of ds] assms(3,4) by auto

end

definition ring_ok :: "netc_ctx \<Rightarrow> bool" where
  "ring_ok ctx \<longleftrightarrow> (if c_ring ctx = [] then c_ring_pos ctx = 0 else c_ring_pos ctx < length (c_ring ctx))
     \<and> length (c_ring ctx) < 2 ^ 32"

text \<open>The bytes of the ring, oldest first.\<close>

definition ring_window :: "netc_ctx \<Rightarrow> byte list" where
  "ring_window ctx = drop (c_ring_pos ctx) (c_ring ctx) @ take (c_ring_pos ctx) (c_ring ctx)"

lemma length_ring_write: "pos + length data \<le> length ring \<Longrightarrow> length (ring_write ring pos data) = length ring"
  by (simp add: ring_write_def)

lemma ring_append_keeps:
  assumes "ring_ok ctx"
  shows "ring_ok (ctx_ring_append ctx data) \<and> length (c_ring (ctx_ring_append ctx data)) = length (c_ring ctx)"
  using assms
  by (auto simp: ring_ok_def ctx_ring_append_def Let_def ring_write_def split: prod.splits if_splits)

lemma ring_append_window:
  assumes ok: "ring_ok ctx" and ne: "c_ring ctx \<noteq> []"
  shows "ring_window (ctx_ring_append ctx data) = drop (length data) (ring_window ctx @ data)"
proof -
  let ?r = "c_ring ctx" and ?p = "c_ring_pos ctx" and ?n = "length data"
  have p: "?p < length ?r" using ok ne by (simp add: ring_ok_def)
  consider "data = []" | "length ?r \<le> ?n" "data \<noteq> []" | "?n < length ?r - ?p" "data \<noteq> []"
    | "?n = length ?r - ?p" "?n < length ?r" "data \<noteq> []" | "?n > length ?r - ?p" "?n < length ?r" "data \<noteq> []"
    by linarith
  then show ?thesis
  proof cases
    case 1
    then show ?thesis by (simp add: ctx_ring_append_def)
  next
    case 2
    then show ?thesis using ne p
      by (simp add: ctx_ring_append_def ring_window_def ring_write_def Let_def)
  next
    case 3
    then have "(?p + ?n) mod length ?r = ?p + ?n" using p by simp
    then show ?thesis using 3 ne p
      by (simp add: ctx_ring_append_def ring_window_def ring_write_def Let_def add.commute)
  next
    case 4
    then have "(?p + ?n) mod length ?r = 0" using p by simp
    then show ?thesis using 4 ne p
      by (simp add: ctx_ring_append_def ring_window_def ring_write_def Let_def)
  next
    case 5
    let ?t = "length ?r - ?p"
    have m: "(?p + ?n) mod length ?r = ?n - ?t" using 5 p by (subst le_mod_geq) auto
    have "ring_window (ctx_ring_append ctx data)
        = drop (?n - ?t) (take ?p ?r) @ take ?t data @ drop ?t data"
      using 5 ne p unfolding ctx_ring_append_def ring_window_def ring_write_def Let_def
      by (simp add: m not_le min_def)
    also have "\<dots> = drop ?n (ring_window ctx @ data)"
      using 5 p by (simp add: ring_window_def)
    finally show ?thesis .
  qed
qed

interpretation ring: byte_window "\<lambda>ctx. ring_ok ctx \<and> c_ring ctx \<noteq> []" ring_window ctx_ring_append
proof
  fix ctx data assume "ring_ok ctx \<and> c_ring ctx \<noteq> []"
  then show "ring_ok (ctx_ring_append ctx data) \<and> c_ring (ctx_ring_append ctx data) \<noteq> []"
    using ring_append_keeps [of ctx data] by fastforce
  show "ring_window (ctx_ring_append ctx data) = drop (length data) (ring_window ctx @ data)"
    if "ring_ok ctx \<and> c_ring ctx \<noteq> []"
    using ring_append_window that by blast
qed

section \<open>Well-formed contexts\<close>

definition adapt_ok :: "netc_ctx \<Rightarrow> bool" where
  "adapt_ok ctx \<longleftrightarrow>
     (case c_adapt_freq ctx of
        None \<Rightarrow> c_adapt_tables ctx = None \<and> c_adapt_lzp ctx = None
      | Some freq \<Rightarrow> length freq = NETC_CTX_COUNT * 256 \<and> length (c_adapt_total ctx) = NETC_CTX_COUNT
          \<and> (\<exists>ts. c_adapt_tables ctx = Some ts \<and> length ts = NETC_CTX_COUNT
               \<and> (c_dict ctx \<noteq> None \<longrightarrow> (\<forall>t \<in> set ts. built t)))
          \<and> unat (c_adapt_pkt_count ctx) < NETC_ADAPTIVE_INTERVAL)
     \<and> (case c_adapt_lzp ctx of None \<Rightarrow> True | Some t \<Rightarrow> length t = NETC_LZP_HT_SIZE)"

definition ctx_wf :: "netc_ctx \<Rightarrow> bool" where
  "ctx_wf ctx \<longleftrightarrow> ring_ok ctx \<and> adapt_ok ctx
     \<and> ops_delta_encode (c_simd_ops ctx) = netc_delta_encode
     \<and> ops_delta_decode (c_simd_ops ctx) = netc_delta_decode
     \<and> (\<forall>d. c_dict ctx = Some d \<longrightarrow> dict_wf d)
     \<and> (c_prev_pkt ctx = None \<longrightarrow> c_prev2_pkt ctx = None)
     \<and> c_prev_pkt_size ctx \<le> NETC_MAX_PACKET_SIZE"

text \<open>Each part of the invariant depends on its own fields only.\<close>

lemma adapt_ok_fields [simp]:
  "adapt_ok (ctx\<lparr>c_ring := r\<rparr>) = adapt_ok ctx" "adapt_ok (ctx\<lparr>c_ring_pos := n\<rparr>) = adapt_ok ctx"
  "adapt_ok (ctx\<lparr>c_prev_pkt := p\<rparr>) = adapt_ok ctx" "adapt_ok (ctx\<lparr>c_prev2_pkt := p\<rparr>) = adapt_ok ctx"
  "adapt_ok (ctx\<lparr>c_context_seq := q\<rparr>) = adapt_ok ctx" "adapt_ok (ctx\<lparr>c_stats := st\<rparr>) = adapt_ok ctx"
  by (simp_all add: adapt_ok_def split: option.split)

lemma ring_ok_fields [simp]:
  "ring_ok (ctx\<lparr>c_adapt_freq := f\<rparr>) = ring_ok ctx" "ring_ok (ctx\<lparr>c_adapt_total := t\<rparr>) = ring_ok ctx"
  "ring_ok (ctx\<lparr>c_adapt_tables := ts\<rparr>) = ring_ok ctx" "ring_ok (ctx\<lparr>c_adapt_lzp := l\<rparr>) = ring_ok ctx"
  "ring_ok (ctx\<lparr>c_adapt_pkt_count := n\<rparr>) = ring_ok ctx" "ring_ok (ctx\<lparr>c_prev_pkt := p\<rparr>) = ring_ok ctx"
  "ring_ok (ctx\<lparr>c_prev2_pkt := p\<rparr>) = ring_ok ctx" "ring_ok (ctx\<lparr>c_context_seq := q\<rparr>) = ring_ok ctx"
  "ring_ok (ctx\<lparr>c_stats := st\<rparr>) = ring_ok ctx"
  by (simp_all add: ring_ok_def)

lemma prev_size_fields [simp]:
  "c_prev_pkt_size (ctx\<lparr>c_ring := r\<rparr>) = c_prev_pkt_size ctx" "c_prev_pkt_size (ctx\<lparr>c_ring_pos := n\<rparr>) = c_prev_pkt_size ctx"
  "c_prev_pkt_size (ctx\<lparr>c_adapt_freq := f\<rparr>) = c_prev_pkt_size ctx" "c_prev_pkt_size (ctx\<lparr>c_adapt_total := t\<rparr>) = c_prev_pkt_size ctx"
  "c_prev_pkt_size (ctx\<lparr>c_adapt_tables := ts\<rparr>) = c_prev_pkt_size ctx" "c_prev_pkt_size (ctx\<lparr>c_adapt_lzp := l\<rparr>) = c_prev_pkt_size ctx"
  "c_prev_pkt_size (ctx\<lparr>c_adapt_pkt_count := k\<rparr>) = c_prev_pkt_size ctx" "c_prev_pkt_size (ctx\<lparr>c_context_seq := q\<rparr>) = c_prev_pkt_size ctx"
  "c_prev_pkt_size (ctx\<lparr>c_stats := st\<rparr>) = c_prev_pkt_size ctx"
  by (simp_all add: c_prev_pkt_size_def)

lemma ctx_wf_fields [simp]:
  "ctx_wf (ctx\<lparr>c_context_seq := q\<rparr>) = ctx_wf ctx" "ctx_wf (ctx\<lparr>c_stats := st\<rparr>) = ctx_wf ctx"
  by (simp_all add: ctx_wf_def)

text \<open>The tables that a context codes with.\<close>

lemma ctx_wf_tables:
  assumes "ctx_wf ctx" and "c_dict ctx = Some d"
  shows "length (netc_get_tables ctx d) = NETC_CTX_COUNT" and "\<forall>t \<in> set (netc_get_tables ctx d). built t"
    and "tables_wf (netc_get_tables ctx d)"
proof -
  show len: "length (netc_get_tables ctx d) = NETC_CTX_COUNT" and b: "\<forall>t \<in> set (netc_get_tables ctx d). built t"
    using assms by (auto simp: ctx_wf_def adapt_ok_def netc_get_tables_def dict_wf_def split: option.splits)
  show "tables_wf (netc_get_tables ctx d)"
    using len b built_facts(2) by (auto simp: tables_wf_def NETC_CTX_COUNT_def)
qed

lemma ctx_wf_lzp:
  assumes "ctx_wf ctx" and "netc_get_lzp_table ctx = Some t" shows "length t = NETC_LZP_HT_SIZE"
  using assms by (auto simp: ctx_wf_def adapt_ok_def netc_get_lzp_table_def dict_wf_def split: option.splits)

lemma ops_init_delta:
  "ops_delta_encode (netc_simd_ops_init pf l) = netc_delta_encode"
  "ops_delta_decode (netc_simd_ops_init pf l) = netc_delta_decode"
  by (simp_all add: netc_simd_ops_init_def Let_def delta_vector delta_generic)

lemma length_boost_lzp [simp]: "length (boost_lzp t) = length t"
  by (simp add: boost_lzp_def)

lemma dict_lzp_length:
  assumes "\<forall>d. dict = Some d \<longrightarrow> dict_wf d" and "Option.bind dict d_lzp_table = Some t"
  shows "length t = NETC_LZP_HT_SIZE"
  using assms by (cases dict) (auto simp: dict_wf_def)

lemma clone_tables_ok:
  assumes "\<forall>d. dict = Some d \<longrightarrow> dict_wf d"
  shows "length (clone_tables dict) = NETC_CTX_COUNT" "dict \<noteq> None \<Longrightarrow> t \<in> set (clone_tables dict) \<Longrightarrow> built t"
  using assms by (auto simp: clone_tables_def dict_wf_def split: option.splits)

lemma create_wf:
  assumes c: "netc_ctx_create pf dict cfg0 = Some ctx" and d: "\<forall>d. dict = Some d \<longrightarrow> dict_wf d"
  shows "ctx_wf ctx"
proof -
  define cfg where "cfg = (case cfg0 of None \<Rightarrow> NETC_CFG_DEFAULT | Some c \<Rightarrow> c)"
  define stateful where "stateful = has_cfg (cfg_flags cfg) NETC_CFG_FLAG_STATEFUL"
  define adaptive where "adaptive = has_cfg (cfg_flags cfg) NETC_CFG_FLAG_ADAPTIVE"
  note c' = c [unfolded netc_ctx_create_def Let_def, folded cfg_def, folded stateful_def adaptive_def]
  have st: "adaptive \<longrightarrow> stateful" using c' by (simp split: if_splits)
  have ring: "ring_ok ctx" using c' by (auto simp: ring_ok_def NETC_DEFAULT_RING_SIZE_def split: if_splits)
  have adapt: "adapt_ok ctx"
    using c' clone_tables_ok [OF d] dict_lzp_length [OF d]
    by (cases adaptive) (auto simp: adapt_ok_def NETC_ADAPTIVE_INTERVAL_def split: if_splits option.split)
  have fields: "c_dict ctx = dict" "c_simd_ops ctx = netc_simd_ops_init pf (cfg_simd_level cfg)"
    "c_prev_pkt ctx = (if stateful then Some [] else None)" "c_prev2_pkt ctx = (if adaptive then Some [] else None)"
    using c' by (auto split: if_splits)
  show ?thesis using ring adapt st d by (simp add: ctx_wf_def c_prev_pkt_size_def fields ops_init_delta)
qed

lemma reset_wf:
  assumes wf: "ctx_wf ctx" shows "ctx_wf (netc_ctx_reset ctx)"
proof -
  have d: "\<forall>d. c_dict ctx = Some d \<longrightarrow> dict_wf d" using wf by (simp add: ctx_wf_def)
  have ring: "ring_ok (netc_ctx_reset ctx)"
    using wf by (cases "c_adapt_freq ctx") (simp_all add: netc_ctx_reset_def Let_def ctx_wf_def ring_ok_def)
  have adapt: "adapt_ok (netc_ctx_reset ctx)"
  proof (cases "c_adapt_freq ctx")
    case None
    then show ?thesis using wf by (simp add: netc_ctx_reset_def Let_def ctx_wf_def)
  next
    case (Some freq)
    then obtain ts where ts: "c_adapt_tables ctx = Some ts" "length ts = NETC_CTX_COUNT"
      "length freq = NETC_CTX_COUNT * 256" "length (c_adapt_total ctx) = NETC_CTX_COUNT"
      "\<forall>t. c_adapt_lzp ctx = Some t \<longrightarrow> length t = NETC_LZP_HT_SIZE"
      using wf by (auto simp: ctx_wf_def adapt_ok_def split: option.splits)
    show ?thesis
    proof (cases "c_dict ctx")
      case None
      then show ?thesis using ts Some
        by (auto simp: netc_ctx_reset_def Let_def adapt_ok_def NETC_ADAPTIVE_INTERVAL_def split: option.split)
    next
      case (Some d')
      then have "dict_wf d'" using d by simp
      then show ?thesis using ts Some \<open>c_adapt_freq ctx = Some freq\<close>
        by (cases "d_lzp_table d'"; cases "c_adapt_lzp ctx")
           (auto simp: netc_ctx_reset_def Let_def adapt_ok_def NETC_ADAPTIVE_INTERVAL_def dict_wf_def)
    qed
  qed
  have fields: "c_dict (netc_ctx_reset ctx) = c_dict ctx" "c_simd_ops (netc_ctx_reset ctx) = c_simd_ops ctx"
    "c_prev_pkt (netc_ctx_reset ctx) = map_option (\<lambda>_. []) (c_prev_pkt ctx)"
    "c_prev2_pkt (netc_ctx_reset ctx) = map_option (\<lambda>_. []) (c_prev2_pkt ctx)"
    by (simp_all add: netc_ctx_reset_def Let_def split: option.split)
  show ?thesis using ring adapt wf
    by (cases "c_prev_pkt ctx") (simp_all add: ctx_wf_def c_prev_pkt_size_def fields)
qed

lemma ring_append_fields:
  "ctx_ring_append ctx data = ctx\<lparr>c_ring := c_ring (ctx_ring_append ctx data), c_ring_pos := c_ring_pos (ctx_ring_append ctx data)\<rparr>"
  by (simp add: ctx_ring_append_def Let_def split: prod.splits)

lemma ring_append_wf:
  assumes "ctx_wf ctx" shows "ctx_wf (ctx_ring_append ctx data)"
proof -
  have "ring_ok (ctx_ring_append ctx data)" using ring_append_keeps assms by (simp add: ctx_wf_def)
  moreover have "ctx_wf (ctx\<lparr>c_ring := r, c_ring_pos := p\<rparr>) \<longleftrightarrow> ring_ok (ctx\<lparr>c_ring := r, c_ring_pos := p\<rparr>)" for r p
    using assms by (simp add: ctx_wf_def)
  ultimately show ?thesis using ring_append_fields by metis
qed

lemma update_prev_wf:
  assumes "ctx_wf ctx" and "length src \<le> NETC_MAX_PACKET_SIZE" shows "ctx_wf (compress_update_prev ctx src)"
  using assms by (auto simp: ctx_wf_def compress_update_prev_def c_prev_pkt_size_def split: option.split)

lemma lzp_update_wf:
  assumes "ctx_wf ctx" shows "ctx_wf (ctx_lzp_update ctx data)"
  using assms by (auto simp: ctx_wf_def ctx_lzp_update_def adapt_ok_def split: option.splits)

subsection \<open>Rebuilt tables\<close>

lemma blended_sum_less: "sum_list (blended acc acc_total ts b) < 2 ^ 52"
proof -
  have "blend (unat (a :: u32)) (unat (t :: u32)) (unat (f :: u16)) \<le> 2 ^ 40" for a t f
  proof -
    have u: "unat a < 2 ^ 32" "unat t < 2 ^ 32" "unat f < 2 ^ 16"
      using unsigned_less [of a, where 'a = nat] unsigned_less [of t, where 'a = nat] unsigned_less [of f, where 'a = nat] by auto
    have "unat f * unat t \<le> 2 ^ 16 * 2 ^ 32" using u by (intro mult_le_mono) auto
    then have "unat f * unat t div 4096 \<le> 2 ^ 16 * 2 ^ 32 div 4096" by (rule div_le_mono)
    then show ?thesis using u
      by (simp add: blend_def NETC_ADAPTIVE_ALPHA_NUM_def NETC_ADAPTIVE_ALPHA_DEN_def tans_consts)
  qed
  then have "x \<le> 2 ^ 40" if "x \<in> set (blended acc acc_total ts b)" for x
    using that by (auto simp: blended_def)
  then have "sum_list (blended acc acc_total ts b) \<le> length (blended acc acc_total ts b) * 2 ^ 40"
    using sum_list_mono [of "blended acc acc_total ts b" id "\<lambda>_. 2 ^ 40"]
    by (simp add: sum_list_triv)
  then show ?thesis by (simp add: blended_def NETC_TANS_SYMBOLS_def)
qed

definition full :: "netc_tans_table \<Rightarrow> bool" where
  "full t \<longleftrightarrow> built t \<and> (\<forall>b. tans_present t b)"

lemma normalized_full:
  assumes "length raw = NETC_TANS_SYMBOLS" and "sum_list raw < 2 ^ 52"
  shows "\<exists>t. netc_tans_build (freq_normalize raw (sum_list raw)) = Some t \<and> full t"
proof -
  note n = freq_normalize_ok [OF assms(1) refl assms(2)]
  obtain t where t: "netc_tans_build (freq_normalize raw (sum_list raw)) = Some t"
    "\<forall>b. tans_present t b \<longleftrightarrow> freq_normalize raw (sum_list raw) ! unat b \<noteq> 0"
    using netc_tans_build_present [OF n(1,2)] by blast
  have "freq_normalize raw (sum_list raw) ! unat (b :: byte) \<noteq> 0" for b
    using n(1,3) nth_mem [of "unat b" "freq_normalize raw (sum_list raw)"] by (auto simp: NETC_TANS_SYMBOLS_def)
  then show ?thesis using t built_buildI [OF t(1) n(1)] by (auto simp: full_def)
qed

lemma rebuild_bucket_full: "full (rebuild_bucket acc acc_total ts b)"
  using normalized_full [OF _ blended_sum_less, of acc acc_total ts b]
  by (auto simp: rebuild_bucket_def freq_normalize_adaptive_def blended_def)

lemma count_byte_lengths:
  "fold (count_byte data) is (freq, tot) = (freq', tot') \<Longrightarrow> length freq' = length freq \<and> length tot' = length tot" for "is"
  by (induction "is" arbitrary: freq tot) (auto simp: count_byte_def Let_def)

lemma adaptive_update_wf:
  assumes wf: "ctx_wf ctx" shows "ctx_wf (netc_adaptive_update ctx data)"
proof (cases "c_adapt_freq ctx")
  case None
  then show ?thesis using wf by (simp add: netc_adaptive_update_def)
next
  case (Some freq)
  obtain freq' tot' where c: "fold (count_byte data) [0..<length data] (freq, c_adapt_total ctx) = (freq', tot')" by fastforce
  note len = count_byte_lengths [OF c]
  have cnt: "unat (c_adapt_pkt_count ctx + 1) < 2 ^ 8"
    using wf Some unat_add_lem [of "c_adapt_pkt_count ctx" 1]
    by (simp add: ctx_wf_def adapt_ok_def NETC_ADAPTIVE_INTERVAL_def)
  let ?c = "ctx\<lparr>c_adapt_freq := Some freq', c_adapt_total := tot', c_adapt_pkt_count := c_adapt_pkt_count ctx + 1\<rparr>"
  obtain ts where ts: "c_adapt_tables ctx = Some ts" "length ts = NETC_CTX_COUNT" "c_dict ctx \<noteq> None \<longrightarrow> (\<forall>t \<in> set ts. built t)"
    using wf Some by (auto simp: ctx_wf_def adapt_ok_def)
  have lzp: "case c_adapt_lzp ctx of None \<Rightarrow> True | Some t \<Rightarrow> length t = NETC_LZP_HT_SIZE"
    and l0: "length freq = NETC_CTX_COUNT * 256" "length (c_adapt_total ctx) = NETC_CTX_COUNT"
    using wf Some by (auto simp: ctx_wf_def adapt_ok_def)
  have upd: "netc_adaptive_update ctx data
      = (if unat (c_adapt_pkt_count ctx + 1) \<ge> NETC_ADAPTIVE_INTERVAL
         then (netc_adaptive_tables_rebuild ?c)\<lparr>c_adapt_pkt_count := 0\<rparr> else ?c)"
    by (simp add: netc_adaptive_update_def Some c Let_def)
  show ?thesis
  proof (cases "unat (c_adapt_pkt_count ctx + 1) \<ge> NETC_ADAPTIVE_INTERVAL")
    case False
    then show ?thesis using wf ts len l0 lzp unfolding upd by (simp add: ctx_wf_def adapt_ok_def)
  next
    case True
    obtain ts' where "length ts' = NETC_CTX_COUNT" "c_dict ctx \<noteq> None \<longrightarrow> (\<forall>t \<in> set ts'. built t)"
      "netc_adaptive_tables_rebuild ?c = ?c\<lparr>c_adapt_tables := Some ts'\<rparr>"
    proof (cases "c_dict ctx")
      case None
      then show ?thesis using ts by (intro that [of ts]) (auto simp: netc_adaptive_tables_rebuild_def)
    next
      case (Some d)
      then show ?thesis using ts rebuild_bucket_full
        by (intro that [of "map (rebuild_bucket freq' tot' (d_tables d)) [0..<NETC_CTX_COUNT]"])
           (auto simp: netc_adaptive_tables_rebuild_def full_def)
    qed
    then show ?thesis using True wf len l0 lzp unfolding upd
      by (simp add: ctx_wf_def adapt_ok_def NETC_ADAPTIVE_INTERVAL_def)
  qed
qed

section \<open>Properties of contexts\<close>

text \<open>
  C11. The ring buffer refines a sliding window: after any sequence of packets the window holds, oldest
  byte first, the last bytes of the old window followed by all packets, and the position stays in range.
\<close>

theorem ring_refines_window:
  assumes "ring_ok ctx" and "c_ring ctx \<noteq> []"
  shows "ring_ok (fold (\<lambda>pkt c. ctx_ring_append c pkt) pkts ctx)
    \<and> ring_window (fold (\<lambda>pkt c. ctx_ring_append c pkt) pkts ctx)
        = drop (length (concat pkts)) (ring_window ctx @ concat pkts)"
  using ring.window_pushes assms by blast

definition scalar_platform :: netc_platform where
  "scalar_platform = \<lparr>built_avx2 = False, built_sse42 = False, built_neon = False, cpu_avx2 = False, cpu_sse42 = False,
     cpu_neon = False, cpu_arm_crc = None\<rparr>"

lemma create_default:
  "netc_ctx_create pf dict (Some \<lparr>cfg_flags = 0x201, cfg_ring_buffer_size = 4, cfg_compression_level = 5,
       cfg_simd_level = 1, cfg_arena_size = 0\<rparr>) \<noteq> None"
  by (simp add: netc_ctx_create_def has_cfg_def NETC_CFG_FLAG_STATEFUL_def NETC_CFG_FLAG_ADAPTIVE_def)

definition sample_ctx :: "netc_platform \<Rightarrow> netc_ctx" where
  "sample_ctx pf = the (netc_ctx_create pf (Some uniform_dict)
     (Some \<lparr>cfg_flags = 0x201, cfg_ring_buffer_size = 4, cfg_compression_level = 5, cfg_simd_level = 1,
       cfg_arena_size = 0\<rparr>))"

lemma sample_ctx_create:
  "netc_ctx_create pf (Some uniform_dict)
     (Some \<lparr>cfg_flags = 0x201, cfg_ring_buffer_size = 4, cfg_compression_level = 5, cfg_simd_level = 1,
       cfg_arena_size = 0\<rparr>) = Some (sample_ctx pf)"
  using create_default by (simp add: sample_ctx_def)

lemma sample_ctx_wf: "ctx_wf (sample_ctx pf)"
  using create_wf [OF sample_ctx_create] uniform_dict_wf by simp

lemma sample_ctx_fields:
  "c_dict (sample_ctx pf) = Some uniform_dict" "c_ring (sample_ctx pf) = [0, 0, 0, 0]" "c_ring_pos (sample_ctx pf) = 0"
  "c_adapt_freq (sample_ctx pf) = Some (replicate (NETC_CTX_COUNT * 256) 0)"
proof -
  have "replicate 4 (0 :: byte) = [0, 0, 0, 0]" by (simp add: numeral_eq_Suc)
  then show "c_dict (sample_ctx pf) = Some uniform_dict" "c_ring (sample_ctx pf) = [0, 0, 0, 0]"
    "c_ring_pos (sample_ctx pf) = 0" "c_adapt_freq (sample_ctx pf) = Some (replicate (NETC_CTX_COUNT * 256) 0)"
    by (simp_all add: sample_ctx_def netc_ctx_create_def has_cfg_def NETC_CFG_FLAG_STATEFUL_def NETC_CFG_FLAG_ADAPTIVE_def)
qed

theorem ring_refines_window_witness:
  "ring_window (fold (\<lambda>pkt c. ctx_ring_append c pkt) [[1, 2], [3, 4, 5], [6]] (sample_ctx scalar_platform)) = [3, 4, 5, 6]"
proof -
  let ?c = "sample_ctx scalar_platform"
  have "ring_ok ?c" "c_ring ?c \<noteq> []" "ring_window ?c = [0, 0, 0, 0]"
    by (simp_all add: ring_ok_def ring_window_def sample_ctx_fields)
  then show ?thesis
    using ring_refines_window [of ?c "[[1, 2], [3, 4, 5], [6]]"] by simp
qed

text \<open>
  Every 128th packet of an adaptive context with a dictionary rebuilds all tables, and a rebuilt
  table codes every byte, whatever bytes were counted; the packet counter starts again.
\<close>

theorem adaptive_rebuild_full:
  assumes "ctx_wf ctx" and "c_dict ctx = Some d" and "c_adapt_freq ctx \<noteq> None"
    and "unat (c_adapt_pkt_count ctx) = NETC_ADAPTIVE_INTERVAL - 1"
  shows "(\<forall>t \<in> set (netc_get_tables (netc_adaptive_update ctx pkt) d). full t)
    \<and> c_adapt_pkt_count (netc_adaptive_update ctx pkt) = 0"
proof -
  obtain freq ts where f: "c_adapt_freq ctx = Some freq" "c_adapt_tables ctx = Some ts"
    using assms(1,3) by (auto simp: ctx_wf_def adapt_ok_def)
  have "unat (c_adapt_pkt_count ctx + 1) = NETC_ADAPTIVE_INTERVAL"
    using assms(4) unat_add_lem [of "c_adapt_pkt_count ctx" 1] by (simp add: NETC_ADAPTIVE_INTERVAL_def)
  then have "netc_adaptive_update ctx pkt = (let (freq, tot) = fold (count_byte pkt) [0..<length pkt] (freq, c_adapt_total ctx)
      in ctx\<lparr>c_adapt_freq := Some freq, c_adapt_total := tot, c_adapt_pkt_count := 0,
          c_adapt_tables := Some (map (rebuild_bucket freq tot (d_tables d)) [0..<NETC_CTX_COUNT])\<rparr>)"
    by (simp add: netc_adaptive_update_def f assms(2) netc_adaptive_tables_rebuild_def Let_def split: prod.split)
  then show ?thesis
    by (auto simp: netc_get_tables_def rebuild_bucket_full Let_def split: prod.split)
qed

theorem adaptive_rebuild_full_witness:
  "list_all full (netc_get_tables (netc_adaptive_update ((sample_ctx scalar_platform)\<lparr>c_adapt_pkt_count := 127\<rparr>) [1, 2])
     uniform_dict)"
proof -
  let ?c = "(sample_ctx scalar_platform)\<lparr>c_adapt_pkt_count := 127\<rparr>"
  have "ctx_wf ?c"
    using sample_ctx_wf [of scalar_platform]
    by (simp add: ctx_wf_def adapt_ok_def NETC_ADAPTIVE_INTERVAL_def sample_ctx_fields)
  then show ?thesis
    using adaptive_rebuild_full [of ?c uniform_dict "[1, 2]"] by (simp add: sample_ctx_fields NETC_ADAPTIVE_INTERVAL_def list_all_iff)
qed

end
