(* ===== verification/Netc_Memory.thy ===== *)
theory Netc_Memory
  imports Netc_Prelude
begin

text \<open>
  Checked memory accesses.  A buffer of the C code is the list of its bytes, so its length is its extent.
  Reading or writing outside the extent is undefined behaviour, and here it is a value: \<open>None\<close> for a single
  access, \<open>C_Undefined\<close> or \<open>F_Undefined\<close> for a routine that contains one.  The coders and the entry points
  access packets, token streams, stack buffers and the caller's destination through these operations, so a
  missing bounds check of the code is a reachable value of the model.
\<close>

section \<open>Results of the entry points\<close>

text \<open>An entry point returns a result code, or it executes something that C leaves undefined.\<close>

datatype fault = F_Result netc_result | F_Undefined

text \<open>\<open>if (rc != 0) return code;\<close> after a call that returns \<open>-1\<close> on failure.\<close>

definition or_fail :: "netc_result \<Rightarrow> cerror + 'a \<Rightarrow> fault + 'a" where
  "or_fail code r = (case r of Inl C_Fail \<Rightarrow> Inl (F_Result code) | Inl C_Undefined \<Rightarrow> Inl F_Undefined | Inr x \<Rightarrow> Inr x)"

section \<open>Accesses\<close>

text \<open>Subtraction of two \<open>size_t\<close> values, which wraps.\<close>

definition size_sub :: "nat \<Rightarrow> nat \<Rightarrow> nat" where
  "size_sub a b = (if b \<le> a then a - b else a + 2 ^ 64 - b)"

definition set_opt :: "'a list \<Rightarrow> nat \<Rightarrow> 'a \<Rightarrow> 'a list option" where
  "set_opt xs i v = (if i < length xs then Some (xs[i := v]) else None)"

text \<open>The \<open>n\<close> bytes at \<open>off\<close>, as the source of a \<open>memcpy\<close> or the extent passed to a callee.\<close>

definition slice :: "'a list \<Rightarrow> nat \<Rightarrow> nat \<Rightarrow> 'a list option" where
  "slice xs off n = (if off + n \<le> length xs then Some (take n (drop off xs)) else None)"

text \<open>A \<open>memcpy\<close> or \<open>memset\<close> to \<open>off\<close>.\<close>

definition buf_write :: "'a list \<Rightarrow> nat \<Rightarrow> 'a list \<Rightarrow> 'a list option" where
  "buf_write dst off xs =
     (if off + length xs \<le> length dst then Some (take off dst @ xs @ drop (off + length xs) dst) else None)"

definition read_u16_at :: "byte list \<Rightarrow> nat \<Rightarrow> u16 option" where
  "read_u16_at p off = map_option netc_read_u16_le (slice p off 2)"

definition read_u32_at :: "byte list \<Rightarrow> nat \<Rightarrow> u32 option" where
  "read_u32_at p off = map_option netc_read_u32_le (slice p off 4)"

text \<open>
  \<open>for (k = 0; k < n; k++) dst[to + k] = dst[p + k]\<close>, byte by byte, so that overlapping copies repeat.
\<close>

primrec copy_bytes :: "nat \<Rightarrow> nat \<Rightarrow> nat \<Rightarrow> byte list \<Rightarrow> byte list option" where
  "copy_bytes to p 0 dst = Some dst"
| "copy_bytes to p (Suc n) dst =
     (case nth_opt dst p of None \<Rightarrow> None
      | Some b \<Rightarrow> (case set_opt dst to b of None \<Rightarrow> None | Some dst \<Rightarrow> copy_bytes (Suc to) (Suc p) n dst))"

text \<open>
  Appending to an output buffer of \<open>cap\<close> bytes (\<open>dst[out++] = \<dots>\<close>), and placing a result in a buffer of
  fixed size.
\<close>

definition append_cap :: "nat \<Rightarrow> 'a list \<Rightarrow> 'a list \<Rightarrow> cerror + 'a list" where
  "append_cap cap out xs = (if length out + length xs \<le> cap then Inr (out @ xs) else Inl C_Undefined)"

definition into_buf :: "nat \<Rightarrow> 'a list \<Rightarrow> cerror + 'a list" where
  "into_buf cap xs = append_cap cap [] xs"

section \<open>Their laws\<close>

lemma size_sub_exact [simp]: "b \<le> a \<Longrightarrow> size_sub a b = a - b"
  by (simp add: size_sub_def)

lemma slice_Some [simp]: "off + n \<le> length xs \<Longrightarrow> slice xs off n = Some (take n (drop off xs))"
  and slice_None [simp]: "length xs < off + n \<Longrightarrow> slice xs off n = None"
  by (simp_all add: slice_def)

lemma slice_eq_Some: "slice xs off n = Some ys \<longleftrightarrow> off + n \<le> length xs \<and> ys = take n (drop off xs)"
  by (auto simp: slice_def)

lemma buf_write_Some:
  "off + length xs \<le> length dst \<Longrightarrow> buf_write dst off xs = Some ((take off dst @ xs) @ drop (off + length xs) dst)"
  by (simp add: buf_write_def)

lemma buf_write_whole: "length xs \<le> length dst \<Longrightarrow> buf_write dst 0 xs = Some (xs @ drop (length xs) dst)"
  by (simp add: buf_write_def)

lemma append_cap_Inr: "append_cap cap out xs = Inr out' \<longleftrightarrow> length out + length xs \<le> cap \<and> out' = out @ xs"
  and append_cap_fits [simp]: "length out + length xs \<le> cap \<Longrightarrow> append_cap cap out xs = Inr (out @ xs)"
  by (auto simp: append_cap_def)

lemma append_cap_not_fail: "append_cap cap out xs \<noteq> Inl C_Fail"
  by (simp add: append_cap_def)

lemma into_buf_Inr: "into_buf cap xs = Inr ys \<longleftrightarrow> length xs \<le> cap \<and> ys = xs"
  and into_buf_fits [simp]: "length xs \<le> cap \<Longrightarrow> into_buf cap xs = Inr xs"
  by (auto simp: into_buf_def append_cap_def)

lemma read_u16_at_Some [simp]: "off + 2 \<le> length p \<Longrightarrow> read_u16_at p off = Some (netc_read_u16_le (drop off p))"
  and read_u32_at_Some [simp]: "off + 4 \<le> length p \<Longrightarrow> read_u32_at p off = Some (netc_read_u32_le (drop off p))"
  by (simp_all add: read_u16_at_def read_u32_at_def netc_read_u16_le_def netc_read_u32_le_def)

text \<open>The bytes that a back-reference appends to those already written.\<close>

definition copy_back :: "nat \<Rightarrow> nat \<Rightarrow> byte list \<Rightarrow> byte list" where
  "copy_back copy_from match_len dst = fold (\<lambda>k d. d @ [d ! (copy_from + k)]) [0..<match_len] dst"

lemma length_copy_back [simp]: "length (copy_back p n d) = length d + n"
  by (induction n) (simp_all add: copy_back_def)

lemma copy_back_Suc: "copy_back p (Suc n) d = copy_back (Suc p) n (d @ [d ! p])"
proof -
  have "[0..<Suc n] = 0 # map Suc [0..<n]" by (simp add: map_Suc_upt upt_conv_Cons del: upt_Suc)
  then show ?thesis by (simp add: copy_back_def fold_map o_def del: upt_Suc)
qed

lemma copy_bytes_appends:
  assumes "p < length d" and "n \<le> length rest"
  shows "copy_bytes (length d) p n (d @ rest) = Some (copy_back p n d @ drop n rest)"
  using assms
proof (induction n arbitrary: p d rest)
  case (Suc n)
  then obtain r rs where rest: "rest = r # rs" by (cases rest) auto
  let ?d = "d @ [d ! p]"
  have "copy_bytes (length d) p (Suc n) (d @ rest) = copy_bytes (length ?d) (Suc p) n (?d @ rs)"
    using Suc.prems(1) by (simp add: rest nth_opt_def set_opt_def nth_append)
  also have "\<dots> = Some (copy_back (Suc p) n ?d @ drop n rs)"
    using Suc.prems by (intro Suc.IH) (simp_all add: rest)
  finally show ?case by (simp add: rest copy_back_Suc)
qed (simp add: copy_back_def)

lemma copy_bytes_Some:
  assumes "p < out" and "out + n \<le> length dst"
  shows "copy_bytes out p n dst = Some (copy_back p n (take out dst) @ drop (out + n) dst)"
  using copy_bytes_appends [of p "take out dst" n "drop out dst"] assms by (simp add: add.commute)

lemma copy_back_take:
  assumes "p < i" and "i + n \<le> length src" and "\<And>k. k < n \<Longrightarrow> src ! (p + k) = src ! (i + k)"
  shows "copy_back p n (take i src) = take (i + n) src"
  using assms(2,3)
proof (induction n)
  case (Suc n)
  have "copy_back p (Suc n) (take i src) = take (i + n) src @ [take (i + n) src ! (p + n)]"
    using Suc by (simp add: copy_back_def)
  also have "take (i + n) src ! (p + n) = src ! (i + n)"
    using assms(1) Suc.prems by simp
  finally show ?case using Suc.prems by (simp add: take_Suc_conv_app_nth)
qed (simp add: copy_back_def)

section \<open>Decoding into a buffer\<close>

text \<open>
  \<open>on_buffer r dst n\<close> places the outcome \<open>r\<close> of decoding \<open>n\<close> bytes at the start of the buffer \<open>dst\<close>; the bytes
  behind them stay.  \<open>fills_exactly\<close> is the promise of a decoder to its caller: it reports a corrupt stream,
  or it writes exactly the first \<open>n\<close> bytes.
\<close>

definition on_buffer :: "netc_result + byte list \<Rightarrow> byte list \<Rightarrow> nat \<Rightarrow> fault + byte list" where
  "on_buffer r dst n = (case r of Inl e \<Rightarrow> Inl (F_Result e) | Inr d \<Rightarrow> Inr (d @ drop n dst))"

definition fills_exactly :: "fault + byte list \<Rightarrow> byte list \<Rightarrow> nat \<Rightarrow> bool" where
  "fills_exactly r dst n \<longleftrightarrow>
     r = Inl (F_Result NETC_ERR_CORRUPT) \<or> (\<exists>d. length d = n \<and> r = Inr (d @ drop n dst))"

lemma on_buffer_simps [simp]:
  "on_buffer (Inl e) dst n = Inl (F_Result e)" "on_buffer (Inr d) dst n = Inr (d @ drop n dst)"
  by (simp_all add: on_buffer_def)

lemma on_buffer_behind: "length d \<le> n \<Longrightarrow> on_buffer r (d @ drop (length d) dst) n = on_buffer r dst n"
proof -
  assume "length d \<le> n"
  then have "drop n (d @ drop (length d) dst) = drop n dst" by simp
  then show ?thesis by (simp add: on_buffer_def split: sum.split)
qed

text \<open>Room for the \<open>n\<close> bytes that a decoder is about to write from \<open>off\<close> on; then its output.\<close>

definition decode_into :: "byte list \<Rightarrow> nat \<Rightarrow> nat \<Rightarrow> fault + byte list \<Rightarrow> fault + byte list" where
  "decode_into dst off n r = (if off + n > length dst then Inl F_Undefined else r)"

lemma decode_into_room [simp]: "off + n \<le> length dst \<Longrightarrow> decode_into dst off n r = r"
  by (simp add: decode_into_def)

end
