(* ===== verification/Netc_Lz.thy ===== *)
theory Netc_Lz
  imports Netc_Memory
begin

text \<open>
  The match coders of the packet pipeline: run-length coding and the two LZ77 token streams, within
  a packet (\<open>lz77\<close>) and against the ring buffer of earlier packets (\<open>lz77x\<close>).  The encoders are
  in \<open>src/src/core/netc_compress.c\<close>, the decoders in \<open>src/src/core/netc_decompress.c\<close>.

  A decoder reads its token stream by index and writes into the caller's buffer at the position
  \<open>out\<close>; its result is the buffer afterwards.  Every access is checked, so a read of the stream, of the
  output or of the ring outside its extent, and a write behind the buffer, are \<open>F_Undefined\<close>.  An encoder
  appends tokens to a buffer of \<open>lz_cap\<close> bytes; \<open>(size_t)-1\<close> is \<open>C_Fail\<close>, and an access outside the packet, a
  hash table or the token buffer is \<open>C_Undefined\<close>.  Hash tables are lists of optional positions, \<open>None\<close> for
  the empty marker.

  \<open>rle_stream\<close>, \<open>lz77_stream\<close> and \<open>lz77x_stream\<close> say what a token stream denotes, as functions on the bytes decoded
  so far.  The decoders refine them on every buffer with room for the packet, and the encoders are shown to
  emit streams that denote the packet.
\<close>

section \<open>Hashes and match lengths\<close>

definition fnv1a_hash3 :: "byte \<Rightarrow> byte \<Rightarrow> byte \<Rightarrow> u32" where
  "fnv1a_hash3 p0 p1 p2 =
     (let h = 2166136261;
          h = (h XOR ucast p0) * 16777619;
          h = (h XOR ucast p1) * 16777619
      in (h XOR ucast p2) * 16777619)"

definition ring_ht_hash3 :: "byte \<Rightarrow> byte \<Rightarrow> byte \<Rightarrow> nat" where
  "ring_ht_hash3 p0 p1 p2 = unat (fnv1a_hash3 p0 p1 p2 AND 4095)"

definition lz77_hash3 :: "byte \<Rightarrow> byte \<Rightarrow> byte \<Rightarrow> nat" where
  "lz77_hash3 p0 p1 p2 = unat (fnv1a_hash3 p0 p1 p2 AND 1023)"

definition lz77x_hash3 :: "byte \<Rightarrow> byte \<Rightarrow> byte \<Rightarrow> nat" where
  "lz77x_hash3 p0 p1 p2 = unat (fnv1a_hash3 p0 p1 p2 AND 4095)"

text \<open>\<open>hash(src + i)\<close>: the hash of the three bytes at \<open>i\<close>.\<close>

definition hash_at :: "(byte \<Rightarrow> byte \<Rightarrow> byte \<Rightarrow> nat) \<Rightarrow> byte list \<Rightarrow> nat \<Rightarrow> nat option" where
  "hash_at hash src i =
     (case (nth_opt src i, nth_opt src (i + 1), nth_opt src (i + 2)) of
        (Some p0, Some p1, Some p2) \<Rightarrow> Some (hash p0 p1 p2)
      | _ \<Rightarrow> None)"

text \<open>\<open>pos = ht[h]; ht[h] = i\<close> for the hash \<open>h\<close> at position \<open>i\<close>: the old entry and the new table.\<close>

definition ht_probe ::
    "(byte \<Rightarrow> byte \<Rightarrow> byte \<Rightarrow> nat) \<Rightarrow> byte list \<Rightarrow> nat option list \<Rightarrow> nat \<Rightarrow> cerror + (nat option \<times> nat option list)" where
  "ht_probe hash src ht i =
     (case hash_at hash src i of None \<Rightarrow> Inl C_Undefined
      | Some h \<Rightarrow> (case nth_opt ht h of None \<Rightarrow> Inl C_Undefined | Some entry \<Rightarrow> Inr (entry, ht[h := Some i])))"

primrec ht_insert_all ::
    "(byte \<Rightarrow> byte \<Rightarrow> byte \<Rightarrow> nat) \<Rightarrow> byte list \<Rightarrow> nat list \<Rightarrow> nat option list \<Rightarrow> cerror + nat option list" where
  "ht_insert_all hash src [] ht = Inr ht"
| "ht_insert_all hash src (p # ps) ht =
     (case ht_probe hash src ht p of Inl e \<Rightarrow> Inl e | Inr (entry, ht) \<Rightarrow> ht_insert_all hash src ps ht)"

text \<open>\<open>for (k = 1; k < best_len && i + k + 3 <= src_size; k++)\<close>: hash the skipped positions.\<close>

definition ht_skip ::
    "(byte \<Rightarrow> byte \<Rightarrow> byte \<Rightarrow> nat) \<Rightarrow> byte list \<Rightarrow> nat \<Rightarrow> nat \<Rightarrow> nat option list \<Rightarrow> cerror + nat option list" where
  "ht_skip hash src i best_len ht =
     ht_insert_all hash src (filter (\<lambda>p. p + 3 \<le> length src) [i + 1..<i + best_len]) ht"

text \<open>\<open>while (m < max_m && a[m] == b[m]) m++\<close> on two buffers, read through \<open>a\<close> and \<open>b\<close>.\<close>

function match_run :: "(nat \<Rightarrow> byte option) \<Rightarrow> (nat \<Rightarrow> byte option) \<Rightarrow> nat \<Rightarrow> nat \<Rightarrow> cerror + nat" where
  "match_run a b m max_m =
     (if m < max_m
      then case (a m, b m) of
             (Some x, Some y) \<Rightarrow> if x = y then match_run a b (Suc m) max_m else Inr m
           | _ \<Rightarrow> Inl C_Undefined
      else Inr m)"
  by pat_completeness auto
termination
  by (relation "measure (\<lambda>(a, b, m, max_m). max_m - m)") auto

declare match_run.simps [simp del]

lemma match_run_sound:
  assumes "match_run a b k m = Inr r" and "k \<le> m"
  shows "k \<le> r \<and> r \<le> m \<and> (\<forall>j. k \<le> j \<longrightarrow> j < r \<longrightarrow> (\<exists>x. a j = Some x \<and> b j = Some x))"
  using assms
proof (induction a b k m rule: match_run.induct)
  case (1 a b k m)
  show ?case
  proof (cases "k < m \<and> (\<exists>x. a k = Some x \<and> b k = Some x)")
    case True
    then obtain x where x: "k < m" "a k = Some x" "b k = Some x" by blast
    then have rec: "match_run a b (Suc k) m = Inr r" using 1(2) by (simp add: match_run.simps [of a b k])
    have IH: "Suc k \<le> r" "r \<le> m" "\<forall>j. Suc k \<le> j \<longrightarrow> j < r \<longrightarrow> (\<exists>x. a j = Some x \<and> b j = Some x)"
      using 1(1) [OF x(1) refl x(2,3) refl rec] x(1) by auto
    have "\<exists>x. a j = Some x \<and> b j = Some x" if "k \<le> j" "j < r" for j
      using IH(3) x that by (cases "j = k") auto
    then show ?thesis using IH by auto
  next
    case False
    then have "r = k" using 1(2) by (auto simp: match_run.simps [of a b k] split: if_splits option.splits)
    then show ?thesis using 1(3) by auto
  qed
qed

lemma match_run_defined:
  assumes "\<And>j. j < m \<Longrightarrow> a j \<noteq> None \<and> b j \<noteq> None"
  shows "\<exists>r. match_run a b k m = Inr r"
  using assms
proof (induction a b k m rule: match_run.induct)
  case (1 a b k m)
  show ?case
  proof (cases "k < m")
    case True
    then obtain x y where xy: "a k = Some x" "b k = Some y" using 1(2) by blast
    then show ?thesis using 1(1) [OF True refl xy] 1(2) True by (cases "x = y") (auto simp: match_run.simps [of a b k])
  qed (simp add: match_run.simps [of a b k])
qed

subsection \<open>Hash tables\<close>

text \<open>A table of \<open>size\<close> entries, all of them positions before \<open>i\<close>.\<close>

definition ht_inv :: "nat \<Rightarrow> nat option list \<Rightarrow> nat \<Rightarrow> bool" where
  "ht_inv n ht i \<longleftrightarrow> length ht = n \<and> (\<forall>p. Some p \<in> set ht \<longrightarrow> p < i)"

lemma ht_inv_init: "ht_inv n (replicate n None) i"
  by (simp add: ht_inv_def)

lemma ht_inv_update: "ht_inv n ht i \<Longrightarrow> p < j \<Longrightarrow> i \<le> j \<Longrightarrow> ht_inv n (ht[h := Some p]) j"
  using set_update_subset_insert [of ht h "Some p"] by (fastforce simp: ht_inv_def)

lemma ht_inv_mono: "ht_inv n ht i \<Longrightarrow> i \<le> j \<Longrightarrow> ht_inv n ht j"
  by (fastforce simp: ht_inv_def)

lemma fnv_mask_less: "unat (w AND 1023 :: u32) < 1024" "unat (w AND 4095 :: u32) < 4096"
proof -
  have "w AND 1023 \<le> 1023" "w AND 4095 \<le> 4095" by (simp_all add: word_and_le1)
  then show "unat (w AND 1023) < 1024" "unat (w AND 4095) < 4096"
    by (simp_all add: word_le_nat_alt)
qed

lemma lz77_hash3_less: "lz77_hash3 a b c < 1024" and lz77x_hash3_less: "lz77x_hash3 a b c < 4096"
  unfolding lz77_hash3_def lz77x_hash3_def by (rule fnv_mask_less)+

lemma hash_at_Some: "i + 3 \<le> length src \<Longrightarrow> hash_at hash src i = Some (hash (src ! i) (src ! (i + 1)) (src ! (i + 2)))"
  by (simp add: hash_at_def)

lemma ht_probe_ok:
  assumes "ht_inv n ht i" and "\<And>a b c. hash a b c < n" and "i + 3 \<le> length src"
  shows "\<exists>entry ht'. ht_probe hash src ht i = Inr (entry, ht') \<and> (\<forall>p. entry = Some p \<longrightarrow> p < i) \<and> (\<forall>j > i. ht_inv n ht' j)"
proof -
  define h where "h = hash (src ! i) (src ! (i + 1)) (src ! (i + 2))"
  have h: "h < length ht" using assms(1,2) by (simp add: h_def ht_inv_def)
  then have "ht_probe hash src ht i = Inr (ht ! h, ht[h := Some i])"
    using assms(3) by (simp add: ht_probe_def hash_at_Some h_def)
  moreover have "ht ! h = Some p \<longrightarrow> p < i" for p
    using assms(1) h by (metis ht_inv_def nth_mem)
  ultimately show ?thesis using ht_inv_update [OF assms(1), of i] by auto
qed

lemma ht_insert_all_ok:
  assumes "ht_inv n ht j" and "\<And>a b c. hash a b c < n" and "\<forall>p \<in> set ps. p + 3 \<le> length src \<and> p < j"
  shows "\<exists>ht'. ht_insert_all hash src ps ht = Inr ht' \<and> ht_inv n ht' j"
  using assms(1,3)
proof (induction ps arbitrary: ht)
  case (Cons p ps)
  define h where "h = hash (src ! p) (src ! (p + 1)) (src ! (p + 2))"
  have "h < length ht" using Cons.prems(1) assms(2) by (simp add: h_def ht_inv_def)
  then have "ht_probe hash src ht p = Inr (ht ! h, ht[h := Some p])"
    using Cons.prems(2) by (simp add: ht_probe_def hash_at_Some h_def)
  moreover have "ht_inv n (ht[h := Some p]) j" using ht_inv_update [OF Cons.prems(1), of p j] Cons.prems(2) by simp
  ultimately show ?case using Cons.IH Cons.prems(2) by simp
qed simp

lemma ht_skip_ok:
  assumes "ht_inv n ht (i + len)" and "\<And>a b c. hash a b c < n"
  shows "\<exists>ht'. ht_skip hash src i len ht = Inr ht' \<and> ht_inv n ht' (i + len)"
  unfolding ht_skip_def using assms by (intro ht_insert_all_ok) auto

text \<open>\<open>run_while P k m\<close> is \<open>while (k < m && P(k)) k++\<close>.\<close>

function run_while :: "(nat \<Rightarrow> bool) \<Rightarrow> nat \<Rightarrow> nat \<Rightarrow> nat" where
  "run_while P k m = (if k < m \<and> P k then run_while P (Suc k) m else k)"
  by pat_completeness auto
termination
  by (relation "measure (\<lambda>(P, k, m). m - k)") auto

declare run_while.simps [simp del]

lemma run_while_bounds:
  "k \<le> m \<Longrightarrow> k \<le> run_while P k m \<and> run_while P k m \<le> m \<and> (\<forall>j. k \<le> j \<longrightarrow> j < run_while P k m \<longrightarrow> P j)"
proof (induction P k m rule: run_while.induct)
  case (1 P k m)
  show ?case
  proof (cases "k < m \<and> P k")
    case True
    with 1 have IH: "Suc k \<le> run_while P (Suc k) m" "run_while P (Suc k) m \<le> m"
      "\<forall>j. Suc k \<le> j \<longrightarrow> j < run_while P (Suc k) m \<longrightarrow> P j" by auto
    have "P j" if "k \<le> j" "j < run_while P (Suc k) m" for j
      using IH(3) True that by (cases "j = k") auto
    with IH True show ?thesis by (simp add: run_while.simps [of P k m])
  next
    case False
    with 1 show ?thesis by (auto simp: run_while.simps [of P k m])
  qed
qed

lemmas run_while_ge = run_while_bounds [THEN conjunct1]
  and run_while_le = run_while_bounds [THEN conjunct2, THEN conjunct1]
  and run_while_holds = run_while_bounds [THEN conjunct2, THEN conjunct2, rule_format]

section \<open>Run-length coding\<close>

function rle_encode_loop :: "byte list \<Rightarrow> nat \<Rightarrow> nat \<Rightarrow> nat \<Rightarrow> byte list \<Rightarrow> byte list option" where
  "rle_encode_loop src src_size rle_cap i out =
     (if i < src_size
      then let sy = src ! i;
               run = run_while (\<lambda>run. i + run < src_size \<and> src ! (i + run) = sy) 1 255
           in if length out + 2 > rle_cap then None
              else rle_encode_loop src src_size rle_cap (i + run) (out @ [word_of_nat run, sy])
      else Some out)"
  by pat_completeness auto
termination
proof (relation "measure (\<lambda>(src, src_size, rle_cap, i, out). src_size - i)", goal_cases)
  case (2 src src_size rle_cap i out sy run)
  have "1 \<le> run" using 2 run_while_ge [of 1 255] by simp
  with 2 show ?case by simp
qed simp

declare rle_encode_loop.simps [simp del]

definition rle_encode :: "byte list \<Rightarrow> nat \<Rightarrow> byte list option" where
  "rle_encode src rle_cap = rle_encode_loop src (length src) rle_cap 0 []"
function rle_decode_loop :: "byte list \<Rightarrow> nat \<Rightarrow> nat \<Rightarrow> nat \<Rightarrow> byte list \<Rightarrow> fault + byte list" where
  "rle_decode_loop rle_src orig_size i out dst =
     (if i + 1 < length rle_src
      then case (nth_opt rle_src i, nth_opt rle_src (i + 1)) of
             (Some count, Some sy) \<Rightarrow>
               if count = 0 \<or> out + unat count > orig_size then Inl (F_Result NETC_ERR_CORRUPT)
               else (case buf_write dst out (replicate (unat count) sy) of None \<Rightarrow> Inl F_Undefined
                     | Some dst \<Rightarrow> rle_decode_loop rle_src orig_size (i + 2) (out + unat count) dst)
           | _ \<Rightarrow> Inl F_Undefined
      else if i \<noteq> length rle_src \<or> out \<noteq> orig_size then Inl (F_Result NETC_ERR_CORRUPT)
      else Inr dst)"
  by pat_completeness auto
termination
  by (relation "measure (\<lambda>(rle_src, orig_size, i, out, dst). length rle_src - i)") auto

declare rle_decode_loop.simps [simp del]

definition rle_decode :: "byte list \<Rightarrow> byte list \<Rightarrow> nat \<Rightarrow> fault + byte list" where
  "rle_decode rle_src dst orig_size = rle_decode_loop rle_src orig_size 0 0 dst"

text \<open>What a run-length stream denotes, after the bytes \<open>d\<close>.\<close>

fun rle_stream :: "byte list \<Rightarrow> byte list \<Rightarrow> nat \<Rightarrow> netc_result + byte list" where
  "rle_stream (count # sy # rest) d n =
     (if count = 0 \<or> length d + unat count > n then Inl NETC_ERR_CORRUPT
      else rle_stream rest (d @ replicate (unat count) sy) n)"
| "rle_stream rest d n = (if rest \<noteq> [] \<or> length d \<noteq> n then Inl NETC_ERR_CORRUPT else Inr d)"

lemma drop_pair: "i + 1 < length xs \<Longrightarrow> drop i xs = xs ! i # xs ! (i + 1) # drop (i + 2) xs"
  by (simp add: Cons_nth_drop_Suc)

lemma drop_no_pair:
  assumes "i \<le> length xs" and "\<not> i + 1 < length xs"
  shows "rle_stream (drop i xs) d n = (if i \<noteq> length xs \<or> length d \<noteq> n then Inl NETC_ERR_CORRUPT else Inr d)"
proof (cases "i = length xs")
  case False
  then have i: "i < length xs" "drop (Suc i) xs = []" using assms by simp_all
  then have "drop i xs = [xs ! i]" using Cons_nth_drop_Suc [OF i(1)] by simp
  then show ?thesis using False by simp
qed simp

lemma rle_decode_loop_refines:
  assumes "i \<le> length rle" and "out \<le> n" and "n \<le> length dst"
  shows "rle_decode_loop rle n i out dst = on_buffer (rle_stream (drop i rle) (take out dst) n) dst n"
  using assms
proof (induction rle n i out dst rule: rle_decode_loop.induct)
  case (1 rle n i out dst)
  note unf = rle_decode_loop.simps [of rle n i out dst]
  show ?case
  proof (cases "i + 1 < length rle")
    case False
    then show ?thesis using "1.prems" drop_no_pair [OF _ False] by (simp add: unf on_buffer_def)
  next
    case True
    define c where "c = rle ! i"
    define sy where "sy = rle ! (i + 1)"
    define d where "d = take out dst @ replicate (unat c) sy"
    have rd: "nth_opt rle i = Some c" "nth_opt rle (i + 1) = Some sy" using True by (simp_all add: c_def sy_def)
    have pair: "drop i rle = c # sy # drop (i + 2) rle" using drop_pair [OF True] by (simp add: c_def sy_def)
    have tk: "length (take out dst) = out" using "1.prems" by simp
    show ?thesis
    proof (cases "c = 0 \<or> out + unat c > n")
      case bad: True
      then show ?thesis using True rd tk by (simp add: unf pair)
    next
      case ok: False
      have len: "length d = out + unat c" using tk by (simp add: d_def)
      have w: "buf_write dst out (replicate (unat c) sy) = Some (d @ drop (length d) dst)"
        using ok "1.prems" buf_write_Some [of out "replicate (unat c) sy" dst] len by (simp add: d_def)
      have "rle_decode_loop rle n i out dst = rle_decode_loop rle n (i + 2) (out + unat c) (d @ drop (length d) dst)"
        using True rd ok w by (simp add: unf)
      also have "\<dots> = on_buffer (rle_stream (drop (i + 2) rle) (take (out + unat c) (d @ drop (length d) dst)) n)
          (d @ drop (length d) dst) n"
        using "1.IH" [OF True refl rd ok w] True ok "1.prems" len by simp
      also have "\<dots> = on_buffer (rle_stream (drop (i + 2) rle) d n) dst n"
        using ok len on_buffer_behind [of d n _ dst] by simp
      finally show ?thesis using ok tk by (simp add: pair d_def)
    qed
  qed
qed

lemma rle_decode_refines: "n \<le> length dst \<Longrightarrow> rle_decode rle dst n = on_buffer (rle_stream rle [] n) dst n"
  by (simp add: rle_decode_def rle_decode_loop_refines)

lemma take_replicate_run:
  assumes "\<forall>j < n. i + j < length src \<and> src ! (i + j) = b"
  shows "take (i + n) src = take i src @ replicate n b"
  using assms
proof (induction n)
  case (Suc n)
  have n: "i + n < length src" "src ! (i + n) = b" using Suc.prems by blast+
  have IH: "take (i + n) src = take i src @ replicate n b" using Suc by simp
  have "take (i + Suc n) src = take (i + n) src @ [b]"
    using n by (simp add: take_Suc_conv_app_nth)
  then show ?case using IH by (simp add: replicate_append_same)
qed simp

lemma rle_loop_decodes:
  assumes "rle_encode_loop src (length src) cap i out = Some enc" and "i \<le> length src"
    and "\<And>rest. rle_stream (out @ rest) [] (length src) = rle_stream rest (take i src) (length src)"
  shows "rle_stream enc [] (length src) = Inr src"
  using assms
proof (induction src "length src" cap i out rule: rle_encode_loop.induct)
  case (1 src cap i out)
  show ?case
  proof (cases "i < length src")
    case False
    then show ?thesis
      using 1(2,3) 1(4) [of "[]"] by (simp add: rle_encode_loop.simps [of src "length src" cap "length src"])
  next
    case True
    define sy where "sy = src ! i"
    define run where "run = run_while (\<lambda>run. i + run < length src \<and> src ! (i + run) = sy) 1 255"
    have run: "1 \<le> run" "run \<le> 255" unfolding run_def by (auto intro: run_while_ge run_while_le)
    have eq: "\<forall>j < run. i + j < length src \<and> src ! (i + j) = sy"
    proof (intro allI impI)
      fix j assume "j < run"
      then show "i + j < length src \<and> src ! (i + j) = sy"
        using True run_while_holds [of 1 255 j "\<lambda>run. i + run < length src \<and> src ! (i + run) = sy"]
        by (cases "j = 0") (auto simp: sy_def run_def [unfolded sy_def])
    qed
    have le: "i + run \<le> length src"
    proof -
      have "run - 1 < run" using run by simp
      then have "i + (run - 1) < length src" using eq by blast
      then show ?thesis using run by linarith
    qed
    have enc: "\<not> length out + 2 > cap"
      "rle_encode_loop src (length src) cap (i + run) (out @ [word_of_nat run, sy]) = Some enc"
      using 1(2) True
      by (auto simp: rle_encode_loop.simps [of src _ cap i out] Let_def sy_def run_def split: if_splits)
    have u: "unat (word_of_nat run :: byte) = run" using run by (simp add: unat_of_nat_byte)
    then have "(word_of_nat run :: byte) \<noteq> 0" using run by (metis not_one_le_zero unat_eq_0)
    then have "rle_stream ((out @ [word_of_nat run, sy]) @ rest) [] (length src)
        = rle_stream rest (take (i + run) src) (length src)" for rest
      using 1(4) [of "word_of_nat run # sy # rest"] le u take_replicate_run [OF eq] by simp
    with 1(1) [OF True sy_def run_def] enc le show ?thesis by blast
  qed
qed

lemma rle_encode_loop_room:
  assumes "length out + 2 * (n - i) \<le> cap"
  shows "\<exists>enc. rle_encode_loop src n cap i out = Some enc"
  using assms
proof (induction src n cap i out rule: rle_encode_loop.induct)
  case (1 src n cap i out)
  show ?case
  proof (cases "i < n")
    case True
    define sy where "sy = src ! i"
    define run where "run = run_while (\<lambda>run. i + run < n \<and> src ! (i + run) = sy) 1 255"
    have "1 \<le> run" unfolding run_def by (auto intro: run_while_ge)
    then have "\<exists>enc. rle_encode_loop src n cap (i + run) (out @ [word_of_nat run, sy]) = Some enc"
      using 1(1) [OF True sy_def run_def] 1(2) True by simp
    then show ?thesis
      using 1(2) True by (simp add: rle_encode_loop.simps [of src n cap i out] Let_def sy_def run_def)
  next
    case False
    then show ?thesis by (simp add: rle_encode_loop.simps [of src n cap i out])
  qed
qed

lemma rle_decode_encode:
  assumes "rle_encode src cap = Some enc" and "length src \<le> length dst"
  shows "rle_decode enc dst (length src) = Inr (src @ drop (length src) dst)"
proof -
  have "rle_stream enc [] (length src) = Inr src"
    using assms(1) unfolding rle_encode_def by (rule rle_loop_decodes) auto
  then show ?thesis using assms(2) by (simp add: rle_decode_refines)
qed

text \<open>
   Run-length coding succeeds whenever the buffer has two bytes per input byte, and decoding
  returns the input.
\<close>

theorem rle_roundtrip:
  assumes "2 * length src \<le> rle_cap" and "length src \<le> length dst"
  shows "\<exists>enc. rle_encode src rle_cap = Some enc \<and> rle_decode enc dst (length src) = Inr (src @ drop (length src) dst)"
  using rle_encode_loop_room [of "[]" "length src" 0 rle_cap src] rle_decode_encode assms
  by (fastforce simp: rle_encode_def)

theorem rle_roundtrip_witness:
  "\<exists>enc. rle_encode [5, 5, 5, 9] 8 = Some enc \<and> rle_decode enc [0, 0, 0, 0, 1] 4 = Inr [5, 5, 5, 9, 1]"
  using rle_roundtrip [of "[5, 5, 5, 9]" 8 "[0, 0, 0, 0, 1]"] by (simp add: eval_nat_numeral)

section \<open>LZ77 tokens\<close>

function lz_flush_lits :: "byte list \<Rightarrow> nat \<Rightarrow> nat \<Rightarrow> nat \<Rightarrow> byte list \<Rightarrow> cerror + byte list" where
  "lz_flush_lits src lz_cap ls le out =
     (if ls < le
      then let ll = (if le - ls > 128 then 128 else le - ls)
           in if length out + 1 + ll > lz_cap then Inl C_Fail
              else case slice src ls ll of None \<Rightarrow> Inl C_Undefined
                   | Some lits \<Rightarrow>
                       (case append_cap lz_cap out (word_of_nat (ll - 1) # lits) of Inl e \<Rightarrow> Inl e
                        | Inr out \<Rightarrow> lz_flush_lits src lz_cap (ls + ll) le out)
      else Inr out)"
  by pat_completeness auto
termination
  by (relation "measure (\<lambda>(src, lz_cap, ls, le, out). le - ls)") (auto split: if_splits)

declare lz_flush_lits.simps [simp del]

lemma flush_lits_step:
  assumes "ls < le" and "le \<le> length src" and "ll = (if le - ls > 128 then 128 else le - ls)"
  shows "lz_flush_lits src cap ls le out =
    (if length out + 1 + ll > cap then Inl C_Fail
     else lz_flush_lits src cap (ls + ll) le (out @ word_of_nat (ll - 1) # take ll (drop ls src)))"
proof -
  have "ls + ll \<le> length src" using assms by auto
  then have "slice src ls ll = Some (take ll (drop ls src))" "length (take ll (drop ls src)) = ll" by simp_all
  then show ?thesis
    using assms(1) unfolding lz_flush_lits.simps [of src cap ls le out] Let_def assms(3) [symmetric]
    by (simp add: append_cap_def)
qed

lemma flush_lits_defined:
  "le \<le> length src \<Longrightarrow> lz_flush_lits src cap ls le out \<noteq> Inl C_Undefined"
proof (induction "le - ls" arbitrary: ls out rule: less_induct)
  case less
  define ll where "ll = (if le - ls > 128 then 128 else le - ls)"
  show ?case
  proof (cases "ls < le")
    case True
    then have "0 < ll" by (simp add: ll_def)
    then show ?thesis using less True flush_lits_step [OF True less.prems ll_def, of cap out] by simp
  qed (simp add: lz_flush_lits.simps [of src cap ls le out])
qed

lemma flush_lits_fits:
  "length out \<le> cap \<Longrightarrow> lz_flush_lits src cap ls le out = Inr out' \<Longrightarrow> length out' \<le> cap"
proof (induction src cap ls le out rule: lz_flush_lits.induct)
  case (1 src cap ls le out)
  then show ?case
    by (auto simp: lz_flush_lits.simps [of src cap ls le out] Let_def append_cap_Inr
        split: if_splits option.splits sum.splits)
qed

text \<open>
  What both token streams promise for a literal run: it appends its bytes.  Flushing the pending
  literals therefore advances the decoded prefix.
\<close>

locale lz_stream =
  fixes run :: "byte list \<Rightarrow> byte list \<Rightarrow> nat \<Rightarrow> 'res"
  assumes literal_run: "lits \<noteq> [] \<Longrightarrow> length lits \<le> 128 \<Longrightarrow> length d + length lits \<le> n \<Longrightarrow>
    run (word_of_nat (length lits - 1) # lits @ rest) d n = run rest (d @ lits) n"
begin

text \<open>The tokens \<open>out\<close> denote the first \<open>i\<close> bytes of the packet.\<close>

definition denotes :: "byte list \<Rightarrow> byte list \<Rightarrow> nat \<Rightarrow> bool" where
  "denotes src out i \<longleftrightarrow> (\<forall>rest. run (out @ rest) [] (length src) = run rest (take i src) (length src))"

lemma denotes_Nil: "denotes src [] 0"
  by (simp add: denotes_def)

lemma denotes_append:
  assumes "denotes src out i" and "\<And>rest. run (ts @ rest) (take i src) (length src) = run rest (take j src) (length src)"
  shows "denotes src (out @ ts) j"
  using assms by (simp add: denotes_def)

lemma flush_lits_decodes:
  assumes "lz_flush_lits src cap ls le out = Inr out'" and "ls \<le> le" and "le \<le> length src" and "denotes src out ls"
  shows "denotes src out' le"
  using assms
proof (induction "le - ls" arbitrary: ls out rule: less_induct)
  case less
  show ?case
  proof (cases "ls < le")
    case False
    then show ?thesis using less.prems by (simp add: lz_flush_lits.simps [of src cap le le])
  next
    case True
    define ll where "ll = (if le - ls > 128 then 128 else le - ls)"
    define lits where "lits = take ll (drop ls src)"
    have ll: "0 < ll" "ll \<le> 128" "ls + ll \<le> le" using True by (auto simp: ll_def)
    have len: "length lits = ll" using ll less.prems(3) by (simp add: lits_def)
    have rec: "lz_flush_lits src cap (ls + ll) le (out @ word_of_nat (ll - 1) # lits) = Inr out'"
      using less.prems(1) flush_lits_step [OF True less.prems(3) ll_def, of cap out] by (simp add: lits_def split: if_splits)
    have "run ((word_of_nat (ll - 1) # lits) @ rest) (take ls src) (length src) = run rest (take (ls + ll) src) (length src)" for rest
      using literal_run [of lits "take ls src" "length src" rest] len ll less.prems(3) by (auto simp: lits_def take_add)
    then have "denotes src (out @ word_of_nat (ll - 1) # lits) (ls + ll)"
      using denotes_append [OF less.prems(4)] by blast
    then show ?thesis using less.hyps [OF _ rec] ll less.prems(3) by simp
  qed
qed

end

section \<open>LZ77 within a packet\<close>

text \<open>The candidate of the hash table at position \<open>i\<close>: match length and offset, 0 for none.\<close>

definition lz77_match :: "byte list \<Rightarrow> nat option \<Rightarrow> nat \<Rightarrow> cerror + (nat \<times> nat)" where
  "lz77_match src entry i =
     (case entry of None \<Rightarrow> Inr (0, 0)
      | Some pos \<Rightarrow>
          if i - pos \<le> 256
          then let off = i - pos;
                   max_m = (if length src - i > 130 then 130 else length src - i)
               in case match_run (\<lambda>m. nth_opt src (pos + m)) (\<lambda>m. nth_opt src (i + m)) 0 max_m of Inl e \<Rightarrow> Inl e
                  | Inr mlen \<Rightarrow> Inr (if mlen \<ge> 3 then (mlen, off) else (0, 0))
          else Inr (0, 0))"

definition lz77_emit :: "byte list \<Rightarrow> nat \<Rightarrow> nat \<Rightarrow> nat \<Rightarrow> byte list \<Rightarrow> cerror + byte list" where
  "lz77_emit src lz_cap best_len best_off out =
     (if length out \<ge> length src then Inl C_Fail
      else if length out + 2 > lz_cap then Inl C_Fail
      else append_cap lz_cap out [0x80 OR word_of_nat (best_len - 3), word_of_nat (best_off - 1)])"

function lz77_encode_loop ::
    "byte list \<Rightarrow> nat \<Rightarrow> nat option list \<Rightarrow> nat \<Rightarrow> nat \<Rightarrow> byte list \<Rightarrow> cerror + (nat \<times> byte list)" where
  "lz77_encode_loop src lz_cap ht i lit_start out =
     (if i + 3 \<le> length src
      then case ht_probe lz77_hash3 src ht i of Inl e \<Rightarrow> Inl e
           | Inr (entry, ht) \<Rightarrow>
               (case lz77_match src entry i of Inl e \<Rightarrow> Inl e
                | Inr (best_len, best_off) \<Rightarrow>
                    if best_len \<ge> 3
                    then (case lz_flush_lits src lz_cap lit_start i out of Inl e \<Rightarrow> Inl e
                          | Inr out \<Rightarrow>
                              (case lz77_emit src lz_cap best_len best_off out of Inl e \<Rightarrow> Inl e
                               | Inr out \<Rightarrow>
                                   (case ht_skip lz77_hash3 src i best_len ht of Inl e \<Rightarrow> Inl e
                                    | Inr ht \<Rightarrow>
                                        if length out \<ge> length src then Inl C_Fail
                                        else lz77_encode_loop src lz_cap ht (i + best_len) (i + best_len) out)))
                    else if length out \<ge> length src then Inl C_Fail
                    else lz77_encode_loop src lz_cap ht (i + 1) lit_start out)
      else Inr (lit_start, out))"
  by pat_completeness auto
termination
  by (relation "measure (\<lambda>(src, lz_cap, ht, i, lit_start, out). length src - i)") auto

declare lz77_encode_loop.simps [simp del]

definition lz77_encode :: "byte list \<Rightarrow> nat \<Rightarrow> cerror + byte list" where
  "lz77_encode src lz_cap =
     (case lz77_encode_loop src lz_cap (replicate 1024 None) 0 0 [] of Inl e \<Rightarrow> Inl e
      | Inr (lit_start, out) \<Rightarrow>
          (case lz_flush_lits src lz_cap lit_start (length src) out of Inl e \<Rightarrow> Inl e
           | Inr out \<Rightarrow> if length out < length src then Inr out else Inl C_Fail))"

function lz77_decode_loop :: "byte list \<Rightarrow> nat \<Rightarrow> nat \<Rightarrow> nat \<Rightarrow> byte list \<Rightarrow> fault + byte list" where
  "lz77_decode_loop lz_src orig_size i out dst =
     (if i < length lz_src
      then case nth_opt lz_src i of None \<Rightarrow> Inl F_Undefined
           | Some tok \<Rightarrow>
               if tok AND 0x80 \<noteq> 0
               then if i + 1 \<ge> length lz_src then Inl (F_Result NETC_ERR_CORRUPT)
                    else (case nth_opt lz_src (i + 1) of None \<Rightarrow> Inl F_Undefined
                          | Some b \<Rightarrow>
                              let match_len = unat (tok AND 0x7F) + 3; offset = unat b + 1
                              in if offset > out then Inl (F_Result NETC_ERR_CORRUPT)
                                 else if out + match_len > orig_size then Inl (F_Result NETC_ERR_CORRUPT)
                                 else (case copy_bytes out (size_sub out offset) match_len dst of None \<Rightarrow> Inl F_Undefined
                                       | Some dst \<Rightarrow> lz77_decode_loop lz_src orig_size (i + 2) (out + match_len) dst))
               else let lit_len = unat (tok AND 0x7F) + 1
                    in if i + 1 + lit_len > length lz_src then Inl (F_Result NETC_ERR_CORRUPT)
                       else if out + lit_len > orig_size then Inl (F_Result NETC_ERR_CORRUPT)
                       else (case slice lz_src (i + 1) lit_len of None \<Rightarrow> Inl F_Undefined
                             | Some lits \<Rightarrow>
                                 (case buf_write dst out lits of None \<Rightarrow> Inl F_Undefined
                                  | Some dst \<Rightarrow> lz77_decode_loop lz_src orig_size (i + 1 + lit_len) (out + lit_len) dst))
      else if out \<noteq> orig_size then Inl (F_Result NETC_ERR_CORRUPT)
      else Inr dst)"
  by pat_completeness auto
termination
  by (relation "measure (\<lambda>(lz_src, orig_size, i, out, dst). length lz_src - i)") auto

declare lz77_decode_loop.simps [simp del]

definition lz77_decode :: "byte list \<Rightarrow> byte list \<Rightarrow> nat \<Rightarrow> fault + byte list" where
  "lz77_decode lz_src dst orig_size = lz77_decode_loop lz_src orig_size 0 0 dst"

text \<open>What a token stream denotes, after the bytes \<open>d\<close>.\<close>

function lz77_stream :: "byte list \<Rightarrow> byte list \<Rightarrow> nat \<Rightarrow> netc_result + byte list" where
  "lz77_stream lz d n =
     (case lz of [] \<Rightarrow> if length d \<noteq> n then Inl NETC_ERR_CORRUPT else Inr d
      | tok # rest \<Rightarrow>
          if tok AND 0x80 \<noteq> 0
          then (case rest of [] \<Rightarrow> Inl NETC_ERR_CORRUPT
                | b # rest' \<Rightarrow>
                    let match_len = unat (tok AND 0x7F) + 3; offset = unat b + 1
                    in if offset > length d \<or> length d + match_len > n then Inl NETC_ERR_CORRUPT
                       else lz77_stream rest' (copy_back (length d - offset) match_len d) n)
          else let lit_len = unat (tok AND 0x7F) + 1
               in if lit_len > length rest \<or> length d + lit_len > n then Inl NETC_ERR_CORRUPT
                  else lz77_stream (drop lit_len rest) (d @ take lit_len rest) n)"
  by pat_completeness auto
termination
  by (relation "measure (\<lambda>(lz, d, n). length lz)") auto

declare lz77_stream.simps [simp del]

lemma lz77_stream_ref:
  "tok AND 0x80 \<noteq> 0 \<Longrightarrow> lz77_stream (tok # b # rest) d n =
    (if unat b + 1 > length d \<or> length d + (unat (tok AND 0x7F) + 3) > n then Inl NETC_ERR_CORRUPT
     else lz77_stream rest (copy_back (length d - (unat b + 1)) (unat (tok AND 0x7F) + 3) d) n)"
  by (simp add: lz77_stream.simps [of "tok # b # rest"] Let_def)

lemma lz77_stream_lit:
  "tok AND 0x80 = 0 \<Longrightarrow> lz77_stream (tok # rest) d n =
    (if unat (tok AND 0x7F) + 1 > length rest \<or> length d + (unat (tok AND 0x7F) + 1) > n then Inl NETC_ERR_CORRUPT
     else lz77_stream (drop (unat (tok AND 0x7F) + 1) rest) (d @ take (unat (tok AND 0x7F) + 1) rest) n)"
  by (simp add: lz77_stream.simps [of "tok # rest"] Let_def)

subsection \<open>The decoder refines the stream\<close>

text \<open>
  The common step of the refinement proofs: the bytes \<open>d\<close> are at the start of the buffer, and the rest of the
  stream goes on from there.
\<close>

lemma refines_step:
  assumes "length d \<le> n" and "loop (length d) (d @ drop (length d) dst)
      = on_buffer (S (take (length d) (d @ drop (length d) dst))) (d @ drop (length d) dst) n"
  shows "loop (length d) (d @ drop (length d) dst) = on_buffer (S d) dst n"
  using assms on_buffer_behind [OF assms(1), of _ dst] by simp

lemma copy_back_at:
  assumes "1 \<le> off" and "off \<le> out" and "out + len \<le> length dst"
  shows "copy_bytes out (size_sub out off) len dst
    = Some (copy_back (out - off) len (take out dst) @ drop (out + len) dst)"
  using assms copy_bytes_Some [of "out - off" out len dst] by simp

lemma lz77_decode_loop_refines:
  assumes "i \<le> length lz" and "out \<le> n" and "n \<le> length dst"
  shows "lz77_decode_loop lz n i out dst = on_buffer (lz77_stream (drop i lz) (take out dst) n) dst n"
  using assms
proof (induction lz n i out dst rule: lz77_decode_loop.induct)
  case (1 lz n i out dst)
  note unf = lz77_decode_loop.simps [of lz n i out dst]
  have tk: "length (take out dst) = out" using "1.prems" by simp
  show ?case
  proof (cases "i < length lz")
    case False
    then show ?thesis using "1.prems" tk unfolding unf by (simp add: lz77_stream.simps [of "[]"])
  next
    case i: True
    define tok where "tok = lz ! i"
    have rd: "nth_opt lz i = Some tok" and cons: "drop i lz = tok # drop (i + 1) lz"
      using i by (simp_all add: tok_def Cons_nth_drop_Suc)
    show ?thesis
    proof (cases "tok AND 0x80 \<noteq> 0")
      case ref: True
      show ?thesis
      proof (cases "i + 1 < length lz")
        case False
        then have "drop (i + 1) lz = []" by simp
        then show ?thesis using False i rd ref by (simp add: unf cons lz77_stream.simps [of "[tok]"])
      next
        case i1: True
        define b where "b = lz ! (i + 1)"
        define len where "len = unat (tok AND 0x7F) + 3"
        define off where "off = unat b + 1"
        have rd1: "nth_opt lz (i + 1) = Some b" and cons1: "drop (i + 1) lz = b # drop (i + 2) lz"
          using i1 by (simp_all add: b_def Cons_nth_drop_Suc)
        have st: "lz77_stream (drop i lz) (take out dst) n = (if off > out \<or> out + len > n then Inl NETC_ERR_CORRUPT
            else lz77_stream (drop (i + 2) lz) (copy_back (out - off) len (take out dst)) n)"
          using lz77_stream_ref [OF ref, of b "drop (i + 2) lz" "take out dst" n]
          unfolding cons cons1 tk len_def off_def .
        show ?thesis
        proof (cases "off > out \<or> out + len > n")
          case True
          then have "lz77_decode_loop lz n i out dst = Inl (F_Result NETC_ERR_CORRUPT)"
            using i i1 rd rd1 ref
            by (auto simp: unf len_def [symmetric] off_def [symmetric] Let_def simp del: One_nat_def)
          then show ?thesis using True by (simp add: st)
        next
          case ok: False
          define d where "d = copy_back (out - off) len (take out dst)"
          have d: "length d = out + len" using tk by (simp add: d_def)
          have cp: "copy_bytes out (size_sub out off) len dst = Some (d @ drop (length d) dst)"
            using copy_back_at [of off out len dst] ok "1.prems" d by (simp add: d_def off_def)
          have "lz77_decode_loop lz n i out dst = lz77_decode_loop lz n (i + 2) (length d) (d @ drop (length d) dst)"
            using i i1 rd rd1 ref ok cp d
            by (simp add: unf len_def [symmetric] off_def [symmetric] Let_def del: One_nat_def)
          also have "\<dots> = on_buffer (lz77_stream (drop (i + 2) lz) d n) dst n"
            by (rule refines_step [where loop = "lz77_decode_loop lz n (i + 2)"])
               (use "1.IH"(1) [OF i rd ref _ rd1 len_def off_def _ _ cp] i1 ok d "1.prems" in simp_all)
          finally show ?thesis
            using ok by (simp add: st d_def)
        qed
      qed
    next
      case lit: False
      define len where "len = unat (tok AND 0x7F) + 1"
      have st: "lz77_stream (drop i lz) (take out dst) n =
          (if len > length (drop (i + 1) lz) \<or> out + len > n then Inl NETC_ERR_CORRUPT
           else lz77_stream (drop len (drop (i + 1) lz)) (take out dst @ take len (drop (i + 1) lz)) n)"
        using lz77_stream_lit [of tok "drop (i + 1) lz" "take out dst" n] lit unfolding cons tk len_def by simp
      show ?thesis
      proof (cases "i + 1 + len > length lz \<or> out + len > n")
        case True
        then have "lz77_decode_loop lz n i out dst = Inl (F_Result NETC_ERR_CORRUPT)"
          using i rd lit by (auto simp: unf len_def [symmetric] Let_def simp del: One_nat_def)
        then show ?thesis using True i by (auto simp: st)
      next
        case ok: False
        define lits where "lits = take len (drop (i + 1) lz)"
        define d where "d = take out dst @ lits"
        have ll: "length lits = len" using ok by (auto simp: lits_def)
        have d: "length d = out + len" using tk ll by (simp add: d_def)
        have sl: "slice lz (i + 1) len = Some lits" using ok by (simp add: lits_def)
        have w: "buf_write dst out lits = Some (d @ drop (length d) dst)"
          using ok "1.prems" buf_write_Some [of out lits dst] d ll by (simp add: d_def)
        have "lz77_decode_loop lz n i out dst = lz77_decode_loop lz n (i + 1 + len) (length d) (d @ drop (length d) dst)"
          using i rd lit ok sl w d by (simp add: unf len_def [symmetric] Let_def del: One_nat_def)
        also have "\<dots> = on_buffer (lz77_stream (drop (i + 1 + len) lz) d n) dst n"
          by (rule refines_step [where loop = "lz77_decode_loop lz n (i + 1 + len)"])
             (use "1.IH"(2) [OF i rd lit len_def _ _ sl w] ok d "1.prems" in simp_all)
        finally show ?thesis
          using ok by (auto simp: st d_def lits_def add.commute)
      qed
    qed
  qed
qed

lemma lz77_decode_refines: "n \<le> length dst \<Longrightarrow> lz77_decode lz dst n = on_buffer (lz77_stream lz [] n) dst n"
  by (simp add: lz77_decode_def lz77_decode_loop_refines)

subsection \<open>Token bytes\<close>

text \<open>The 128 values of a token's length field, checked one by one.\<close>

lemma token_table:
  "list_all (\<lambda>n. (word_of_nat n :: byte) AND 0x80 = 0 \<and> unat ((word_of_nat n :: byte) AND 0x7F) = n \<and>
     (0x80 OR word_of_nat n :: byte) AND 0x80 \<noteq> 0 \<and> unat ((0x80 OR word_of_nat n :: byte) AND 0x7F) = n) [0..<128]"
  by code_simp

lemma literal_token:
  assumes "n < 128"
  shows "(word_of_nat n :: byte) AND 0x80 = 0" and "unat ((word_of_nat n :: byte) AND 0x7F) = n"
  using token_table assms unfolding list_all_iff by (metis atLeastLessThan_iff le0 set_upt)+

lemma match_token:
  assumes "n < 128"
  shows "(0x80 OR word_of_nat n :: byte) AND 0x80 \<noteq> 0" and "unat ((0x80 OR word_of_nat n :: byte) AND 0x7F) = n"
  using token_table assms unfolding list_all_iff by (metis atLeastLessThan_iff le0 set_upt)+

interpretation lz77: lz_stream lz77_stream
proof
  fix lits d rest :: "byte list" and n
  assume "lits \<noteq> []" "length lits \<le> 128" "length d + length lits \<le> n"
  moreover from this have "length lits - 1 < 128" "Suc (length lits - 1) = length lits" by simp_all
  ultimately show "lz77_stream (word_of_nat (length lits - 1) # lits @ rest) d n = lz77_stream rest (d @ lits) n"
    using literal_token [of "length lits - 1"]
    by (subst lz77_stream.simps) (simp add: Let_def)
qed

lemma lz77_stream_match:
  assumes "3 \<le> len" "len \<le> 130" "1 \<le> off" "off \<le> 256" "off \<le> length d" "length d + len \<le> n"
  shows "lz77_stream ((0x80 OR word_of_nat (len - 3)) # word_of_nat (off - 1) # rest) d n
    = lz77_stream rest (copy_back (length d - off) len d) n"
  using match_token [of "len - 3"] assms unat_of_nat_byte [of "off - 1"]
  by (simp add: lz77_stream.simps [of "(0x80 OR _) # _"] Let_def)

subsection \<open>The encoder emits tokens for the packet\<close>

text \<open>A candidate before \<open>i\<close> and what a match against it gives, for a limit \<open>m\<close> on its length.\<close>

lemma candidate_run:
  assumes "pos < i" and "m \<le> length src - i" and "i \<le> length src"
  shows "\<exists>r. match_run (\<lambda>m. nth_opt src (pos + m)) (\<lambda>m. nth_opt src (i + m)) 0 m = Inr r \<and> r \<le> m
    \<and> (\<forall>k < r. src ! (pos + k) = src ! (i + k))"
proof -
  let ?a = "\<lambda>m. nth_opt src (pos + m)" and ?b = "\<lambda>m. nth_opt src (i + m)"
  have "?a j \<noteq> None \<and> ?b j \<noteq> None" if "j < m" for j using that assms by simp
  then obtain r where r: "match_run ?a ?b 0 m = Inr r" using match_run_defined [of m ?a ?b 0] by blast
  then show ?thesis using match_run_sound [OF r] by (auto simp: nth_opt_eq_Some)
qed

lemma lz77_match_ok:
  assumes "\<And>p. entry = Some p \<Longrightarrow> p < i" and "i \<le> length src"
  obtains len off where "lz77_match src entry i = Inr (len, off)"
    "3 \<le> len \<Longrightarrow> len \<le> 130 \<and> 1 \<le> off \<and> off \<le> 256 \<and> off \<le> i \<and> i + len \<le> length src
       \<and> (\<forall>k < len. src ! (i - off + k) = src ! (i + k))"
proof (cases "\<exists>pos. entry = Some pos \<and> i - pos \<le> 256")
  case True
  then obtain pos where pos: "entry = Some pos" "i - pos \<le> 256" by blast
  define m where "m = (if length src - i > 130 then 130 else length src - i)"
  have p: "pos < i" using assms(1) pos(1) .
  have m: "m \<le> length src - i" by (simp add: m_def)
  obtain r where r: "match_run (\<lambda>m. nth_opt src (pos + m)) (\<lambda>m. nth_opt src (i + m)) 0 m = Inr r" "r \<le> m"
    "\<forall>k < r. src ! (pos + k) = src ! (i + k)"
    using candidate_run [OF p m assms(2)] by blast
  have "lz77_match src entry i = Inr (if r \<ge> 3 then (r, i - pos) else (0, 0))"
    using pos r(1) by (simp add: lz77_match_def Let_def m_def [symmetric])
  moreover have "r \<le> 130" "i + r \<le> length src" using r(2) assms(2) by (auto simp: m_def split: if_splits)
  moreover have "\<forall>k < r. src ! (i - (i - pos) + k) = src ! (i + k)" using r(3) p by simp
  ultimately show ?thesis using that [of r "i - pos"] that [of 0 0] pos(2) p by (cases "r \<ge> 3") auto
next
  case False
  then have "lz77_match src entry i = Inr (0, 0)" by (auto simp: lz77_match_def split: option.split)
  then show ?thesis using that by simp
qed

text \<open>
  The loop is defined, keeps within the token buffer, and emits tokens for the bytes before \<open>lit_start\<close>.
\<close>

definition lz_loop_ok :: "(byte list \<Rightarrow> nat \<Rightarrow> bool) \<Rightarrow> nat \<Rightarrow> nat \<Rightarrow> cerror + (nat \<times> byte list) \<Rightarrow> bool" where
  "lz_loop_ok denotes n cap r \<longleftrightarrow>
     r = Inl C_Fail \<or> (\<exists>ls out. r = Inr (ls, out) \<and> ls \<le> n \<and> length out \<le> cap \<and> denotes out ls)"

lemma lz_loop_ok_simps [simp]:
  "lz_loop_ok D n cap (Inl e) \<longleftrightarrow> e = C_Fail"
  "lz_loop_ok D n cap (Inr (ls, out)) \<longleftrightarrow> ls \<le> n \<and> length out \<le> cap \<and> D out ls"
  by (auto simp: lz_loop_ok_def)

lemma lz77_emit_ok:
  assumes m: "3 \<le> len" "len \<le> 130" "1 \<le> off" "off \<le> 256" "off \<le> i" "i + len \<le> length src"
    "\<forall>k < len. src ! (i - off + k) = src ! (i + k)"
    and D: "lz77.denotes src out i"
  shows "lz77_emit src cap len off out = Inl C_Fail \<or>
    (\<exists>out'. lz77_emit src cap len off out = Inr out' \<and> length out' \<le> cap \<and> lz77.denotes src out' (i + len))"
proof -
  let ?tok = "[0x80 OR word_of_nat (len - 3), word_of_nat (off - 1)] :: byte list"
  have "copy_back (length (take i src) - off) len (take i src) = take (i + len) src"
    using copy_back_take [of "i - off" i len src] m by (simp add: min_def)
  moreover have "length (take i src) = i" using m(6) by simp
  ultimately have "lz77_stream (?tok @ rest) (take i src) (length src) = lz77_stream rest (take (i + len) src) (length src)" for rest
    using lz77_stream_match [of len off "take i src" "length src" rest] m(1-6) by simp
  then have "lz77.denotes src (out @ ?tok) (i + len)" by (rule lz77.denotes_append [OF D])
  then show ?thesis by (auto simp: lz77_emit_def append_cap_def)
qed

lemma lz77_loop_ok:
  assumes "ls \<le> i" and "i \<le> length src" and "ht_inv 1024 ht i" and "length out \<le> cap" and "lz77.denotes src out ls"
  shows "lz_loop_ok (lz77.denotes src) (length src) cap (lz77_encode_loop src cap ht i ls out)"
  using assms
proof (induction "length src - i" arbitrary: ht i ls out rule: less_induct)
  case less
  note unf = lz77_encode_loop.simps [of src cap ht i ls out]
  show ?case
  proof (cases "i + 3 \<le> length src")
    case False
    then show ?thesis using less.prems by (simp add: unf)
  next
    case i: True
    obtain entry ht1 where p: "ht_probe lz77_hash3 src ht i = Inr (entry, ht1)" "\<And>p. entry = Some p \<Longrightarrow> p < i"
      "\<And>j. j > i \<Longrightarrow> ht_inv 1024 ht1 j"
      using ht_probe_ok [where hash = lz77_hash3, OF less.prems(3) lz77_hash3_less i] by blast
    obtain len off where m: "lz77_match src entry i = Inr (len, off)"
      "3 \<le> len \<Longrightarrow> len \<le> 130 \<and> 1 \<le> off \<and> off \<le> 256 \<and> off \<le> i \<and> i + len \<le> length src
         \<and> (\<forall>k < len. src ! (i - off + k) = src ! (i + k))"
      using lz77_match_ok [OF p(2) less.prems(2)] by blast
    show ?thesis
    proof (cases "3 \<le> len")
      case False
      have "lz_loop_ok (lz77.denotes src) (length src) cap (lz77_encode_loop src cap ht1 (i + 1) ls out)"
        using i p(3) less.prems by (intro less.hyps) auto
      then show ?thesis using i p(1) m(1) False by (simp add: unf)
    next
      case True
      note s = m(2) [OF True]
      obtain ht2 where sk: "ht_skip lz77_hash3 src i len ht1 = Inr ht2" "ht_inv 1024 ht2 (i + len)"
        using ht_skip_ok [where hash = lz77_hash3, OF p(3) lz77_hash3_less, of i len src] True by auto
      show ?thesis
      proof (cases "lz_flush_lits src cap ls i out")
        case (Inl e)
        then show ?thesis using i p(1) m(1) True flush_lits_defined [of i src cap ls out] less.prems(2)
          by (cases e) (simp_all add: unf)
      next
        case (Inr out1)
        have D: "lz77.denotes src out1 i" using lz77.flush_lits_decodes [OF Inr less.prems(1,2,5)] .
        consider "lz77_emit src cap len off out1 = Inl C_Fail"
          | out2 where "lz77_emit src cap len off out1 = Inr out2" "length out2 \<le> cap" "lz77.denotes src out2 (i + len)"
          using lz77_emit_ok [OF True _ _ _ _ _ _ D, of off cap] s by blast
        then show ?thesis
        proof cases
          case 1
          then show ?thesis using i p(1) m(1) True Inr by (simp add: unf)
        next
          case (2 out2)
          have "lz_loop_ok (lz77.denotes src) (length src) cap (lz77_encode_loop src cap ht2 (i + len) (i + len) out2)"
            using i s sk(2) 2 True by (intro less.hyps) auto
          then show ?thesis using i p(1) m(1) True Inr 2(1) sk(1) by (simp add: unf)
        qed
      qed
    qed
  qed
qed

text \<open>
  What every caller needs of an encoder: it is defined, and a stream that it returns is shorter than the
  packet, fits its buffer and denotes the packet.
\<close>

definition lz_encode_ok :: "(byte list \<Rightarrow> bool) \<Rightarrow> nat \<Rightarrow> nat \<Rightarrow> cerror + byte list \<Rightarrow> bool" where
  "lz_encode_ok D n cap r \<longleftrightarrow>
     r = Inl C_Fail \<or> (\<exists>enc. r = Inr enc \<and> length enc < n \<and> length enc \<le> cap \<and> D enc)"

lemma lz_encode_ok_undefined: "lz_encode_ok D n cap r \<Longrightarrow> r \<noteq> Inl C_Undefined"
  by (auto simp: lz_encode_ok_def)

lemma lz_encode_ok_mono: "lz_encode_ok D n cap r \<Longrightarrow> (\<And>enc. D enc \<Longrightarrow> E enc) \<Longrightarrow> lz_encode_ok E n cap r"
  by (auto simp: lz_encode_ok_def)

text \<open>The last literals, and the comparison with the size of the packet.\<close>

definition lz_last :: "byte list \<Rightarrow> nat \<Rightarrow> cerror + (nat \<times> byte list) \<Rightarrow> cerror + byte list" where
  "lz_last src lz_cap r =
     (case r of Inl e \<Rightarrow> Inl e
      | Inr (lit_start, out) \<Rightarrow>
          (case lz_flush_lits src lz_cap lit_start (length src) out of Inl e \<Rightarrow> Inl e
           | Inr out \<Rightarrow> if length out < length src then Inr out else Inl C_Fail))"

context lz_stream
begin

lemma lz_last_ok:
  assumes "lz_loop_ok (denotes src) (length src) cap r"
  shows "lz_encode_ok (\<lambda>enc. denotes src enc (length src)) (length src) cap (lz_last src cap r)"
proof (cases r)
  case (Inl e)
  then show ?thesis using assms by (simp add: lz_last_def lz_encode_ok_def)
next
  case (Inr p)
  obtain ls out where p: "p = (ls, out)" by fastforce
  have o: "ls \<le> length src" "length out \<le> cap" "denotes src out ls" using assms Inr p by simp_all
  show ?thesis
  proof (cases "lz_flush_lits src cap ls (length src) out")
    case (Inl e)
    then show ?thesis using Inr p flush_lits_defined [of "length src" src cap ls out]
      by (cases e) (simp_all add: lz_last_def lz_encode_ok_def)
  next
    case fl: (Inr out')
    then show ?thesis
      using Inr p flush_lits_fits [OF o(2) fl] flush_lits_decodes [OF fl o(1) order_refl o(3)]
      by (simp add: lz_last_def lz_encode_ok_def)
  qed
qed

end

lemma lz77_encode_ok:
  "lz_encode_ok (\<lambda>enc. lz77_stream enc [] (length src) = Inr src) (length src) cap (lz77_encode src cap)"
proof -
  have "lz77_encode src cap = lz_last src cap (lz77_encode_loop src cap (replicate 1024 None) 0 0 [])"
    by (simp add: lz77_encode_def lz_last_def)
  moreover have "lz_loop_ok (lz77.denotes src) (length src) cap (lz77_encode_loop src cap (replicate 1024 None) 0 0 [])"
    by (rule lz77_loop_ok) (simp_all add: ht_inv_init lz77.denotes_Nil)
  moreover have "lz77_stream enc [] (length src) = Inr src" if "lz77.denotes src enc (length src)" for enc
    using that [unfolded lz77.denotes_def, rule_format, of "[]"] by (simp add: lz77_stream.simps [of "[]"])
  ultimately show ?thesis using lz_encode_ok_mono [OF lz77.lz_last_ok] by simp
qed

lemma lz77_decode_encode:
  assumes "lz77_encode src cap = Inr enc" and "length src \<le> length dst"
  shows "lz77_decode enc dst (length src) = Inr (src @ drop (length src) dst) \<and> length enc < length src"
  using lz77_encode_ok [of src cap] assms by (simp add: lz_encode_ok_def lz77_decode_refines)

text \<open>
  C21.  Whatever \<open>lz77_encode\<close> returns is shorter than the packet, fits its buffer and decodes to the packet: in
  every destination with room for it the decoder writes the packet and leaves the bytes behind it alone.
\<close>

theorem lz77_roundtrip:
  assumes "lz77_encode src lz_cap = Inr enc" and "length src \<le> length dst"
  shows "lz77_decode enc dst (length src) = Inr (src @ drop (length src) dst)
    \<and> length enc < length src \<and> length enc \<le> lz_cap"
  using lz77_decode_encode [OF assms] lz77_encode_ok [of src lz_cap] assms(1) by (simp add: lz_encode_ok_def)

lemma lz77_example: "lz77_encode (replicate 8 7) 16 = Inr [0, 7, 0x84, 0]"
  by code_simp

theorem lz77_roundtrip_witness:
  "lz77_decode [0, 7, 0x84, 0] [0, 0, 0, 0, 0, 0, 0, 0, 1] 8 = Inr [7, 7, 7, 7, 7, 7, 7, 7, 1] \<and> length [0, 7, 0x84, 0 :: byte] < 8"
proof -
  have len: "length (replicate 8 7 :: byte list) = 8" by simp
  show ?thesis
    using lz77_roundtrip [OF lz77_example, of "[0, 0, 0, 0, 0, 0, 0, 0, 1]", unfolded len] by (simp add: eval_nat_numeral)
qed

section \<open>LZ77 across packets\<close>

text \<open>
  The ring buffer is the list of its \<open>ring_size\<close> bytes, empty for \<open>NULL\<close>; \<open>ring_pos\<close> is the
  next write position.  Ring positions are below \<open>2 ^ 31\<close>, so that the \<open>int32_t\<close> table entries
  hold them.
\<close>

definition LZ77X_MAX_LONG_OFFSET :: nat where "LZ77X_MAX_LONG_OFFSET = 65536"

text \<open>The byte \<open>k\<close> places after the ring position \<open>p\<close>.\<close>

definition ring_at :: "byte list \<Rightarrow> nat \<Rightarrow> nat \<Rightarrow> byte option" where
  "ring_at ring p k = nth_opt ring ((p + k) mod length ring)"

primrec lz77x_ring_loop :: "byte list \<Rightarrow> nat \<Rightarrow> nat list \<Rightarrow> nat option list \<Rightarrow> cerror + nat option list" where
  "lz77x_ring_loop ring scan_start [] ht = Inr ht"
| "lz77x_ring_loop ring scan_start (j # js) ht =
     (let abs_pos = (scan_start + j) mod length ring
      in case (nth_opt ring abs_pos, ring_at ring abs_pos 1, ring_at ring abs_pos 2) of
           (Some b0, Some b1, Some b2) \<Rightarrow>
             (case set_opt ht (lz77x_hash3 b0 b1 b2) (Some abs_pos) of None \<Rightarrow> Inl C_Undefined
              | Some ht \<Rightarrow> lz77x_ring_loop ring scan_start js ht)
         | _ \<Rightarrow> Inl C_Undefined)"

definition lz77x_ring_scan :: "byte list \<Rightarrow> nat \<Rightarrow> nat \<Rightarrow> cerror + nat option list" where
  "lz77x_ring_scan ring ring_pos prev_pkt_size =
     (let ring_size = length ring;
          scan_len = (if prev_pkt_size > u32_sub ring_size 2 then u32_sub ring_size 2 else prev_pkt_size);
          scan_len = (if scan_len < 3 then 0 else scan_len);
          scan_start = u32_sub (ring_pos + ring_size) scan_len mod ring_size
      in lz77x_ring_loop ring scan_start [0..<scan_len - 2] (replicate 4096 None))"

text \<open>The entries of both hash tables at position \<open>i\<close>, and the updated table of the packet.\<close>

definition lz77x_probe ::
    "byte list \<Rightarrow> nat option list \<Rightarrow> nat option list \<Rightarrow> nat \<Rightarrow> cerror + (nat option \<times> nat option \<times> nat option list)" where
  "lz77x_probe src ring_ht src_ht i =
     (case hash_at lz77x_hash3 src i of None \<Rightarrow> Inl C_Undefined
      | Some h \<Rightarrow>
          (case nth_opt ring_ht h of None \<Rightarrow> Inl C_Undefined
           | Some ring_entry \<Rightarrow>
               map_sum id (\<lambda>(src_entry, src_ht). (ring_entry, src_entry, src_ht)) (ht_probe lz77x_hash3 src src_ht i)))"

text \<open>The within-packet candidate (short reference), then the ring candidate (long reference).\<close>

definition lz77x_short :: "byte list \<Rightarrow> nat option \<Rightarrow> nat \<Rightarrow> cerror + (nat \<times> nat)" where
  "lz77x_short src src_entry i =
     (case src_entry of None \<Rightarrow> Inr (0, 0)
      | Some pos \<Rightarrow>
          let src_off = i - pos
          in if src_off \<ge> 1 \<and> src_off \<le> 256
             then let max_m = (if length src - i > 66 then 66 else length src - i)
                  in case match_run (\<lambda>m. nth_opt src (pos + m)) (\<lambda>m. nth_opt src (i + m)) 0 max_m of Inl e \<Rightarrow> Inl e
                     | Inr mlen \<Rightarrow> Inr (if mlen \<ge> 3 then (mlen, src_off) else (0, 0))
             else Inr (0, 0))"

definition lz77x_ring_start :: "nat \<Rightarrow> nat \<Rightarrow> nat \<Rightarrow> nat" where
  "lz77x_ring_start ring_size ring_pos offset = u32_sub (ring_pos + ring_size) offset mod ring_size"

definition lz77x_long ::
    "byte list \<Rightarrow> byte list \<Rightarrow> nat \<Rightarrow> nat option \<Rightarrow> nat \<Rightarrow> nat \<Rightarrow> cerror + (nat \<times> nat) option" where
  "lz77x_long src ring ring_pos ring_entry i best_len =
     (case ring_entry of None \<Rightarrow> Inr None
      | Some abs_pos \<Rightarrow>
          let ring_size = length ring;
              ring_off = u32_sub (ring_pos + ring_size) abs_pos mod ring_size
          in if ring_off \<ge> 1 \<and> ring_off \<le> LZ77X_MAX_LONG_OFFSET
             then let max_m = (if length src - i > 66 then 66 else length src - i);
                      rstart = lz77x_ring_start ring_size ring_pos ring_off
                  in case match_run (\<lambda>m. ring_at ring rstart m) (\<lambda>m. nth_opt src (i + m)) 0 max_m of Inl e \<Rightarrow> Inl e
                     | Inr mlen \<Rightarrow> Inr (if mlen \<ge> 3 \<and> mlen > best_len then Some (mlen, ring_off) else None)
             else Inr None)"

text \<open>Best match at position \<open>i\<close>: length, offset, and whether the reference is long.\<close>

definition lz77x_match ::
    "byte list \<Rightarrow> byte list \<Rightarrow> nat \<Rightarrow> nat option \<Rightarrow> nat option \<Rightarrow> nat \<Rightarrow> cerror + (nat \<times> nat \<times> bool)" where
  "lz77x_match src ring ring_pos ring_entry src_entry i =
     (case lz77x_short src src_entry i of Inl e \<Rightarrow> Inl e
      | Inr (best_len, best_off) \<Rightarrow>
          (case lz77x_long src ring ring_pos ring_entry i best_len of Inl e \<Rightarrow> Inl e
           | Inr (Some (len, off)) \<Rightarrow> Inr (len, off, True)
           | Inr None \<Rightarrow> Inr (best_len, best_off, False)))"

definition lz77x_emit :: "nat \<Rightarrow> nat \<Rightarrow> nat \<Rightarrow> bool \<Rightarrow> byte list \<Rightarrow> cerror + byte list" where
  "lz77x_emit lz_cap best_len best_off is_long out =
     (if length out \<ge> lz_cap then Inl C_Fail
      else if is_long
      then if length out + 3 > lz_cap then Inl C_Fail
           else let off16 = (word_of_nat (best_off - 1) :: u16)
                in append_cap lz_cap out [0xC0 OR word_of_nat (best_len - 3), ucast (off16 AND 0xFF), ucast (drop_bit 8 off16)]
      else if length out + 2 > lz_cap then Inl C_Fail
      else append_cap lz_cap out [0x80 OR word_of_nat (best_len - 3), word_of_nat (best_off - 1)])"

function lz77x_encode_loop ::
    "byte list \<Rightarrow> byte list \<Rightarrow> nat \<Rightarrow> nat option list \<Rightarrow> nat \<Rightarrow> nat option list \<Rightarrow> nat \<Rightarrow> nat \<Rightarrow> byte list \<Rightarrow>
     cerror + (nat \<times> byte list)" where
  "lz77x_encode_loop src ring ring_pos ring_ht lz_cap src_ht i lit_start out =
     (if i + 3 \<le> length src
      then case lz77x_probe src ring_ht src_ht i of Inl e \<Rightarrow> Inl e
           | Inr (ring_entry, src_entry, src_ht) \<Rightarrow>
               (case lz77x_match src ring ring_pos ring_entry src_entry i of Inl e \<Rightarrow> Inl e
                | Inr (best_len, best_off, is_long) \<Rightarrow>
                    if best_len \<ge> 3
                    then (case lz_flush_lits src lz_cap lit_start i out of Inl e \<Rightarrow> Inl e
                          | Inr out \<Rightarrow>
                              (case lz77x_emit lz_cap best_len best_off is_long out of Inl e \<Rightarrow> Inl e
                               | Inr out \<Rightarrow>
                                   (case ht_skip lz77x_hash3 src i best_len src_ht of Inl e \<Rightarrow> Inl e
                                    | Inr src_ht \<Rightarrow>
                                        if length out \<ge> length src then Inl C_Fail
                                        else lz77x_encode_loop src ring ring_pos ring_ht lz_cap src_ht (i + best_len)
                                               (i + best_len) out)))
                    else if length out \<ge> length src then Inl C_Fail
                    else lz77x_encode_loop src ring ring_pos ring_ht lz_cap src_ht (i + 1) lit_start out)
      else Inr (lit_start, out))"
  by pat_completeness auto
termination
  by (relation "measure (\<lambda>(src, ring, ring_pos, ring_ht, lz_cap, src_ht, i, lit_start, out). length src - i)") auto

declare lz77x_encode_loop.simps [simp del]

definition lz77x_encode :: "byte list \<Rightarrow> byte list \<Rightarrow> nat \<Rightarrow> nat \<Rightarrow> nat \<Rightarrow> cerror + byte list" where
  "lz77x_encode src ring ring_pos prev_pkt_size lz_cap =
     (if ring = [] then lz77_encode src lz_cap
      else case lz77x_ring_scan ring ring_pos prev_pkt_size of Inl e \<Rightarrow> Inl e
           | Inr ring_ht \<Rightarrow>
               (case lz77x_encode_loop src ring ring_pos ring_ht lz_cap (replicate 4096 None) 0 0 [] of Inl e \<Rightarrow> Inl e
                | Inr (lit_start, out) \<Rightarrow>
                    (case lz_flush_lits src lz_cap lit_start (length src) out of Inl e \<Rightarrow> Inl e
                     | Inr out \<Rightarrow> if length out < length src then Inr out else Inl C_Fail)))"

text \<open>\<open>dst[out++] = ring[(rstart + k) % ring_size]\<close>: the bytes read, if all reads are inside the ring.\<close>

primrec ring_read :: "byte list \<Rightarrow> nat \<Rightarrow> nat \<Rightarrow> nat \<Rightarrow> byte list option" where
  "ring_read ring rstart k 0 = Some []"
| "ring_read ring rstart k (Suc n) =
     (case ring_at ring rstart k of None \<Rightarrow> None
      | Some b \<Rightarrow> map_option (Cons b) (ring_read ring rstart (Suc k) n))"

function lz77x_decode_loop ::
    "byte list \<Rightarrow> nat \<Rightarrow> byte list \<Rightarrow> nat \<Rightarrow> nat \<Rightarrow> nat \<Rightarrow> byte list \<Rightarrow> fault + byte list" where
  "lz77x_decode_loop ring ring_pos lz_src orig_size i out dst =
     (if i < length lz_src
      then case nth_opt lz_src i of None \<Rightarrow> Inl F_Undefined
           | Some tok \<Rightarrow>
               if tok AND 0x80 = 0
               then let lit_len = unat (tok AND 0x7F) + 1
                    in if i + 1 + lit_len > length lz_src then Inl (F_Result NETC_ERR_CORRUPT)
                       else if out + lit_len > orig_size then Inl (F_Result NETC_ERR_CORRUPT)
                       else (case slice lz_src (i + 1) lit_len of None \<Rightarrow> Inl F_Undefined
                             | Some lits \<Rightarrow>
                                 (case buf_write dst out lits of None \<Rightarrow> Inl F_Undefined
                                  | Some dst \<Rightarrow>
                                      lz77x_decode_loop ring ring_pos lz_src orig_size (i + 1 + lit_len) (out + lit_len) dst))
               else if tok AND 0x40 = 0
               then if i + 1 \<ge> length lz_src then Inl (F_Result NETC_ERR_CORRUPT)
                    else (case nth_opt lz_src (i + 1) of None \<Rightarrow> Inl F_Undefined
                          | Some b \<Rightarrow>
                              let match_len = unat (tok AND 0x3F) + 3; offset = unat b + 1
                              in if offset > out then Inl (F_Result NETC_ERR_CORRUPT)
                                 else if out + match_len > orig_size then Inl (F_Result NETC_ERR_CORRUPT)
                                 else (case copy_bytes out (size_sub out offset) match_len dst of None \<Rightarrow> Inl F_Undefined
                                       | Some dst \<Rightarrow>
                                           lz77x_decode_loop ring ring_pos lz_src orig_size (i + 2) (out + match_len) dst))
               else if i + 1 + 2 > length lz_src then Inl (F_Result NETC_ERR_CORRUPT)
               else (case (nth_opt lz_src (i + 1), nth_opt lz_src (i + 2)) of
                       (Some lo, Some hi) \<Rightarrow>
                         let match_len = unat (tok AND 0x3F) + 3;
                             off16 = (ucast lo OR push_bit 8 (ucast hi) :: u16);
                             offset = unat off16 + 1
                         in if ring = [] then Inl (F_Result NETC_ERR_CORRUPT)
                            else if offset > length ring then Inl (F_Result NETC_ERR_CORRUPT)
                            else if out + match_len > orig_size then Inl (F_Result NETC_ERR_CORRUPT)
                            else (case ring_read ring (lz77x_ring_start (length ring) ring_pos offset) 0 match_len of
                                    None \<Rightarrow> Inl F_Undefined
                                  | Some bytes \<Rightarrow>
                                      (case buf_write dst out bytes of None \<Rightarrow> Inl F_Undefined
                                       | Some dst \<Rightarrow>
                                           lz77x_decode_loop ring ring_pos lz_src orig_size (i + 3) (out + match_len) dst))
                     | _ \<Rightarrow> Inl F_Undefined)
      else if out \<noteq> orig_size then Inl (F_Result NETC_ERR_CORRUPT)
      else Inr dst)"
  by pat_completeness auto
termination
  by (relation "measure (\<lambda>(ring, ring_pos, lz_src, orig_size, i, out, dst). length lz_src - i)") auto

declare lz77x_decode_loop.simps [simp del]

definition lz77x_decode :: "byte list \<Rightarrow> byte list \<Rightarrow> nat \<Rightarrow> byte list \<Rightarrow> nat \<Rightarrow> fault + byte list" where
  "lz77x_decode lz_src dst orig_size ring ring_pos = lz77x_decode_loop ring ring_pos lz_src orig_size 0 0 dst"

definition ring_copy :: "byte list \<Rightarrow> nat \<Rightarrow> nat \<Rightarrow> byte list" where
  "ring_copy ring rstart match_len = map (\<lambda>k. ring ! ((rstart + k) mod length ring)) [0..<match_len]"

text \<open>What a token stream denotes, after the bytes \<open>d\<close> and with the given ring.\<close>

function lz77x_stream :: "byte list \<Rightarrow> nat \<Rightarrow> byte list \<Rightarrow> byte list \<Rightarrow> nat \<Rightarrow> netc_result + byte list" where
  "lz77x_stream ring ring_pos lz d n =
     (case lz of [] \<Rightarrow> if length d \<noteq> n then Inl NETC_ERR_CORRUPT else Inr d
      | tok # rest \<Rightarrow>
          if tok AND 0x80 = 0
          then let lit_len = unat (tok AND 0x7F) + 1
               in if lit_len > length rest \<or> length d + lit_len > n then Inl NETC_ERR_CORRUPT
                  else lz77x_stream ring ring_pos (drop lit_len rest) (d @ take lit_len rest) n
          else if tok AND 0x40 = 0
          then (case rest of [] \<Rightarrow> Inl NETC_ERR_CORRUPT
                | b # rest' \<Rightarrow>
                    let match_len = unat (tok AND 0x3F) + 3; offset = unat b + 1
                    in if offset > length d \<or> length d + match_len > n then Inl NETC_ERR_CORRUPT
                       else lz77x_stream ring ring_pos rest' (copy_back (length d - offset) match_len d) n)
          else (case rest of lo # hi # rest' \<Rightarrow>
                    let match_len = unat (tok AND 0x3F) + 3;
                        off16 = (ucast lo OR push_bit 8 (ucast hi) :: u16);
                        offset = unat off16 + 1
                    in if ring = [] \<or> offset > length ring \<or> length d + match_len > n then Inl NETC_ERR_CORRUPT
                       else lz77x_stream ring ring_pos rest'
                              (d @ ring_copy ring (lz77x_ring_start (length ring) ring_pos offset) match_len) n
                | _ \<Rightarrow> Inl NETC_ERR_CORRUPT))"
  by pat_completeness auto
termination
  by (relation "measure (\<lambda>(ring, ring_pos, lz, d, n). length lz)") auto

declare lz77x_stream.simps [simp del]

lemma lz77x_stream_lit:
  "tok AND 0x80 = 0 \<Longrightarrow> lz77x_stream ring ring_pos (tok # rest) d n =
    (if unat (tok AND 0x7F) + 1 > length rest \<or> length d + (unat (tok AND 0x7F) + 1) > n then Inl NETC_ERR_CORRUPT
     else lz77x_stream ring ring_pos (drop (unat (tok AND 0x7F) + 1) rest) (d @ take (unat (tok AND 0x7F) + 1) rest) n)"
  by (simp add: lz77x_stream.simps [of ring ring_pos "tok # rest"] Let_def)

lemma lz77x_stream_ref:
  "tok AND 0x80 \<noteq> 0 \<Longrightarrow> tok AND 0x40 = 0 \<Longrightarrow> lz77x_stream ring ring_pos (tok # b # rest) d n =
    (if unat b + 1 > length d \<or> length d + (unat (tok AND 0x3F) + 3) > n then Inl NETC_ERR_CORRUPT
     else lz77x_stream ring ring_pos rest (copy_back (length d - (unat b + 1)) (unat (tok AND 0x3F) + 3) d) n)"
  by (simp add: lz77x_stream.simps [of ring ring_pos "tok # b # rest"] Let_def)

lemma lz77x_stream_long:
  fixes off16 :: u16
  assumes "tok AND 0x80 \<noteq> 0" and "tok AND 0x40 \<noteq> 0" and "off16 = ucast lo OR push_bit 8 (ucast hi)"
  shows "lz77x_stream ring ring_pos (tok # lo # hi # rest) d n =
    (if ring = [] \<or> unat off16 + 1 > length ring \<or> length d + (unat (tok AND 0x3F) + 3) > n then Inl NETC_ERR_CORRUPT
     else lz77x_stream ring ring_pos rest
            (d @ ring_copy ring (lz77x_ring_start (length ring) ring_pos (unat off16 + 1)) (unat (tok AND 0x3F) + 3)) n)"
  using assms by (simp add: lz77x_stream.simps [of ring ring_pos "tok # lo # hi # rest"] Let_def)

lemma lz77x_stream_short:
  "tok AND 0x80 \<noteq> 0 \<Longrightarrow> length rest < (if tok AND 0x40 = 0 then 1 else 2) \<Longrightarrow>
    lz77x_stream ring ring_pos (tok # rest) d n = Inl NETC_ERR_CORRUPT"
  by (auto simp: lz77x_stream.simps [of ring ring_pos "tok # rest"] split: list.split if_splits)

subsection \<open>The ring decoder refines the stream\<close>

lemma ring_at_Some: "ring \<noteq> [] \<Longrightarrow> ring_at ring p k = Some (ring ! ((p + k) mod length ring))"
  by (simp add: ring_at_def)

lemma ring_read_Some: "ring \<noteq> [] \<Longrightarrow> ring_read ring rstart k n = Some (map (\<lambda>j. ring ! ((rstart + j) mod length ring)) [k..<k + n])"
proof (induction n arbitrary: k)
  case (Suc n)
  have "[k..<k + Suc n] = k # [Suc k..<Suc k + n]" by (simp add: upt_conv_Cons del: upt_Suc)
  then show ?case using Suc by (simp add: ring_at_Some)
qed simp

lemma ring_read_copy: "ring \<noteq> [] \<Longrightarrow> ring_read ring rstart 0 n = Some (ring_copy ring rstart n)"
  by (simp add: ring_read_Some ring_copy_def)

lemma length_ring_copy [simp]: "length (ring_copy ring rstart n) = n"
  by (simp add: ring_copy_def)

lemma lz77x_decode_loop_refines:
  assumes "i \<le> length lz" and "out \<le> n" and "n \<le> length dst"
  shows "lz77x_decode_loop ring pos lz n i out dst = on_buffer (lz77x_stream ring pos (drop i lz) (take out dst) n) dst n"
  using assms
proof (induction ring pos lz n i out dst rule: lz77x_decode_loop.induct)
  case (1 ring pos lz n i out dst)
  note unf = lz77x_decode_loop.simps [of ring pos lz n i out dst]
  have tk: "length (take out dst) = out" using "1.prems" by simp
  have fin: "lz77x_decode_loop ring pos lz n j (length d) (d @ drop (length d) dst)
      = on_buffer (lz77x_stream ring pos (drop j lz) d n) dst n"
    if "length d \<le> n" "lz77x_decode_loop ring pos lz n j (length d) (d @ drop (length d) dst)
      = on_buffer (lz77x_stream ring pos (drop j lz) (take (length d) (d @ drop (length d) dst)) n) (d @ drop (length d) dst) n" for d j
    using that on_buffer_behind [OF that(1), of _ dst] by simp
  show ?case
  proof (cases "i < length lz")
    case False
    then show ?thesis using "1.prems" tk unfolding unf by (simp add: lz77x_stream.simps [of ring pos "[]"])
  next
    case i: True
    define tok where "tok = lz ! i"
    have rd: "nth_opt lz i = Some tok" and cons: "drop i lz = tok # drop (i + 1) lz"
      using i by (simp_all add: tok_def Cons_nth_drop_Suc)
    consider "tok AND 0x80 = 0" | "tok AND 0x80 \<noteq> 0" "tok AND 0x40 = 0" | "tok AND 0x80 \<noteq> 0" "tok AND 0x40 \<noteq> 0"
      by blast
    then show ?thesis
    proof cases
      case lit: 1
      define len where "len = unat (tok AND 0x7F) + 1"
      have st: "lz77x_stream ring pos (drop i lz) (take out dst) n =
          (if len > length (drop (i + 1) lz) \<or> out + len > n then Inl NETC_ERR_CORRUPT
           else lz77x_stream ring pos (drop len (drop (i + 1) lz)) (take out dst @ take len (drop (i + 1) lz)) n)"
        using lz77x_stream_lit [OF lit, of ring pos "drop (i + 1) lz" "take out dst" n] unfolding cons tk len_def by simp
      show ?thesis
      proof (cases "i + 1 + len > length lz \<or> out + len > n")
        case True
        then have "lz77x_decode_loop ring pos lz n i out dst = Inl (F_Result NETC_ERR_CORRUPT)"
          using i rd lit by (auto simp: unf len_def [symmetric] Let_def simp del: One_nat_def)
        then show ?thesis using True i by (auto simp: st)
      next
        case ok: False
        define lits where "lits = take len (drop (i + 1) lz)"
        define d where "d = take out dst @ lits"
        have ll: "length lits = len" using ok by (auto simp: lits_def)
        have d: "length d = out + len" using tk ll by (simp add: d_def)
        have sl: "slice lz (i + 1) len = Some lits" using ok by (simp add: lits_def)
        have w: "buf_write dst out lits = Some (d @ drop (length d) dst)"
          using ok "1.prems" buf_write_Some [of out lits dst] d ll by (simp add: d_def)
        have "lz77x_decode_loop ring pos lz n i out dst = lz77x_decode_loop ring pos lz n (i + 1 + len) (length d) (d @ drop (length d) dst)"
          using i rd lit ok sl w d by (simp add: unf len_def [symmetric] Let_def del: One_nat_def)
        also have "\<dots> = on_buffer (lz77x_stream ring pos (drop (i + 1 + len) lz) d n) dst n"
          by (rule fin) (use "1.IH"(1) [OF i rd lit len_def _ _ sl w] ok d "1.prems" in simp_all)
        finally show ?thesis
          using ok by (auto simp: st d_def lits_def add.commute)
      qed
    next
      case ref: 2
      show ?thesis
      proof (cases "i + 1 < length lz")
        case False
        then have "lz77x_stream ring pos (drop i lz) (take out dst) n = Inl NETC_ERR_CORRUPT"
          unfolding cons using ref by (intro lz77x_stream_short) simp_all
        then show ?thesis using False i rd ref by (simp add: unf)
      next
        case i1: True
        define b where "b = lz ! (i + 1)"
        define len where "len = unat (tok AND 0x3F) + 3"
        define off where "off = unat b + 1"
        have rd1: "nth_opt lz (i + 1) = Some b" and cons1: "drop (i + 1) lz = b # drop (i + 2) lz"
          using i1 by (simp_all add: b_def Cons_nth_drop_Suc)
        have st: "lz77x_stream ring pos (drop i lz) (take out dst) n = (if off > out \<or> out + len > n then Inl NETC_ERR_CORRUPT
            else lz77x_stream ring pos (drop (i + 2) lz) (copy_back (out - off) len (take out dst)) n)"
          using lz77x_stream_ref [OF ref, of ring pos b "drop (i + 2) lz" "take out dst" n]
          unfolding cons cons1 tk len_def off_def .
        show ?thesis
        proof (cases "off > out \<or> out + len > n")
          case True
          then have "lz77x_decode_loop ring pos lz n i out dst = Inl (F_Result NETC_ERR_CORRUPT)"
            using i i1 rd rd1 ref
            by (auto simp: unf len_def [symmetric] off_def [symmetric] Let_def simp del: One_nat_def)
          then show ?thesis using True by (simp add: st)
        next
          case ok: False
          define d where "d = copy_back (out - off) len (take out dst)"
          have d: "length d = out + len" using tk by (simp add: d_def)
          have cp: "copy_bytes out (size_sub out off) len dst = Some (d @ drop (length d) dst)"
            using copy_back_at [of off out len dst] ok "1.prems" d by (simp add: d_def off_def)
          have "lz77x_decode_loop ring pos lz n i out dst = lz77x_decode_loop ring pos lz n (i + 2) (length d) (d @ drop (length d) dst)"
            using i i1 rd rd1 ref ok cp d
            by (simp add: unf len_def [symmetric] off_def [symmetric] Let_def del: One_nat_def)
          also have "\<dots> = on_buffer (lz77x_stream ring pos (drop (i + 2) lz) d n) dst n"
            by (rule fin) (use "1.IH"(2) [OF i rd ref _ rd1 len_def off_def _ _ cp] i1 ok d "1.prems" in simp_all)
          finally show ?thesis
            using ok by (simp add: st d_def)
        qed
      qed
    next
      case long: 3
      show ?thesis
      proof (cases "i + 2 < length lz")
        case False
        then have "lz77x_stream ring pos (drop i lz) (take out dst) n = Inl NETC_ERR_CORRUPT"
          unfolding cons using long by (intro lz77x_stream_short) auto
        then show ?thesis using False i rd long by (simp add: unf)
      next
        case i2: True
        define lo where "lo = lz ! (i + 1)"
        define hi where "hi = lz ! (i + 2)"
        define off16 :: u16 where "off16 = ucast lo OR push_bit 8 (ucast hi)"
        define len where "len = unat (tok AND 0x3F) + 3"
        define off where "off = unat off16 + 1"
        have rd1: "nth_opt lz (i + 1) = Some lo" "nth_opt lz (i + 2) = Some hi"
          and cons1: "drop (i + 1) lz = lo # hi # drop (i + 3) lz"
          using i2 by (simp_all add: lo_def hi_def Cons_nth_drop_Suc numeral_3_eq_3 numeral_2_eq_2)
        have st: "lz77x_stream ring pos (drop i lz) (take out dst) n =
            (if ring = [] \<or> off > length ring \<or> out + len > n then Inl NETC_ERR_CORRUPT
             else lz77x_stream ring pos (drop (i + 3) lz)
               (take out dst @ ring_copy ring (lz77x_ring_start (length ring) pos off) len) n)"
          using lz77x_stream_long [OF long off16_def, of ring pos "drop (i + 3) lz" "take out dst" n]
          unfolding cons cons1 tk len_def off_def .
        show ?thesis
        proof (cases "ring = [] \<or> off > length ring \<or> out + len > n")
          case True
          then have "lz77x_decode_loop ring pos lz n i out dst = Inl (F_Result NETC_ERR_CORRUPT)"
            using i i2 rd rd1 long
            by (auto simp: unf len_def [symmetric] off16_def [symmetric] off_def [symmetric] Let_def simp del: One_nat_def)
          then show ?thesis using True by (simp add: st)
        next
          case ok: False
          define bs where "bs = ring_copy ring (lz77x_ring_start (length ring) pos off) len"
          define d where "d = take out dst @ bs"
          have bs: "length bs = len" by (simp add: bs_def)
          have d: "length d = out + len" using tk bs by (simp add: d_def)
          have rr: "ring_read ring (lz77x_ring_start (length ring) pos off) 0 len = Some bs"
            using ok by (simp add: ring_read_copy bs_def)
          have w: "buf_write dst out bs = Some (d @ drop (length d) dst)"
            using ok "1.prems" buf_write_Some [of out bs dst] d bs by (simp add: d_def)
          have "lz77x_decode_loop ring pos lz n i out dst = lz77x_decode_loop ring pos lz n (i + 3) (length d) (d @ drop (length d) dst)"
            using i i2 rd rd1 long ok rr w d
            by (simp add: unf len_def [symmetric] off16_def [symmetric] off_def [symmetric] Let_def del: One_nat_def)
          also have "\<dots> = on_buffer (lz77x_stream ring pos (drop (i + 3) lz) d n) dst n"
            by (rule fin)
               (use "1.IH"(3) [OF i rd long _ refl rd1 len_def off16_def off_def _ _ _ rr w] i2 ok d "1.prems" in simp_all)
          finally show ?thesis
            using ok by (simp add: st d_def bs_def)
        qed
      qed
    qed
  qed
qed

lemma lz77x_decode_refines:
  "n \<le> length dst \<Longrightarrow> lz77x_decode lz dst n ring pos = on_buffer (lz77x_stream ring pos lz [] n) dst n"
  by (simp add: lz77x_decode_def lz77x_decode_loop_refines)

subsection \<open>Tokens of the ring coder\<close>

lemma token_table_x:
  "list_all (\<lambda>n. (0x80 OR word_of_nat n :: byte) AND 0x80 \<noteq> 0 \<and> (0x80 OR word_of_nat n :: byte) AND 0x40 = 0 \<and>
     unat ((0x80 OR word_of_nat n :: byte) AND 0x3F) = n \<and>
     (0xC0 OR word_of_nat n :: byte) AND 0x80 \<noteq> 0 \<and> (0xC0 OR word_of_nat n :: byte) AND 0x40 \<noteq> 0 \<and>
     unat ((0xC0 OR word_of_nat n :: byte) AND 0x3F) = n) [0..<64]"
  by code_simp

lemma short_token:
  assumes "n < 64"
  shows "(0x80 OR word_of_nat n :: byte) AND 0x80 \<noteq> 0" and "(0x80 OR word_of_nat n :: byte) AND 0x40 = 0"
    and "unat ((0x80 OR word_of_nat n :: byte) AND 0x3F) = n"
  using token_table_x assms unfolding list_all_iff by (metis atLeastLessThan_iff le0 set_upt)+

lemma long_token:
  assumes "n < 64"
  shows "(0xC0 OR word_of_nat n :: byte) AND 0x80 \<noteq> 0" and "(0xC0 OR word_of_nat n :: byte) AND 0x40 \<noteq> 0"
    and "unat ((0xC0 OR word_of_nat n :: byte) AND 0x3F) = n"
  using token_table_x assms unfolding list_all_iff by (metis atLeastLessThan_iff le0 set_upt)+

lemma off16_bytes:
  "(ucast (ucast (w AND 0xFF) :: byte) OR push_bit 8 (ucast (ucast (drop_bit 8 w) :: byte)) :: u16) = w"
proof -
  have ff: "(0xFF :: u16) = mask 8" by (simp add: mask_eq_exp_minus_1)
  show ?thesis
    unfolding ff by (rule bit_word_eqI) (auto simp: bit_simps)
qed

interpretation lz77x: lz_stream "lz77x_stream ring ring_pos" for ring ring_pos
proof
  fix lits d rest :: "byte list" and n
  assume "lits \<noteq> []" "length lits \<le> 128" "length d + length lits \<le> n"
  moreover from this have "length lits - 1 < 128" "Suc (length lits - 1) = length lits" by simp_all
  ultimately show "lz77x_stream ring ring_pos (word_of_nat (length lits - 1) # lits @ rest) d n
      = lz77x_stream ring ring_pos rest (d @ lits) n"
    using literal_token [of "length lits - 1"] by (simp add: lz77x_stream_lit)
qed

lemma lz77x_tokens_short:
  assumes "3 \<le> len" "len \<le> 66" "1 \<le> off" "off \<le> 256" "off \<le> length d" "length d + len \<le> n"
  shows "lz77x_stream ring ring_pos ([0x80 OR word_of_nat (len - 3), word_of_nat (off - 1)] @ rest) d n
    = lz77x_stream ring ring_pos rest (copy_back (length d - off) len d) n"
  using short_token [of "len - 3"] assms unat_of_nat_byte [of "off - 1"] by (simp add: lz77x_stream_ref)

lemma lz77x_tokens_long:
  fixes off16 :: u16
  assumes "3 \<le> len" "len \<le> 66" "1 \<le> off" "off \<le> 65536" "off \<le> length ring" "length d + len \<le> n"
  defines "off16 \<equiv> word_of_nat (off - 1)"
  shows "lz77x_stream ring ring_pos ([0xC0 OR word_of_nat (len - 3), ucast (off16 AND 0xFF), ucast (drop_bit 8 off16)] @ rest) d n
    = lz77x_stream ring ring_pos rest (d @ ring_copy ring (lz77x_ring_start (length ring) ring_pos off) len) n"
proof -
  have "unat off16 = off - 1" unfolding off16_def using assms(3,4) by (intro unat_of_nat_u16) simp
  then have off: "unat off16 + 1 = off" using assms(3) by simp
  have ne: "ring \<noteq> []" using assms(3,5) by auto
  define tok :: byte where "tok = 0xC0 OR word_of_nat (len - 3)"
  have tok: "tok AND 0x80 \<noteq> 0" "tok AND 0x40 \<noteq> 0" "unat (tok AND 0x3F) + 3 = len"
    using long_token [of "len - 3"] assms(1,2) unfolding tok_def by simp_all
  show ?thesis
    using lz77x_stream_long [OF tok(1,2) off16_bytes [symmetric], of ring ring_pos off16 rest d n] ne assms(5,6)
    unfolding tok(3) off tok_def [symmetric] by simp
qed

subsection \<open>The ring encoder emits tokens for the packet\<close>

lemma ring_loop_ok:
  "ring \<noteq> [] \<Longrightarrow> length ht = 4096 \<Longrightarrow> \<exists>ht'. lz77x_ring_loop ring s js ht = Inr ht' \<and> length ht' = 4096"
proof (induction js arbitrary: ht)
  case (Cons j js)
  then show ?case by (simp add: Let_def ring_at_Some set_opt_def lz77x_hash3_less)
qed simp

lemma ring_scan_ok:
  assumes "ring \<noteq> []" shows "\<exists>ht. lz77x_ring_scan ring pos k = Inr ht \<and> length ht = 4096"
  unfolding lz77x_ring_scan_def Let_def by (rule ring_loop_ok [OF assms]) simp

lemma lz77x_probe_ok:
  assumes "ht_inv 4096 ht i" and "length rht = 4096" and "i + 3 \<le> length src"
  shows "\<exists>re se ht'. lz77x_probe src rht ht i = Inr (re, se, ht') \<and> (\<forall>p. se = Some p \<longrightarrow> p < i) \<and> (\<forall>j > i. ht_inv 4096 ht' j)"
  using ht_probe_ok [where hash = lz77x_hash3, OF assms(1) lz77x_hash3_less assms(3)] assms(2,3)
  by (auto simp: lz77x_probe_def hash_at_Some lz77x_hash3_less)

text \<open>What a match promises: it lies within the packet and repeats earlier bytes.\<close>

definition short_ok :: "byte list \<Rightarrow> nat \<Rightarrow> nat \<Rightarrow> nat \<Rightarrow> bool" where
  "short_ok src i len off \<longleftrightarrow> (3 \<le> len \<longrightarrow> len \<le> 66 \<and> 1 \<le> off \<and> off \<le> 256 \<and> off \<le> i \<and> i + len \<le> length src
     \<and> (\<forall>k < len. src ! (i - off + k) = src ! (i + k)))"

definition long_ok :: "byte list \<Rightarrow> byte list \<Rightarrow> nat \<Rightarrow> nat \<Rightarrow> nat \<Rightarrow> nat \<Rightarrow> bool" where
  "long_ok src ring ring_pos i len off \<longleftrightarrow> 3 \<le> len \<and> len \<le> 66 \<and> 1 \<le> off \<and> off \<le> 65536 \<and> off \<le> length ring
     \<and> i + len \<le> length src \<and> ring_copy ring (lz77x_ring_start (length ring) ring_pos off) len = take len (drop i src)"

lemma lz77x_short_ok:
  assumes "\<And>p. entry = Some p \<Longrightarrow> p < i" and "i \<le> length src"
  shows "\<exists>len off. lz77x_short src entry i = Inr (len, off) \<and> short_ok src i len off"
proof (cases "\<exists>pos. entry = Some pos \<and> i - pos \<ge> 1 \<and> i - pos \<le> 256")
  case True
  then obtain pos where pos: "entry = Some pos" "i - pos \<ge> 1" "i - pos \<le> 256" by blast
  define m where "m = (if length src - i > 66 then 66 else length src - i)"
  have p: "pos < i" using assms(1) pos(1) .
  have m: "m \<le> length src - i" by (simp add: m_def)
  obtain r where r: "match_run (\<lambda>m. nth_opt src (pos + m)) (\<lambda>m. nth_opt src (i + m)) 0 m = Inr r" "r \<le> m"
    "\<forall>k < r. src ! (pos + k) = src ! (i + k)"
    using candidate_run [OF p m assms(2)] by blast
  have "lz77x_short src entry i = Inr (if r \<ge> 3 then (r, i - pos) else (0, 0))"
    using pos r(1) by (simp add: lz77x_short_def Let_def m_def [symmetric])
  moreover have "r \<le> 66" "i + r \<le> length src" using r(2) assms(2) by (auto simp: m_def split: if_splits)
  moreover have "\<forall>k < r. src ! (i - (i - pos) + k) = src ! (i + k)" using r(3) p by simp
  ultimately show ?thesis using pos by (cases "r \<ge> 3") (auto simp: short_ok_def)
next
  case False
  then have "lz77x_short src entry i = Inr (0, 0)" by (auto simp: lz77x_short_def Let_def split: option.split)
  then show ?thesis by (simp add: short_ok_def)
qed

lemma lz77x_long_ok:
  assumes "ring \<noteq> []" and "i \<le> length src"
  shows "\<exists>r. lz77x_long src ring ring_pos entry i best = Inr r \<and> (\<forall>len off. r = Some (len, off) \<longrightarrow> long_ok src ring ring_pos i len off)"
proof (cases entry)
  case (Some abs_pos)
  define off where "off = u32_sub (ring_pos + length ring) abs_pos mod length ring"
  define rstart where "rstart = lz77x_ring_start (length ring) ring_pos off"
  define m where "m = (if length src - i > 66 then 66 else length src - i)"
  have less: "off < length ring" using assms(1) by (simp add: off_def)
  have "nth_opt src (i + j) \<noteq> None" if "j < m" for j using that by (simp add: m_def split: if_splits)
  then obtain r where r: "match_run (\<lambda>m. ring_at ring rstart m) (\<lambda>m. nth_opt src (i + m)) 0 m = Inr r"
    using match_run_defined [of m "\<lambda>m. ring_at ring rstart m" "\<lambda>m. nth_opt src (i + m)" 0] assms(1) by (auto simp: ring_at_Some)
  have s: "r \<le> m" "\<And>k. k < r \<Longrightarrow> i + k < length src \<and> ring ! ((rstart + k) mod length ring) = src ! (i + k)"
    using match_run_sound [OF r] assms(1) by (auto simp: ring_at_Some nth_opt_eq_Some)
  have "long_ok src ring ring_pos i r off" if "3 \<le> r" "1 \<le> off" "off \<le> LZ77X_MAX_LONG_OFFSET"
  proof -
    have le: "r \<le> 66" "i + r \<le> length src" using s(1) assms(2) by (auto simp: m_def split: if_splits)
    have "ring_copy ring rstart r = take r (drop i src)"
      using s(2) le by (intro nth_equalityI) (auto simp: ring_copy_def)
    then show ?thesis using that less le by (simp add: long_ok_def rstart_def LZ77X_MAX_LONG_OFFSET_def)
  qed
  then show ?thesis
    using Some r by (auto simp: lz77x_long_def Let_def off_def [symmetric] rstart_def [symmetric] m_def [symmetric])
qed (simp add: lz77x_long_def)

lemma lz77x_match_ok:
  assumes "ring \<noteq> []" and "\<And>p. se = Some p \<Longrightarrow> p < i" and "i \<le> length src"
  shows "\<exists>len off lng. lz77x_match src ring ring_pos re se i = Inr (len, off, lng)
    \<and> (if lng then long_ok src ring ring_pos i len off else short_ok src i len off)"
proof -
  obtain len off where sh: "lz77x_short src se i = Inr (len, off)" "short_ok src i len off"
    using lz77x_short_ok [OF assms(2,3)] by blast
  obtain r where lg: "lz77x_long src ring ring_pos re i len = Inr r" "\<And>l f. r = Some (l, f) \<Longrightarrow> long_ok src ring ring_pos i l f"
    using lz77x_long_ok [OF assms(1,3)] by blast
  show ?thesis
  proof (cases r)
    case None
    then show ?thesis using sh lg by (intro exI [of _ len] exI [of _ off] exI [of _ False]) (simp add: lz77x_match_def)
  next
    case (Some q)
    obtain l f where q: "q = (l, f)" by fastforce
    show ?thesis using sh lg Some q by (intro exI [of _ l] exI [of _ f] exI [of _ True]) (simp add: lz77x_match_def)
  qed
qed

lemma lz77x_emit_ok:
  assumes "3 \<le> len" and m: "if lng then long_ok src ring pos i len off else short_ok src i len off"
    and D: "lz77x.denotes ring pos src out i"
  shows "i + len \<le> length src \<and> (lz77x_emit cap len off lng out = Inl C_Fail \<or>
    (\<exists>out'. lz77x_emit cap len off lng out = Inr out' \<and> length out' \<le> cap \<and> lz77x.denotes ring pos src out' (i + len)))"
proof (cases lng)
  case True
  then have l: "long_ok src ring pos i len off" using m by simp
  define off16 :: u16 where "off16 = word_of_nat (off - 1)"
  let ?tok = "[0xC0 OR word_of_nat (len - 3), ucast (off16 AND 0xFF), ucast (drop_bit 8 off16)] :: byte list"
  have "lz77x.denotes ring pos src (out @ ?tok) (i + len)"
  proof (rule lz77x.denotes_append [OF D])
    fix rest
    have "take i src @ ring_copy ring (lz77x_ring_start (length ring) pos off) len = take (i + len) src"
      using l by (simp add: long_ok_def take_add)
    moreover have "length (take i src) = i" using l by (simp add: long_ok_def)
    ultimately show "lz77x_stream ring pos (?tok @ rest) (take i src) (length src)
        = lz77x_stream ring pos rest (take (i + len) src) (length src)"
      using l lz77x_tokens_long [of len off ring "take i src" "length src" pos rest] by (simp add: long_ok_def off16_def)
  qed
  then show ?thesis using True l by (auto simp: lz77x_emit_def append_cap_def Let_def long_ok_def off16_def)
next
  case False
  then have s: "short_ok src i len off" using m by simp
  let ?tok = "[0x80 OR word_of_nat (len - 3), word_of_nat (off - 1)] :: byte list"
  have "lz77x.denotes ring pos src (out @ ?tok) (i + len)"
  proof (rule lz77x.denotes_append [OF D])
    fix rest
    have "length (take i src) = i" using s assms(1) by (simp add: short_ok_def)
    moreover have "copy_back (i - off) len (take i src) = take (i + len) src"
    proof (rule copy_back_take)
      show "\<And>k. k < len \<Longrightarrow> src ! (i - off + k) = src ! (i + k)" using s assms(1) unfolding short_ok_def by blast
    qed (use s assms(1) in \<open>auto simp: short_ok_def\<close>)
    ultimately show "lz77x_stream ring pos (?tok @ rest) (take i src) (length src)
        = lz77x_stream ring pos rest (take (i + len) src) (length src)"
      using s assms(1) lz77x_tokens_short [of len off "take i src" "length src" ring pos rest] by (simp add: short_ok_def)
  qed
  then show ?thesis using False s assms(1) by (auto simp: lz77x_emit_def append_cap_def short_ok_def)
qed

lemma lz77x_loop_ok:
  assumes ring: "ring \<noteq> []" and rht: "length rht = 4096"
    and "ls \<le> i" and "i \<le> length src" and "ht_inv 4096 ht i" and "length out \<le> cap" and "lz77x.denotes ring pos src out ls"
  shows "lz_loop_ok (lz77x.denotes ring pos src) (length src) cap (lz77x_encode_loop src ring pos rht cap ht i ls out)"
  using assms(3-)
proof (induction "length src - i" arbitrary: ht i ls out rule: less_induct)
  case less
  note unf = lz77x_encode_loop.simps [of src ring pos rht cap ht i ls out]
  show ?case
  proof (cases "i + 3 \<le> length src")
    case False
    then show ?thesis using less.prems by (simp add: unf)
  next
    case i: True
    obtain re se ht1 where p: "lz77x_probe src rht ht i = Inr (re, se, ht1)" "\<And>p. se = Some p \<Longrightarrow> p < i"
      "\<And>j. j > i \<Longrightarrow> ht_inv 4096 ht1 j"
      using lz77x_probe_ok [OF less.prems(3) rht i] by blast
    obtain len off lng where m: "lz77x_match src ring pos re se i = Inr (len, off, lng)"
      "if lng then long_ok src ring pos i len off else short_ok src i len off"
      using lz77x_match_ok [OF ring p(2) less.prems(2)] by blast
    show ?thesis
    proof (cases "3 \<le> len")
      case False
      have "lz_loop_ok (lz77x.denotes ring pos src) (length src) cap (lz77x_encode_loop src ring pos rht cap ht1 (i + 1) ls out)"
        using i p(3) less.prems by (intro less.hyps) auto
      then show ?thesis using i p(1) m(1) False by (simp add: unf)
    next
      case True
      obtain ht2 where sk: "ht_skip lz77x_hash3 src i len ht1 = Inr ht2" "ht_inv 4096 ht2 (i + len)"
        using ht_skip_ok [where hash = lz77x_hash3, OF p(3) lz77x_hash3_less, of i len src] True by auto
      show ?thesis
      proof (cases "lz_flush_lits src cap ls i out")
        case (Inl e)
        then show ?thesis using i p(1) m(1) True flush_lits_defined [of i src cap ls out] less.prems(2)
          by (cases e) (simp_all add: unf)
      next
        case (Inr out1)
        have D: "lz77x.denotes ring pos src out1 i" using lz77x.flush_lits_decodes [OF Inr less.prems(1,2,5)] .
        note em = lz77x_emit_ok [OF True m(2) D, of cap]
        then consider "lz77x_emit cap len off lng out1 = Inl C_Fail"
          | out2 where "lz77x_emit cap len off lng out1 = Inr out2" "length out2 \<le> cap" "lz77x.denotes ring pos src out2 (i + len)"
          by blast
        then show ?thesis
        proof cases
          case 1
          then show ?thesis using i p(1) m(1) True Inr by (simp add: unf)
        next
          case (2 out2)
          have "lz_loop_ok (lz77x.denotes ring pos src) (length src) cap
              (lz77x_encode_loop src ring pos rht cap ht2 (i + len) (i + len) out2)"
            using i em sk(2) 2 True by (intro less.hyps) auto
          then show ?thesis using i p(1) m(1) True Inr 2(1) sk(1) by (simp add: unf)
        qed
      qed
    qed
  qed
qed

lemma lz77x_encode_ok:
  "lz_encode_ok (\<lambda>enc. if ring = [] then lz77_stream enc [] (length src) = Inr src
      else lz77x_stream ring pos enc [] (length src) = Inr src) (length src) cap (lz77x_encode src ring pos k cap)"
proof (cases "ring = []")
  case True
  then show ?thesis using lz77_encode_ok by (simp add: lz77x_encode_def)
next
  case ne: False
  obtain rht where rht: "lz77x_ring_scan ring pos k = Inr rht" "length rht = 4096" using ring_scan_ok [OF ne] by blast
  have "lz77x_encode src ring pos k cap = lz_last src cap (lz77x_encode_loop src ring pos rht cap (replicate 4096 None) 0 0 [])"
    using ne rht(1) by (simp add: lz77x_encode_def lz_last_def)
  moreover have "lz_loop_ok (lz77x.denotes ring pos src) (length src) cap
      (lz77x_encode_loop src ring pos rht cap (replicate 4096 None) 0 0 [])"
    by (rule lz77x_loop_ok [OF ne rht(2)]) (simp_all add: ht_inv_init lz77x.denotes_Nil)
  moreover have "lz77x_stream ring pos enc [] (length src) = Inr src" if "lz77x.denotes ring pos src enc (length src)" for enc
    using that [unfolded lz77x.denotes_def, rule_format, of "[]"] by (simp add: lz77x_stream.simps [of ring pos "[]"])
  ultimately show ?thesis using lz_encode_ok_mono [OF lz77x.lz_last_ok] ne by simp
qed

lemma lz77x_decode_encode:
  assumes "lz77x_encode src ring ring_pos prev_size cap = Inr enc" and "ring \<noteq> []" and "length src \<le> length dst"
  shows "lz77x_decode enc dst (length src) ring ring_pos = Inr (src @ drop (length src) dst) \<and> length enc < length src"
  using lz77x_encode_ok [of ring src ring_pos cap prev_size] assms by (simp add: lz_encode_ok_def lz77x_decode_refines)

text \<open>
  C22.  Whatever \<open>lz77x_encode\<close> returns for a non-empty ring is shorter than the packet, fits its buffer and decodes to the
  packet against the same ring contents and position, short and long references alike, in every destination
  with room for it.
\<close>

theorem lz77x_roundtrip:
  assumes "lz77x_encode src ring ring_pos prev_pkt_size lz_cap = Inr enc" and "ring \<noteq> []" and "length src \<le> length dst"
  shows "lz77x_decode enc dst (length src) ring ring_pos = Inr (src @ drop (length src) dst)
    \<and> length enc < length src \<and> length enc \<le> lz_cap"
  using lz77x_decode_encode [OF assms] lz77x_encode_ok [of ring src ring_pos lz_cap prev_pkt_size] assms(1)
  by (simp add: lz_encode_ok_def)

lemma u32_sub_8: "u32_sub 8 2 = 6" "u32_sub 8 3 = 5" "u32_sub 8 5 = 3"
  by (simp_all add: u32_sub_exact)

lemma lz77x_example:
  "lz77x_encode [6, 7, 8, 1, 2, 3, 4] [1, 2, 3, 4, 5, 6, 7, 8] 0 3 16 = Inr [0xC4, 2, 0]"
proof -
  let ?src = "[6, 7, 8, 1, 2, 3, 4] :: byte list" and ?ring = "[1, 2, 3, 4, 5, 6, 7, 8] :: byte list"
  define ht :: "nat option list" where "ht = replicate 4096 None"
  have ht: "length ht = 4096" "\<And>h. h < 4096 \<Longrightarrow> ht ! h = None" by (simp_all add: ht_def)
  have len: "length ?ring = 8" by simp
  have upt: "[0..<3 - 2] = [0::nat]" by simp
  have scan: "lz77x_ring_scan ?ring 0 3 = Inr (ht[lz77x_hash3 6 7 8 := Some 5])"
    unfolding lz77x_ring_scan_def Let_def len ht_def [symmetric]
    by (simp add: u32_sub_8 upt ring_at_def set_opt_def ht lz77x_hash3_less nth_opt_def)
  have long: "lz77x_long ?src ?ring 0 (Some 5) 0 0 = Inr (Some (7, 3))"
    unfolding lz77x_long_def lz77x_ring_start_def Let_def len
    by (simp add: u32_sub_8 LZ77X_MAX_LONG_OFFSET_def match_run.simps ring_at_def nth_opt_def)
  have match: "lz77x_match ?src ?ring 0 (Some 5) None 0 = Inr (7, 3, True)"
    using long by (simp add: lz77x_match_def lz77x_short_def)
  have probe: "lz77x_probe ?src (ht[lz77x_hash3 6 7 8 := Some 5]) ht 0 = Inr (Some 5, None, ht[lz77x_hash3 6 7 8 := Some 0])"
    by (simp add: lz77x_probe_def hash_at_def nth_opt_def ht_probe_def ht lz77x_hash3_less)
  have flush: "lz_flush_lits ?src 16 0 0 [] = Inr []" "lz_flush_lits ?src 16 7 7 [0xC4, 2, 0] = Inr [0xC4, 2, 0]"
    by (simp_all add: lz_flush_lits.simps)
  obtain ht2 where skip: "ht_skip lz77x_hash3 ?src 0 7 (ht[lz77x_hash3 6 7 8 := Some 0]) = Inr ht2"
    using ht_skip_ok [where hash = lz77x_hash3, OF _ lz77x_hash3_less, of "ht[lz77x_hash3 6 7 8 := Some 0]" 0 7 ?src]
      ht_inv_update [of 4096 ht 0 0 7] ht_inv_init [of 4096 0] by (auto simp: ht_def)
  have emit: "lz77x_emit 16 7 3 True [] = Inr [0xC4, 2, 0]" by (simp add: lz77x_emit_def Let_def)
  have "lz77x_encode_loop ?src ?ring 0 (ht[lz77x_hash3 6 7 8 := Some 5]) 16 ht 0 0 [] = Inr (7, [0xC4, 2, 0])"
    using probe match flush skip emit
    by (simp add: lz77x_encode_loop.simps [of _ _ _ _ _ _ 0] lz77x_encode_loop.simps [of _ _ _ _ _ _ 7])
  moreover have "length ?src = 7" by simp
  ultimately show ?thesis using flush(2) unfolding lz77x_encode_def scan ht_def [symmetric] by (simp only: sum.case prod.case) simp
qed

theorem lz77x_roundtrip_witness:
  "lz77x_decode [0xC4, 2, 0] [0, 0, 0, 0, 0, 0, 0, 9] 7 [1, 2, 3, 4, 5, 6, 7, 8] 0 = Inr [6, 7, 8, 1, 2, 3, 4, 9]"
proof -
  have len: "length [6, 7, 8, 1, 2, 3, 4 :: byte] = 7" by simp
  show ?thesis using lz77x_roundtrip [OF lz77x_example, of "[0, 0, 0, 0, 0, 0, 0, 9]", unfolded len] by (simp add: eval_nat_numeral)
qed

section \<open>The decoders on arbitrary input\<close>

definition decodes_exactly :: "netc_result + byte list \<Rightarrow> nat \<Rightarrow> bool" where
  "decodes_exactly res n \<longleftrightarrow> res = Inl NETC_ERR_CORRUPT \<or> (\<exists>d. res = Inr d \<and> length d = n)"

lemma decodes_exactly_simps [simp]:
  "decodes_exactly (Inl e) n \<longleftrightarrow> e = NETC_ERR_CORRUPT" "decodes_exactly (Inr d) n \<longleftrightarrow> length d = n"
  by (simp_all add: decodes_exactly_def)

lemma on_buffer_fills: "decodes_exactly r n \<Longrightarrow> fills_exactly (on_buffer r dst n) dst n"
  by (auto simp: decodes_exactly_def fills_exactly_def)

lemma rle_stream_exact: "decodes_exactly (rle_stream rle d n) n"
  by (induction rle d n rule: rle_stream.induct) auto

lemma lz77_stream_exact: "decodes_exactly (lz77_stream lz d n) n"
proof (induction lz d n rule: lz77_stream.induct)
  case (1 lz d n)
  show ?case
    using 1 by (subst lz77_stream.simps) (auto simp: Let_def split: list.split)
qed

lemma lz77x_stream_exact: "decodes_exactly (lz77x_stream ring ring_pos lz d n) n"
proof (induction ring ring_pos lz d n rule: lz77x_stream.induct)
  case (1 ring ring_pos lz d n)
  show ?case
  proof (cases lz)
    case Nil
    then show ?thesis by (simp add: lz77x_stream.simps [of ring ring_pos "[]"])
  next
    case (Cons tok rest)
    note unf = lz77x_stream.simps [of ring ring_pos "tok # rest"]
    consider "tok AND 0x80 = 0" | "tok AND 0x80 \<noteq> 0" "tok AND 0x40 = 0" | "tok AND 0x80 \<noteq> 0" "tok AND 0x40 \<noteq> 0"
      by blast
    then show ?thesis
    proof cases
      case 1
      then show ?thesis using "1.IH"(1) [OF Cons] by (simp add: Cons unf Let_def)
    next
      case 2
      then show ?thesis using "1.IH"(2) [OF Cons] by (simp add: Cons unf Let_def split: list.split)
    next
      case 3
      then show ?thesis using "1.IH"(3) [OF Cons] by (simp add: Cons unf Let_def split: list.split)
    qed
  qed
qed

lemma decoders_fill:
  assumes "n \<le> length dst"
  shows "fills_exactly (rle_decode stream dst n) dst n" and "fills_exactly (lz77_decode stream dst n) dst n"
    and "fills_exactly (lz77x_decode stream dst n ring ring_pos) dst n"
  using assms by (simp_all add: rle_decode_refines lz77_decode_refines lz77x_decode_refines on_buffer_fills
      rle_stream_exact lz77_stream_exact lz77x_stream_exact)

text \<open>
  C23.  Memory safety of the three match decoders: on every byte string, and for every buffer with room for the
  \<open>n\<close> bytes that the packet header announces, the run-length, LZ77 and ring decoders either report a corrupt
  packet or write exactly the first \<open>n\<close> bytes and leave the rest of the buffer as it was.  In particular they never read their
  input, their earlier output or the ring out of range and never write behind the announced size.
\<close>

theorem match_decoders_exact:
  assumes "n \<le> length dst"
  shows "fills_exactly (rle_decode stream dst n) dst n \<and> fills_exactly (lz77_decode stream dst n) dst n \<and>
    fills_exactly (lz77x_decode stream dst n ring ring_pos) dst n"
  using decoders_fill [OF assms] by simp

theorem match_decoders_exact_witness:
  "fills_exactly (rle_decode [3, 7, 200, 1] [0, 0, 0, 0] 4) [0, 0, 0, 0] 4 \<and>
   fills_exactly (lz77_decode [0, 7, 0xFF, 0] [0, 0, 0, 0] 4) [0, 0, 0, 0] 4 \<and>
   fills_exactly (lz77x_decode [0x80, 200] [0, 0, 0, 0] 4 [5, 6] 1) [0, 0, 0, 0] 4"
  using match_decoders_exact [of 4 "[0, 0, 0, 0]"] by simp

end
