(* ===== verification/Netc_Decompress.thy ===== *)
theory Netc_Decompress
  imports Netc_Ctx Netc_Lz
begin

text \<open>
  Decompression, \<open>src/src/core/netc_decompress.c\<close>: header validation, the decoders of the packet
  algorithms, and the update of the context after a packet.  The result is an error code, undefined
  behaviour, or the decoded bytes with the new context; on an error the context is unchanged.

  The decoder writes into the caller's buffer, whose old contents are an argument: a multi-region packet
  need not write every byte of it.  The output is the first \<open>*dst_size\<close> bytes of the buffer after a
  success; what an error leaves in the buffer is not modelled.

  Accesses to the packet, to the destination and to the arrays of tables are checked (\<open>Netc_Memory\<close>): the header
  and the payload must lie inside the packet, a state, a region descriptor or a bitstream inside the payload,
  the bytes that a coder writes inside the destination, and a table index inside its array.  Any other access is
  \<open>F_Undefined\<close>, as are the undefined steps of the coders themselves.  The prediction of the delta post-pass
  reads the packet history, two buffers of 65535 bytes, at positions below the packet size, and an index into
  an LZP table is a hash of 17 bits: neither can leave its array.
\<close>

section \<open>Results\<close>

text \<open>The first \<open>n\<close> bytes of the buffer that a decoder leaves.\<close>

definition out_bytes :: "nat \<Rightarrow> fault + byte list \<Rightarrow> fault + byte list" where
  "out_bytes n r = (case r of Inl e \<Rightarrow> Inl e | Inr dst \<Rightarrow> Inr (take n dst))"

definition NETC_ALG_RANS :: byte where "NETC_ALG_RANS = 0x02"

section \<open>Header validation\<close>

definition validate_header :: "byte list \<Rightarrow> nat \<Rightarrow> bool \<Rightarrow> fault + (netc_pkt_header \<times> nat)" where
  "validate_header src dst_cap compact =
     (case (if compact
            then (case netc_hdr_read_compact src of None \<Rightarrow> Inl (F_Result NETC_ERR_CORRUPT)
                  | Some (hdr_sz, original_size, flags, algorithm) \<Rightarrow>
                      Inr (\<lparr>hdr_original_size = original_size,
                            hdr_compressed_size = word_of_nat (size_sub (length src) hdr_sz),
                            hdr_flags = flags, hdr_algorithm = algorithm, hdr_model_id = 0, hdr_context_seq = 0\<rparr>, hdr_sz))
            else if length src < NETC_HEADER_SIZE then Inl (F_Result NETC_ERR_CORRUPT)
            else (case slice src 0 NETC_HEADER_SIZE of None \<Rightarrow> Inl F_Undefined
                  | Some h \<Rightarrow> Inr (netc_hdr_read h, NETC_HEADER_SIZE))) of
        Inl e \<Rightarrow> Inl e
      | Inr (hdr, hdr_sz) \<Rightarrow>
          if unat (hdr_original_size hdr) > NETC_MAX_PACKET_SIZE then Inl (F_Result NETC_ERR_CORRUPT)
          else if unat (hdr_original_size hdr) > dst_cap then Inl (F_Result NETC_ERR_BUF_SMALL)
          else if \<not> compact \<and> length src < hdr_sz + unat (hdr_compressed_size hdr) then Inl (F_Result NETC_ERR_CORRUPT)
          else Inr (hdr, hdr_sz))"

section \<open>tANS payloads\<close>

definition bucket_starts :: "nat list" where
  "bucket_starts = [0, 8, 16, 24, 32, 48, 64, 96, 128, 192, 256, 384, 512, 1024, 4096, 16384]"

definition decomp_bucket_start :: "nat \<Rightarrow> nat" where
  "decomp_bucket_start b = (if b < NETC_CTX_COUNT then bucket_starts ! b else 65536)"

text \<open>A bucket or a class beyond the tables reads outside an array.\<close>

definition decomp_select_tbl ::
    "netc_dict \<Rightarrow> netc_tans_table list \<Rightarrow> nat \<Rightarrow> byte \<Rightarrow> byte \<Rightarrow> netc_tans_table option" where
  "decomp_select_tbl dict tables bucket prevb pkt_flags =
     (if has_flag pkt_flags NETC_PKT_FLAG_BIGRAM
      then case nth_opt (d_bigram_tables dict) bucket of None \<Rightarrow> None
           | Some row \<Rightarrow>
               (case nth_opt row (netc_bigram_class prevb (Some (d_bigram_class_map dict))) of None \<Rightarrow> None
                | Some tbl \<Rightarrow> if tt_valid tbl then Some tbl else nth_opt tables bucket)
      else nth_opt tables bucket)"

text \<open>A state of a coder as it is stored at \<open>off\<close>: 2 bytes in compact mode, else 4.\<close>

definition load_state :: "bool \<Rightarrow> byte list \<Rightarrow> nat \<Rightarrow> nat option" where
  "load_state compact p off = (if compact then map_option unat (read_u16_at p off) else map_option unat (read_u32_at p off))"

text \<open>The regions \<open>r\<close>, \<open>r + 1\<close>, \<dots> of a multi-region payload; \<open>bits\<close> are the streams not yet consumed.\<close>

primrec mreg_regions ::
    "netc_dict \<Rightarrow> netc_tans_table list \<Rightarrow> byte \<Rightarrow> byte list \<Rightarrow> nat \<Rightarrow> nat list \<Rightarrow> byte list \<Rightarrow> byte \<Rightarrow> byte list \<Rightarrow>
     fault + byte list" where
  "mreg_regions dict tables flags payload orig [] bits prevb dst = Inr (take orig dst)"
| "mreg_regions dict tables flags payload orig (r # rs) bits prevb dst =
     (case (load_state False payload (1 + r * 8), load_state False payload (1 + r * 8 + 4)) of
        (Some state, Some bs_bytes) \<Rightarrow>
          let bucket = netc_ctx_bucket 0 + r;
              region_start = min (decomp_bucket_start bucket) orig;
              region_end = min (decomp_bucket_start (bucket + 1)) orig;
              region_len = region_end - region_start
          in if state = 0 \<and> bs_bytes = 0
             then mreg_regions dict tables flags payload orig rs bits prevb dst
             else if region_len = 0
             then mreg_regions dict tables flags payload orig rs bits prevb dst
             else if state < NETC_TANS_TABLE_SIZE \<or> state \<ge> 2 * NETC_TANS_TABLE_SIZE then Inl (F_Result NETC_ERR_CORRUPT)
             else if bs_bytes > length bits then Inl (F_Result NETC_ERR_CORRUPT)
             else (case decomp_select_tbl dict tables bucket prevb flags of None \<Rightarrow> Inl F_Undefined
                   | Some tbl \<Rightarrow>
                       if \<not> tt_valid tbl then Inl (F_Result NETC_ERR_DICT_INVALID)
                       else (case slice bits 0 bs_bytes of None \<Rightarrow> Inl F_Undefined
                             | Some bs \<Rightarrow>
                                 (case decode_into dst region_start region_len
                                         (or_fail NETC_ERR_CORRUPT (netc_tans_decode tbl (netc_bsr_init bs) region_len state)) of
                                    Inl e \<Rightarrow> Inl e
                                  | Inr out \<Rightarrow>
                                      (case buf_write dst region_start out of None \<Rightarrow> Inl F_Undefined
                                       | Some dst \<Rightarrow>
                                           (case nth_opt dst (region_end - 1) of None \<Rightarrow> Inl F_Undefined
                                            | Some prevb \<Rightarrow>
                                                mreg_regions dict tables flags payload orig rs (drop bs_bytes bits) prevb dst)))))
      | _ \<Rightarrow> Inl F_Undefined)"

definition decode_tans_mreg ::
    "netc_dict \<Rightarrow> netc_tans_table list \<Rightarrow> netc_pkt_header \<Rightarrow> byte list \<Rightarrow> byte list \<Rightarrow> fault + byte list" where
  "decode_tans_mreg dict tables hdr payload dst =
     (if length payload < 1 then Inl (F_Result NETC_ERR_CORRUPT)
      else case nth_opt payload 0 of None \<Rightarrow> Inl F_Undefined
           | Some b \<Rightarrow>
               let n_regions = unat b; hdr_bytes = 1 + n_regions * 8
               in if n_regions = 0 \<or> n_regions > NETC_CTX_COUNT then Inl (F_Result NETC_ERR_CORRUPT)
                  else if length payload < hdr_bytes then Inl (F_Result NETC_ERR_CORRUPT)
                  else mreg_regions dict tables (hdr_flags hdr) payload (unat (hdr_original_size hdr)) [0..<n_regions]
                         (drop hdr_bytes payload) 0 dst)"

definition decode_tans_x2 :: "netc_tans_table \<Rightarrow> nat \<Rightarrow> byte list \<Rightarrow> bool \<Rightarrow> fault + byte list" where
  "decode_tans_x2 tbl orig payload compact =
     (let state2_sz = (if compact then 4 else 8)
      in if length payload < state2_sz then Inl (F_Result NETC_ERR_CORRUPT)
         else case (load_state compact payload 0, load_state compact payload (if compact then 2 else 4)) of
                (Some state0, Some state1) \<Rightarrow>
                  or_fail NETC_ERR_CORRUPT
                    (netc_tans_decode_x2 tbl (netc_bsr_init (drop state2_sz payload)) orig state0 state1)
              | _ \<Rightarrow> Inl F_Undefined)"

definition decode_tans_x1 :: "netc_tans_table \<Rightarrow> nat \<Rightarrow> byte list \<Rightarrow> bool \<Rightarrow> fault + byte list" where
  "decode_tans_x1 tbl orig payload compact =
     (let state1_sz = (if compact then 2 else 4)
      in if length payload < state1_sz then Inl (F_Result NETC_ERR_CORRUPT)
         else case load_state compact payload 0 of None \<Rightarrow> Inl F_Undefined
              | Some initial_state \<Rightarrow>
                  if initial_state < NETC_TANS_TABLE_SIZE \<or> initial_state \<ge> 2 * NETC_TANS_TABLE_SIZE
                  then Inl (F_Result NETC_ERR_CORRUPT)
                  else or_fail NETC_ERR_CORRUPT
                         (netc_tans_decode tbl (netc_bsr_init (drop state1_sz payload)) orig initial_state))"

definition decode_tans ::
    "netc_dict option \<Rightarrow> netc_tans_table list \<Rightarrow> netc_pkt_header \<Rightarrow> byte list \<Rightarrow> byte list \<Rightarrow> bool \<Rightarrow> fault + byte list" where
  "decode_tans dict tables hdr payload dst compact =
     (case dict of None \<Rightarrow> Inl (F_Result NETC_ERR_DICT_INVALID)
      | Some d \<Rightarrow>
          let orig = unat (hdr_original_size hdr)
          in if has_flag (hdr_flags hdr) NETC_PKT_FLAG_MREG then decode_tans_mreg d tables hdr payload dst
             else case decomp_select_tbl d tables (unat (drop_bit 4 (hdr_algorithm hdr))) 0 (hdr_flags hdr) of
                    None \<Rightarrow> Inl F_Undefined
                  | Some tbl \<Rightarrow>
                      if \<not> tt_valid tbl then Inl (F_Result NETC_ERR_DICT_INVALID)
                      else decode_into dst 0 orig
                             (if has_flag (hdr_flags hdr) NETC_PKT_FLAG_X2 then decode_tans_x2 tbl orig payload compact
                              else decode_tans_x1 tbl orig payload compact))"

section \<open>Position-context and 10-bit payloads\<close>

definition unfilter_lzp :: "lzp_table option \<Rightarrow> byte \<Rightarrow> byte list \<Rightarrow> byte list" where
  "unfilter_lzp lzp algorithm dst =
     (case lzp of Some t \<Rightarrow> if algorithm AND 0xF0 \<noteq> 0 then netc_lzp_xor_unfilter dst t else dst | None \<Rightarrow> dst)"

definition decode_pctx ::
    "netc_dict \<Rightarrow> netc_tans_table list \<Rightarrow> lzp_table option \<Rightarrow> netc_pkt_header \<Rightarrow> byte list \<Rightarrow> byte list \<Rightarrow> bool \<Rightarrow>
     fault + byte list" where
  "decode_pctx d tables lzp hdr payload dst compact =
     (let pctx_state_sz = (if compact then 2 else 4); orig = unat (hdr_original_size hdr)
      in if length payload < pctx_state_sz then Inl (F_Result NETC_ERR_CORRUPT)
         else case load_state compact payload 0 of None \<Rightarrow> Inl F_Undefined
              | Some initial_state \<Rightarrow>
                  if initial_state < NETC_TANS_TABLE_SIZE \<or> initial_state \<ge> 2 * NETC_TANS_TABLE_SIZE
                  then Inl (F_Result NETC_ERR_CORRUPT)
                  else let bsr = netc_bsr_init (drop pctx_state_sz payload)
                       in case decode_into dst 0 orig (or_fail NETC_ERR_CORRUPT
                                 (if has_flag (hdr_flags hdr) NETC_PKT_FLAG_BIGRAM \<and> tt_valid (d_bigram_tables d ! 0 ! 0)
                                  then netc_tans_decode_pctx_bigram (d_bigram_tables d) tables (Some (d_bigram_class_map d)) bsr
                                         orig initial_state
                                  else netc_tans_decode_pctx tables bsr orig initial_state)) of
                            Inl e \<Rightarrow> Inl e
                          | Inr out \<Rightarrow> Inr (unfilter_lzp lzp (hdr_algorithm hdr) out))"

definition decode_tans_10 ::
    "netc_tans_table list \<Rightarrow> netc_pkt_header \<Rightarrow> byte list \<Rightarrow> byte list \<Rightarrow> fault + byte list" where
  "decode_tans_10 tables hdr payload dst =
     (case nth_opt tables (unat (drop_bit 4 (hdr_algorithm hdr))) of None \<Rightarrow> Inl F_Undefined
      | Some tbl12 \<Rightarrow>
          if \<not> tt_valid tbl12 then Inl (F_Result NETC_ERR_DICT_INVALID)
          else if length payload < 2 then Inl (F_Result NETC_ERR_CORRUPT)
          else case load_state True payload 0 of None \<Rightarrow> Inl F_Undefined
               | Some initial_state \<Rightarrow>
                   if initial_state < NETC_TANS_TABLE_SIZE_10 \<or> initial_state \<ge> 2 * NETC_TANS_TABLE_SIZE_10
                   then Inl (F_Result NETC_ERR_CORRUPT)
                   else case netc_freq_rescale_12_to_10 (tt_freq tbl12) of
                          None \<Rightarrow> Inl (F_Result NETC_ERR_DICT_INVALID)
                        | Some freq10 \<Rightarrow>
                            (case netc_tans_build_10 freq10 of None \<Rightarrow> Inl (F_Result NETC_ERR_DICT_INVALID)
                             | Some tbl10 \<Rightarrow>
                                 decode_into dst 0 (unat (hdr_original_size hdr))
                                   (or_fail NETC_ERR_CORRUPT
                                     (netc_tans_decode_10 tbl10 (netc_bsr_init (drop 2 payload))
                                        (unat (hdr_original_size hdr)) initial_state))))"

section \<open>Passthrough payloads\<close>

definition decode_passthru :: "netc_pkt_header \<Rightarrow> byte list \<Rightarrow> byte list \<Rightarrow> fault + byte list" where
  "decode_passthru hdr payload dst =
     (let orig = unat (hdr_original_size hdr)
      in if has_flag (hdr_flags hdr) NETC_PKT_FLAG_LZ77 then out_bytes orig (lz77_decode payload dst orig)
         else if has_flag (hdr_flags hdr) NETC_PKT_FLAG_RLE then out_bytes orig (rle_decode payload dst orig)
         else if hdr_compressed_size hdr \<noteq> hdr_original_size hdr then Inl (F_Result NETC_ERR_CORRUPT)
         else case slice payload 0 orig of None \<Rightarrow> Inl F_Undefined
              | Some bytes \<Rightarrow>
                  (case buf_write dst 0 bytes of None \<Rightarrow> Inl F_Undefined | Some dst \<Rightarrow> Inr (take orig dst)))"

section \<open>The stateful entry point\<close>

definition decomp_delta_postpass :: "netc_ctx \<Rightarrow> byte \<Rightarrow> byte list \<Rightarrow> byte list" where
  "decomp_delta_postpass ctx flags dst =
     (if \<not> has_flag flags NETC_PKT_FLAG_DELTA then dst
      else case c_prev_pkt ctx of None \<Rightarrow> dst
           | Some prev \<Rightarrow>
               if length prev \<noteq> length dst then dst
               else case c_prev2_pkt ctx of
                      Some prev2 \<Rightarrow>
                        if has_flag flags NETC_PKT_FLAG_RLE \<and> length prev2 = length dst
                        then netc_delta_decode_order2 prev2 prev dst (length dst)
                        else ops_delta_decode (c_simd_ops ctx) prev dst (length dst)
                    | None \<Rightarrow> ops_delta_decode (c_simd_ops ctx) prev dst (length dst))"

text \<open>The tail that all algorithms share; only passthrough packets count as such.\<close>

definition decomp_stats :: "netc_ctx \<Rightarrow> nat \<Rightarrow> nat \<Rightarrow> bool \<Rightarrow> netc_ctx" where
  "decomp_stats ctx src_size dst_size passthru =
     (if has_cfg (c_flags ctx) NETC_CFG_FLAG_STATS
      then let st = c_stats ctx
           in ctx\<lparr>c_stats := st\<lparr>st_packets_decompressed := st_packets_decompressed st + 1,
                                st_bytes_in := st_bytes_in st + word_of_nat src_size,
                                st_bytes_out := st_bytes_out st + word_of_nat dst_size,
                                st_passthrough_count := st_passthrough_count st + (if passthru then 1 else 0)\<rparr>\<rparr>
      else ctx)"

definition decomp_finish :: "netc_ctx \<Rightarrow> netc_pkt_header \<Rightarrow> nat \<Rightarrow> bool \<Rightarrow> byte list \<Rightarrow> netc_ctx" where
  "decomp_finish ctx hdr src_size passthru dst =
     (let ctx = decomp_update_prev ctx dst;
          ctx = decomp_ring_append ctx dst;
          ctx = decomp_stats ctx src_size (length dst) passthru;
          ctx = ctx\<lparr>c_context_seq := hdr_context_seq hdr + 1\<rparr>;
          ctx = netc_adaptive_update ctx dst
      in ctx_lzp_update ctx dst)"

text \<open>The algorithm without the table index in its upper half, for the algorithms that have one.\<close>

definition decomp_alg_id :: "byte \<Rightarrow> byte" where
  "decomp_alg_id alg =
     (let lo = alg AND 0x0F
      in if lo = NETC_ALG_TANS \<or> lo = NETC_ALG_LZP \<or> lo = NETC_ALG_TANS_PCTX \<or> lo = NETC_ALG_TANS_10 then lo else alg)"

definition decomp_payload :: "netc_ctx \<Rightarrow> netc_pkt_header \<Rightarrow> byte list \<Rightarrow> byte list \<Rightarrow> bool \<Rightarrow> fault + byte list" where
  "decomp_payload ctx hdr payload dst compact =
     (let alg_id = decomp_alg_id (hdr_algorithm hdr);
          tables = (case c_dict ctx of Some d \<Rightarrow> netc_get_tables ctx d | None \<Rightarrow> []);
          lzp = netc_get_lzp_table ctx
      in if alg_id = NETC_ALG_PASSTHRU
         then (case decode_passthru hdr payload dst of Inl e \<Rightarrow> Inl e
               | Inr out \<Rightarrow> Inr (if has_flag (hdr_flags hdr) NETC_PKT_FLAG_LZ77
                                   then decomp_delta_postpass ctx (hdr_flags hdr) out else out))
         else if alg_id = NETC_ALG_TANS
         then (case decode_tans (c_dict ctx) tables hdr payload dst compact of Inl e \<Rightarrow> Inl e
               | Inr out \<Rightarrow> Inr (decomp_delta_postpass ctx (hdr_flags hdr) out))
         else if alg_id = NETC_ALG_TANS_PCTX
         then (case c_dict ctx of None \<Rightarrow> Inl (F_Result NETC_ERR_DICT_INVALID)
               | Some d \<Rightarrow> (case decode_pctx d tables lzp hdr payload dst compact of Inl e \<Rightarrow> Inl e
                             | Inr out \<Rightarrow> Inr (decomp_delta_postpass ctx (hdr_flags hdr) out)))
         else if alg_id = NETC_ALG_LZ77X
         then if c_ring ctx = [] then Inl (F_Result NETC_ERR_UNSUPPORTED)
              else out_bytes (unat (hdr_original_size hdr))
                     (lz77x_decode payload dst (unat (hdr_original_size hdr)) (c_ring ctx) (c_ring_pos ctx))
         else if alg_id = NETC_ALG_LZP
         then (case (c_dict ctx, lzp) of
                 (Some d, Some t) \<Rightarrow>
                   (case decode_tans (Some d) tables hdr payload dst compact of Inl e \<Rightarrow> Inl e
                    | Inr out \<Rightarrow> Inr (decomp_delta_postpass ctx (hdr_flags hdr) (netc_lzp_xor_unfilter out t)))
               | _ \<Rightarrow> Inl (F_Result NETC_ERR_DICT_INVALID))
         else if alg_id = NETC_ALG_TANS_10
         then (case c_dict ctx of None \<Rightarrow> Inl (F_Result NETC_ERR_DICT_INVALID)
               | Some d \<Rightarrow> (case decode_tans_10 tables hdr payload dst of Inl e \<Rightarrow> Inl e
                             | Inr out \<Rightarrow> Inr (decomp_delta_postpass ctx (hdr_flags hdr) out)))
         else if alg_id = NETC_ALG_RANS then Inl (F_Result NETC_ERR_UNSUPPORTED)
         else Inl (F_Result NETC_ERR_CORRUPT))"

definition decomp_fill_header :: "netc_ctx \<Rightarrow> bool \<Rightarrow> netc_pkt_header \<Rightarrow> netc_pkt_header" where
  "decomp_fill_header ctx compact hdr =
     (if compact then hdr\<lparr>hdr_model_id := netc_dict_model_id (c_dict ctx), hdr_context_seq := c_context_seq ctx\<rparr> else hdr)"

definition decomp_model_ok :: "netc_ctx \<Rightarrow> netc_pkt_header \<Rightarrow> bool" where
  "decomp_model_ok ctx hdr =
     (case c_dict ctx of None \<Rightarrow> True
      | Some d \<Rightarrow> has_flag (hdr_flags hdr) NETC_PKT_FLAG_PASSTHRU \<or> hdr_algorithm hdr = NETC_ALG_LZ77X
          \<or> hdr_model_id hdr = d_model_id d)"

definition netc_decompress ::
    "netc_ctx option \<Rightarrow> byte list option \<Rightarrow> byte list option \<Rightarrow> fault + (byte list \<times> netc_ctx)" where
  "netc_decompress ctx src dst =
     (case ctx of None \<Rightarrow> Inl (F_Result NETC_ERR_CTX_NULL)
      | Some ctx \<Rightarrow>
          (case (src, dst) of
             (Some src, Some dst) \<Rightarrow>
               (let compact = has_cfg (c_flags ctx) NETC_CFG_FLAG_COMPACT_HDR
                in case validate_header src (length dst) compact of Inl e \<Rightarrow> Inl e
                   | Inr (hdr, hdr_sz) \<Rightarrow>
                       let hdr = decomp_fill_header ctx compact hdr
                       in if \<not> decomp_model_ok ctx hdr then Inl (F_Result NETC_ERR_VERSION)
                          else case slice src hdr_sz (unat (hdr_compressed_size hdr)) of None \<Rightarrow> Inl F_Undefined
                               | Some payload \<Rightarrow>
                                   (case decomp_payload ctx hdr payload dst compact of Inl e \<Rightarrow> Inl e
                                    | Inr out \<Rightarrow>
                                        Inr (out, decomp_finish ctx hdr (length src)
                                                    (decomp_alg_id (hdr_algorithm hdr) = NETC_ALG_PASSTHRU) out)))
           | _ \<Rightarrow> Inl (F_Result NETC_ERR_INVALID_ARG)))"

section \<open>The stateless entry point\<close>

definition stateless_payload :: "netc_dict \<Rightarrow> netc_pkt_header \<Rightarrow> byte list \<Rightarrow> byte list \<Rightarrow> fault + byte list" where
  "stateless_payload d hdr payload dst =
     (let alg_id = decomp_alg_id (hdr_algorithm hdr)
      in if alg_id = NETC_ALG_PASSTHRU then decode_passthru hdr payload dst
         else if alg_id = NETC_ALG_TANS then decode_tans (Some d) (d_tables d) hdr payload dst False
         else if alg_id = NETC_ALG_TANS_PCTX then decode_pctx d (d_tables d) (d_lzp_table d) hdr payload dst False
         else if alg_id = NETC_ALG_LZP
         then (case d_lzp_table d of None \<Rightarrow> Inl (F_Result NETC_ERR_DICT_INVALID)
               | Some t \<Rightarrow> (case decode_tans (Some d) (d_tables d) hdr payload dst False of Inl e \<Rightarrow> Inl e
                             | Inr out \<Rightarrow> Inr (netc_lzp_xor_unfilter out t)))
         else if alg_id = NETC_ALG_TANS_10 then decode_tans_10 (d_tables d) hdr payload dst
         else if alg_id = NETC_ALG_RANS then Inl (F_Result NETC_ERR_UNSUPPORTED)
         else Inl (F_Result NETC_ERR_CORRUPT))"

definition netc_decompress_stateless ::
    "netc_dict option \<Rightarrow> byte list option \<Rightarrow> byte list option \<Rightarrow> fault + byte list" where
  "netc_decompress_stateless dict src dst =
     (case (dict, src, dst) of
        (Some d, Some src, Some dst) \<Rightarrow>
          (case validate_header src (length dst) False of Inl e \<Rightarrow> Inl e
           | Inr (hdr, hdr_sz) \<Rightarrow>
               if \<not> has_flag (hdr_flags hdr) NETC_PKT_FLAG_PASSTHRU \<and> hdr_model_id hdr \<noteq> d_model_id d
               then Inl (F_Result NETC_ERR_VERSION)
               else if has_flag (hdr_flags hdr) NETC_PKT_FLAG_DELTA then Inl (F_Result NETC_ERR_CORRUPT)
               else case slice src hdr_sz (unat (hdr_compressed_size hdr)) of None \<Rightarrow> Inl F_Undefined
                    | Some payload \<Rightarrow> stateless_payload d hdr payload dst)
      | _ \<Rightarrow> Inl (F_Result NETC_ERR_INVALID_ARG))"

section \<open>Decoding is defined and exact\<close>

definition fault_ok :: "fault + byte list \<Rightarrow> nat \<Rightarrow> bool" where
  "fault_ok r n = (case r of Inl F_Undefined \<Rightarrow> False | Inl (F_Result e) \<Rightarrow> True | Inr out \<Rightarrow> length out = n)"

lemma fault_ok_simps [simp]:
  "\<not> fault_ok (Inl F_Undefined) n" "fault_ok (Inl (F_Result e)) n" "fault_ok (Inr out) n \<longleftrightarrow> length out = n"
  by (simp_all add: fault_ok_def)

lemma fault_ok_if: "(p \<Longrightarrow> fault_ok a n) \<Longrightarrow> (\<not> p \<Longrightarrow> fault_ok b n) \<Longrightarrow> fault_ok (if p then a else b) n"
  by simp

lemma fault_ok_or_fail: "decoded_ok r n \<Longrightarrow> fault_ok (or_fail code r) n"
  by (auto simp: or_fail_def decoded_ok_def)

lemma fault_ok_out_bytes: "fills_exactly r dst n \<Longrightarrow> fault_ok (out_bytes n r) n"
  by (auto simp: out_bytes_def fills_exactly_def)

lemma fault_ok_into: "off + n \<le> length dst \<Longrightarrow> fault_ok r n \<Longrightarrow> fault_ok (decode_into dst off n r) n"
  by simp

lemma load_state_Some:
  "compact \<Longrightarrow> off + 2 \<le> length p \<Longrightarrow> load_state compact p off = Some (unat (netc_read_u16_le (drop off p)))"
  "\<not> compact \<Longrightarrow> off + 4 \<le> length p \<Longrightarrow> load_state compact p off = Some (unat (netc_read_u32_le (drop off p)))"
  by (simp_all add: load_state_def)

lemma fault_ok_map:
  assumes "fault_ok r n" and "\<And>out. length out = n \<Longrightarrow> length (f out) = n"
  shows "fault_ok (case r of Inl e \<Rightarrow> Inl e | Inr out \<Rightarrow> Inr (f out)) n"
  using assms by (auto simp: fault_ok_def split: sum.splits fault.splits)

text \<open>
  A bitstream with its sentinel: the reader is defined on it.  \<open>payload_streams\<close> lists the bitstreams
  that a payload hands to the bit reader.
\<close>

definition sentinel_ok :: "byte list \<Rightarrow> bool" where
  "sentinel_ok s \<longleftrightarrow> s = [] \<or> last s \<noteq> 0"

fun mreg_streams :: "byte list \<Rightarrow> nat \<Rightarrow> nat list \<Rightarrow> byte list \<Rightarrow> byte list list" where
  "mreg_streams payload orig [] bits = []"
| "mreg_streams payload orig (r # rs) bits =
     (let state = unat (netc_read_u32_le (drop (1 + r * 8) payload));
          bs_bytes = unat (netc_read_u32_le (drop (1 + r * 8 + 4) payload));
          bucket = netc_ctx_bucket 0 + r
      in if state = 0 \<and> bs_bytes = 0 \<or> min (decomp_bucket_start (bucket + 1)) orig - min (decomp_bucket_start bucket) orig = 0
         then mreg_streams payload orig rs bits
         else take bs_bytes bits # mreg_streams payload orig rs (drop bs_bytes bits))"

definition payload_streams :: "netc_pkt_header \<Rightarrow> byte list \<Rightarrow> bool \<Rightarrow> byte list list" where
  "payload_streams hdr payload compact =
     (let alg_id = decomp_alg_id (hdr_algorithm hdr); state_sz = (if compact then 2 else 4)
      in if alg_id = NETC_ALG_TANS \<or> alg_id = NETC_ALG_LZP
         then if has_flag (hdr_flags hdr) NETC_PKT_FLAG_MREG
              then mreg_streams payload (unat (hdr_original_size hdr)) [0..<unat (payload ! 0)]
                     (drop (1 + unat (payload ! 0) * 8) payload)
              else if has_flag (hdr_flags hdr) NETC_PKT_FLAG_X2 then [drop (2 * state_sz) payload]
              else [drop state_sz payload]
         else if alg_id = NETC_ALG_TANS_PCTX then [drop state_sz payload]
         else if alg_id = NETC_ALG_TANS_10 then [drop 2 payload]
         else [])"

lemma sentinel_bsr: "sentinel_ok s \<Longrightarrow> bsr_inv (netc_bsr_init s)"
proof (cases "s = []")
  case True
  then show ?thesis by (simp add: netc_bsr_init_def bsr_inv_def bsr_shape_def)
next
  case False
  then show "sentinel_ok s \<Longrightarrow> ?thesis" using bsr_init_sentinel(1) by (simp add: sentinel_ok_def)
qed

text \<open>What the decoders need of a dictionary and of the tables in use.\<close>

definition coder_ok :: "netc_dict \<Rightarrow> netc_tans_table list \<Rightarrow> bool" where
  "coder_ok d tables \<longleftrightarrow> tables_wf tables \<and> bigram_wf (d_bigram_tables d) (Some (d_bigram_class_map d))"

lemma select_tbl_ok:
  assumes "coder_ok d tables" and "b < 16"
  shows "\<exists>t. decomp_select_tbl d tables b p f = Some t \<and> (tt_valid t \<longrightarrow> tans_wf NETC_TANS_TABLE_LOG t)"
proof -
  have t: "length tables = 16" "tt_valid (tables ! b) \<longrightarrow> tans_wf NETC_TANS_TABLE_LOG (tables ! b)"
    using assms by (simp_all add: coder_ok_def tables_wf_def)
  let ?c = "netc_bigram_class p (Some (d_bigram_class_map d))" and ?row = "d_bigram_tables d ! b"
  have bw: "bigram_wf (d_bigram_tables d) (Some (d_bigram_class_map d))" using assms(1) by (simp add: coder_ok_def)
  moreover from this have len: "length (d_bigram_tables d) = 16" and "?row \<in> set (d_bigram_tables d)"
    using assms(2) by (simp_all add: bigram_wf_def)
  ultimately have row: "length ?row = 8" "\<forall>t \<in> set ?row. tt_valid t \<longrightarrow> tans_wf NETC_TANS_TABLE_LOG t"
    by (simp_all add: bigram_wf_def)
  moreover have c: "?c < 8" using bigram_class_less [OF bw] .
  ultimately have "tt_valid (?row ! ?c) \<longrightarrow> tans_wf NETC_TANS_TABLE_LOG (?row ! ?c)" by simp
  then show ?thesis using t row(1) c len assms(2) by (simp add: decomp_select_tbl_def)
qed

lemma mreg_regions_ok:
  assumes "coder_ok d tables" and "\<forall>r \<in> set rs. r < 16 \<and> 1 + r * 8 + 8 \<le> length payload"
    and "\<forall>s \<in> set (mreg_streams payload orig rs bits). sentinel_ok s" and "orig \<le> length dst"
  shows "fault_ok (mreg_regions d tables flags payload orig rs bits p dst) orig"
  using assms(2-4)
proof (induction rs arbitrary: bits p dst)
  case (Cons r rs)
  define st where "st = unat (netc_read_u32_le (drop (1 + r * 8) payload))"
  define bs where "bs = unat (netc_read_u32_le (drop (1 + r * 8 + 4) payload))"
  define b where "b = netc_ctx_bucket 0 + r"
  define s where "s = min (decomp_bucket_start b) orig"
  define e where "e = min (decomp_bucket_start (b + 1)) orig"
  have b0: "netc_ctx_bucket 0 = 0" by (simp add: netc_ctx_bucket_def bucket_lut_def numeral_eq_Suc)
  obtain t where t: "decomp_select_tbl d tables b p flags = Some t" "tt_valid t \<longrightarrow> tans_wf NETC_TANS_TABLE_LOG t"
    using select_tbl_ok [OF assms(1), of b p flags] Cons.prems(1) b0 by (auto simp: b_def)
  have ld: "load_state False payload (1 + r * 8) = Some st" "load_state False payload (1 + r * 8 + 4) = Some bs"
    using Cons.prems(1) by (simp_all add: load_state_Some st_def bs_def)
  note unf = mreg_regions.simps(2) [of d tables flags payload orig r rs bits p dst, unfolded ld prod.case option.case Let_def
      b_def [symmetric], folded s_def e_def]
  have streams: "mreg_streams payload orig (r # rs) bits = (if st = 0 \<and> bs = 0 \<or> e - s = 0 then mreg_streams payload orig rs bits
      else take bs bits # mreg_streams payload orig rs (drop bs bits))"
    by (simp add: Let_def st_def bs_def b_def s_def e_def)
  show ?case
  proof (cases "st = 0 \<and> bs = 0 \<or> e - s = 0")
    case True
    then have "fault_ok (mreg_regions d tables flags payload orig rs bits p dst) orig"
      using Cons.prems streams by (intro Cons.IH) auto
    then show ?thesis using True unfolding unf by auto
  next
    case False
    then have sent: "sentinel_ok (take bs bits)" "\<forall>s \<in> set (mreg_streams payload orig rs (drop bs bits)). sentinel_ok s"
      using Cons.prems(2) streams by auto
    have se: "s < e" "e \<le> orig" using False by (auto simp: e_def)
    define res where "res = or_fail NETC_ERR_CORRUPT (netc_tans_decode t (netc_bsr_init (take bs bits)) (e - s) st)"
    have dec: "fault_ok res (e - s)" if "tt_valid t"
      unfolding res_def using fault_ok_or_fail [OF tans_decode_ok] t(2) that sentinel_bsr [OF sent(1)] by blast
    have rest: "fault_ok (mreg_regions d tables flags payload orig rs (drop bs bits) q (take s dst @ out @ drop e dst)) orig"
      if "length out = e - s" for out q
      using Cons.prems(1,3) sent(2) that se by (intro Cons.IH) auto
    have wr: "buf_write dst s out = Some (take s dst @ out @ drop e dst)" if "length out = e - s" for out
      using that se Cons.prems(3) by (simp add: buf_write_def)
    have prev: "\<exists>q. nth_opt (take s dst @ out @ drop e dst) (e - 1) = Some q" if "length out = e - s" for out
      using that se Cons.prems(3) by simp
    have into: "decode_into dst s (e - s) res = res" using se Cons.prems(3) by simp
    show ?thesis
    proof (cases "\<not> tt_valid t \<or> st < NETC_TANS_TABLE_SIZE \<or> st \<ge> 2 * NETC_TANS_TABLE_SIZE \<or> bs > length bits")
      case True
      then show ?thesis using False unfolding unf t(1) by auto
    next
      case ok: False
      then have eq: "mreg_regions d tables flags payload orig (r # rs) bits p dst =
          (case res of Inl e \<Rightarrow> Inl e
           | Inr out \<Rightarrow> (case buf_write dst s out of None \<Rightarrow> Inl F_Undefined
               | Some dst \<Rightarrow> (case nth_opt dst (e - 1) of None \<Rightarrow> Inl F_Undefined
                   | Some q \<Rightarrow> mreg_regions d tables flags payload orig rs (drop bs bits) q dst)))"
        using False t(1) into unfolding unf by (simp add: res_def)
      show ?thesis
      proof (cases res)
        case (Inl x)
        then show ?thesis using dec ok eq by (auto simp: fault_ok_def)
      next
        case (Inr out)
        then have len: "length out = e - s" using dec ok by (simp add: fault_ok_def)
        then show ?thesis using Inr eq rest [OF len] wr [OF len] prev [OF len] by auto
      qed
    qed
  qed
qed (simp add: min_def)

lemma alg_bucket_less: "unat (drop_bit 4 (alg :: byte)) < 16"
  using unat_byte_less [of alg] by (simp add: drop_bit_eq_div unat_div div_less_iff_less_mult)

lemma decode_tans_ok:
  assumes "\<forall>d. dict = Some d \<longrightarrow> coder_ok d tables" and "unat (hdr_original_size hdr) \<le> length dst"
    and "decomp_alg_id (hdr_algorithm hdr) = NETC_ALG_TANS \<or> decomp_alg_id (hdr_algorithm hdr) = NETC_ALG_LZP"
    and "\<forall>s \<in> set (payload_streams hdr payload compact). sentinel_ok s"
  shows "fault_ok (decode_tans dict tables hdr payload dst compact) (unat (hdr_original_size hdr))"
proof (cases dict)
  case (Some d)
  then have ok: "coder_ok d tables" using assms(1) by simp
  have streams: "payload_streams hdr payload compact =
      (if has_flag (hdr_flags hdr) NETC_PKT_FLAG_MREG
       then mreg_streams payload (unat (hdr_original_size hdr)) [0..<unat (payload ! 0)] (drop (1 + unat (payload ! 0) * 8) payload)
       else if has_flag (hdr_flags hdr) NETC_PKT_FLAG_X2 then [drop (if compact then 4 else 8) payload]
       else [drop (if compact then 2 else 4) payload])"
    using assms(3) by (simp add: payload_streams_def Let_def)
  obtain t where t: "decomp_select_tbl d tables (unat (drop_bit 4 (hdr_algorithm hdr))) 0 (hdr_flags hdr) = Some t"
    "tt_valid t \<longrightarrow> tans_wf NETC_TANS_TABLE_LOG t"
    using select_tbl_ok [OF ok alg_bucket_less] by blast
  show ?thesis
  proof (cases "has_flag (hdr_flags hdr) NETC_PKT_FLAG_MREG")
    case True
    then show ?thesis
      using mreg_regions_ok [OF ok, of "[0..<unat (payload ! 0)]" payload] assms(2,4) streams
      by (auto simp: decode_tans_def Some decode_tans_mreg_def Let_def NETC_CTX_COUNT_def)
  next
    case False
    then show ?thesis
      using t assms(2,4) streams
      by (auto simp: decode_tans_def Some Let_def decode_tans_x2_def decode_tans_x1_def sentinel_bsr load_state_def
          intro!: fault_ok_or_fail tans_decode_ok tans_decode_x2_ok)
  qed
qed (simp add: decode_tans_def)

lemma length_unfilter_lzp [simp]: "length (unfilter_lzp lzp alg dst) = length dst"
  by (simp add: unfilter_lzp_def split: option.split)

lemma decode_pctx_ok:
  assumes "coder_ok d tables" and "sentinel_ok (drop (if compact then 2 else 4) payload)"
    and "unat (hdr_original_size hdr) \<le> length dst"
  shows "fault_ok (decode_pctx d tables lzp hdr payload dst compact) (unat (hdr_original_size hdr))"
proof -
  have "bsr_inv (netc_bsr_init (drop (if compact then 2 else 4) payload))" using sentinel_bsr assms(2) .
  then show ?thesis using assms(1,3)
    by (cases compact)
       (auto simp: decode_pctx_def Let_def coder_ok_def load_state_def
         intro!: fault_ok_map fault_ok_or_fail tans_decode_pctx_ok tans_decode_bigram_ok)
qed

lemma length_rescale_redistribute: "length (rescale_redistribute l f diff) = length f"
proof -
  have "length (fst (fold (\<lambda>s (f10, diff). if diff = 0 \<or> s = l \<or> f10 ! s = 0 then (f10, diff)
            else if diff > 0 then (f10[s := f10 ! s + 1], diff - 1)
            else if unat (f10 ! s) > 1 then (f10[s := f10 ! s - 1], diff + 1)
            else (f10, diff)) ss (f :: netc_freq_table, diff :: int))) = length f" for ss
    by (induction ss arbitrary: f diff) auto
  then show ?thesis by (simp add: rescale_redistribute_def)
qed

lemma length_rescale: "netc_freq_rescale_12_to_10 f = Some g \<Longrightarrow> length g = length f"
  using length_rescale_redistribute
  by (auto simp: netc_freq_rescale_12_to_10_def Let_def split: if_splits option.splits)

lemma build_10_wf:
  assumes "netc_tans_build_10 f = Some t" and "length f = NETC_TANS_SYMBOLS"
  shows "tans_wf NETC_TANS_TABLE_LOG_10 t"
proof -
  have "freq_total f = 2 ^ NETC_TANS_TABLE_LOG_10"
    using assms(1) by (simp add: netc_tans_build_10_def tans_build_def split: if_splits)
  then show ?thesis
    using tans_build_wf [of NETC_TANS_SPREAD_STEP_10 NETC_TANS_TABLE_LOG_10 f] assms
    unfolding netc_tans_build_10_def tans_consts by auto
qed

lemma decode_tans_10_ok:
  assumes "sentinel_ok (drop 2 payload)" and "unat (hdr_original_size hdr) \<le> length dst" and "length tables = 16"
    and len: "length (tt_freq (tables ! unat (drop_bit 4 (hdr_algorithm hdr)))) = NETC_TANS_SYMBOLS"
  shows "fault_ok (decode_tans_10 tables hdr payload dst) (unat (hdr_original_size hdr))"
proof -
  have "tans_wf NETC_TANS_TABLE_LOG_10 t10"
    if "netc_freq_rescale_12_to_10 (tt_freq (tables ! unat (drop_bit 4 (hdr_algorithm hdr)))) = Some f10"
      "netc_tans_build_10 f10 = Some t10" for f10 t10
    using build_10_wf length_rescale that len by metis
  then show ?thesis using sentinel_bsr [OF assms(1)] assms(2,3) alg_bucket_less [of "hdr_algorithm hdr"]
    by (auto simp: decode_tans_10_def Let_def load_state_def split: option.split intro!: fault_ok_or_fail tans_decode_10_ok)
qed

lemma decode_passthru_ok:
  assumes "length payload = unat (hdr_compressed_size hdr)" and "unat (hdr_original_size hdr) \<le> length dst"
  shows "fault_ok (decode_passthru hdr payload dst) (unat (hdr_original_size hdr))"
  using assms decoders_fill [OF assms(2)]
  by (auto simp: decode_passthru_def Let_def buf_write_def intro!: fault_ok_out_bytes)

lemma length_postpass:
  "ops_delta_decode (c_simd_ops ctx) = netc_delta_decode \<Longrightarrow> length (decomp_delta_postpass ctx flags dst) = length dst"
  by (simp add: decomp_delta_postpass_def split: option.split)

text \<open>A context whose dictionary, if any, has a class map within its tables.\<close>

definition ctx_safe :: "netc_ctx \<Rightarrow> bool" where
  "ctx_safe ctx \<longleftrightarrow> ctx_wf ctx \<and> (\<forall>d. c_dict ctx = Some d \<longrightarrow> class_map_ok (d_bigram_class_map d))"

lemma ctx_safe_coder:
  assumes "ctx_safe ctx" and "c_dict ctx = Some d" shows "coder_ok d (netc_get_tables ctx d)"
  using assms ctx_wf_tables(3) dict_tables_wf(2) by (simp add: ctx_safe_def coder_ok_def ctx_wf_def)

lemma decomp_payload_ok:
  assumes safe: "ctx_safe ctx" and len: "length payload = unat (hdr_compressed_size hdr)"
    and dst: "unat (hdr_original_size hdr) \<le> length dst"
    and sent: "\<forall>s \<in> set (payload_streams hdr payload compact). sentinel_ok s"
  shows "fault_ok (decomp_payload ctx hdr payload dst compact) (unat (hdr_original_size hdr))"
proof -
  let ?alg = "decomp_alg_id (hdr_algorithm hdr)" and ?n = "unat (hdr_original_size hdr)"
  define tables where "tables = (case c_dict ctx of Some d \<Rightarrow> netc_get_tables ctx d | None \<Rightarrow> [])"
  have wf: "ctx_wf ctx" using safe by (simp add: ctx_safe_def)
  note post = length_postpass [of ctx]
  have coder: "\<forall>d. c_dict ctx = Some d \<longrightarrow> coder_ok d tables"
    using ctx_safe_coder [OF safe] by (simp add: tables_def)
  have pctx: "fault_ok (decode_pctx d tables lzp hdr payload dst compact) ?n"
    if "c_dict ctx = Some d" "?alg = NETC_ALG_TANS_PCTX" for d lzp
    using coder that sent dst by (intro decode_pctx_ok) (auto simp: payload_streams_def Let_def pkt_consts)
  have tans: "fault_ok (decode_tans (c_dict ctx) tables hdr payload dst compact) ?n"
    if "?alg = NETC_ALG_TANS \<or> ?alg = NETC_ALG_LZP"
    using decode_tans_ok [OF coder dst that sent] .
  have tans10: "fault_ok (decode_tans_10 tables hdr payload dst) ?n" if d: "c_dict ctx = Some d" "?alg = NETC_ALG_TANS_10" for d
  proof (rule decode_tans_10_ok)
    show "sentinel_ok (drop 2 payload)" using sent d(2) by (auto simp: payload_streams_def Let_def pkt_consts)
    show "length (tt_freq (tables ! unat (drop_bit 4 (hdr_algorithm hdr)))) = NETC_TANS_SYMBOLS"
      using ctx_wf_tables [OF wf d(1)] built_facts(1) alg_bucket_less
      by (simp add: tables_def d(1) NETC_CTX_COUNT_def)
    show "length tables = 16" using coder d(1) by (simp add: coder_ok_def tables_wf_def)
  qed (rule dst)
  have lz: "fault_ok (out_bytes ?n (lz77x_decode payload dst ?n (c_ring ctx) (c_ring_pos ctx))) ?n"
    using decoders_fill(3) [OF dst] by (rule fault_ok_out_bytes)
  have ops: "ops_delta_decode (c_simd_ops ctx) = netc_delta_decode" using wf by (simp add: ctx_wf_def)
  have finish: "fault_ok (case r of Inl e \<Rightarrow> Inl e | Inr out \<Rightarrow> Inr (decomp_delta_postpass ctx fl out)) ?n" if "fault_ok r ?n" for r fl
    using fault_ok_map [OF that] post [OF ops] by simp
  have pass: "fault_ok (case decode_passthru hdr payload dst of Inl e \<Rightarrow> Inl e
      | Inr out \<Rightarrow> Inr (if has_flag fl NETC_PKT_FLAG_LZ77 then decomp_delta_postpass ctx fl out else out)) ?n" for fl
    using fault_ok_map [OF decode_passthru_ok [OF len dst]] post [OF ops] by simp
  have lzp: "fault_ok (case decode_tans (Some d) tables hdr payload dst compact of Inl e \<Rightarrow> Inl e
      | Inr out \<Rightarrow> Inr (decomp_delta_postpass ctx fl (netc_lzp_xor_unfilter out t))) ?n"
    if "c_dict ctx = Some d" "?alg = NETC_ALG_LZP" for d t fl
    using tans [unfolded that(1)] that(2) post [OF ops] by (intro fault_ok_map) simp_all
  show ?thesis
    unfolding decomp_payload_def Let_def tables_def [symmetric]
    by (intro fault_ok_if pass finish tans)
       (auto split: option.split intro!: finish lzp intro: lz pctx tans10)
qed

lemma stats_wf [simp]: "ctx_wf (decomp_stats ctx m n p) = ctx_wf ctx"
  by (simp add: decomp_stats_def Let_def)

lemma finish_wf:
  assumes "ctx_wf ctx" and "length dst \<le> NETC_MAX_PACKET_SIZE"
  shows "ctx_wf (decomp_finish ctx hdr n p dst)"
  unfolding decomp_finish_def Let_def decomp_update_prev_def decomp_ring_append_def
  using assms by (intro lzp_update_wf adaptive_update_wf) (simp add: ring_append_wf update_prev_wf)

lemma adaptive_update_fields:
  "c_dict (netc_adaptive_update ctx dst) = c_dict ctx" "c_flags (netc_adaptive_update ctx dst) = c_flags ctx"
  "c_ring (netc_adaptive_update ctx dst) = c_ring ctx" "c_ring_pos (netc_adaptive_update ctx dst) = c_ring_pos ctx"
  "c_prev_pkt (netc_adaptive_update ctx dst) = c_prev_pkt ctx" "c_prev2_pkt (netc_adaptive_update ctx dst) = c_prev2_pkt ctx"
  "c_context_seq (netc_adaptive_update ctx dst) = c_context_seq ctx" "c_stats (netc_adaptive_update ctx dst) = c_stats ctx"
  "c_adapt_lzp (netc_adaptive_update ctx dst) = c_adapt_lzp ctx"
  by (simp_all add: netc_adaptive_update_def netc_adaptive_tables_rebuild_def Let_def split: option.split prod.split)

lemma ring_append_other:
  "c_dict (ctx_ring_append ctx dst) = c_dict ctx" "c_flags (ctx_ring_append ctx dst) = c_flags ctx"
  "c_prev_pkt (ctx_ring_append ctx dst) = c_prev_pkt ctx" "c_prev2_pkt (ctx_ring_append ctx dst) = c_prev2_pkt ctx"
  "c_context_seq (ctx_ring_append ctx dst) = c_context_seq ctx" "c_stats (ctx_ring_append ctx dst) = c_stats ctx"
  "c_adapt_lzp (ctx_ring_append ctx dst) = c_adapt_lzp ctx"
  by (simp_all add: ctx_ring_append_def Let_def split: prod.split)

lemma update_prev_dict: "c_dict (compress_update_prev ctx dst) = c_dict ctx"
  by (simp add: compress_update_prev_def split: option.split)

lemma finish_dict: "c_dict (decomp_finish ctx hdr n p dst) = c_dict ctx"
  by (simp add: decomp_finish_def Let_def decomp_update_prev_def decomp_ring_append_def adaptive_update_fields
      ring_append_other update_prev_dict decomp_stats_def ctx_lzp_update_def)

lemma read_compact_size:
  assumes "netc_hdr_read_compact src = Some (n, rest)" shows "n \<le> length src"
proof (cases "src ! 1 AND 0x80 = 0")
  case True
  then show ?thesis using assms unfolding netc_hdr_read_compact_def Let_def by (simp split: if_splits prod.splits)
next
  case False
  then show ?thesis using assms unfolding netc_hdr_read_compact_def Let_def by (simp split: if_splits prod.splits)
qed

lemma hdr_read_take [simp]: "NETC_HEADER_SIZE \<le> length src \<Longrightarrow> netc_hdr_read (take NETC_HEADER_SIZE src) = netc_hdr_read src"
  by (simp add: netc_hdr_read_def netc_read_u16_le_def NETC_HEADER_SIZE_def)

text \<open>The header is read inside the packet, and what it describes lies inside the packet.\<close>

lemma validate_header_eq:
  "validate_header src dst_cap compact =
     (case (if compact
            then (case netc_hdr_read_compact src of None \<Rightarrow> Inl NETC_ERR_CORRUPT
                  | Some (hdr_sz, original_size, flags, algorithm) \<Rightarrow>
                      Inr (\<lparr>hdr_original_size = original_size,
                            hdr_compressed_size = word_of_nat (length src - hdr_sz),
                            hdr_flags = flags, hdr_algorithm = algorithm, hdr_model_id = 0, hdr_context_seq = 0\<rparr>, hdr_sz))
            else if length src < NETC_HEADER_SIZE then Inl NETC_ERR_CORRUPT
            else Inr (netc_hdr_read src, NETC_HEADER_SIZE)) of
        Inl e \<Rightarrow> Inl (F_Result e)
      | Inr (hdr, hdr_sz) \<Rightarrow>
          if unat (hdr_original_size hdr) > NETC_MAX_PACKET_SIZE then Inl (F_Result NETC_ERR_CORRUPT)
          else if unat (hdr_original_size hdr) > dst_cap then Inl (F_Result NETC_ERR_BUF_SMALL)
          else if \<not> compact \<and> length src < hdr_sz + unat (hdr_compressed_size hdr) then Inl (F_Result NETC_ERR_CORRUPT)
          else Inr (hdr, hdr_sz))"
proof (cases compact)
  case True
  then show ?thesis
    using read_compact_size [of src] by (cases "netc_hdr_read_compact src") (auto simp: validate_header_def)
next
  case False
  then show ?thesis by (auto simp: validate_header_def)
qed

lemma validate_header_facts:
  assumes v: "validate_header src cap compact = Inr (hdr, sz)"
  shows "unat (hdr_original_size hdr) \<le> cap" and "unat (hdr_original_size hdr) \<le> NETC_MAX_PACKET_SIZE"
    and "sz + unat (hdr_compressed_size hdr) \<le> length src"
proof -
  show "unat (hdr_original_size hdr) \<le> cap" "unat (hdr_original_size hdr) \<le> NETC_MAX_PACKET_SIZE"
    using v by (auto simp: validate_header_eq split: sum.splits if_splits)
  show "sz + unat (hdr_compressed_size hdr) \<le> length src"
  proof (cases compact)
    case True
    then have h: "hdr_compressed_size hdr = word_of_nat (length src - sz)" "\<exists>x. netc_hdr_read_compact src = Some (sz, x)"
      using v by (auto simp: validate_header_eq split: option.splits if_splits)
    then have "sz \<le> length src" using read_compact_size by blast
    moreover have "unat (hdr_compressed_size hdr) \<le> length src - sz" using h(1) by (simp add: unsigned_of_nat take_bit_eq_mod)
    ultimately show ?thesis by simp
  next
    case False
    then show ?thesis using v by (auto simp: validate_header_eq split: if_splits)
  qed
qed

lemma validate_header_error: "validate_header src cap compact \<noteq> Inl F_Undefined"
  by (auto simp: validate_header_eq split: sum.split prod.split)

definition packet_sentinels :: "bool \<Rightarrow> byte list \<Rightarrow> nat \<Rightarrow> bool" where
  "packet_sentinels compact src cap =
     (case validate_header src cap compact of Inl e \<Rightarrow> True
      | Inr (hdr, sz) \<Rightarrow>
          (\<forall>s \<in> set (payload_streams hdr (take (unat (hdr_compressed_size hdr)) (drop sz src)) compact). sentinel_ok s))"

lemma payload_streams_fill [simp]:
  "payload_streams (decomp_fill_header ctx compact hdr) payload c = payload_streams hdr payload c"
  "hdr_compressed_size (decomp_fill_header ctx compact hdr) = hdr_compressed_size hdr"
  "hdr_original_size (decomp_fill_header ctx compact hdr) = hdr_original_size hdr"
  by (simp_all add: payload_streams_def decomp_fill_header_def Let_def)

text \<open>
  C5. Decompression is memory safe: for a well-formed context with a class map in range, every
  byte string whose bitstreams end in a non-zero byte is rejected with an error code, or decoded to
  bytes that fit the buffer and the packet limit, and the new context is well-formed again.  Undefined
  behaviour, which the theorem excludes, is here: a read of the header, of the payload or of a stored state
  outside the packet; a write of any decoder outside the destination, or a read of a back-reference outside
  the bytes already written; a read outside the ring, the array of tables, a decode table or the class map; a
  bit reader that shifts by the width of its accumulator or more.
\<close>

theorem decompress_safe:
  assumes "ctx_safe ctx"
    and "packet_sentinels (has_cfg (c_flags ctx) NETC_CFG_FLAG_COMPACT_HDR) src (length dst)"
  shows "case netc_decompress (Some ctx) (Some src) (Some dst) of
           Inl f \<Rightarrow> f \<noteq> F_Undefined
         | Inr (out, ctx') \<Rightarrow> length out \<le> length dst \<and> length out \<le> NETC_MAX_PACKET_SIZE \<and> ctx_safe ctx'"
proof -
  let ?compact = "has_cfg (c_flags ctx) NETC_CFG_FLAG_COMPACT_HDR"
  show ?thesis
  proof (cases "validate_header src (length dst) ?compact")
    case (Inl e)
    then show ?thesis using validate_header_error [of src "length dst" ?compact] by (simp add: netc_decompress_def)
  next
    case (Inr r)
    then obtain hdr sz where v: "validate_header src (length dst) ?compact = Inr (hdr, sz)" by (cases r) simp
    let ?hdr = "decomp_fill_header ctx ?compact hdr"
    let ?payload = "take (unat (hdr_compressed_size ?hdr)) (drop sz src)"
    note facts = validate_header_facts [OF v]
    have sl: "slice src sz (unat (hdr_compressed_size ?hdr)) = Some ?payload" using facts(3) by simp
    have ok: "fault_ok (decomp_payload ctx ?hdr ?payload dst ?compact) (unat (hdr_original_size hdr))"
      using decomp_payload_ok [OF assms(1), of ?payload ?hdr dst ?compact] facts assms(2)
      by (simp add: packet_sentinels_def v)
    have fin: "ctx_safe (decomp_finish ctx ?hdr (length src) p out)" if "length out = unat (hdr_original_size hdr)" for p out
      using assms(1) finish_wf [of ctx out] facts(2) that by (simp add: ctx_safe_def finish_dict)
    show ?thesis
      using ok fin facts sl
      by (cases "decomp_payload ctx ?hdr ?payload dst ?compact")
         (auto simp: netc_decompress_def v Let_def fault_ok_def split: fault.splits)
  qed
qed

lemma uniform_class_map: "class_map_ok (d_bigram_class_map uniform_dict)"
  by (simp add: class_map_ok_def uniform_dict_def uniform_dict0_def NETC_BIGRAM_CTX_COUNT_def)

lemma sample_ctx_safe: "ctx_safe (sample_ctx pf)"
  using sample_ctx_wf uniform_class_map by (simp add: ctx_safe_def sample_ctx_fields)

lemma sample_ctx_flags: "c_flags (sample_ctx pf) = 0x201"
  by (simp add: sample_ctx_def netc_ctx_create_def has_cfg_def NETC_CFG_FLAG_STATEFUL_def NETC_CFG_FLAG_ADAPTIVE_def)

theorem decompress_safe_witness:
  "case netc_decompress (Some (sample_ctx scalar_platform)) (Some [3, 0, 6, 0, 8, 4, 1, 0, 0, 16, 0, 0, 5, 1]) (Some [0, 0, 0, 0]) of
     Inl f \<Rightarrow> f \<noteq> F_Undefined
   | Inr (out, ctx') \<Rightarrow> length out \<le> 4 \<and> length out \<le> NETC_MAX_PACKET_SIZE \<and> ctx_safe ctx'"
proof -
  have "packet_sentinels (has_cfg (c_flags (sample_ctx scalar_platform)) NETC_CFG_FLAG_COMPACT_HDR)
      [3, 0, 6, 0, 8, 4, 1, 0, 0, 16, 0, 0, 5, 1] 4"
    by (simp add: packet_sentinels_def sample_ctx_flags has_cfg_def NETC_CFG_FLAG_COMPACT_HDR_def validate_header_eq
        netc_hdr_read_def netc_read_u16_le_def NETC_HEADER_SIZE_def NETC_MAX_PACKET_SIZE_def payload_streams_def
        decomp_alg_id_def pkt_consts sentinel_ok_def Let_def)
  moreover have len: "length [0, 0, 0, 0 :: byte] = 4" by simp
  ultimately show ?thesis
    using decompress_safe [OF sample_ctx_safe, of scalar_platform _ "[0, 0, 0, 0]", unfolded len] by blast
qed

lemma stateless_payload_ok:
  assumes d: "dict_wf d" "class_map_ok (d_bigram_class_map d)" and len: "length payload = unat (hdr_compressed_size hdr)"
    and dst: "unat (hdr_original_size hdr) \<le> length dst"
    and sent: "\<forall>s \<in> set (payload_streams hdr payload False). sentinel_ok s"
  shows "fault_ok (stateless_payload d hdr payload dst) (unat (hdr_original_size hdr))"
proof -
  let ?alg = "decomp_alg_id (hdr_algorithm hdr)" and ?n = "unat (hdr_original_size hdr)"
  have coder: "coder_ok d (d_tables d)" using dict_tables_wf d by (simp add: coder_ok_def)
  have pctx: "fault_ok (decode_pctx d (d_tables d) lzp hdr payload dst False) ?n" if "?alg = NETC_ALG_TANS_PCTX" for lzp
    using coder that sent dst by (intro decode_pctx_ok) (auto simp: payload_streams_def Let_def pkt_consts)
  have tans: "fault_ok (decode_tans (Some d) (d_tables d) hdr payload dst False) ?n"
    if "?alg = NETC_ALG_TANS \<or> ?alg = NETC_ALG_LZP"
    using decode_tans_ok [of "Some d", OF _ dst that sent] coder by simp
  have tans10: "fault_ok (decode_tans_10 (d_tables d) hdr payload dst) ?n" if "?alg = NETC_ALG_TANS_10"
  proof (rule decode_tans_10_ok)
    show "sentinel_ok (drop 2 payload)" using sent that by (auto simp: payload_streams_def Let_def pkt_consts)
    show "length (tt_freq (d_tables d ! unat (drop_bit 4 (hdr_algorithm hdr)))) = NETC_TANS_SYMBOLS"
      using d(1) built_facts(1) alg_bucket_less by (simp add: dict_wf_def NETC_CTX_COUNT_def)
    show "length (d_tables d) = 16" using coder by (simp add: coder_ok_def tables_wf_def)
  qed (rule dst)
  show ?thesis
    unfolding stateless_payload_def Let_def
    using decode_passthru_ok [OF len dst] pctx tans tans10 by (auto intro!: fault_ok_map split: option.split)
qed

text \<open>
  Stateless decompression is memory safe in the same sense: for a well-formed dictionary with a
  class map in range and a packet whose bitstreams end in a non-zero byte, the result is an error code
  or a packet that fits the buffer.
\<close>

theorem decompress_stateless_safe:
  assumes "dict_wf d" and "class_map_ok (d_bigram_class_map d)" and "packet_sentinels False src (length dst)"
  shows "case netc_decompress_stateless (Some d) (Some src) (Some dst) of
           Inl f \<Rightarrow> f \<noteq> F_Undefined
         | Inr out \<Rightarrow> length out \<le> length dst \<and> length out \<le> NETC_MAX_PACKET_SIZE"
proof (cases "validate_header src (length dst) False")
  case (Inl e)
  then show ?thesis using validate_header_error [of src "length dst" False] by (simp add: netc_decompress_stateless_def)
next
  case (Inr r)
  then obtain hdr sz where v: "validate_header src (length dst) False = Inr (hdr, sz)" by (cases r) simp
  let ?payload = "take (unat (hdr_compressed_size hdr)) (drop sz src)"
  note facts = validate_header_facts [OF v]
  have "length ?payload = unat (hdr_compressed_size hdr)" using facts(3) by simp
  then have "fault_ok (stateless_payload d hdr ?payload dst) (unat (hdr_original_size hdr))"
    using stateless_payload_ok [OF assms(1,2) _ facts(1)] assms(3) by (simp add: packet_sentinels_def v)
  then show ?thesis
    using facts by (cases "stateless_payload d hdr ?payload dst")
      (auto simp: netc_decompress_stateless_def v fault_ok_def split: fault.splits)
qed

theorem decompress_stateless_safe_witness:
  "case netc_decompress_stateless (Some uniform_dict) (Some [3, 0, 6, 0, 8, 4, 1, 0, 0, 16, 0, 0, 5, 1]) (Some [0, 0, 0, 0]) of
     Inl f \<Rightarrow> f \<noteq> F_Undefined | Inr out \<Rightarrow> length out \<le> 4 \<and> length out \<le> NETC_MAX_PACKET_SIZE"
proof -
  have "packet_sentinels False [3, 0, 6, 0, 8, 4, 1, 0, 0, 16, 0, 0, 5, 1] 4"
    by (simp add: packet_sentinels_def validate_header_eq
        netc_hdr_read_def netc_read_u16_le_def NETC_HEADER_SIZE_def NETC_MAX_PACKET_SIZE_def payload_streams_def
        decomp_alg_id_def pkt_consts sentinel_ok_def Let_def)
  moreover have len: "length [0, 0, 0, 0 :: byte] = 4" by simp
  ultimately show ?thesis
    using decompress_stateless_safe [OF uniform_dict_wf uniform_class_map, of _ "[0, 0, 0, 0]", unfolded len] by blast
qed

end
