(* ===== verification/Netc_Encode.thy ===== *)
theory Netc_Encode
  imports Netc_Ctx Netc_Decompress
begin

text \<open>
  The tANS stage of compression, \<open>src/src/core/netc_compress.c\<close> lines 467 to 836: the coders for one
  table, the search for the best table of a small packet, and the choice between the position-context
  coder, its bigram version and a single table.  A stage returns the payload it wrote, with what the packet
  header has to say about it, or the failure \<open>-1\<close>.

  A coder writes through the bit writer into a buffer of given capacity; a result longer than the buffer that
  holds it (the destination, or one of the trial buffers on the stack) is undefined behaviour.

  With tables that contain every byte no stage executes undefined behaviour, every payload fits the capacity
  it was given, and it is decoded by the decoder that its description selects; the one exception, packets of
  odd size in the interleaved format, is excluded by hypothesis.
\<close>

section \<open>One table\<close>

definition NETC_INTERNAL_NO_X2 :: u32 where "NETC_INTERNAL_NO_X2 = push_bit 31 1"
definition NETC_INTERNAL_SKIP_SR :: u32 where "NETC_INTERNAL_SKIP_SR = push_bit 30 1"

text \<open>Try the second alternative when the first fails.\<close>

definition or_else :: "cerror + 'a \<Rightarrow> cerror + 'a \<Rightarrow> cerror + 'a" where
  "or_else a b = (case a of Inl C_Fail \<Rightarrow> b | _ \<Rightarrow> a)"

definition select_tans_table ::
    "netc_dict \<Rightarrow> netc_tans_table list \<Rightarrow> nat \<Rightarrow> byte \<Rightarrow> u32 \<Rightarrow> netc_tans_table option" where
  "select_tans_table dict tables bucket prevb ctx_flags =
     (if has_cfg ctx_flags NETC_CFG_FLAG_BIGRAM
      then case nth_opt (d_bigram_tables dict) bucket of None \<Rightarrow> None
           | Some row \<Rightarrow>
               (case nth_opt row (netc_bigram_class prevb (Some (d_bigram_class_map dict))) of None \<Rightarrow> None
                | Some tbl \<Rightarrow> if tt_valid tbl then Some tbl else nth_opt tables bucket)
      else nth_opt tables bucket)"

text \<open>A final state as it is stored: 2 bytes in compact mode, else 4.\<close>

definition state_bytes :: "bool \<Rightarrow> nat \<Rightarrow> byte list" where
  "state_bytes compact X = (if compact then netc_write_u16_le (word_of_nat X) else netc_write_u32_le (word_of_nat X))"

text \<open>The bytes of a flushed bit writer, in its buffer.\<close>

definition flushed :: "netc_bsw \<Rightarrow> cerror + byte list" where
  "flushed w = (case bsw_bytes w of None \<Rightarrow> Inl C_Fail | Some bs \<Rightarrow> into_buf (bsw_cap w) bs)"

definition encode_x2 :: "netc_tans_table \<Rightarrow> byte list \<Rightarrow> nat \<Rightarrow> bool \<Rightarrow> cerror + byte list" where
  "encode_x2 tbl src cap compact =
     (let state2_sz = (if compact then 4 else 8)
      in if cap < state2_sz then Inl C_Fail
         else case netc_tans_encode_x2 tbl src (length src) (netc_bsw_init (cap - state2_sz)) of Inl e \<Rightarrow> Inl e
              | Inr (state0, state1, w) \<Rightarrow>
                  (case flushed w of Inl e \<Rightarrow> Inl e
                   | Inr bs \<Rightarrow> Inr (state_bytes compact state0 @ state_bytes compact state1 @ bs)))"

definition encode_x1 :: "netc_tans_table \<Rightarrow> byte list \<Rightarrow> nat \<Rightarrow> bool \<Rightarrow> cerror + byte list" where
  "encode_x1 tbl src cap compact =
     (let state1_sz = (if compact then 2 else 4)
      in if cap < state1_sz then Inl C_Fail
         else case netc_tans_encode tbl src (length src) (netc_bsw_init (cap - state1_sz)) NETC_TANS_TABLE_SIZE of Inl e \<Rightarrow> Inl e
              | Inr (final_state, w) \<Rightarrow>
                  (case flushed w of Inl e \<Rightarrow> Inl e | Inr bs \<Rightarrow> Inr (state_bytes compact final_state @ bs)))"

text \<open>The payload, and whether it is in the interleaved format.\<close>

definition try_tans_single_with_table ::
    "netc_tans_table \<Rightarrow> byte list \<Rightarrow> nat \<Rightarrow> u32 \<Rightarrow> bool \<Rightarrow> cerror + (byte list \<times> bool)" where
  "try_tans_single_with_table tbl src cap ctx_flags compact =
     (if \<not> tt_valid tbl then Inl C_Fail
      else or_else
        (if \<not> has_cfg ctx_flags NETC_CFG_FLAG_BIGRAM \<and> \<not> has_cfg ctx_flags NETC_INTERNAL_NO_X2 \<and> length src \<ge> 256
         then map_sum id (\<lambda>p. (p, True)) (encode_x2 tbl src cap compact) else Inl C_Fail)
        (map_sum id (\<lambda>p. (p, False)) (encode_x1 tbl src cap compact)))"

definition try_tans_10bit_with_table :: "netc_tans_table_10 \<Rightarrow> byte list \<Rightarrow> nat \<Rightarrow> cerror + byte list" where
  "try_tans_10bit_with_table tbl src cap =
     (if \<not> tt_valid tbl then Inl C_Fail
      else if cap < 2 then Inl C_Fail
      else case netc_tans_encode_10 tbl src (length src) (netc_bsw_init (cap - 2)) NETC_TANS_TABLE_SIZE_10 of Inl e \<Rightarrow> Inl e
           | Inr (final_state, w) \<Rightarrow>
               (case flushed w of Inl e \<Rightarrow> Inl e | Inr bs \<Rightarrow> Inr (netc_write_u16_le (word_of_nat final_state) @ bs)))"

section \<open>The best table for a small packet\<close>

text \<open>
  What a stage reports: the payload, \<open>used_mreg\<close> (0 single table, 2 position context, 3 position context
  with bigrams; the encoder no longer writes 1, multi-region), \<open>used_x2\<close> and the table index.
\<close>

record tans_out =
  to_payload :: "byte list"
  to_mreg :: nat
  to_x2 :: bool
  to_tbl :: nat

text \<open>The smallest trial so far and its bucket; the trial buffer has 520 bytes.\<close>

fun scan_tables ::
    "netc_tans_table list \<Rightarrow> byte list \<Rightarrow> u32 \<Rightarrow> bool \<Rightarrow> nat list \<Rightarrow> (nat \<times> nat) option \<Rightarrow> cerror + (nat \<times> nat) option" where
  "scan_tables tables src ctx_flags compact [] best = Inr best"
| "scan_tables tables src ctx_flags compact (b # bs) best =
     (if \<not> tt_valid (tables ! b) then scan_tables tables src ctx_flags compact bs best
      else case try_tans_single_with_table (tables ! b) src 520 ctx_flags compact of
             Inl C_Undefined \<Rightarrow> Inl C_Undefined
           | Inl C_Fail \<Rightarrow> scan_tables tables src ctx_flags compact bs best
           | Inr (p, x2) \<Rightarrow>
               (case into_buf 520 p of Inl e \<Rightarrow> Inl e
                | Inr trial_buf \<Rightarrow>
                    scan_tables tables src ctx_flags compact bs
                      (case best of None \<Rightarrow> Some (length trial_buf, b)
                       | Some (best_cp, best_bucket) \<Rightarrow>
                           if length trial_buf < best_cp then Some (length trial_buf, b) else best)))"

definition single_out :: "nat \<Rightarrow> cerror + (byte list \<times> bool) \<Rightarrow> cerror + tans_out" where
  "single_out b r = map_sum id (\<lambda>(p, x2). \<lparr>to_payload = p, to_mreg = 0, to_x2 = x2, to_tbl = b\<rparr>) r"

definition try_tans_single_region ::
    "netc_dict \<Rightarrow> netc_tans_table list \<Rightarrow> byte list \<Rightarrow> nat \<Rightarrow> u32 \<Rightarrow> bool \<Rightarrow> cerror + tans_out" where
  "try_tans_single_region dict tables src cap ctx_flags compact =
     (let first_bucket = netc_ctx_bucket 0;
          last_bucket = netc_ctx_bucket (if length src > 0 then length src - 1 else 0)
      in if \<not> has_cfg ctx_flags NETC_CFG_FLAG_BIGRAM \<and> length src \<le> 512 \<and> last_bucket > first_bucket
         then case scan_tables tables src ctx_flags compact [first_bucket..<last_bucket + 1] None of Inl e \<Rightarrow> Inl e
              | Inr None \<Rightarrow> Inl C_Fail
              | Inr (Some (best_cp, b)) \<Rightarrow>
                  single_out b (try_tans_single_with_table (tables ! b) src cap ctx_flags compact)
         else case select_tans_table dict tables first_bucket 0 ctx_flags of None \<Rightarrow> Inl C_Undefined
              | Some tbl \<Rightarrow> single_out first_bucket (try_tans_single_with_table tbl src cap ctx_flags compact))"

section \<open>Position context, bigrams, single table\<close>

definition pctx_trial :: "netc_tans_table list \<Rightarrow> byte list \<Rightarrow> nat \<Rightarrow> nat \<Rightarrow> cerror + (nat \<times> byte list)" where
  "pctx_trial tables src cap state_sz =
     (if cap < state_sz then Inl C_Fail
      else case netc_tans_encode_pctx tables src (length src) (netc_bsw_init (cap - state_sz)) NETC_TANS_TABLE_SIZE of
             Inl e \<Rightarrow> Inl e
           | Inr (pctx_state, w) \<Rightarrow> map_sum id (\<lambda>bs. (pctx_state, bs)) (flushed w))"

definition bigram_trial ::
    "netc_dict \<Rightarrow> netc_tans_table list \<Rightarrow> byte list \<Rightarrow> nat \<Rightarrow> u32 \<Rightarrow> cerror + (nat \<times> byte list)" where
  "bigram_trial dict tables src bits_cap ctx_flags =
     (if has_cfg ctx_flags NETC_CFG_FLAG_BIGRAM \<and> tt_valid (d_bigram_tables dict ! 0 ! 0)
      then case netc_tans_encode_pctx_bigram (d_bigram_tables dict) tables (Some (d_bigram_class_map dict)) src (length src)
                  (netc_bsw_init (min bits_cap (NETC_MAX_PACKET_SIZE + 64))) NETC_TANS_TABLE_SIZE of
             Inl e \<Rightarrow> Inl e
           | Inr (bg_state, w) \<Rightarrow>
               (case flushed w of Inl e \<Rightarrow> Inl e
                | Inr bs \<Rightarrow> map_sum id (\<lambda>bg_trial. (bg_state, bg_trial)) (into_buf (NETC_MAX_PACKET_SIZE + 64) bs))
      else Inl C_Fail)"

text \<open>The position-context result, replaced by the bigram result when that is smaller.\<close>

definition pctx_best ::
    "netc_dict \<Rightarrow> netc_tans_table list \<Rightarrow> byte list \<Rightarrow> nat \<Rightarrow> u32 \<Rightarrow> bool \<Rightarrow> cerror + tans_out" where
  "pctx_best dict tables src cap ctx_flags compact =
     (let state_sz = (if compact then 2 else 4);
          out = (\<lambda>mreg st bs. \<lparr>to_payload = state_bytes compact st @ bs, to_mreg = mreg, to_x2 = False, to_tbl = 0\<rparr>)
      in case pctx_trial tables src cap state_sz of Inl e \<Rightarrow> Inl e
         | Inr (st, bs) \<Rightarrow>
             (case bigram_trial dict tables src (cap - state_sz) ctx_flags of
                Inl C_Undefined \<Rightarrow> Inl C_Undefined
              | Inl C_Fail \<Rightarrow> Inr (out 2 st bs)
              | Inr (bg_st, bg_bs) \<Rightarrow> Inr (if length bg_bs < length bs then out 3 bg_st bg_bs else out 2 st bs)))"

definition try_tans_compress ::
    "netc_dict \<Rightarrow> netc_tans_table list \<Rightarrow> byte list \<Rightarrow> nat \<Rightarrow> u32 \<Rightarrow> bool \<Rightarrow> cerror + tans_out" where
  "try_tans_compress dict tables src cap ctx_flags compact =
     (if src = [] then Inl C_Fail
      else let first_bucket = netc_ctx_bucket 0; last_bucket = netc_ctx_bucket (length src - 1);
               skip_sr = has_cfg ctx_flags NETC_INTERNAL_SKIP_SR
           in if last_bucket - first_bucket + 1 = 1 then try_tans_single_region dict tables src cap ctx_flags compact
              else if \<not> list_all (\<lambda>b. tt_valid (tables ! b)) [first_bucket..<last_bucket + 1] then Inl C_Fail
              else case pctx_best dict tables src cap ctx_flags compact of
                     Inl C_Undefined \<Rightarrow> Inl C_Undefined
                   | Inl C_Fail \<Rightarrow>
                       if skip_sr then Inl C_Fail else try_tans_single_region dict tables src cap ctx_flags compact
                   | Inr out \<Rightarrow>
                       if length src \<le> 512 \<and> \<not> skip_sr
                       then case try_tans_single_region dict tables src 520 ctx_flags compact of
                              Inl C_Undefined \<Rightarrow> Inl C_Undefined
                            | Inl C_Fail \<Rightarrow> Inr out
                            | Inr sr \<Rightarrow>
                                (case into_buf 520 (to_payload sr) of Inl e \<Rightarrow> Inl e
                                 | Inr trial_buf \<Rightarrow> Inr (if length trial_buf < length (to_payload out) then sr else out))
                       else Inr out)"

section \<open>Payloads fit\<close>

definition bsw_room :: "nat \<Rightarrow> netc_bsw \<Rightarrow> bool" where
  "bsw_room cap w \<longleftrightarrow> bsw_cap w = cap \<and> length (bsw_buf w) \<le> cap"

lemma room_init: "bsw_room cap (netc_bsw_init cap)"
  by (simp add: bsw_room_def netc_bsw_init_def)

lemma room_write: "bsw_room cap w \<Longrightarrow> netc_bsw_write w v nb = Some w' \<Longrightarrow> bsw_room cap w'"
  by (auto simp: netc_bsw_write_def bsw_room_def Let_def split: if_splits)

lemma room_flush: "bsw_room cap w \<Longrightarrow> bsw_flush_loop w = Some w' \<Longrightarrow> bsw_room cap w'"
proof (induction w rule: bsw_flush_loop.induct)
  case (1 w)
  then show ?case
    by (auto simp: bsw_flush_loop.simps [of w] bsw_room_def split: if_splits)
qed

lemma flushed_Inr: "flushed w = Inr bs \<longleftrightarrow> bsw_bytes w = Some bs \<and> length bs \<le> bsw_cap w"
  by (auto simp: flushed_def into_buf_Inr split: option.split)

lemma room_bytes: "bsw_room cap w \<Longrightarrow> bsw_bytes w = Some bs \<Longrightarrow> length bs \<le> cap"
  using room_flush [of cap "w\<lparr>bsw_accum := bsw_accum w OR push_bit (nat (bsw_bits w)) 1, bsw_bits := bsw_bits w + 1\<rparr>"]
  by (auto simp: bsw_bytes_def netc_bsw_flush_def bsw_room_def)

lemma flushed_room: "bsw_room cap w \<Longrightarrow> flushed w = (case bsw_bytes w of None \<Rightarrow> Inl C_Fail | Some bs \<Rightarrow> Inr bs)"
  using room_bytes [of cap w] by (auto simp: flushed_def bsw_room_def split: option.split)

lemma flushed_no_ub: "bsw_room cap w \<Longrightarrow> flushed w \<noteq> Inl C_Undefined"
  by (simp add: flushed_room split: option.split)

lemma room_flushed: "bsw_room cap w \<Longrightarrow> flushed w = Inr bs \<Longrightarrow> length bs \<le> cap"
  by (auto simp: flushed_Inr bsw_room_def)

lemma room_step: "bsw_room cap w \<Longrightarrow> tans_encode_step t X b w = Inr (X', w') \<Longrightarrow> bsw_room cap w'"
  using room_write by (auto simp: tans_encode_step_def Let_def split: if_splits option.splits)

lemma room_loop:
  assumes "\<And>i X w X' w'. bsw_room cap w \<Longrightarrow> body i X w = Inr (X', w') \<Longrightarrow> bsw_room cap w'"
  shows "bsw_room cap w \<Longrightarrow> encode_loop body n X w = Inr (X', w') \<Longrightarrow> bsw_room cap w'"
proof (induction n arbitrary: X w)
  case (Suc n)
  then show ?case using assms [of w n X] by (auto split: sum.splits)
qed simp

lemma room_x2_loop: "bsw_room cap w \<Longrightarrow> encode_x2_loop t src i X0 X1 w = Inr (Y0, Y1, w') \<Longrightarrow> bsw_room cap w'"
proof (induction t src i X0 X1 w rule: encode_x2_loop.induct)
  case (1 t src i X0 X1 w)
  show ?case
  proof (cases "i < 2")
    case True
    then show ?thesis using 1(2,3) by (simp add: encode_x2_loop.simps [of t src i])
  next
    case False
    then obtain X1' w1 X0' w2 where s: "tans_encode_step t X1 (src ! (i - 2 + 1)) w = Inr (X1', w1)"
      "tans_encode_step t X0 (src ! (i - 2)) w1 = Inr (X0', w2)" "encode_x2_loop t src (i - 2) X0' X1' w2 = Inr (Y0, Y1, w')"
      using 1(3) by (auto simp: encode_x2_loop.simps [of t src i] split: sum.splits)
    then have "bsw_room cap w2" using 1(2) room_step by blast
    then show ?thesis using 1(1) [OF False s(1) refl s(2) refl] s(3) by blast
  qed
qed

lemma room_x2:
  assumes "netc_tans_encode_x2 t src n (netc_bsw_init cap) = Inr (X0, X1, w)" shows "bsw_room cap w"
proof (cases "odd n")
  case True
  then obtain Y w1 where "tans_encode_step t NETC_TANS_TABLE_SIZE (src ! (n - 1)) (netc_bsw_init cap) = Inr (Y, w1)"
    "encode_x2_loop t src (n - 1) Y NETC_TANS_TABLE_SIZE w1 = Inr (X0, X1, w)"
    using assms by (auto simp: netc_tans_encode_x2_def Let_def split: if_splits sum.splits)
  then show ?thesis using room_step [OF room_init] room_x2_loop by blast
next
  case False
  then show ?thesis using assms room_x2_loop [OF room_init] by (simp add: netc_tans_encode_x2_def Let_def split: if_splits)
qed

lemma or_else_Inr: "or_else a b = Inr x \<longleftrightarrow> a = Inr x \<or> a = Inl C_Fail \<and> b = Inr x"
  by (auto simp: or_else_def split: sum.splits cerror.splits)

lemma room_tans:
  "netc_tans_encode t src n (netc_bsw_init cap) X = Inr (Y, w) \<Longrightarrow> bsw_room cap w"
  "netc_tans_encode_pctx ts src n (netc_bsw_init cap) X = Inr (Y, w) \<Longrightarrow> bsw_room cap w"
  "netc_tans_encode_pctx_bigram bts ts m src n (netc_bsw_init cap) X = Inr (Y, w) \<Longrightarrow> bsw_room cap w"
  "netc_tans_encode_10 t src n (netc_bsw_init cap) X = Inr (Y, w) \<Longrightarrow> bsw_room cap w"
  unfolding netc_tans_encode_def netc_tans_encode_pctx_def netc_tans_encode_pctx_bigram_def netc_tans_encode_10_def
  by (auto simp: tans_encode_step_checked_def Let_def split: if_splits option.splits
      intro: room_step elim!: room_loop [rotated 2] intro!: room_init)

lemma length_state_bytes [simp]: "length (state_bytes compact X) = (if compact then 2 else 4)"
  by (simp add: state_bytes_def)

lemma encode_x1_fits: "encode_x1 t src cap compact = Inr p \<Longrightarrow> length p \<le> cap"
  using room_flushed [OF room_tans(1)]
  by (cases compact) (fastforce simp: encode_x1_def split: if_splits sum.splits)+

lemma encode_x2_fits: "encode_x2 t src cap compact = Inr p \<Longrightarrow> length p \<le> cap"
  using room_flushed [OF room_x2]
  by (cases compact) (fastforce simp: encode_x2_def split: if_splits sum.splits)+

lemma single_fits: "try_tans_single_with_table t src cap f compact = Inr (p, x2) \<Longrightarrow> length p \<le> cap"
  using encode_x1_fits encode_x2_fits
  by (auto simp: try_tans_single_with_table_def or_else_Inr map_sum_def split: if_splits sum.splits)

lemma single_region_fits: "try_tans_single_region d tables src cap f compact = Inr out \<Longrightarrow> length (to_payload out) \<le> cap"
  using single_fits
  by (fastforce simp: try_tans_single_region_def single_out_def map_sum_def Let_def split: if_splits sum.splits option.splits)

lemma pctx_trial_fits: "pctx_trial tables src cap sz = Inr (X, bs) \<Longrightarrow> sz + length bs \<le> cap"
  using room_flushed [OF room_tans(2)]
  by (fastforce simp: pctx_trial_def map_sum_def split: if_splits sum.splits)

lemma pctx_best_fits: "pctx_best d tables src cap f compact = Inr out \<Longrightarrow> length (to_payload out) \<le> cap"
  using pctx_trial_fits
  by (cases compact) (fastforce simp: pctx_best_def split: sum.splits cerror.splits if_splits)+

lemma try_tans_fits: "try_tans_compress d tables src cap f compact = Inr out \<Longrightarrow> length (to_payload out) \<le> cap"
  using single_region_fits pctx_best_fits
  by (fastforce simp: try_tans_compress_def Let_def split: if_splits sum.splits cerror.splits)

section \<open>No undefined behaviour\<close>

lemma log12: "NETC_TANS_TABLE_LOG \<le> 14" and log10: "NETC_TANS_TABLE_LOG_10 \<le> 14"
  by (simp_all add: tans_consts)

lemma initial_states [simp]:
  "tans_state NETC_TANS_TABLE_LOG NETC_TANS_TABLE_SIZE" "tans_state NETC_TANS_TABLE_LOG_10 NETC_TANS_TABLE_SIZE_10"
  by (simp_all add: tans_state_sizes) (simp_all add: tans_consts)

lemma encode_step_no_ub:
  assumes "tans_wf L t" and "L \<le> 14" and "tans_present t b" and "tans_state L X"
  shows "tans_encode_step t X b w \<noteq> Inl C_Undefined"
proof -
  obtain nb slot where "tans_encode_step t X b w =
      (case push_bits w X nb of None \<Rightarrow> Inl C_Fail | Some w' \<Rightarrow> Inr (2 ^ L + slot, w'))"
    using encode_step_wf [OF assms(1,2,4,3)] by blast
  then show ?thesis by (simp split: option.split)
qed

lemma encode_loop_no_ub:
  assumes L: "L \<le> 14" and "\<And>i X w. i < n \<Longrightarrow> body i X w = Inl C_Fail \<or>
      (\<exists>t b. tans_wf L t \<and> tans_present t b \<and> body i X w = tans_encode_step t X b w)"
    and "tans_state L X" and "bsw_inv w"
  shows "encode_loop body n X w \<noteq> Inl C_Undefined"
  using assms(2-)
proof (induction n arbitrary: X w)
  case (Suc n)
  consider "body n X w = Inl C_Fail"
    | t b where "tans_wf L t" "tans_present t b" "body n X w = tans_encode_step t X b w"
    using Suc.prems(1) by blast
  then show ?case
  proof cases
    case 2
    note ub = encode_step_no_ub [OF 2(1) L 2(2) Suc.prems(2), of w]
    show ?thesis
    proof (cases "tans_encode_step t X b w")
      case (Inl e)
      then show ?thesis using ub 2(3) by (cases e) simp_all
    next
      case (Inr r)
      obtain X' w' where r: "r = (X', w')" by fastforce
      have "tans_state L X' \<and> bsw_inv w'"
        using encode_step_keeps [OF 2(1) L 2(2) Suc.prems(2,3)] Inr r by blast
      then show ?thesis using Suc.IH Suc.prems(1) 2(3) Inr r by simp
    qed
  qed simp
qed simp

lemma x2_loop_no_ub:
  assumes t: "tans_wf NETC_TANS_TABLE_LOG t" and p: "\<And>b. b \<in> set src \<Longrightarrow> tans_present t b"
    and "i \<le> length src" and "tans_state NETC_TANS_TABLE_LOG X0" and "tans_state NETC_TANS_TABLE_LOG X1" and "bsw_inv w"
  shows "encode_x2_loop t src i X0 X1 w \<noteq> Inl C_Undefined"
  using assms(3-)
proof (induction i arbitrary: X0 X1 w rule: less_induct)
  case (less i)
  show ?case
  proof (cases "i < 2")
    case True
    then show ?thesis by (simp add: encode_x2_loop.simps [of t src i])
  next
    case False
    then have mem: "src ! (i - 2 + 1) \<in> set src" "src ! (i - 2) \<in> set src" using less.prems(1) by simp_all
    note ub1 = encode_step_no_ub [OF t log12 p [OF mem(1)] less.prems(3)]
    show ?thesis
    proof (cases "tans_encode_step t X1 (src ! (i - 2 + 1)) w")
      case (Inl e)
      then show ?thesis using ub1 [of w] False by (simp add: encode_x2_loop.simps [of t src i])
    next
      case (Inr r1)
      obtain Y1 w1 where r1: "r1 = (Y1, w1)" by fastforce
      have k1: "tans_state NETC_TANS_TABLE_LOG Y1" "bsw_inv w1"
        using ans12.enc_keeps [OF t p [OF mem(1)] less.prems(3,4)] Inr r1 by blast+
      note ub0 = encode_step_no_ub [OF t log12 p [OF mem(2)] less.prems(2), of w1]
      show ?thesis
      proof (cases "tans_encode_step t X0 (src ! (i - 2)) w1")
        case (Inl e)
        then show ?thesis using ub0 Inr r1 False by (simp add: encode_x2_loop.simps [of t src i])
      next
        case Inr2: (Inr r0)
        obtain Y0 w0 where r0: "r0 = (Y0, w0)" by fastforce
        have k0: "tans_state NETC_TANS_TABLE_LOG Y0" "bsw_inv w0"
          using ans12.enc_keeps [OF t p [OF mem(2)] less.prems(2) k1(2)] Inr2 r0 by blast+
        show ?thesis
          using less.IH [of "i - 2" Y0 Y1 w0] k0 k1(1) less.prems(1) False Inr Inr2 r0 r1
          by (simp add: encode_x2_loop.simps [of t src i])
      qed
    qed
  qed
qed

text \<open>The coders; the checking ones need no assumption on the symbols.\<close>

lemma checked_step_cases:
  assumes "tt_valid t \<longrightarrow> tans_wf L t"
  shows "(if \<not> tt_valid t then Inl C_Fail else tans_encode_step_checked t X b w) = Inl C_Fail \<or>
    (\<exists>t' b'. tans_wf L t' \<and> tans_present t' b' \<and>
       (if \<not> tt_valid t then Inl C_Fail else tans_encode_step_checked t X b w) = tans_encode_step t' X b' w)"
  using assms by (auto simp: tans_encode_step_checked_def tans_present_def)

lemma tans_encode_no_ub:
  assumes "full t" shows "netc_tans_encode t src n (netc_bsw_init cap) NETC_TANS_TABLE_SIZE \<noteq> Inl C_Undefined"
proof -
  have "encode_loop (\<lambda>i X w. tans_encode_step t X (src ! i) w) n NETC_TANS_TABLE_SIZE (netc_bsw_init cap) \<noteq> Inl C_Undefined"
    using assms built_facts(2) by (intro encode_loop_no_ub [OF log12]) (auto simp: full_def)
  then show ?thesis by (simp add: netc_tans_encode_def)
qed

lemma tans_encode_x2_no_ub:
  assumes f: "full t" shows "netc_tans_encode_x2 t src (length src) (netc_bsw_init cap) \<noteq> Inl C_Undefined"
proof -
  have t: "tans_wf NETC_TANS_TABLE_LOG t" "\<And>b. tans_present t b" using f built_facts(2) by (auto simp: full_def)
  let ?first = "tans_encode_step t NETC_TANS_TABLE_SIZE (src ! (length src - 1)) (netc_bsw_init cap)"
  have odd: "(case ?first of Inl e \<Rightarrow> Inl e
      | Inr (X0', bsw') \<Rightarrow> encode_x2_loop t src (length src - 1) X0' NETC_TANS_TABLE_SIZE bsw') \<noteq> Inl C_Undefined"
  proof (cases ?first)
    case (Inl e)
    then show ?thesis using encode_step_no_ub [OF t(1) log12 t(2) initial_states(1)] by (cases e) auto
  next
    case (Inr r)
    obtain X0 w where r: "r = (X0, w)" by fastforce
    have "tans_state NETC_TANS_TABLE_LOG X0 \<and> bsw_inv w"
      using encode_step_keeps [OF t(1) log12 t(2) initial_states(1)] Inr r by (metis bsw_inv_init)
    then show ?thesis using x2_loop_no_ub [OF t, of "length src - 1"] Inr r by simp
  qed
  then show ?thesis
    using x2_loop_no_ub [OF t order_refl initial_states(1) initial_states(1) bsw_inv_init]
    by (simp add: netc_tans_encode_x2_def Let_def)
qed

lemma tans_encode_pctx_no_ub:
  assumes "tables_wf tables"
  shows "netc_tans_encode_pctx tables src n (netc_bsw_init cap) NETC_TANS_TABLE_SIZE \<noteq> Inl C_Undefined"
proof -
  have "encode_loop (\<lambda>i X w. let tbl = tables ! netc_ctx_bucket i in if \<not> tt_valid tbl then Inl C_Fail
      else tans_encode_step_checked tbl X (src ! i) w) n NETC_TANS_TABLE_SIZE (netc_bsw_init cap) \<noteq> Inl C_Undefined"
    using tables_wf_nth [OF assms] unfolding Let_def
    by (intro encode_loop_no_ub [OF log12 checked_step_cases]) simp_all
  then show ?thesis by (simp add: netc_tans_encode_pctx_def)
qed

lemma tans_encode_bigram_no_ub:
  assumes "bigram_wf bts class_map" and "tables_wf uts"
  shows "netc_tans_encode_pctx_bigram bts uts class_map src n (netc_bsw_init cap) NETC_TANS_TABLE_SIZE \<noteq> Inl C_Undefined"
proof -
  have "encode_loop (\<lambda>i X w. case bigram_select bts uts class_map i (if i > 0 then src ! (i - 1) else 0) of
        None \<Rightarrow> Inl C_Undefined
      | Some tbl \<Rightarrow> if \<not> tt_valid tbl then Inl C_Fail else tans_encode_step_checked tbl X (src ! i) w)
      n NETC_TANS_TABLE_SIZE (netc_bsw_init cap) \<noteq> Inl C_Undefined"
  proof (rule encode_loop_no_ub [OF log12])
    fix i X w
    obtain t where t: "bigram_select bts uts class_map i (if i > 0 then src ! (i - 1) else 0) = Some t"
      "tt_valid t \<longrightarrow> tans_wf NETC_TANS_TABLE_LOG t"
      using bigram_select_wf [OF assms] by blast
    let ?body = "case bigram_select bts uts class_map i (if i > 0 then src ! (i - 1) else 0) of
        None \<Rightarrow> Inl C_Undefined
      | Some tbl \<Rightarrow> if \<not> tt_valid tbl then Inl C_Fail else tans_encode_step_checked tbl X (src ! i) w"
    show "?body = Inl C_Fail \<or> (\<exists>t b. tans_wf NETC_TANS_TABLE_LOG t \<and> tans_present t b \<and> ?body = tans_encode_step t X b w)"
      using checked_step_cases [OF t(2)] unfolding t(1) option.case .
  qed simp_all
  then show ?thesis by (simp add: netc_tans_encode_pctx_bigram_def)
qed

lemma tans_encode_10_no_ub:
  assumes "tans_wf NETC_TANS_TABLE_LOG_10 t"
  shows "netc_tans_encode_10 t src n (netc_bsw_init cap) NETC_TANS_TABLE_SIZE_10 \<noteq> Inl C_Undefined"
proof -
  have "encode_loop (\<lambda>i X w. tans_encode_step_checked t X (src ! i) w) n NETC_TANS_TABLE_SIZE_10 (netc_bsw_init cap)
      \<noteq> Inl C_Undefined"
    using assms by (intro encode_loop_no_ub [OF log10]) (auto simp: tans_encode_step_checked_def tans_present_def)
  then show ?thesis by (simp add: netc_tans_encode_10_def)
qed

section \<open>Payloads decode\<close>

text \<open>Tables that code every byte: what training and the adaptive rebuild produce.\<close>

definition coder_full :: "netc_dict \<Rightarrow> netc_tans_table list \<Rightarrow> bool" where
  "coder_full d tables \<longleftrightarrow> coder_ok d tables \<and> (\<forall>t \<in> set tables. full t)
     \<and> (\<forall>row \<in> set (d_bigram_tables d). \<forall>t \<in> set row. tt_valid t \<longrightarrow> full t)"

lemma full_facts: "full t \<Longrightarrow> tans_wf NETC_TANS_TABLE_LOG t" "full t \<Longrightarrow> tt_valid t" "full t \<Longrightarrow> tans_present t b"
  using built_facts by (auto simp: full_def)

lemma select_table_full:
  assumes "coder_full d tables" and b: "b < 16"
  shows "\<exists>t. select_tans_table d tables b p f = Some t \<and> full t"
proof -
  have len: "length tables = 16" "length (d_bigram_tables d) = 16"
    and bw: "bigram_wf (d_bigram_tables d) (Some (d_bigram_class_map d))"
    using assms(1) by (simp_all add: coder_full_def coder_ok_def tables_wf_def bigram_wf_def)
  let ?c = "netc_bigram_class p (Some (d_bigram_class_map d))" and ?row = "d_bigram_tables d ! b"
  have t: "full (tables ! b)" using assms len by (simp add: coder_full_def)
  have row: "?row \<in> set (d_bigram_tables d)" "length ?row = 8" using b bw len by (simp_all add: bigram_wf_def)
  then have "tt_valid (?row ! ?c) \<longrightarrow> full (?row ! ?c)" "?c < length ?row"
    using assms(1) bigram_class_less [OF bw, of p] by (auto simp: coder_full_def)
  then show ?thesis using t b len by (simp add: select_tans_table_def)
qed

lemma read_state_bytes:
  assumes "X < 2 ^ 16"
  shows "compact \<Longrightarrow> unat (netc_read_u16_le (state_bytes compact X @ rest)) = X"
    and "\<not> compact \<Longrightarrow> unat (netc_read_u32_le (state_bytes compact X @ rest)) = X"
  using assms by (simp_all add: state_bytes_def word_of_nat_unat_id)

lemma state_less_u16: "X < 2 * NETC_TANS_TABLE_SIZE \<Longrightarrow> X < 2 ^ 16" "X < 2 * NETC_TANS_TABLE_SIZE_10 \<Longrightarrow> X < 2 ^ 16"
  by (simp_all add: tans_consts)

lemma decode_x1_stored:
  assumes "netc_tans_decode t (netc_bsr_init bs) n X = Inr src"
  shows "decode_tans_x1 t n (state_bytes compact X @ bs) compact = Inr src"
proof -
  have X: "NETC_TANS_TABLE_SIZE \<le> X" "X < 2 * NETC_TANS_TABLE_SIZE"
    using assms by (auto simp: netc_tans_decode_def split: if_splits)
  then show ?thesis
    using assms read_state_bytes [of X compact bs] state_less_u16(1) [OF X(2)]
    by (cases compact) (simp_all add: decode_tans_x1_def load_state_def or_fail_def)
qed

lemma decode_x2_stored:
  assumes "netc_tans_decode_x2 t (netc_bsr_init bs) n X0 X1 = Inr src"
  shows "decode_tans_x2 t n (state_bytes compact X0 @ state_bytes compact X1 @ bs) compact = Inr src"
proof -
  have X: "X0 < 2 * NETC_TANS_TABLE_SIZE" "X1 < 2 * NETC_TANS_TABLE_SIZE"
    using assms by (auto simp: netc_tans_decode_x2_def split: if_splits)
  show ?thesis
    using assms read_state_bytes [of X0 compact "state_bytes compact X1 @ bs"] read_state_bytes [of X1 compact bs]
      X [THEN state_less_u16(1)]
    by (cases compact) (simp_all add: decode_tans_x2_def load_state_def or_fail_def)
qed

lemma or_else_no_ub: "or_else a b = Inl C_Undefined \<longleftrightarrow> a = Inl C_Undefined \<or> a = Inl C_Fail \<and> b = Inl C_Undefined"
  by (auto simp: or_else_def split: sum.splits cerror.splits)

lemma encode_x1_ok:
  assumes "full t"
  shows "encode_x1 t src cap compact \<noteq> Inl C_Undefined"
    and "encode_x1 t src cap compact = Inr p \<Longrightarrow> decode_tans_x1 t (length src) p compact = Inr src"
proof -
  let ?cap = "cap - (if compact then 2 else 4)"
  show "encode_x1 t src cap compact \<noteq> Inl C_Undefined"
    using tans_encode_no_ub [OF assms, of src "length src" ?cap] flushed_no_ub [OF room_tans(1)]
    by (auto simp: encode_x1_def Let_def split: sum.splits)
  show "decode_tans_x1 t (length src) p compact = Inr src" if enc: "encode_x1 t src cap compact = Inr p"
  proof -
    define sz :: nat where "sz = (if compact then 2 else 4)"
    obtain X w bs where "netc_tans_encode t src (length src) (netc_bsw_init (cap - sz)) NETC_TANS_TABLE_SIZE = Inr (X, w)"
      "bsw_bytes w = Some bs" "p = state_bytes compact X @ bs"
      using enc unfolding encode_x1_def Let_def sz_def [symmetric]
      by (auto simp: flushed_Inr split: sum.splits if_splits)
    then show ?thesis
      using decode_x1_stored [OF tans_encode_decode] full_facts [OF assms] by blast
  qed
qed

lemma encode_x2_ok:
  assumes "full t"
  shows "encode_x2 t src cap compact \<noteq> Inl C_Undefined"
    and "encode_x2 t src cap compact = Inr p \<Longrightarrow> even (length src) \<Longrightarrow> decode_tans_x2 t (length src) p compact = Inr src"
proof -
  let ?cap = "cap - (if compact then 4 else 8)"
  show "encode_x2 t src cap compact \<noteq> Inl C_Undefined"
    using tans_encode_x2_no_ub [OF assms, of src ?cap] flushed_no_ub [OF room_x2]
    by (auto simp: encode_x2_def Let_def split: sum.splits)
  show "decode_tans_x2 t (length src) p compact = Inr src" if enc: "encode_x2 t src cap compact = Inr p" "even (length src)"
  proof -
    define sz :: nat where "sz = (if compact then 4 else 8)"
    obtain X0 X1 w bs where "netc_tans_encode_x2 t src (length src) (netc_bsw_init (cap - sz)) = Inr (X0, X1, w)"
      "bsw_bytes w = Some bs" "p = state_bytes compact X0 @ state_bytes compact X1 @ bs"
      using enc(1) unfolding encode_x2_def Let_def sz_def [symmetric]
      by (auto simp: flushed_Inr split: sum.splits if_splits)
    then show ?thesis
      using decode_x2_stored [OF tans_encode_decode_x2_even] full_facts [OF assms] enc(2) by blast
  qed
qed

definition single_decodes :: "netc_tans_table \<Rightarrow> byte list \<Rightarrow> bool \<Rightarrow> bool \<Rightarrow> byte list \<Rightarrow> bool" where
  "single_decodes t p x2 compact src \<longleftrightarrow>
     (if x2 then even (length src) \<longrightarrow> decode_tans_x2 t (length src) p compact = Inr src
      else decode_tans_x1 t (length src) p compact = Inr src)"

lemma try_single_ok:
  assumes "full t"
  shows "try_tans_single_with_table t src cap f compact \<noteq> Inl C_Undefined"
    and "try_tans_single_with_table t src cap f compact = Inr (p, x2) \<Longrightarrow>
      single_decodes t p x2 compact src
      \<and> (x2 \<longrightarrow> \<not> has_cfg f NETC_CFG_FLAG_BIGRAM \<and> \<not> has_cfg f NETC_INTERNAL_NO_X2 \<and> 256 \<le> length src)"
proof -
  show "try_tans_single_with_table t src cap f compact \<noteq> Inl C_Undefined"
    using encode_x1_ok(1) [OF assms, of src cap compact] encode_x2_ok(1) [OF assms, of src cap compact]
    by (auto simp: try_tans_single_with_table_def or_else_no_ub map_sum_def split: sum.splits if_splits)
  show "single_decodes t p x2 compact src
      \<and> (x2 \<longrightarrow> \<not> has_cfg f NETC_CFG_FLAG_BIGRAM \<and> \<not> has_cfg f NETC_INTERNAL_NO_X2 \<and> 256 \<le> length src)"
    if "try_tans_single_with_table t src cap f compact = Inr (p, x2)"
    using that encode_x1_ok(2) [OF assms] encode_x2_ok(2) [OF assms]
    by (auto simp: try_tans_single_with_table_def or_else_Inr single_decodes_def map_sum_def split: sum.splits if_splits)
qed

lemma scan_tables_ok:
  assumes "\<And>b. b \<in> set bs \<Longrightarrow> full (tables ! b)"
  shows "scan_tables tables src f compact bs best \<noteq> Inl C_Undefined"
    and "scan_tables tables src f compact bs best = Inr (Some (cp, b)) \<Longrightarrow> b \<in> set bs \<or> (\<exists>cp. best = Some (cp, b))"
  using assms
proof (induction bs arbitrary: best)
  case (Cons c bs)
  {
    case 1
    have "try_tans_single_with_table (tables ! c) src 520 f compact \<noteq> Inl C_Undefined"
      using try_single_ok(1) 1 by simp
    then show ?case using Cons.IH(1) 1 single_fits [of "tables ! c" src 520 f compact] by (auto split: sum.splits cerror.splits)
  next
    case 2
    show ?case
    proof (cases "try_tans_single_with_table (tables ! c) src 520 f compact")
      case (Inl e)
      then show ?thesis using Cons.IH(2) [of best] 2 by (auto split: if_splits cerror.splits)
    next
      case (Inr r)
      obtain p x2 where r: "r = (p, x2)" by fastforce
      define best' where "best' = (case best of None \<Rightarrow> Some (length p, c)
          | Some (best_cp, best_bucket) \<Rightarrow> if length p < best_cp then Some (length p, c) else best)"
      have "b \<in> set bs \<or> (\<exists>cp. best' = Some (cp, b))" if "tt_valid (tables ! c)"
        using Cons.IH(2) [of best'] 2 Inr r that single_fits [of "tables ! c" src 520 f compact] unfolding best'_def by auto
      moreover have "best' = Some (n, b) \<Longrightarrow> b = c \<or> (\<exists>cp. best = Some (cp, b))" for n
        by (auto simp: best'_def split: option.splits prod.splits if_splits)
      ultimately show ?thesis using Cons.IH(2) [of best] 2 by (cases "tt_valid (tables ! c)") auto
    qed
  }
qed simp_all

definition tans_decodes :: "netc_dict \<Rightarrow> netc_tans_table list \<Rightarrow> u32 \<Rightarrow> bool \<Rightarrow> tans_out \<Rightarrow> byte list \<Rightarrow> bool" where
  "tans_decodes d tables f compact out src \<longleftrightarrow>
     to_mreg out = 0 \<and> to_tbl out < 16
       \<and> (to_x2 out \<longrightarrow> \<not> has_cfg f NETC_CFG_FLAG_BIGRAM \<and> \<not> has_cfg f NETC_INTERNAL_NO_X2 \<and> 256 \<le> length src)
       \<and> (\<exists>t. select_tans_table d tables (to_tbl out) 0 f = Some t \<and> full t
            \<and> single_decodes t (to_payload out) (to_x2 out) compact src)
     \<or> to_mreg out = 2 \<and> \<not> to_x2 out
       \<and> (\<exists>X bs. to_payload out = state_bytes compact X @ bs
            \<and> netc_tans_decode_pctx tables (netc_bsr_init bs) (length src) X = Inr src)
     \<or> to_mreg out = 3 \<and> \<not> to_x2 out \<and> tt_valid (d_bigram_tables d ! 0 ! 0)
       \<and> (\<exists>X bs. to_payload out = state_bytes compact X @ bs
            \<and> netc_tans_decode_pctx_bigram (d_bigram_tables d) tables (Some (d_bigram_class_map d))
                (netc_bsr_init bs) (length src) X = Inr src)"

lemma single_region_ok:
  assumes c: "coder_full d tables"
  shows "try_tans_single_region d tables src cap f compact \<noteq> Inl C_Undefined"
    and "try_tans_single_region d tables src cap f compact = Inr out \<Longrightarrow>
      to_mreg out = 0 \<and> tans_decodes d tables f compact out src"
proof -
  define lb where "lb = netc_ctx_bucket (if length src > 0 then length src - 1 else 0)"
  define multi where "multi \<longleftrightarrow> \<not> has_cfg f NETC_CFG_FLAG_BIGRAM \<and> length src \<le> 512 \<and> lb > netc_ctx_bucket 0"
  have lb: "lb < 16" by (simp add: lb_def)
  have full: "full (tables ! b)" if "b < 16" for b
    using c that by (simp add: coder_full_def coder_ok_def tables_wf_def)
  obtain t where t: "select_tans_table d tables (netc_ctx_bucket 0) 0 f = Some t" "full t"
    using select_table_full [OF c, of "netc_ctx_bucket 0"] by auto
  define sc where "sc = scan_tables tables src f compact [netc_ctx_bucket 0..<lb + 1] None"
  have region: "try_tans_single_region d tables src cap f compact =
      (if multi then (case sc of Inl e \<Rightarrow> Inl e | Inr None \<Rightarrow> Inl C_Fail
         | Inr (Some (cp, b)) \<Rightarrow> single_out b (try_tans_single_with_table (tables ! b) src cap f compact))
       else single_out (netc_ctx_bucket 0) (try_tans_single_with_table t src cap f compact))"
    by (simp add: try_tans_single_region_def Let_def lb_def multi_def sc_def t(1))
  have sc_ub: "sc \<noteq> Inl C_Undefined" and sc_b: "\<And>cp b. sc = Inr (Some (cp, b)) \<Longrightarrow> b < 16"
    using scan_tables_ok [of "[netc_ctx_bucket 0..<lb + 1]" tables src f compact None] full lb
    unfolding sc_def by fastforce+
  have out_ub: "single_out b r = Inl C_Undefined \<longleftrightarrow> r = Inl C_Undefined" for b r
    by (cases r) (auto simp: single_out_def)
  show "try_tans_single_region d tables src cap f compact \<noteq> Inl C_Undefined"
  proof (cases multi)
    case True
    then show ?thesis using sc_ub sc_b full try_single_ok(1)
      by (auto simp: region out_ub split: sum.split option.split)
  next
    case False
    then show ?thesis using try_single_ok(1) [OF t(2)] by (simp add: region out_ub)
  qed
  have dec: "to_mreg out = 0 \<and> tans_decodes d tables f compact out src"
    if so: "single_out b (try_tans_single_with_table u src cap f compact) = Inr out" "full u" "b < 16"
      "select_tans_table d tables b 0 f = Some u" for b u
  proof -
    obtain p x2 where "try_tans_single_with_table u src cap f compact = Inr (p, x2)"
      "out = \<lparr>to_payload = p, to_mreg = 0, to_x2 = x2, to_tbl = b\<rparr>"
      using so(1) by (auto simp: single_out_def map_sum_def split: sum.splits)
    then show ?thesis using try_single_ok(2) [OF so(2)] so by (simp add: tans_decodes_def)
  qed
  show "to_mreg out = 0 \<and> tans_decodes d tables f compact out src"
    if sr: "try_tans_single_region d tables src cap f compact = Inr out"
  proof (cases multi)
    case True
    then obtain cp b where b: "sc = Inr (Some (cp, b))"
      "single_out b (try_tans_single_with_table (tables ! b) src cap f compact) = Inr out"
      using sr by (auto simp: region split: sum.splits option.splits)
    moreover have "select_tans_table d tables b 0 f = Some (tables ! b)"
      using True sc_b [OF b(1)] c by (simp add: multi_def select_tans_table_def coder_full_def coder_ok_def tables_wf_def)
    ultimately show ?thesis using dec sc_b full by blast
  next
    case False
    then show ?thesis using sr dec [OF _ t(2) _ t(1)] by (simp add: region)
  qed
qed

lemma ctx_bucket_0: "netc_ctx_bucket 0 = 0"
  by (simp add: netc_ctx_bucket_def bucket_lut_def numeral_eq_Suc)

lemma ctx_bucket_first: "netc_ctx_bucket i = 0 \<Longrightarrow> i < 8"
proof -
  have "list_all (\<lambda>i. bucket_lut ! i = 0 \<longrightarrow> i < 8) [0..<256]" by code_simp
  then show "netc_ctx_bucket i = 0 \<Longrightarrow> i < 8"
    by (auto simp: netc_ctx_bucket_def list_all_iff split: if_splits)
qed

lemma pctx_best_ok:
  assumes "coder_full d tables"
  shows "pctx_best d tables src cap f compact \<noteq> Inl C_Undefined"
    and "pctx_best d tables src cap f compact = Inr out \<Longrightarrow>
      tans_decodes d tables f compact out src \<and> (to_mreg out = 2 \<or> to_mreg out = 3 \<and> has_cfg f NETC_CFG_FLAG_BIGRAM)"
proof -
  have wf: "tables_wf tables" "bigram_wf (d_bigram_tables d) (Some (d_bigram_class_map d))"
    using assms by (simp_all add: coder_full_def coder_ok_def)
  have p_ub: "pctx_trial tables src cap sz \<noteq> Inl C_Undefined" for sz
    using tans_encode_pctx_no_ub [OF wf(1), of src "length src" "cap - sz"] flushed_no_ub [OF room_tans(2)]
    by (auto simp: pctx_trial_def map_sum_def split: sum.splits)
  have b_ub: "bigram_trial d tables src c f \<noteq> Inl C_Undefined" for c
  proof -
    let ?cap = "min c (NETC_MAX_PACKET_SIZE + 64)"
    let ?enc = "netc_tans_encode_pctx_bigram (d_bigram_tables d) tables (Some (d_bigram_class_map d)) src (length src)
        (netc_bsw_init ?cap) NETC_TANS_TABLE_SIZE"
    have fit: "into_buf (NETC_MAX_PACKET_SIZE + 64) bs = Inr bs" if "?enc = Inr (a, w)" "flushed w = Inr bs" for a w bs
      using room_flushed [OF room_tans(3) [OF that(1)] that(2)] by simp
    show ?thesis
    proof (cases ?enc)
      case (Inl e)
      then show ?thesis using tans_encode_bigram_no_ub [OF wf(2,1), of src "length src" ?cap] by (auto simp: bigram_trial_def)
    next
      case (Inr r)
      obtain a w where r: "r = (a, w)" by fastforce
      show ?thesis
        using Inr r flushed_no_ub [OF room_tans(3) [OF Inr [unfolded r]]] fit [OF Inr [unfolded r]]
        by (cases "flushed w") (auto simp: bigram_trial_def)
    qed
  qed
  show "pctx_best d tables src cap f compact \<noteq> Inl C_Undefined"
    using p_ub b_ub by (cases compact) (auto simp: pctx_best_def Let_def split: sum.splits cerror.splits)
  have p_dec: "netc_tans_decode_pctx tables (netc_bsr_init bs) (length src) X = Inr src"
    if tr: "pctx_trial tables src cap sz = Inr (X, bs)" for sz X bs
  proof -
    obtain w where "netc_tans_encode_pctx tables src (length src) (netc_bsw_init (cap - sz)) NETC_TANS_TABLE_SIZE = Inr (X, w)"
      "bsw_bytes w = Some bs"
      using tr by (auto simp: pctx_trial_def map_sum_def flushed_Inr split: sum.splits if_splits)
    then show ?thesis using tans_encode_decode_pctx [OF wf(1)] by blast
  qed
  have b_dec: "tt_valid (d_bigram_tables d ! 0 ! 0) \<and> has_cfg f NETC_CFG_FLAG_BIGRAM
      \<and> netc_tans_decode_pctx_bigram (d_bigram_tables d) tables (Some (d_bigram_class_map d)) (netc_bsr_init bs) (length src) X = Inr src"
    if tr: "bigram_trial d tables src c f = Inr (X, bs)" for c X bs
  proof -
    obtain w where "netc_tans_encode_pctx_bigram (d_bigram_tables d) tables (Some (d_bigram_class_map d)) src (length src)
        (netc_bsw_init (min c (NETC_MAX_PACKET_SIZE + 64))) NETC_TANS_TABLE_SIZE = Inr (X, w)" "bsw_bytes w = Some bs"
      "tt_valid (d_bigram_tables d ! 0 ! 0)" "has_cfg f NETC_CFG_FLAG_BIGRAM"
      using tr by (auto simp: bigram_trial_def map_sum_def flushed_Inr into_buf_Inr split: sum.splits if_splits)
    then show ?thesis using tans_encode_decode_bigram [OF wf(2,1)] by blast
  qed
  show "tans_decodes d tables f compact out src \<and> (to_mreg out = 2 \<or> to_mreg out = 3 \<and> has_cfg f NETC_CFG_FLAG_BIGRAM)"
    if best: "pctx_best d tables src cap f compact = Inr out"
  proof -
    define sz :: nat where "sz = (if compact then 2 else 4)"
    obtain X bs where p: "pctx_trial tables src cap sz = Inr (X, bs)"
      using best unfolding pctx_best_def Let_def sz_def [symmetric] by (auto split: sum.splits)
    consider "out = \<lparr>to_payload = state_bytes compact X @ bs, to_mreg = 2, to_x2 = False, to_tbl = 0\<rparr>"
      | Y cs where "bigram_trial d tables src (cap - sz) f = Inr (Y, cs)"
        "out = \<lparr>to_payload = state_bytes compact Y @ cs, to_mreg = 3, to_x2 = False, to_tbl = 0\<rparr>"
      using best unfolding pctx_best_def Let_def sz_def [symmetric] p
      by (auto split: sum.splits cerror.splits if_splits)
    then show ?thesis
    proof cases
      case 1
      then show ?thesis using p_dec [OF p] by (auto simp: tans_decodes_def)
    next
      case 2
      then show ?thesis using b_dec [OF 2(1)] by (auto simp: tans_decodes_def)
    qed
  qed
qed

text \<open>The whole stage.\<close>

lemma try_tans_compress_ok:
  assumes c: "coder_full d tables"
  shows "try_tans_compress d tables src cap f compact \<noteq> Inl C_Undefined"
    and "try_tans_compress d tables src cap f compact = Inr out \<Longrightarrow>
      src \<noteq> [] \<and> tans_decodes d tables f compact out src
      \<and> (to_mreg out = 3 \<longrightarrow> has_cfg f NETC_CFG_FLAG_BIGRAM)
      \<and> (to_mreg out = 0 \<and> has_cfg f NETC_INTERNAL_SKIP_SR \<longrightarrow> length src \<le> 8)"
proof -
  note sr = single_region_ok [OF c, of src _ f compact] and px = pctx_best_ok [OF c, of src cap f compact]
  show "try_tans_compress d tables src cap f compact \<noteq> Inl C_Undefined"
    using sr(1) px(1) single_region_fits [of d tables src 520 f compact]
    by (auto simp: try_tans_compress_def Let_def split: sum.splits cerror.splits)
  show "src \<noteq> [] \<and> tans_decodes d tables f compact out src \<and> (to_mreg out = 3 \<longrightarrow> has_cfg f NETC_CFG_FLAG_BIGRAM)
      \<and> (to_mreg out = 0 \<and> has_cfg f NETC_INTERNAL_SKIP_SR \<longrightarrow> length src \<le> 8)"
    if t: "try_tans_compress d tables src cap f compact = Inr out"
  proof (cases "netc_ctx_bucket (length src - 1) = 0")
    case True
    then have "try_tans_single_region d tables src cap f compact = Inr out" "src \<noteq> []"
      using t by (auto simp: try_tans_compress_def Let_def ctx_bucket_0 split: if_splits)
    then show ?thesis using sr(2) [of cap] ctx_bucket_first [OF True] by auto
  next
    case False
    have ne: "src \<noteq> []" using t by (auto simp: try_tans_compress_def)
    consider "try_tans_single_region d tables src cap f compact = Inr out" "\<not> has_cfg f NETC_INTERNAL_SKIP_SR"
      | "pctx_best d tables src cap f compact = Inr out"
      | "try_tans_single_region d tables src 520 f compact = Inr out" "\<not> has_cfg f NETC_INTERNAL_SKIP_SR"
      using t False by (auto simp: try_tans_compress_def Let_def ctx_bucket_0 split: if_splits sum.splits cerror.splits)
    then show ?thesis
    proof cases
      case 2
      then show ?thesis using px(2) ne by auto
    qed (use sr(2) ne in auto)
  qed
qed

end
