(* ===== verification/Netc_Compress.thy ===== *)
theory Netc_Compress
  imports Netc_Encode
begin

text \<open>
  Compression, \<open>src/src/core/netc_compress.c\<close>: the pre-passes (delta, LZP filter), the tANS stage and
  its competitors (LZ77, LZ77X, 10-bit tANS), the fallbacks (tANS on the raw bytes, LZ77, passthrough), the
  packet that each of them emits and the update of the context.  A stage returns nothing when it leaves
  the packet to the next one.

  The scratch arena holds the pre-filtered bytes, and two of the competitors use it as their output
  buffer.  The model does not track what they leave there: reading the pre-filtered bytes after such an
  attempt counts as undefined behaviour.  Computing a pointer behind the destination buffer is undefined
  too, which is how a buffer shorter than the header behaves.

  Every buffer that a stage fills has its size in the model, and filling it beyond that size is
  \<open>C_Undefined\<close> (\<open>into_buf\<close>, \<open>append_cap\<close>): the arena (residuals, LZP-filtered bytes, match streams), the
  order-2 trial \<open>o2_trial[65535]\<close>, \<open>lzp_trial_src[512]\<close> and \<open>lzp_trial_dst[520]\<close>, \<open>seen_arr[32]\<close> and \<open>seen[4]\<close>,
  \<open>tans_save[1024]\<close>, \<open>trial10[136]\<close>, the payload area of the destination, and in the stateless call
  \<open>lzp_filt_buf[1024]\<close> and \<open>lz_buf[1024]\<close>.  The packet history of a context is two buffers of 65535 bytes, so
  copying a longer packet there is undefined as well.
\<close>

section \<open>Pre-passes\<close>

definition NETC_COMPACT_HDR_MIN :: nat where "NETC_COMPACT_HDR_MIN = 2"
definition NETC_COMPACT_HDR_MAX :: nat where "NETC_COMPACT_HDR_MAX = 4"

definition zeros :: "byte list \<Rightarrow> nat" where
  "zeros xs = length (filter (\<lambda>b. b = 0) xs)"

text \<open>The residual and the packet flags, when a previous packet of the same size allows prediction.\<close>

definition compress_delta :: "netc_ctx \<Rightarrow> byte list \<Rightarrow> cerror + (byte list \<times> byte) option" where
  "compress_delta ctx src =
     (let n = length src
      in if has_cfg (c_flags ctx) NETC_CFG_FLAG_DELTA \<and> c_prev_pkt_size ctx = n \<and> n \<ge> NETC_DELTA_MIN_SIZE
            \<and> c_arena_size ctx \<ge> n
         then case c_prev_pkt ctx of None \<Rightarrow> Inr None
              | Some prev \<Rightarrow>
                  (case into_buf (c_arena_size ctx) (ops_delta_encode (c_simd_ops ctx) prev src n) of Inl e \<Rightarrow> Inl e
                   | Inr o1 \<Rightarrow>
                       let pkt_flags = NETC_PKT_FLAG_DICT_ID OR NETC_PKT_FLAG_DELTA
                       in (case c_prev2_pkt ctx of None \<Rightarrow> Inr (Some (o1, pkt_flags))
                           | Some prev2 \<Rightarrow>
                               if length prev2 \<noteq> n then Inr (Some (o1, pkt_flags))
                               else case into_buf NETC_MAX_PACKET_SIZE (netc_delta_encode_order2 prev2 prev src n) of
                                      Inl e \<Rightarrow> Inl e
                                    | Inr o2 \<Rightarrow>
                                        if zeros o2 > zeros o1
                                        then map_sum id (\<lambda>arena. Some (arena, pkt_flags OR NETC_PKT_FLAG_RLE))
                                               (into_buf (c_arena_size ctx) o2)
                                        else Inr (Some (o1, pkt_flags))))
         else Inr None)"

text \<open>\<open>compress_src\<close>, \<open>pkt_flags\<close>, \<open>did_delta\<close>, \<open>did_lzp\<close>.\<close>

definition compress_prepass :: "netc_ctx \<Rightarrow> byte list \<Rightarrow> cerror + (byte list \<times> byte \<times> bool \<times> bool)" where
  "compress_prepass ctx src =
     (case compress_delta ctx src of Inl e \<Rightarrow> Inl e
      | Inr (Some (residual, pkt_flags)) \<Rightarrow> Inr (residual, pkt_flags, True, False)
      | Inr None \<Rightarrow>
          (case (c_dict ctx, netc_get_lzp_table ctx) of
             (Some d, Some t) \<Rightarrow>
               if c_arena_size ctx \<ge> length src
               then map_sum id (\<lambda>arena. (arena, NETC_PKT_FLAG_DICT_ID, False, True))
                      (into_buf (c_arena_size ctx) (netc_lzp_xor_filter src t))
               else Inr (src, NETC_PKT_FLAG_DICT_ID, False, False)
           | _ \<Rightarrow> Inr (src, NETC_PKT_FLAG_DICT_ID, False, False)))"

section \<open>Packets\<close>

definition make_packet :: "netc_dict option \<Rightarrow> byte \<Rightarrow> bool \<Rightarrow> nat \<Rightarrow> byte \<Rightarrow> byte \<Rightarrow> byte list \<Rightarrow> byte list" where
  "make_packet dict seq compact n flags algorithm payload =
     netc_hdr_emit \<lparr>hdr_original_size = word_of_nat n, hdr_compressed_size = word_of_nat (length payload),
        hdr_flags = flags, hdr_algorithm = algorithm, hdr_model_id = netc_dict_model_id dict, hdr_context_seq = seq\<rparr> compact
     @ payload"

definition emit_passthrough :: "netc_dict option \<Rightarrow> byte \<Rightarrow> bool \<Rightarrow> byte list \<Rightarrow> nat \<Rightarrow> fault + byte list" where
  "emit_passthrough dict seq compact src dst_cap =
     (let pkt = make_packet dict seq compact (length src) (NETC_PKT_FLAG_PASSTHRU OR NETC_PKT_FLAG_DICT_ID)
                  NETC_ALG_PASSTHRU src;
          hdr_sz = length pkt - length src
      in if dst_cap < hdr_sz then Inl F_Undefined
         else if dst_cap < hdr_sz + length src then Inl (F_Result NETC_ERR_BUF_SMALL)
         else Inr pkt)"

definition lz77_packet :: "netc_dict option \<Rightarrow> byte \<Rightarrow> bool \<Rightarrow> nat \<Rightarrow> byte \<Rightarrow> byte list \<Rightarrow> byte list" where
  "lz77_packet dict seq compact n pkt_flags lz =
     make_packet dict seq compact n (pkt_flags OR NETC_PKT_FLAG_LZ77 OR NETC_PKT_FLAG_PASSTHRU) NETC_ALG_PASSTHRU lz"

definition lz77x_packet :: "netc_dict option \<Rightarrow> byte \<Rightarrow> bool \<Rightarrow> nat \<Rightarrow> byte list \<Rightarrow> byte list" where
  "lz77x_packet dict seq compact n lz = make_packet dict seq compact n NETC_PKT_FLAG_DICT_ID NETC_ALG_LZ77X lz"

section \<open>Competitors of the tANS stage\<close>

text \<open>
  More than four distinct values among the first 32 bytes, as the two searches count them: one notes each
  new value and then compares, the other compares first.
\<close>

fun too_diverse :: "byte list \<Rightarrow> byte list \<Rightarrow> cerror + bool" where
  "too_diverse seen_arr [] = Inr False"
| "too_diverse seen_arr (b # bs) =
     (if b \<in> set seen_arr then too_diverse seen_arr bs
      else case append_cap 32 seen_arr [b] of Inl e \<Rightarrow> Inl e
           | Inr seen_arr \<Rightarrow> if length seen_arr > 4 then Inr True else too_diverse seen_arr bs)"

fun diverse :: "byte list \<Rightarrow> byte list \<Rightarrow> cerror + bool" where
  "diverse seen [] = Inr False"
| "diverse seen (b # bs) =
     (if b \<in> set seen then diverse seen bs
      else if length seen \<ge> 4 then Inr True
      else case append_cap 4 seen [b] of Inl e \<Rightarrow> Inl e | Inr seen \<Rightarrow> diverse seen bs)"

text \<open>A match stream that beats the entropy-coded payload of \<open>cp\<close> bytes and fits.\<close>

definition lz_wins :: "cerror + byte list \<Rightarrow> nat \<Rightarrow> nat \<Rightarrow> nat \<Rightarrow> nat \<Rightarrow> cerror + byte list option" where
  "lz_wins r cp n hdr_sz dst_cap =
     (case r of Inl C_Undefined \<Rightarrow> Inl C_Undefined
      | Inl C_Fail \<Rightarrow> Inr None
      | Inr lz \<Rightarrow> Inr (if length lz < cp \<and> length lz < n \<and> hdr_sz + length lz \<le> dst_cap then Some lz else None))"

definition lz77_compete ::
    "netc_ctx \<Rightarrow> byte list \<Rightarrow> byte list \<Rightarrow> byte \<Rightarrow> bool \<Rightarrow> byte list \<Rightarrow> nat \<Rightarrow> nat \<Rightarrow> cerror + byte list option" where
  "lz77_compete ctx src compress_src pkt_flags did_delta payload hdr_sz dst_cap =
     (let n = length src; cp = length payload;
          lz77_min = (if has_cfg (c_flags ctx) NETC_CFG_FLAG_FAST_COMPRESS then 512 else 256)
      in if n \<ge> lz77_min \<and> cp * 2 > n
         then if \<not> did_delta \<and> c_arena_size ctx \<ge> n
              then lz_wins (lz77_encode src (c_arena_size ctx)) cp n hdr_sz dst_cap
              else if did_delta \<and> n \<le> 1024 \<and> \<not> has_flag pkt_flags NETC_PKT_FLAG_RLE
              then case too_diverse [] (take 32 compress_src) of Inl e \<Rightarrow> Inl e
                   | Inr True \<Rightarrow> Inr None
                   | Inr False \<Rightarrow>
                       (case into_buf 1024 payload of Inl e \<Rightarrow> Inl e
                        | Inr tans_save \<Rightarrow>
                            lz_wins (lz77_encode compress_src (dst_cap - hdr_sz)) (length tans_save) n hdr_sz dst_cap)
              else Inr None
         else Inr None)"

definition lzx_wanted :: "netc_ctx \<Rightarrow> byte list \<Rightarrow> nat \<Rightarrow> cerror + bool" where
  "lzx_wanted ctx src cp =
     (if cp * 2 > length src
         \<or> (case c_prev_pkt ctx of None \<Rightarrow> False
            | Some prev \<Rightarrow> length prev = length src
                \<and> (let check = min (length src) 32;
                       matches = length (filter (\<lambda>q. src ! q = prev ! q) [0..<check])
                   in matches * 2 \<ge> check))
      then Inr True
      else map_sum id Not (diverse [] (take 32 src)))"

text \<open>Whether the arena was used, and the stream if it wins.\<close>

definition lz77x_compete :: "netc_ctx \<Rightarrow> byte list \<Rightarrow> nat \<Rightarrow> nat \<Rightarrow> nat \<Rightarrow> cerror + (bool \<times> byte list option)" where
  "lz77x_compete ctx src cp hdr_sz dst_cap =
     (let n = length src
      in if c_ring ctx \<noteq> [] \<and> c_prev_pkt_size ctx > 0 \<and> n \<ge> 64 \<and> c_arena_size ctx \<ge> n
         then case lzx_wanted ctx src cp of Inl e \<Rightarrow> Inl e
              | Inr False \<Rightarrow> Inr (False, None)
              | Inr True \<Rightarrow>
                  map_sum id (Pair True)
                    (lz_wins (lz77x_encode src (c_ring ctx) (c_ring_pos ctx) (c_prev_pkt_size ctx) (c_arena_size ctx))
                       cp n hdr_sz dst_cap)
         else Inr (False, None))"

definition tans10_compete ::
    "netc_tans_table list \<Rightarrow> byte list \<Rightarrow> bool \<Rightarrow> tans_out \<Rightarrow> bool \<Rightarrow> u32 \<Rightarrow> bool \<Rightarrow> cerror + byte list option" where
  "tans10_compete tables csrc clobbered out did_lzp f compact =
     (if length csrc \<le> 128 \<and> to_mreg out = 0 \<and> \<not> did_lzp \<and> \<not> has_cfg f NETC_CFG_FLAG_BIGRAM \<and> compact
      then case nth_opt tables (to_tbl out) of None \<Rightarrow> Inl C_Undefined
           | Some tbl12 \<Rightarrow>
               (case netc_freq_rescale_12_to_10 (tt_freq tbl12) of None \<Rightarrow> Inr None
                | Some freq10 \<Rightarrow>
                    (case netc_tans_build_10 freq10 of None \<Rightarrow> Inr None
                     | Some tbl10 \<Rightarrow>
                         if clobbered then Inl C_Undefined
                         else case try_tans_10bit_with_table tbl10 csrc 136 of
                                Inl C_Undefined \<Rightarrow> Inl C_Undefined
                              | Inl C_Fail \<Rightarrow> Inr None
                              | Inr p \<Rightarrow>
                                  (case into_buf 136 p of Inl e \<Rightarrow> Inl e
                                   | Inr trial10 \<Rightarrow>
                                       Inr (if length trial10 < length (to_payload out) then Some trial10 else None))))
      else Inr None)"

section \<open>The tANS blocks\<close>

definition tans_extra_flags :: "u32 \<Rightarrow> nat \<Rightarrow> bool \<Rightarrow> byte" where
  "tans_extra_flags f mreg x2 =
     (if mreg = 1 then NETC_PKT_FLAG_MREG else 0) OR (if x2 then NETC_PKT_FLAG_X2 else 0)
     OR (if mreg = 3 \<or> mreg \<le> 1 \<and> has_cfg f NETC_CFG_FLAG_BIGRAM then NETC_PKT_FLAG_BIGRAM else 0)"

definition tans_algorithm :: "bool \<Rightarrow> bool \<Rightarrow> nat \<Rightarrow> nat \<Rightarrow> byte" where
  "tans_algorithm used10 did_lzp mreg tbl =
     (if used10 then NETC_ALG_TANS_10 OR push_bit 4 (word_of_nat tbl)
      else if did_lzp
      then if mreg = 2 \<or> mreg = 3 then NETC_ALG_TANS_PCTX OR 0x10
           else NETC_ALG_LZP OR push_bit 4 (word_of_nat (if mreg \<noteq> 0 then 0 else tbl))
      else if mreg = 2 \<or> mreg = 3 then NETC_ALG_TANS_PCTX
      else NETC_ALG_TANS OR push_bit 4 (word_of_nat (if mreg \<noteq> 0 then 0 else tbl)))"

text \<open>
  The competition that both tANS blocks end with: LZ77X, then 10-bit tANS, then the packet itself.
  \<open>csrc\<close> is what was entropy coded; \<open>in_arena\<close> says that it was in the arena, where an attempt with LZ77X
  overwrites it.  (The attempt with LZ77 in the arena is made for packets of at least 256 bytes only, to
  which 10-bit tANS, the only later reader, does not apply.)
\<close>

definition tans_emit ::
    "netc_ctx \<Rightarrow> netc_dict \<Rightarrow> netc_tans_table list \<Rightarrow> byte list \<Rightarrow> byte list \<Rightarrow> bool \<Rightarrow> byte \<Rightarrow> bool \<Rightarrow> nat \<Rightarrow> nat \<Rightarrow>
     u32 \<Rightarrow> byte \<Rightarrow> bool \<Rightarrow> tans_out \<Rightarrow> cerror + (byte list \<times> bool)" where
  "tans_emit ctx d tables src csrc in_arena seq compact hdr_sz dst_cap f pkt_flags did_lzp out =
     (let n = length src
      in case lz77x_compete ctx src (length (to_payload out)) hdr_sz dst_cap of Inl e \<Rightarrow> Inl e
         | Inr (tried, Some lz) \<Rightarrow> Inr (lz77x_packet (Some d) seq compact n lz, False)
         | Inr (tried, None) \<Rightarrow>
             (case tans10_compete tables csrc (tried \<and> in_arena) out did_lzp f compact of Inl e \<Rightarrow> Inl e
              | Inr (Some p) \<Rightarrow>
                  Inr (make_packet (Some d) seq compact n (pkt_flags OR tans_extra_flags f (to_mreg out) False)
                         (tans_algorithm True did_lzp (to_mreg out) (to_tbl out)) p, False)
              | Inr None \<Rightarrow>
                  Inr (make_packet (Some d) seq compact n (pkt_flags OR tans_extra_flags f (to_mreg out) (to_x2 out))
                         (tans_algorithm False did_lzp (to_mreg out) (to_tbl out)) (to_payload out), False)))"

definition lzp_trial_flags :: "netc_ctx \<Rightarrow> bool \<Rightarrow> u32" where
  "lzp_trial_flags ctx compact =
     (c_flags ctx AND NOT NETC_CFG_FLAG_DELTA) OR (if compact then NETC_INTERNAL_NO_X2 else 0) OR NETC_INTERNAL_SKIP_SR"

text \<open>LZP on the raw bytes instead of a delta residual, when that is smaller.\<close>

definition lzp_vs_delta ::
    "netc_ctx \<Rightarrow> netc_dict \<Rightarrow> netc_tans_table list \<Rightarrow> byte list \<Rightarrow> bool \<Rightarrow> bool \<Rightarrow> nat \<Rightarrow> cerror + tans_out option" where
  "lzp_vs_delta ctx d tables src did_delta compact cp =
     (let n = length src
      in case netc_get_lzp_table ctx of None \<Rightarrow> Inr None
         | Some t \<Rightarrow>
             if did_delta \<and> n \<le> 512 \<and> \<not> has_cfg (c_flags ctx) NETC_CFG_FLAG_FAST_COMPRESS \<and> (n \<le> 256 \<or> cp \<ge> n div 2)
             then case into_buf 512 (netc_lzp_xor_filter src t) of Inl e \<Rightarrow> Inl e
                  | Inr lzp_trial_src \<Rightarrow>
                      (case try_tans_compress d tables lzp_trial_src 520 (lzp_trial_flags ctx compact) compact of
                         Inl C_Undefined \<Rightarrow> Inl C_Undefined
                       | Inl C_Fail \<Rightarrow> Inr None
                       | Inr out \<Rightarrow>
                           (case into_buf 520 (to_payload out) of Inl e \<Rightarrow> Inl e
                            | Inr lzp_trial_dst \<Rightarrow> Inr (if length lzp_trial_dst < cp then Some out else None)))
             else Inr None)"

definition tans_ctx_flags :: "netc_ctx \<Rightarrow> bool \<Rightarrow> bool \<Rightarrow> bool \<Rightarrow> u32" where
  "tans_ctx_flags ctx compact did_delta did_lzp =
     c_flags ctx OR (if did_lzp \<and> compact then NETC_INTERNAL_NO_X2 else 0)
     OR (if did_delta \<or> did_lzp \<or> has_cfg (c_flags ctx) NETC_CFG_FLAG_FAST_COMPRESS then NETC_INTERNAL_SKIP_SR else 0)"

definition clear_delta :: "byte \<Rightarrow> byte" where
  "clear_delta pkt_flags = pkt_flags AND NOT (NETC_PKT_FLAG_DELTA OR NETC_PKT_FLAG_RLE)"

text \<open>The payload in the destination against LZ77, then against the others.\<close>

definition tans_block ::
    "netc_ctx \<Rightarrow> netc_dict \<Rightarrow> netc_tans_table list \<Rightarrow> byte list \<Rightarrow> byte list \<Rightarrow> bool \<Rightarrow> byte \<Rightarrow> bool \<Rightarrow> nat \<Rightarrow> nat \<Rightarrow>
     u32 \<Rightarrow> byte \<Rightarrow> bool \<Rightarrow> bool \<Rightarrow> tans_out \<Rightarrow> cerror + (byte list \<times> bool) option" where
  "tans_block ctx d tables src csrc in_arena seq compact hdr_sz dst_cap f pkt_flags did_delta did_lzp out =
     (case into_buf (dst_cap - hdr_sz) (to_payload out) of Inl e \<Rightarrow> Inl e
      | Inr payload \<Rightarrow>
          (case lz77_compete ctx src csrc pkt_flags did_delta payload hdr_sz dst_cap of Inl e \<Rightarrow> Inl e
           | Inr (Some lz) \<Rightarrow> Inr (Some (lz77_packet (Some d) seq compact (length src) pkt_flags lz, True))
           | Inr None \<Rightarrow>
               map_sum id Some
                 (tans_emit ctx d tables src csrc in_arena seq compact hdr_sz dst_cap f pkt_flags did_lzp out)))"

definition compress_tans ::
    "netc_ctx \<Rightarrow> netc_dict \<Rightarrow> byte list \<Rightarrow> byte \<Rightarrow> bool \<Rightarrow> nat \<Rightarrow> nat \<Rightarrow> cerror + (byte list \<times> bool) option" where
  "compress_tans ctx d src seq compact hdr_sz dst_cap =
     (case compress_prepass ctx src of Inl e \<Rightarrow> Inl e
      | Inr (csrc, pkt_flags, did_delta, did_lzp) \<Rightarrow>
          let n = length src; tables = netc_get_tables ctx d; in_arena = (did_delta \<or> did_lzp);
              f = tans_ctx_flags ctx compact did_delta did_lzp
          in case try_tans_compress d tables csrc (dst_cap - hdr_sz) f compact of
               Inl C_Undefined \<Rightarrow> Inl C_Undefined
             | Inl C_Fail \<Rightarrow> Inr None
             | Inr out \<Rightarrow>
                 if length (to_payload out) \<ge> n then Inr None
                 else case lzp_vs_delta ctx d tables src did_delta compact (length (to_payload out)) of Inl e \<Rightarrow> Inl e
                      | Inr trial \<Rightarrow>
                          let (out, pkt_flags, did_delta, did_lzp, f) =
                                (case trial of None \<Rightarrow> (out, pkt_flags, did_delta, did_lzp, f)
                                 | Some o2 \<Rightarrow> (o2, clear_delta pkt_flags, False, True, lzp_trial_flags ctx compact))
                          in tans_block ctx d tables src csrc in_arena seq compact hdr_sz dst_cap f pkt_flags did_delta
                               did_lzp out)"

text \<open>tANS on the raw bytes (LZP-filtered if there is a table), when the residual did not compress.\<close>

definition raw_source :: "netc_ctx \<Rightarrow> byte list \<Rightarrow> cerror + (byte list \<times> bool)" where
  "raw_source ctx src =
     (case netc_get_lzp_table ctx of None \<Rightarrow> Inr (src, False)
      | Some t \<Rightarrow>
          if c_arena_size ctx \<ge> length src
          then map_sum id (\<lambda>arena. (arena, True)) (into_buf (c_arena_size ctx) (netc_lzp_xor_filter src t))
          else Inr (src, False))"

definition compress_tans_raw ::
    "netc_ctx \<Rightarrow> netc_dict \<Rightarrow> byte list \<Rightarrow> byte \<Rightarrow> bool \<Rightarrow> nat \<Rightarrow> nat \<Rightarrow> cerror + (byte list \<times> bool) option" where
  "compress_tans_raw ctx d src seq compact hdr_sz dst_cap =
     (case raw_source ctx src of Inl e \<Rightarrow> Inl e
      | Inr (raw_src, fallback_lzp) \<Rightarrow>
          let n = length src; tables = netc_get_tables ctx d;
              f = (c_flags ctx AND NOT NETC_CFG_FLAG_DELTA) OR (if fallback_lzp \<and> compact then NETC_INTERNAL_NO_X2 else 0)
          in case try_tans_compress d tables raw_src (dst_cap - hdr_sz) f compact of
               Inl C_Undefined \<Rightarrow> Inl C_Undefined
             | Inl C_Fail \<Rightarrow> Inr None
             | Inr out \<Rightarrow>
                 if length (to_payload out) \<ge> n then Inr None
                 else map_sum id Some
                        (tans_emit ctx d tables src raw_src fallback_lzp seq compact hdr_sz dst_cap f NETC_PKT_FLAG_DICT_ID
                           fallback_lzp out))"

section \<open>The match coders as last resort\<close>

definition lz_shrinks :: "cerror + byte list \<Rightarrow> nat \<Rightarrow> cerror + byte list option" where
  "lz_shrinks r n =
     (case r of Inl C_Undefined \<Rightarrow> Inl C_Undefined
      | Inl C_Fail \<Rightarrow> Inr None
      | Inr lz \<Rightarrow> Inr (if length lz < n then Some lz else None))"

definition compress_lz ::
    "netc_ctx \<Rightarrow> byte list \<Rightarrow> byte list \<Rightarrow> byte \<Rightarrow> byte \<Rightarrow> bool \<Rightarrow> nat \<Rightarrow> nat \<Rightarrow> cerror + (byte list \<times> bool) option" where
  "compress_lz ctx src lz77_src pkt_flags seq compact hdr_sz dst_cap =
     (let n = length src; out_cap = dst_cap - hdr_sz
      in if n > 0 \<and> dst_cap > hdr_sz
         then case lz_shrinks (lz77_encode lz77_src out_cap) n of Inl e \<Rightarrow> Inl e
              | Inr (Some lz) \<Rightarrow> Inr (Some (lz77_packet (c_dict ctx) seq compact n pkt_flags lz, True))
              | Inr None \<Rightarrow>
                  if n \<ge> 64 \<and> c_ring ctx \<noteq> [] \<and> c_prev_pkt_size ctx > 0
                  then map_sum id (map_option (\<lambda>lz. (lz77x_packet (c_dict ctx) seq compact n lz, True)))
                         (lz_shrinks (lz77x_encode src (c_ring ctx) (c_ring_pos ctx) (c_prev_pkt_size ctx) out_cap) n)
                  else Inr None
         else Inr None)"

text \<open>
  The stages in their order.  After a delta pre-pass the arena may have been reused by the raw fallback;
  then the match coder gets the raw bytes and the flags without delta.
\<close>

definition compress_select ::
    "netc_ctx \<Rightarrow> byte list \<Rightarrow> byte \<Rightarrow> bool \<Rightarrow> nat \<Rightarrow> nat \<Rightarrow> cerror + (byte list \<times> bool) option" where
  "compress_select ctx src seq compact hdr_sz dst_cap =
     (case compress_prepass ctx src of Inl e \<Rightarrow> Inl e
      | Inr (csrc, pkt_flags, did_delta, did_lzp) \<Rightarrow>
          let guard = (did_delta \<and> c_dict ctx \<noteq> None \<and> netc_get_lzp_table ctx \<noteq> None \<and> c_arena_size ctx \<ge> length src);
              lz = compress_lz ctx src (if did_lzp \<or> guard then src else csrc) (if guard then clear_delta pkt_flags else pkt_flags)
                     seq compact hdr_sz dst_cap
          in case c_dict ctx of None \<Rightarrow> lz
             | Some d \<Rightarrow>
                 if src = [] then lz
                 else if dst_cap < hdr_sz then Inl C_Undefined
                 else case compress_tans ctx d src seq compact hdr_sz dst_cap of
                        Inl e \<Rightarrow> Inl e
                      | Inr (Some r) \<Rightarrow> Inr (Some r)
                      | Inr None \<Rightarrow>
                          if did_delta
                          then case compress_tans_raw ctx d src seq compact hdr_sz dst_cap of
                                 Inl e \<Rightarrow> Inl e
                               | Inr (Some r) \<Rightarrow> Inr (Some r)
                               | Inr None \<Rightarrow> lz
                          else lz)"

section \<open>Entry points\<close>

definition compress_stats :: "netc_ctx \<Rightarrow> nat \<Rightarrow> nat \<Rightarrow> bool \<Rightarrow> netc_ctx" where
  "compress_stats ctx src_size dst_size passthru =
     (if has_cfg (c_flags ctx) NETC_CFG_FLAG_STATS
      then let st = c_stats ctx
           in ctx\<lparr>c_stats := st\<lparr>st_packets_compressed := st_packets_compressed st + 1,
                                st_bytes_in := st_bytes_in st + word_of_nat src_size,
                                st_bytes_out := st_bytes_out st + word_of_nat dst_size,
                                st_passthrough_count := st_passthrough_count st + (if passthru then 1 else 0)\<rparr>\<rparr>
      else ctx)"

definition compress_finish :: "netc_ctx \<Rightarrow> byte list \<Rightarrow> nat \<Rightarrow> bool \<Rightarrow> netc_ctx" where
  "compress_finish ctx src dst_size passthru =
     (let ctx = ctx_ring_append ctx src;
          ctx = compress_update_prev ctx src;
          ctx = compress_stats ctx (length src) dst_size passthru;
          ctx = netc_adaptive_update ctx src
      in ctx_lzp_update ctx src)"

definition compress_hdr_size :: "bool \<Rightarrow> nat \<Rightarrow> nat" where
  "compress_hdr_size compact n =
     (if compact then if n \<le> 127 then NETC_COMPACT_HDR_MIN else NETC_COMPACT_HDR_MAX else NETC_HEADER_SIZE)"

text \<open>The packet history holds packets of at most 65535 bytes.\<close>

definition history_room :: "netc_ctx \<Rightarrow> byte list \<Rightarrow> bool" where
  "history_room ctx src \<longleftrightarrow> c_prev_pkt ctx = None \<or> length src \<le> NETC_MAX_PACKET_SIZE"

definition compress_packet :: "netc_ctx \<Rightarrow> byte list \<Rightarrow> nat \<Rightarrow> (fault + byte list) \<times> netc_ctx" where
  "compress_packet ctx src dst_cap =
     (if length src > NETC_MAX_PACKET_SIZE then (Inl (F_Result NETC_ERR_TOOBIG), ctx)
      else if dst_cap < NETC_COMPACT_HDR_MIN then (Inl (F_Result NETC_ERR_BUF_SMALL), ctx)
      else let seq = c_context_seq ctx; ctx = ctx\<lparr>c_context_seq := seq + 1\<rparr>;
               compact = has_cfg (c_flags ctx) NETC_CFG_FLAG_COMPACT_HDR
           in case compress_select ctx src seq compact (compress_hdr_size compact (length src)) dst_cap of
                Inl e \<Rightarrow> (Inl F_Undefined, ctx)
              | Inr r \<Rightarrow>
                  if \<not> history_room ctx src then (Inl F_Undefined, ctx)
                  else (case r of Some (pkt, passthru) \<Rightarrow> (Inr pkt, compress_finish ctx src (length pkt) passthru)
                        | None \<Rightarrow>
                            (let ctx = ctx_ring_append (compress_update_prev ctx src) src
                             in case emit_passthrough (c_dict ctx) seq compact src dst_cap of Inl e \<Rightarrow> (Inl e, ctx)
                                | Inr pkt \<Rightarrow>
                                    (Inr pkt, ctx_lzp_update (netc_adaptive_update
                                       (compress_stats ctx (length src) (length pkt) True) src) src))))"

definition netc_compress ::
    "netc_ctx option \<Rightarrow> byte list option \<Rightarrow> nat option \<Rightarrow> (fault + byte list) \<times> netc_ctx option" where
  "netc_compress ctx src dst =
     (case ctx of None \<Rightarrow> (Inl (F_Result NETC_ERR_CTX_NULL), None)
      | Some ctx \<Rightarrow>
          (case (src, dst) of
             (Some src, Some dst_cap) \<Rightarrow> map_prod id Some (compress_packet ctx src dst_cap)
           | _ \<Rightarrow> (Inl (F_Result NETC_ERR_INVALID_ARG), Some ctx)))"

section \<open>Stateless compression\<close>

text \<open>The bytes to be entropy coded, filtered in a buffer of 1024 bytes on the stack when they fit.\<close>

definition stateless_source :: "netc_dict \<Rightarrow> byte list \<Rightarrow> cerror + (byte list \<times> bool)" where
  "stateless_source d src =
     (case d_lzp_table d of None \<Rightarrow> Inr (src, False)
      | Some t \<Rightarrow>
          if length src \<le> 1024
          then map_sum id (\<lambda>lzp_filt_buf. (lzp_filt_buf, True)) (into_buf 1024 (netc_lzp_xor_filter src t))
          else Inr (src, False))"

text \<open>LZ77 into a buffer of 1024 bytes on the stack.\<close>

definition stateless_lz :: "byte list \<Rightarrow> nat \<Rightarrow> nat \<Rightarrow> cerror + byte list option" where
  "stateless_lz src cp dst_cap =
     (if cp * 2 > length src \<and> length src \<le> 1024
      then lz_wins (lz77_encode src 1024) cp (length src) NETC_HEADER_SIZE dst_cap
      else Inr None)"

definition stateless_tans :: "netc_dict \<Rightarrow> byte list \<Rightarrow> nat \<Rightarrow> cerror + byte list" where
  "stateless_tans d src dst_cap =
     (case stateless_source d src of Inl e \<Rightarrow> Inl e
      | Inr (tans_src, did_lzp) \<Rightarrow>
          (case try_tans_compress d (d_tables d) tans_src (dst_cap - NETC_HEADER_SIZE) 0 False of Inl e \<Rightarrow> Inl e
           | Inr out \<Rightarrow>
               let n = length src; cp = length (to_payload out)
               in if cp \<ge> n then Inl C_Fail
                  else case stateless_lz src cp dst_cap of Inl e \<Rightarrow> Inl e
                       | Inr (Some lz) \<Rightarrow> Inr (lz77_packet (Some d) 0 False n NETC_PKT_FLAG_DICT_ID lz)
                       | Inr None \<Rightarrow>
                           Inr (make_packet (Some d) 0 False n
                                  (NETC_PKT_FLAG_DICT_ID OR (if to_mreg out = 1 then NETC_PKT_FLAG_MREG else 0)
                                   OR (if to_x2 out then NETC_PKT_FLAG_X2 else 0))
                                  (if did_lzp
                                   then if to_mreg out = 2 then NETC_ALG_TANS_PCTX OR 0x10
                                        else NETC_ALG_LZP OR push_bit 4 (word_of_nat (if to_mreg out \<noteq> 0 then 0 else to_tbl out))
                                   else if to_mreg out = 2 then NETC_ALG_TANS_PCTX
                                   else NETC_ALG_TANS OR push_bit 4 (word_of_nat (if to_mreg out \<noteq> 0 then 0 else to_tbl out)))
                                  (to_payload out))))"

definition netc_compress_stateless :: "netc_dict option \<Rightarrow> byte list option \<Rightarrow> nat option \<Rightarrow> fault + byte list" where
  "netc_compress_stateless dict src dst =
     (case (dict, src, dst) of
        (Some d, Some src, Some dst_cap) \<Rightarrow>
          if length src > NETC_MAX_PACKET_SIZE then Inl (F_Result NETC_ERR_TOOBIG)
          else if dst_cap < NETC_HEADER_SIZE then Inl (F_Result NETC_ERR_BUF_SMALL)
          else (case (if src = [] then Inl C_Fail else stateless_tans d src dst_cap) of
                  Inl C_Undefined \<Rightarrow> Inl F_Undefined
                | Inr pkt \<Rightarrow> Inr pkt
                | Inl C_Fail \<Rightarrow>
                    (case (if src = [] then Inr None
                           else lz_wins (lz77_encode src (dst_cap - NETC_HEADER_SIZE)) (length src) (length src)
                                  NETC_HEADER_SIZE dst_cap) of
                       Inl e \<Rightarrow> Inl F_Undefined
                     | Inr (Some lz) \<Rightarrow> Inr (lz77_packet (Some d) 0 False (length src) NETC_PKT_FLAG_DICT_ID lz)
                     | Inr None \<Rightarrow> emit_passthrough (Some d) 0 False src dst_cap))
      | _ \<Rightarrow> Inl (F_Result NETC_ERR_INVALID_ARG))"

end
