(* ===== verification/Netc_Packet.thy ===== *)
theory Netc_Packet
  imports Netc_Compress
begin

text \<open>
  Packets from the decoder's side: the header that \<open>validate_header\<close> reads from a packet built by the
  encoder, and for each kind of payload the decoder that its flags and algorithm select.  The encoder's
  stages are composed with these facts in \<open>Netc_Roundtrip\<close>.
\<close>

section \<open>Reading a packet\<close>

text \<open>The compact header can represent the flags and the algorithm.\<close>

definition type_fits :: "byte \<Rightarrow> byte \<Rightarrow> bool" where
  "type_fits flags alg \<longleftrightarrow>
     netc_pkt_type_table ! unat (netc_compact_type_encode flags alg) = (flags, alg) \<and> type_used (flags, alg)"

definition describes :: "netc_pkt_header \<Rightarrow> nat \<Rightarrow> byte \<Rightarrow> byte \<Rightarrow> byte list \<Rightarrow> bool" where
  "describes hdr n flags alg payload \<longleftrightarrow>
     hdr_original_size hdr = word_of_nat n \<and> hdr_compressed_size hdr = word_of_nat (length payload)
     \<and> hdr_flags hdr = flags \<and> hdr_algorithm hdr = alg"

lemma length_make_packet:
  "n < 2 ^ 16 \<Longrightarrow> length (make_packet dict seq compact n flags alg payload) = compress_hdr_size compact n + length payload"
proof -
  assume n: "n < 2 ^ 16"
  have "(word_of_nat n :: u16) \<le> 127 \<longleftrightarrow> n \<le> 127"
    using unat_of_nat_u16 [OF n] by (simp add: word_le_nat_alt)
  then show ?thesis
    by (auto simp: make_packet_def netc_hdr_emit_def netc_hdr_write_compact_def compress_hdr_size_def
        NETC_COMPACT_HDR_MIN_def NETC_COMPACT_HDR_MAX_def)
qed

lemma validate_make_packet:
  assumes n: "n \<le> NETC_MAX_PACKET_SIZE" "n \<le> cap" and fits: "compact \<Longrightarrow> type_fits flags alg"
    and len: "length payload < 2 ^ 16"
  shows "\<exists>hdr. validate_header (make_packet dict seq compact n flags alg payload) cap compact
           = Inr (hdr, compress_hdr_size compact n)
         \<and> describes hdr n flags alg payload
         \<and> (\<not> compact \<longrightarrow> hdr_model_id hdr = netc_dict_model_id dict \<and> hdr_context_seq hdr = seq)
         \<and> slice (make_packet dict seq compact n flags alg payload) (compress_hdr_size compact n)
              (unat (hdr_compressed_size hdr)) = Some payload"
proof -
  let ?pkt = "make_packet dict seq compact n flags alg payload"
  have n16: "n < 2 ^ 16" using n by (simp add: NETC_MAX_PACKET_SIZE_def)
  note un = unat_of_nat_u16 [OF n16] and ul = unat_of_nat_u16 [OF len] and lp = length_make_packet [OF n16]
  have tk: "drop (compress_hdr_size compact n) ?pkt = payload"
    using lp [of dict seq compact flags alg payload] by (simp add: make_packet_def)
  show ?thesis
  proof (cases compact)
    case True
    have "netc_hdr_read_compact ?pkt = Some (compress_hdr_size compact n, word_of_nat n, flags, alg)"
      using fits [OF True] True lp [of dict seq compact flags alg payload]
      by (simp add: make_packet_def netc_hdr_emit_def hdr_read_write_compact type_fits_def)
    then show ?thesis
      using n un ul tk lp [of dict seq compact flags alg payload] True
      by (auto simp: validate_header_eq describes_def)
  next
    case False
    have "netc_hdr_read ?pkt = \<lparr>hdr_original_size = word_of_nat n, hdr_compressed_size = word_of_nat (length payload),
        hdr_flags = flags, hdr_algorithm = alg, hdr_model_id = netc_dict_model_id dict, hdr_context_seq = seq\<rparr>"
      using False by (simp add: make_packet_def netc_hdr_emit_def hdr_read_write)
    then show ?thesis
      using n un ul tk lp [of dict seq compact flags alg payload] False
      by (auto simp: validate_header_eq describes_def compress_hdr_size_def)
  qed
qed

text \<open>
  A packet is good for a context when it is at most a header longer than the bytes it stands for, its
  header can be represented, and the decoder that it selects gives those bytes back.
\<close>

definition good_packet :: "netc_ctx \<Rightarrow> byte \<Rightarrow> bool \<Rightarrow> byte list \<Rightarrow> byte list \<Rightarrow> bool" where
  "good_packet ctx seq compact src pkt \<longleftrightarrow>
     (\<exists>flags alg payload. pkt = make_packet (c_dict ctx) seq compact (length src) flags alg payload
        \<and> length payload \<le> length src \<and> (compact \<longrightarrow> type_fits flags alg)
        \<and> (\<forall>hdr dst. describes hdr (length src) flags alg payload \<and> length src \<le> length dst
             \<longrightarrow> decomp_payload ctx hdr payload dst compact = Inr src))"

lemma good_packetI:
  assumes "length payload \<le> length src" and "compact \<Longrightarrow> type_fits flags alg"
    and "\<And>hdr dst. describes hdr (length src) flags alg payload \<Longrightarrow> length src \<le> length dst
           \<Longrightarrow> decomp_payload ctx hdr payload dst compact = Inr src"
  shows "good_packet ctx seq compact src (make_packet (c_dict ctx) seq compact (length src) flags alg payload)"
  unfolding good_packet_def using assms by blast

lemma good_packet_length:
  "good_packet ctx seq compact src pkt \<Longrightarrow> length src \<le> NETC_MAX_PACKET_SIZE
     \<Longrightarrow> length pkt \<le> compress_hdr_size compact (length src) + length src"
  by (auto simp: good_packet_def length_make_packet NETC_MAX_PACKET_SIZE_def)

text \<open>A good packet decodes at any sequence number; a compact one adopts the number of its receiver.\<close>

lemma decompress_good_any:
  assumes g: "good_packet ctx seq (has_cfg (c_flags ctx) NETC_CFG_FLAG_COMPACT_HDR) src pkt"
    and n: "length src \<le> NETC_MAX_PACKET_SIZE" "length src \<le> length dst"
  shows "\<exists>hdr m p. netc_decompress (Some ctx) (Some pkt) (Some dst) = Inr (src, decomp_finish ctx hdr m p src)
           \<and> hdr_context_seq hdr = (if has_cfg (c_flags ctx) NETC_CFG_FLAG_COMPACT_HDR then c_context_seq ctx else seq)"
proof -
  define compact where "compact = has_cfg (c_flags ctx) NETC_CFG_FLAG_COMPACT_HDR"
  obtain flags alg payload where p: "pkt = make_packet (c_dict ctx) seq compact (length src) flags alg payload"
    "length payload \<le> length src" "compact \<longrightarrow> type_fits flags alg"
    and dec: "\<And>hdr dst. describes hdr (length src) flags alg payload \<Longrightarrow> length src \<le> length dst
             \<Longrightarrow> decomp_payload ctx hdr payload dst compact = Inr src"
    using g unfolding good_packet_def compact_def [symmetric] by blast
  have "length payload < 2 ^ 16" using p(2) n(1) by (simp add: NETC_MAX_PACKET_SIZE_def)
  then obtain hdr where v: "validate_header pkt (length dst) compact = Inr (hdr, compress_hdr_size compact (length src))"
    "describes hdr (length src) flags alg payload"
    "\<not> compact \<longrightarrow> hdr_model_id hdr = netc_dict_model_id (c_dict ctx) \<and> hdr_context_seq hdr = seq"
    "slice pkt (compress_hdr_size compact (length src)) (unat (hdr_compressed_size hdr)) = Some payload"
    using validate_make_packet [OF n, of compact flags alg payload "c_dict ctx" seq] p(1,3) by blast
  let ?hdr = "decomp_fill_header ctx compact hdr"
  have h: "describes ?hdr (length src) flags alg payload" "hdr_context_seq ?hdr = (if compact then c_context_seq ctx else seq)"
    "hdr_model_id ?hdr = netc_dict_model_id (c_dict ctx)"
    using v(2,3) by (auto simp: describes_def decomp_fill_header_def)
  then have ok: "decomp_model_ok ctx ?hdr"
    by (simp add: decomp_model_ok_def netc_dict_model_id_def split: option.split)
  have "netc_decompress (Some ctx) (Some pkt) (Some dst)
      = Inr (src, decomp_finish ctx ?hdr (length pkt) (decomp_alg_id (hdr_algorithm ?hdr) = NETC_ALG_PASSTHRU) src)"
    using v(1,4) ok dec [OF h(1) n(2)]
    by (simp add: netc_decompress_def compact_def [symmetric] Let_def)
  then show ?thesis using h(2) unfolding compact_def by blast
qed

lemma decompress_good:
  assumes "good_packet ctx seq (has_cfg (c_flags ctx) NETC_CFG_FLAG_COMPACT_HDR) src pkt"
    and "length src \<le> NETC_MAX_PACKET_SIZE" and "length src \<le> length dst" and "seq = c_context_seq ctx"
  shows "\<exists>hdr m p. netc_decompress (Some ctx) (Some pkt) (Some dst) = Inr (src, decomp_finish ctx hdr m p src)
           \<and> hdr_context_seq hdr = seq"
  using decompress_good_any [OF assms(1-3)] assms(4) by (metis (full_types))

section \<open>Payloads without entropy coding\<close>

lemma passthru_good:
  assumes "length src \<le> NETC_MAX_PACKET_SIZE"
  shows "good_packet ctx seq compact src
    (make_packet (c_dict ctx) seq compact (length src) (NETC_PKT_FLAG_PASSTHRU OR NETC_PKT_FLAG_DICT_ID) NETC_ALG_PASSTHRU src)"
proof (rule good_packetI)
  show "type_fits (NETC_PKT_FLAG_PASSTHRU OR NETC_PKT_FLAG_DICT_ID) NETC_ALG_PASSTHRU" by code_simp
  have u: "unat (word_of_nat (length src) :: u16) = length src"
    using assms unat_of_nat_u16 by (simp add: NETC_MAX_PACKET_SIZE_def)
  show "decomp_payload ctx hdr src dst compact = Inr src"
    if "describes hdr (length src) (NETC_PKT_FLAG_PASSTHRU OR NETC_PKT_FLAG_DICT_ID) NETC_ALG_PASSTHRU src"
      "length src \<le> length dst" for hdr dst
    using that u
    by (simp add: describes_def decomp_payload_def decomp_alg_id_def decode_passthru_def has_flag_def pkt_consts buf_write_whole)
qed simp

text \<open>The flags of the pre-pass, and that the post-pass undoes it under any flags that agree on delta.\<close>

definition prepass_flags :: "byte list" where
  "prepass_flags = [NETC_PKT_FLAG_DICT_ID, NETC_PKT_FLAG_DICT_ID OR NETC_PKT_FLAG_DELTA,
     NETC_PKT_FLAG_DICT_ID OR NETC_PKT_FLAG_DELTA OR NETC_PKT_FLAG_RLE]"

definition undoes :: "netc_ctx \<Rightarrow> byte \<Rightarrow> byte list \<Rightarrow> byte list \<Rightarrow> bool" where
  "undoes ctx pf csrc src \<longleftrightarrow>
     (\<forall>flags. has_flag flags NETC_PKT_FLAG_DELTA = has_flag pf NETC_PKT_FLAG_DELTA
        \<and> has_flag flags NETC_PKT_FLAG_RLE = has_flag pf NETC_PKT_FLAG_RLE
        \<longrightarrow> decomp_delta_postpass ctx flags csrc = src)"

lemma undoes_raw: "undoes ctx NETC_PKT_FLAG_DICT_ID src src"
  by (simp add: undoes_def decomp_delta_postpass_def has_flag_def pkt_consts)

lemma lz77_good:
  assumes lz: "\<And>dst. length csrc \<le> length dst \<Longrightarrow> lz77_decode lz dst (length csrc) = Inr (csrc @ drop (length csrc) dst)"
      "length lz < length src" and len: "length csrc = length src"
    and n: "length src \<le> NETC_MAX_PACKET_SIZE" and pf: "pf \<in> set prepass_flags" "undoes ctx pf csrc src"
    and c: "compact \<Longrightarrow> \<not> has_flag pf NETC_PKT_FLAG_RLE"
  shows "good_packet ctx seq compact src (lz77_packet (c_dict ctx) seq compact (length src) pf lz)"
  unfolding lz77_packet_def
proof (rule good_packetI)
  let ?flags = "pf OR NETC_PKT_FLAG_LZ77 OR NETC_PKT_FLAG_PASSTHRU"
  have all: "list_all (\<lambda>pf. let fl = pf OR NETC_PKT_FLAG_LZ77 OR NETC_PKT_FLAG_PASSTHRU
      in has_flag fl NETC_PKT_FLAG_LZ77 \<and> has_flag fl NETC_PKT_FLAG_DELTA = has_flag pf NETC_PKT_FLAG_DELTA
         \<and> has_flag fl NETC_PKT_FLAG_RLE = has_flag pf NETC_PKT_FLAG_RLE
         \<and> (has_flag pf NETC_PKT_FLAG_RLE \<or> type_fits fl NETC_ALG_PASSTHRU)) prepass_flags"
    by code_simp
  then have fl: "has_flag ?flags NETC_PKT_FLAG_LZ77" "has_flag ?flags NETC_PKT_FLAG_DELTA = has_flag pf NETC_PKT_FLAG_DELTA"
    "has_flag ?flags NETC_PKT_FLAG_RLE = has_flag pf NETC_PKT_FLAG_RLE"
    "has_flag pf NETC_PKT_FLAG_RLE \<or> type_fits ?flags NETC_ALG_PASSTHRU"
    using pf(1) by (auto simp: list_all_iff Let_def)
  show "type_fits ?flags NETC_ALG_PASSTHRU" if compact using c [OF that] fl(4) by simp
  have u: "unat (word_of_nat (length src) :: u16) = length src"
    using n unat_of_nat_u16 by (simp add: NETC_MAX_PACKET_SIZE_def)
  have post: "decomp_delta_postpass ctx ?flags csrc = src" using pf(2) fl by (simp add: undoes_def)
  show "decomp_payload ctx hdr lz dst compact = Inr src"
    if h: "describes hdr (length src) ?flags NETC_ALG_PASSTHRU lz" and room: "length src \<le> length dst" for hdr dst
  proof -
    have "hdr_flags hdr = ?flags" "hdr_algorithm hdr = NETC_ALG_PASSTHRU" "unat (hdr_original_size hdr) = length csrc"
      using h u len by (simp_all add: describes_def)
    moreover have "decomp_alg_id NETC_ALG_PASSTHRU = NETC_ALG_PASSTHRU" by (simp add: decomp_alg_id_def pkt_consts)
    ultimately show ?thesis using lz(1) [of dst] room len fl(1) post
      by (simp add: decomp_payload_def decode_passthru_def out_bytes_def)
  qed
qed (use lz in simp)

lemma lz77x_good:
  assumes lz: "\<And>dst. length src \<le> length dst
        \<Longrightarrow> lz77x_decode lz dst (length src) (c_ring ctx) (c_ring_pos ctx) = Inr (src @ drop (length src) dst)"
      "length lz < length src"
    and ring: "c_ring ctx \<noteq> []" and n: "length src \<le> NETC_MAX_PACKET_SIZE"
  shows "good_packet ctx seq compact src (lz77x_packet (c_dict ctx) seq compact (length src) lz)"
  unfolding lz77x_packet_def
proof (rule good_packetI)
  show "type_fits NETC_PKT_FLAG_DICT_ID NETC_ALG_LZ77X" by code_simp
  have u: "unat (word_of_nat (length src) :: u16) = length src"
    using n unat_of_nat_u16 by (simp add: NETC_MAX_PACKET_SIZE_def)
  show "decomp_payload ctx hdr lz dst compact = Inr src"
    if "describes hdr (length src) NETC_PKT_FLAG_DICT_ID NETC_ALG_LZ77X lz" "length src \<le> length dst" for hdr dst
    using that u lz(1) [of dst] ring
    by (simp add: describes_def decomp_payload_def decomp_alg_id_def out_bytes_def pkt_consts)
qed (use lz in simp)

section \<open>Entropy-coded payloads\<close>

definition coder_flags :: "byte \<Rightarrow> bool \<Rightarrow> bool \<Rightarrow> byte" where
  "coder_flags pf x2 bigram =
     pf OR ((if x2 then NETC_PKT_FLAG_X2 else 0) OR (if bigram then NETC_PKT_FLAG_BIGRAM else 0))"

definition tabled :: "byte \<Rightarrow> nat \<Rightarrow> byte" where
  "tabled alg b = alg OR push_bit 4 (word_of_nat b)"

lemma coder_flags_facts:
  assumes "pf \<in> set prepass_flags"
  shows "\<not> has_flag (coder_flags pf x2 bg) NETC_PKT_FLAG_MREG"
    and "has_flag (coder_flags pf x2 bg) NETC_PKT_FLAG_X2 = x2" and "has_flag (coder_flags pf x2 bg) NETC_PKT_FLAG_BIGRAM = bg"
    and "has_flag (coder_flags pf x2 bg) NETC_PKT_FLAG_DELTA = has_flag pf NETC_PKT_FLAG_DELTA"
    and "has_flag (coder_flags pf x2 bg) NETC_PKT_FLAG_RLE = has_flag pf NETC_PKT_FLAG_RLE"
  using assms by (auto simp: prepass_flags_def coder_flags_def has_flag_def pkt_consts)

lemma tabled_facts:
  assumes "b < 16" and "alg \<in> {NETC_ALG_TANS, NETC_ALG_LZP, NETC_ALG_TANS_10}"
  shows "decomp_alg_id (tabled alg b) = alg" and "unat (drop_bit 4 (tabled alg b)) = b"
proof -
  have all: "list_all (\<lambda>alg. list_all (\<lambda>b. decomp_alg_id (tabled alg b) = alg \<and> unat (drop_bit 4 (tabled alg b)) = b) [0..<16])
      [NETC_ALG_TANS, NETC_ALG_LZP, NETC_ALG_TANS_10]"
    by code_simp
  have "b \<in> set [0..<16]" "alg \<in> set [NETC_ALG_TANS, NETC_ALG_LZP, NETC_ALG_TANS_10]" using assms by auto
  then show "decomp_alg_id (tabled alg b) = alg" and "unat (drop_bit 4 (tabled alg b)) = b"
    using all unfolding list_all_iff by blast+
qed

text \<open>What the compact header represents; the marker of order-2 delta only with position contexts.\<close>

lemma type_fitsI: "(flags, alg) \<in> set netc_pkt_type_table \<Longrightarrow> flags \<noteq> 0 \<Longrightarrow> flags \<noteq> 0xFF \<Longrightarrow> type_fits flags alg"
  by (simp add: type_fits_def type_lookup_encode type_used_def)

lemma tabled_fits:
  assumes "set (bucketed flags alg) \<subseteq> set netc_pkt_type_table" and "b < 16" and "flags \<noteq> 0" and "flags \<noteq> 0xFF"
  shows "type_fits flags (tabled alg b)"
proof -
  have "(flags, tabled alg b) \<in> set (bucketed flags alg)" using assms(2) by (auto simp: bucketed_def tabled_def)
  then show ?thesis using assms type_fitsI by blast
qed

lemma table_blocks:
  "flags \<in> {NETC_PKT_FLAG_DICT_ID, NETC_PKT_FLAG_DELTA OR NETC_PKT_FLAG_DICT_ID, NETC_PKT_FLAG_BIGRAM OR NETC_PKT_FLAG_DICT_ID,
       NETC_PKT_FLAG_BIGRAM OR NETC_PKT_FLAG_DELTA OR NETC_PKT_FLAG_DICT_ID, NETC_PKT_FLAG_X2 OR NETC_PKT_FLAG_DICT_ID,
       NETC_PKT_FLAG_X2 OR NETC_PKT_FLAG_DELTA OR NETC_PKT_FLAG_DICT_ID}
     \<Longrightarrow> set (bucketed flags NETC_ALG_TANS) \<subseteq> set netc_pkt_type_table"
  "flags \<in> {NETC_PKT_FLAG_DICT_ID, NETC_PKT_FLAG_DELTA OR NETC_PKT_FLAG_DICT_ID, NETC_PKT_FLAG_BIGRAM OR NETC_PKT_FLAG_DICT_ID,
       NETC_PKT_FLAG_BIGRAM OR NETC_PKT_FLAG_DELTA OR NETC_PKT_FLAG_DICT_ID}
     \<Longrightarrow> set (bucketed flags NETC_ALG_LZP) \<subseteq> set netc_pkt_type_table"
  "flags \<in> {NETC_PKT_FLAG_DICT_ID, NETC_PKT_FLAG_DELTA OR NETC_PKT_FLAG_DICT_ID}
     \<Longrightarrow> set (bucketed flags NETC_ALG_TANS_10) \<subseteq> set netc_pkt_type_table"
  unfolding netc_pkt_type_table_def pkt_types_lo_def pkt_types_hi_def set_append by blast+

lemma table_pctx:
  "list_all (\<lambda>flags. (flags, NETC_ALG_TANS_PCTX) \<in> set netc_pkt_type_table \<and> (flags, NETC_ALG_TANS_PCTX OR 0x10) \<in> set netc_pkt_type_table)
     [8, 9, 10, 11, 0x29, 0x2B]"
  unfolding netc_pkt_type_table_def pkt_types_lo_def pkt_types_hi_def set_append by (simp add: pkt_consts)

lemma coder_type_fits:
  assumes pf: "pf \<in> set prepass_flags" and b: "b < 16"
  shows "\<not> has_flag pf NETC_PKT_FLAG_RLE \<Longrightarrow> \<not> (x2 \<and> bg) \<Longrightarrow> type_fits (coder_flags pf x2 bg) (tabled NETC_ALG_TANS b)"
    and "\<not> has_flag pf NETC_PKT_FLAG_RLE \<Longrightarrow> type_fits (coder_flags pf False bg) (tabled NETC_ALG_LZP b)"
    and "\<not> has_flag pf NETC_PKT_FLAG_RLE \<Longrightarrow> type_fits (coder_flags pf False False) (tabled NETC_ALG_TANS_10 b)"
    and "type_fits (coder_flags pf False bg) NETC_ALG_TANS_PCTX"
    and "type_fits (coder_flags pf False bg) (NETC_ALG_TANS_PCTX OR 0x10)"
proof -
  note simps = prepass_flags_def coder_flags_def has_flag_def pkt_consts
  show "type_fits (coder_flags pf x2 bg) (tabled NETC_ALG_TANS b)" if "\<not> has_flag pf NETC_PKT_FLAG_RLE" "\<not> (x2 \<and> bg)"
  proof -
    have "coder_flags pf x2 bg \<in> {8, 9, 10, 11, 0x48, 0x49}" using pf that by (auto simp: simps)
    then show ?thesis using b by (intro tabled_fits table_blocks(1)) (auto simp: pkt_consts)
  qed
  show "type_fits (coder_flags pf False bg) (tabled NETC_ALG_LZP b)" if "\<not> has_flag pf NETC_PKT_FLAG_RLE"
  proof -
    have "coder_flags pf False bg \<in> {8, 9, 10, 11}" using pf that by (auto simp: simps)
    then show ?thesis using b by (intro tabled_fits table_blocks(2)) (auto simp: pkt_consts)
  qed
  show "type_fits (coder_flags pf False False) (tabled NETC_ALG_TANS_10 b)" if "\<not> has_flag pf NETC_PKT_FLAG_RLE"
  proof -
    have "coder_flags pf False False \<in> {8, 9}" using pf that by (auto simp: simps)
    then show ?thesis using b by (intro tabled_fits table_blocks(3)) (auto simp: pkt_consts)
  qed
  have fl: "coder_flags pf False bg \<in> {8, 9, 10, 11, 0x29, 0x2B}" using pf by (auto simp: simps)
  then have "coder_flags pf False bg \<noteq> 0" "coder_flags pf False bg \<noteq> 0xFF" by auto
  then show "type_fits (coder_flags pf False bg) NETC_ALG_TANS_PCTX" "type_fits (coder_flags pf False bg) (NETC_ALG_TANS_PCTX OR 0x10)"
    using fl table_pctx unfolding list_all_iff by (auto intro!: type_fitsI)
qed

lemma alg_distinct:
  "NETC_ALG_TANS \<noteq> NETC_ALG_PASSTHRU" "NETC_ALG_TANS_PCTX \<noteq> NETC_ALG_PASSTHRU" "NETC_ALG_LZP \<noteq> NETC_ALG_PASSTHRU"
  "NETC_ALG_TANS_10 \<noteq> NETC_ALG_PASSTHRU" "NETC_ALG_TANS_PCTX \<noteq> NETC_ALG_TANS" "NETC_ALG_LZP \<noteq> NETC_ALG_TANS"
  "NETC_ALG_TANS_10 \<noteq> NETC_ALG_TANS" "NETC_ALG_LZP \<noteq> NETC_ALG_TANS_PCTX" "NETC_ALG_TANS_10 \<noteq> NETC_ALG_TANS_PCTX"
  "NETC_ALG_LZP \<noteq> NETC_ALG_LZ77X" "NETC_ALG_TANS_10 \<noteq> NETC_ALG_LZ77X" "NETC_ALG_TANS_10 \<noteq> NETC_ALG_LZP"
  by (simp_all add: pkt_consts)

text \<open>Selecting the table is the same on both sides.\<close>

lemma select_same:
  "has_flag flags NETC_PKT_FLAG_BIGRAM = has_cfg f NETC_CFG_FLAG_BIGRAM
     \<Longrightarrow> decomp_select_tbl d tables b p flags = select_tans_table d tables b p f"
  by (simp add: decomp_select_tbl_def select_tans_table_def)

lemma decode_single:
  assumes sel: "select_tans_table d tables b 0 f = Some t" "tt_valid t" and dec: "single_decodes t payload x2 compact csrc"
    and par: "x2 \<Longrightarrow> even (length csrc)"
    and h: "unat (hdr_original_size hdr) = length csrc" "hdr_flags hdr = coder_flags pf x2 (has_cfg f NETC_CFG_FLAG_BIGRAM)"
      "unat (drop_bit 4 (hdr_algorithm hdr)) = b" and pf: "pf \<in> set prepass_flags"
    and room: "length csrc \<le> length dst"
  shows "decode_tans (Some d) tables hdr payload dst compact = Inr csrc"
  using sel dec par h room coder_flags_facts [OF pf, of x2 "has_cfg f NETC_CFG_FLAG_BIGRAM"]
    select_same [of "hdr_flags hdr" f d tables b 0]
  by (simp add: decode_tans_def single_decodes_def split: if_splits)

lemma pctx_state_range:
  "netc_tans_decode_pctx tables r n X = Inr src \<Longrightarrow> NETC_TANS_TABLE_SIZE \<le> X \<and> X < 2 * NETC_TANS_TABLE_SIZE"
  "netc_tans_decode_pctx_bigram bts tables m r n X = Inr src \<Longrightarrow> NETC_TANS_TABLE_SIZE \<le> X \<and> X < 2 * NETC_TANS_TABLE_SIZE"
  by (auto simp: netc_tans_decode_pctx_def netc_tans_decode_pctx_bigram_def split: if_splits)

lemma decode_pctx_stored:
  assumes "if bg then tt_valid (d_bigram_tables d ! 0 ! 0)
        \<and> netc_tans_decode_pctx_bigram (d_bigram_tables d) tables (Some (d_bigram_class_map d)) (netc_bsr_init bs) n X = Inr csrc
      else netc_tans_decode_pctx tables (netc_bsr_init bs) n X = Inr csrc"
    and h: "unat (hdr_original_size hdr) = n" "has_flag (hdr_flags hdr) NETC_PKT_FLAG_BIGRAM = bg"
    and room: "n \<le> length dst"
  shows "decode_pctx d tables lzp hdr (state_bytes compact X @ bs) dst compact = Inr (unfilter_lzp lzp (hdr_algorithm hdr) csrc)"
proof -
  have X: "NETC_TANS_TABLE_SIZE \<le> X" "X < 2 * NETC_TANS_TABLE_SIZE"
    using assms(1) pctx_state_range by (metis (full_types))+
  then show ?thesis
    using assms read_state_bytes [of X compact bs] state_less_u16(1) [OF X(2)]
    by (cases compact; cases bg) (simp_all add: decode_pctx_def or_fail_def load_state_Some)
qed

text \<open>
  How the coded bytes relate to the packet: LZP filtered, or a residual that the post-pass undoes (the
  packet itself if there was no pre-pass).
\<close>

definition prepared :: "netc_ctx \<Rightarrow> bool \<Rightarrow> byte \<Rightarrow> byte list \<Rightarrow> byte list \<Rightarrow> bool" where
  "prepared ctx did_lzp pf csrc src \<longleftrightarrow> length csrc = length src \<and> pf \<in> set prepass_flags
     \<and> (if did_lzp then pf = NETC_PKT_FLAG_DICT_ID
          \<and> (\<exists>t. netc_get_lzp_table ctx = Some t \<and> csrc = netc_lzp_xor_filter src t)
        else undoes ctx pf csrc src)"

lemma preparedD:
  assumes "prepared ctx did_lzp pf csrc src"
  shows "length csrc = length src" and "pf \<in> set prepass_flags"
    and "\<not> did_lzp \<Longrightarrow> decomp_delta_postpass ctx (coder_flags pf x2 bg) csrc = src"
    and "did_lzp \<Longrightarrow> \<exists>t. netc_get_lzp_table ctx = Some t \<and> netc_lzp_xor_unfilter csrc t = src
          \<and> (\<forall>dst. decomp_delta_postpass ctx (coder_flags pf x2 bg) dst = dst)"
    and "did_lzp \<Longrightarrow> \<not> has_flag pf NETC_PKT_FLAG_RLE"
proof -
  show len: "length csrc = length src" and pf: "pf \<in> set prepass_flags"
    using assms by (simp_all add: prepared_def)
  show "decomp_delta_postpass ctx (coder_flags pf x2 bg) csrc = src" if "\<not> did_lzp"
    using assms that coder_flags_facts [OF pf] by (simp add: prepared_def undoes_def)
  show "\<exists>t. netc_get_lzp_table ctx = Some t \<and> netc_lzp_xor_unfilter csrc t = src
      \<and> (\<forall>dst. decomp_delta_postpass ctx (coder_flags pf x2 bg) dst = dst)" if did_lzp
  proof -
    have "\<not> has_flag pf NETC_PKT_FLAG_DELTA" using assms that by (simp add: prepared_def has_flag_def pkt_consts)
    then show ?thesis
      using assms that coder_flags_facts(4) [OF pf] by (auto simp: prepared_def lzp_unfilter_filter decomp_delta_postpass_def)
  qed
  show "\<not> has_flag pf NETC_PKT_FLAG_RLE" if did_lzp using assms that by (simp add: prepared_def has_flag_def pkt_consts)
qed

lemma extra_flags:
  "mreg \<noteq> 1 \<Longrightarrow> pf OR tans_extra_flags f mreg x2 = coder_flags pf x2 (mreg = 3 \<or> mreg = 0 \<and> has_cfg f NETC_CFG_FLAG_BIGRAM)"
  by (auto simp: tans_extra_flags_def coder_flags_def)

lemma single_good:
  assumes d: "c_dict ctx = Some d" "coder_full d (netc_get_tables ctx d)"
    and out: "tans_decodes d (netc_get_tables ctx d) f compact out csrc" "to_mreg out = 0" "length (to_payload out) < length src"
    and prep: "prepared ctx did_lzp pf csrc src" and n: "length src \<le> NETC_MAX_PACKET_SIZE"
    and par: "to_x2 out \<Longrightarrow> even (length src)"
    and c: "compact \<Longrightarrow> \<not> has_flag pf NETC_PKT_FLAG_RLE \<and> (did_lzp \<longrightarrow> has_cfg f NETC_INTERNAL_NO_X2)"
  shows "good_packet ctx seq compact src (make_packet (Some d) seq compact (length src)
     (coder_flags pf (to_x2 out) (has_cfg f NETC_CFG_FLAG_BIGRAM))
     (tabled (if did_lzp then NETC_ALG_LZP else NETC_ALG_TANS) (to_tbl out)) (to_payload out))"
  unfolding d(1) [symmetric]
proof (rule good_packetI)
  let ?bg = "has_cfg f NETC_CFG_FLAG_BIGRAM" and ?alg = "if did_lzp then NETC_ALG_LZP else NETC_ALG_TANS"
  let ?fl = "coder_flags pf (to_x2 out) ?bg"
  note pr = preparedD [OF prep]
  obtain t where b: "to_tbl out < 16" and x2: "to_x2 out \<longrightarrow> \<not> ?bg \<and> \<not> has_cfg f NETC_INTERNAL_NO_X2"
    and t: "select_tans_table d (netc_get_tables ctx d) (to_tbl out) 0 f = Some t" "full t"
      "single_decodes t (to_payload out) (to_x2 out) compact csrc"
    using out(1,2) by (auto simp: tans_decodes_def)
  show "length (to_payload out) \<le> length src" using out(3) by simp
  show "type_fits ?fl (tabled ?alg (to_tbl out))" if compact
    using c [OF that] coder_type_fits(1,2) [OF pr(2) b] x2 by (cases did_lzp) auto
  note tab = tabled_facts [OF b, of ?alg]
  fix hdr and dst :: "byte list"
  assume room: "length src \<le> length dst" and h: "describes hdr (length src) ?fl (tabled ?alg (to_tbl out)) (to_payload out)"
  have u: "unat (word_of_nat (length src) :: u16) = length src"
    using n unat_of_nat_u16 by (simp add: NETC_MAX_PACKET_SIZE_def)
  have dec: "decode_tans (Some d) (netc_get_tables ctx d) hdr (to_payload out) dst compact = Inr csrc"
    using decode_single [OF t(1) full_facts(2) [OF t(2)] t(3)] h u tab(2) pr(1,2) par room by (simp add: describes_def)
  show "decomp_payload ctx hdr (to_payload out) dst compact = Inr src"
  proof (cases did_lzp)
    case True
    obtain lt where "netc_get_lzp_table ctx = Some lt" "netc_lzp_xor_unfilter csrc lt = src"
      "\<forall>dst. decomp_delta_postpass ctx ?fl dst = dst"
      using pr(4) [OF True] by blast
    then show ?thesis using dec h tab(1) True d(1)
      by (simp add: decomp_payload_def describes_def alg_distinct)
  next
    case False
    then show ?thesis using dec h tab(1) d(1) pr(3)
      by (simp add: decomp_payload_def describes_def alg_distinct)
  qed
qed

lemma pctx_good:
  assumes d: "c_dict ctx = Some d"
    and out: "tans_decodes d (netc_get_tables ctx d) f compact out csrc" "to_mreg out \<noteq> 0" "length (to_payload out) < length src"
    and prep: "prepared ctx did_lzp pf csrc src" and n: "length src \<le> NETC_MAX_PACKET_SIZE"
  shows "good_packet ctx seq compact src (make_packet (Some d) seq compact (length src)
     (coder_flags pf False (to_mreg out = 3)) (if did_lzp then NETC_ALG_TANS_PCTX OR 0x10 else NETC_ALG_TANS_PCTX) (to_payload out))"
  unfolding d(1) [symmetric]
proof (rule good_packetI)
  let ?bg = "to_mreg out = 3" and ?alg = "if did_lzp then NETC_ALG_TANS_PCTX OR 0x10 else NETC_ALG_TANS_PCTX"
  let ?fl = "coder_flags pf False ?bg" and ?tables = "netc_get_tables ctx d"
  note pr = preparedD [OF prep]
  obtain X bs where p: "to_payload out = state_bytes compact X @ bs"
    and dec: "if ?bg then tt_valid (d_bigram_tables d ! 0 ! 0) \<and> netc_tans_decode_pctx_bigram (d_bigram_tables d) ?tables
        (Some (d_bigram_class_map d)) (netc_bsr_init bs) (length csrc) X = Inr csrc
      else netc_tans_decode_pctx ?tables (netc_bsr_init bs) (length csrc) X = Inr csrc"
    using out(1,2) by (auto simp: tans_decodes_def)
  show "length (to_payload out) \<le> length src" using out(3) by simp
  show "type_fits ?fl ?alg" using coder_type_fits(4,5) [OF pr(2), of 0] by simp
  fix hdr and dst :: "byte list"
  assume room: "length src \<le> length dst" and h: "describes hdr (length src) ?fl ?alg (to_payload out)"
  have u: "unat (word_of_nat (length src) :: u16) = length src"
    using n unat_of_nat_u16 by (simp add: NETC_MAX_PACKET_SIZE_def)
  have dec': "decode_pctx d ?tables lzp hdr (to_payload out) dst compact = Inr (unfilter_lzp lzp ?alg csrc)" for lzp
    using decode_pctx_stored [OF dec, of hdr dst lzp compact] room h u p pr(1) coder_flags_facts(3) [OF pr(2)] by (simp add: describes_def)
  have alg: "decomp_alg_id ?alg = NETC_ALG_TANS_PCTX" by (simp add: decomp_alg_id_def pkt_consts)
  show "decomp_payload ctx hdr (to_payload out) dst compact = Inr src"
  proof (cases did_lzp)
    case True
    obtain lt where "netc_get_lzp_table ctx = Some lt" "netc_lzp_xor_unfilter csrc lt = src"
      "\<forall>dst. decomp_delta_postpass ctx ?fl dst = dst"
      using pr(4) [OF True] by blast
    moreover have "unfilter_lzp (Some lt) ?alg csrc = netc_lzp_xor_unfilter csrc lt"
      using True by (simp add: unfilter_lzp_def pkt_consts)
    ultimately show ?thesis using dec' h alg d(1)
      by (simp add: decomp_payload_def describes_def alg_distinct)
  next
    case False
    then have "unfilter_lzp lzp ?alg csrc = csrc" for lzp by (simp add: unfilter_lzp_def pkt_consts split: option.split)
    then show ?thesis using dec' h alg d(1) pr(3) False
      by (simp add: decomp_payload_def describes_def alg_distinct)
  qed
qed

lemma tans10_good:
  assumes d: "c_dict ctx = Some d" and b: "b < 16" "b < length (netc_get_tables ctx d)" and t: "full (netc_get_tables ctx d ! b)"
    and t10: "netc_freq_rescale_12_to_10 (tt_freq (netc_get_tables ctx d ! b)) = Some f10" "netc_tans_build_10 f10 = Some t10"
    and enc: "try_tans_10bit_with_table t10 csrc cap = Inr p" "length p < length src"
    and prep: "prepared ctx False pf csrc src" and n: "length src \<le> NETC_MAX_PACKET_SIZE"
    and c: "\<not> has_flag pf NETC_PKT_FLAG_RLE"
  shows "good_packet ctx seq compact src (make_packet (Some d) seq compact (length src)
     (coder_flags pf False False) (tabled NETC_ALG_TANS_10 b) p)"
  unfolding d(1) [symmetric]
proof (rule good_packetI)
  let ?tables = "netc_get_tables ctx d"
  note pr = preparedD [OF prep] and tab = tabled_facts [OF b(1), of NETC_ALG_TANS_10]
  have wf: "tans_wf NETC_TANS_TABLE_LOG_10 t10"
    using build_10_wf [OF t10(2)] length_rescale [OF t10(1)] built_facts(1) t by (simp add: full_def)
  obtain X w bs where e: "netc_tans_encode_10 t10 csrc (length csrc) (netc_bsw_init (cap - 2)) NETC_TANS_TABLE_SIZE_10 = Inr (X, w)"
    "bsw_bytes w = Some bs" "p = netc_write_u16_le (word_of_nat X) @ bs"
    using enc(1) by (auto simp: try_tans_10bit_with_table_def flushed_Inr split: if_splits sum.splits)
  have dec: "netc_tans_decode_10 t10 (netc_bsr_init bs) (length csrc) X = Inr csrc"
    using tans_encode_decode_10 [OF wf e(1,2)] .
  then have X: "NETC_TANS_TABLE_SIZE_10 \<le> X" "X < 2 * NETC_TANS_TABLE_SIZE_10"
    by (auto simp: netc_tans_decode_10_def split: if_splits)
  have uX: "unat (word_of_nat X :: u16) = X" using unat_of_nat_u16 [OF state_less_u16(2) [OF X(2)]] .
  show "length p \<le> length src" using enc(2) by simp
  show "type_fits (coder_flags pf False False) (tabled NETC_ALG_TANS_10 b)" using coder_type_fits(3) [OF pr(2) b(1) c] .
  fix hdr and dst :: "byte list"
  assume room: "length src \<le> length dst" and h: "describes hdr (length src) (coder_flags pf False False) (tabled NETC_ALG_TANS_10 b) p"
  have u: "unat (word_of_nat (length src) :: u16) = length src"
    using n unat_of_nat_u16 by (simp add: NETC_MAX_PACKET_SIZE_def)
  have "decode_tans_10 ?tables hdr p dst = Inr csrc"
    using h u tab(2) pr(1) full_facts(2) [OF t] X uX e(3) t10 dec room b(2)
    by (simp add: decode_tans_10_def describes_def or_fail_def load_state_Some nth_opt_def)
  then show "decomp_payload ctx hdr p dst compact = Inr src"
    using h tab(1) d(1) pr(3) by (simp add: decomp_payload_def describes_def alg_distinct)
qed

end
