(* ===== verification/Netc_Roundtrip.thy ===== *)
theory Netc_Roundtrip
  imports Netc_Packet
begin

text \<open>
  Compression followed by decompression: every packet that \<open>netc_compress\<close> emits is a good packet for
  the encoder's context (no stage executes undefined behaviour), the context of the decoder decodes like
  the encoder's as long as the two agree on the state they share, and both update that state alike.  Two
  defects of the code are excluded by the hypothesis \<open>lossless\<close>: interleaved tANS of an odd number of
  bytes, and the order-2 marker that the compact header drops.
\<close>

section \<open>Pre-passes\<close>

lemma has_cfg_or: "has_cfg (a OR b) g \<longleftrightarrow> has_cfg a g \<or> has_cfg b g"
proof -
  have "(a OR b) AND g = (a AND g) OR (b AND g)" by (simp add: bit.conj_disj_distrib2)
  then show ?thesis by (simp add: has_cfg_def or_eq_0_iff)
qed

lemma has_cfg_strip: "has_cfg (a AND NOT NETC_CFG_FLAG_DELTA) NETC_CFG_FLAG_BIGRAM = has_cfg a NETC_CFG_FLAG_BIGRAM"
  by (simp add: has_cfg_def NETC_CFG_FLAG_DELTA_def NETC_CFG_FLAG_BIGRAM_def and.assoc)

lemma internal_flags:
  "has_cfg NETC_INTERNAL_NO_X2 NETC_INTERNAL_NO_X2" "has_cfg NETC_INTERNAL_SKIP_SR NETC_INTERNAL_SKIP_SR" "\<not> has_cfg 0 g"
  by (simp_all add: has_cfg_def NETC_INTERNAL_NO_X2_def NETC_INTERNAL_SKIP_SR_def)

lemma clear_delta_prepass: "pf \<in> set prepass_flags \<Longrightarrow> clear_delta pf = NETC_PKT_FLAG_DICT_ID"
  by (auto simp: prepass_flags_def clear_delta_def pkt_consts)

lemma compress_delta_undone:
  assumes wf: "ctx_wf ctx" and c: "compress_delta ctx src = Inr (Some (csrc, pf))"
  shows "length csrc = length src" and "pf \<in> set prepass_flags" and "undoes ctx pf csrc src"
    and "length src \<ge> 8" and "c_arena_size ctx \<ge> length src"
proof -
  let ?n = "length src"
  have ops: "ops_delta_encode (c_simd_ops ctx) = netc_delta_encode" "ops_delta_decode (c_simd_ops ctx) = netc_delta_decode"
    using wf by (simp_all add: ctx_wf_def)
  obtain prev where prev: "c_prev_pkt ctx = Some prev" "length prev = ?n" "8 \<le> ?n" "?n \<le> c_arena_size ctx"
    using c by (auto simp: compress_delta_def c_prev_pkt_size_def NETC_DELTA_MIN_SIZE_def Let_def split: if_splits option.splits)
  then have arena: "into_buf (c_arena_size ctx) (netc_delta_encode prev src ?n) = Inr (netc_delta_encode prev src ?n)" by simp
  consider "csrc = netc_delta_encode prev src ?n" "pf = NETC_PKT_FLAG_DICT_ID OR NETC_PKT_FLAG_DELTA"
    | prev2 where "c_prev2_pkt ctx = Some prev2" "length prev2 = ?n" "csrc = netc_delta_encode_order2 prev2 prev src ?n"
      "pf = NETC_PKT_FLAG_DICT_ID OR NETC_PKT_FLAG_DELTA OR NETC_PKT_FLAG_RLE"
    using c prev(1) ops arena
    by (auto simp: compress_delta_def Let_def or.assoc into_buf_Inr map_sum_def split: if_splits option.splits sum.splits)
  then have "length csrc = ?n \<and> pf \<in> set prepass_flags \<and> undoes ctx pf csrc src"
  proof cases
    case 1
    then have len: "length csrc = ?n" by simp
    have "decomp_delta_postpass ctx flags csrc = src" if "has_flag flags NETC_PKT_FLAG_DELTA" "\<not> has_flag flags NETC_PKT_FLAG_RLE" for flags
      using that prev ops len delta_decode_encode [of ?n src prev] 1 by (simp add: decomp_delta_postpass_def split: option.split)
    then show ?thesis using 1 len
      by (simp add: undoes_def) (simp add: prepass_flags_def has_flag_def pkt_consts)
  next
    case 2
    then have len: "length csrc = ?n" by simp
    have "decomp_delta_postpass ctx flags csrc = src" if "has_flag flags NETC_PKT_FLAG_DELTA" "has_flag flags NETC_PKT_FLAG_RLE" for flags
      using that prev len delta_decode_encode_order2 [of ?n src prev2 prev] 2 by (simp add: decomp_delta_postpass_def)
    then show ?thesis using 2 len
      by (simp add: undoes_def) (simp add: prepass_flags_def has_flag_def pkt_consts)
  qed
  then show "length csrc = ?n" "pf \<in> set prepass_flags" "undoes ctx pf csrc src" by blast+
  show "?n \<ge> 8" "c_arena_size ctx \<ge> ?n" using prev by simp_all
qed

text \<open>The packet is marked for order-2 prediction.\<close>

definition order2_marked :: "netc_ctx \<Rightarrow> byte list \<Rightarrow> bool" where
  "order2_marked ctx src =
     (case compress_delta ctx src of Inr (Some (residual, pkt_flags)) \<Rightarrow> has_flag pkt_flags NETC_PKT_FLAG_RLE | _ \<Rightarrow> False)"

lemma no_order2: "c_prev2_pkt c = None \<or> \<not> has_cfg (c_flags c) NETC_CFG_FLAG_DELTA \<Longrightarrow> \<not> order2_marked c p"
  by (auto simp: order2_marked_def compress_delta_def Let_def has_flag_def NETC_PKT_FLAG_DICT_ID_def NETC_PKT_FLAG_DELTA_def
      NETC_PKT_FLAG_RLE_def split: option.split sum.split)

text \<open>The pre-passes stay inside their buffers.\<close>

lemma compress_delta_defined:
  assumes wf: "ctx_wf ctx" and n: "length src \<le> NETC_MAX_PACKET_SIZE"
  shows "\<exists>r. compress_delta ctx src = Inr r"
proof -
  have "ops_delta_encode (c_simd_ops ctx) = netc_delta_encode" using wf by (simp add: ctx_wf_def)
  then show ?thesis using n by (auto simp: compress_delta_def Let_def split: option.split)
qed

lemma compress_prepass_defined:
  assumes wf: "ctx_wf ctx" and n: "length src \<le> NETC_MAX_PACKET_SIZE"
  shows "\<exists>csrc pf dd dl. compress_prepass ctx src = Inr (csrc, pf, dd, dl)"
  using compress_delta_defined [OF assms] by (auto simp: compress_prepass_def split: option.split)

lemma prepass_ok:
  assumes wf: "ctx_wf ctx" and p: "compress_prepass ctx src = Inr (csrc, pf, did_delta, did_lzp)"
  shows "prepared ctx did_lzp pf csrc src" and "did_delta \<Longrightarrow> \<not> did_lzp \<and> undoes ctx pf csrc src \<and> length src \<le> c_arena_size ctx"
    and "\<not> did_delta \<Longrightarrow> pf = NETC_PKT_FLAG_DICT_ID" and "\<not> did_delta \<Longrightarrow> \<not> did_lzp \<Longrightarrow> csrc = src"
    and "has_flag pf NETC_PKT_FLAG_RLE = order2_marked ctx src"
proof -
  have "prepared ctx did_lzp pf csrc src \<and> (did_delta \<longrightarrow> \<not> did_lzp \<and> undoes ctx pf csrc src \<and> length src \<le> c_arena_size ctx)
      \<and> (\<not> did_delta \<longrightarrow> pf = NETC_PKT_FLAG_DICT_ID \<and> (\<not> did_lzp \<longrightarrow> csrc = src))
      \<and> has_flag pf NETC_PKT_FLAG_RLE = order2_marked ctx src"
  proof (cases "compress_delta ctx src")
    case (Inl e)
    then show ?thesis using p by (simp add: compress_prepass_def)
  next
    case (Inr delta)
    show ?thesis
    proof (cases delta)
    case (Some r)
    obtain csrc' pf' where r: "r = (csrc', pf')" by fastforce
    then have "csrc' = csrc" "pf' = pf" "did_delta" "\<not> did_lzp" using p Inr Some by (auto simp: compress_prepass_def)
    then show ?thesis using compress_delta_undone [OF wf, of src csrc pf] Inr Some r
      by (simp add: prepared_def order2_marked_def)
  next
    case None
    have "NETC_PKT_FLAG_DICT_ID \<in> set prepass_flags" "\<not> has_flag NETC_PKT_FLAG_DICT_ID NETC_PKT_FLAG_RLE"
      by (simp_all add: prepass_flags_def has_flag_def pkt_consts)
    then show ?thesis using p Inr None undoes_raw
      by (auto simp: compress_prepass_def prepared_def order2_marked_def split: option.splits if_splits)
    qed
  qed
  then show "prepared ctx did_lzp pf csrc src" "did_delta \<Longrightarrow> \<not> did_lzp \<and> undoes ctx pf csrc src \<and> length src \<le> c_arena_size ctx"
    "\<not> did_delta \<Longrightarrow> pf = NETC_PKT_FLAG_DICT_ID" "\<not> did_delta \<Longrightarrow> \<not> did_lzp \<Longrightarrow> csrc = src"
    "has_flag pf NETC_PKT_FLAG_RLE = order2_marked ctx src" by blast+
qed

section \<open>The competition\<close>

lemma lz_wins_Some: "lz_wins r cp n h cap = Inr (Some p) \<Longrightarrow> r = Inr p \<and> length p < n \<and> h + length p \<le> cap"
  by (auto simp: lz_wins_def split: sum.splits cerror.splits if_splits)

lemma lz_shrinks_Some: "lz_shrinks r n = Inr (Some p) \<Longrightarrow> r = Inr p \<and> length p < n"
  by (auto simp: lz_shrinks_def split: sum.splits cerror.splits if_splits)

text \<open>The match coders and the two searches for distinct values stay inside their buffers.\<close>

lemma lz_defined:
  "\<exists>x. lz_wins (lz77_encode src cap) cp n h k = Inr x" "\<exists>x. lz_shrinks (lz77_encode src cap) n = Inr x"
  "\<exists>x. lz_wins (lz77x_encode src ring pos m cap) cp n h k = Inr x" "\<exists>x. lz_shrinks (lz77x_encode src ring pos m cap) n = Inr x"
  using lz_encode_ok_undefined [OF lz77_encode_ok, of src cap] lz_encode_ok_undefined [OF lz77x_encode_ok, of src ring pos m cap]
  by (auto simp: lz_wins_def lz_shrinks_def split: sum.split cerror.split)

lemma diverse_defined:
  "length seen \<le> 4 \<Longrightarrow> \<exists>b. too_diverse seen bs = Inr b" "length seen \<le> 4 \<Longrightarrow> \<exists>b. diverse seen bs = Inr b"
proof -
  show "length seen \<le> 4 \<Longrightarrow> \<exists>b. too_diverse seen bs = Inr b"
    by (induction seen bs rule: too_diverse.induct) auto
  show "length seen \<le> 4 \<Longrightarrow> \<exists>b. diverse seen bs = Inr b"
    by (induction seen bs rule: diverse.induct) auto
qed

lemma lz77x_compete_defined: "\<exists>tried r. lz77x_compete ctx src cp h cap = Inr (tried, r)"
proof -
  have "\<exists>b. lzx_wanted ctx src cp = Inr b"
    using diverse_defined(2) [of "[]" "take 32 src"] by (auto simp: lzx_wanted_def)
  then show ?thesis
    using lz_defined(3) [of src "c_ring ctx" "c_ring_pos ctx" "c_prev_pkt_size ctx" "c_arena_size ctx" cp "length src" h cap]
    by (auto simp: lz77x_compete_def Let_def split: bool.split)
qed

lemma lz77_compete_defined:
  assumes "length payload \<le> length src"
  shows "\<exists>r. lz77_compete ctx src csrc pf dd payload h cap = Inr r"
  using assms lz_defined(1) diverse_defined(1) [of "[]" "take 32 csrc"]
  by (auto simp: lz77_compete_def Let_def split: bool.split)

lemma lz77x_compete_good:
  assumes "lz77x_compete ctx src cp h cap = Inr (tried, r)" and n: "length src \<le> NETC_MAX_PACKET_SIZE"
  shows "tried \<Longrightarrow> 64 \<le> length src"
    and "r = Some lz \<Longrightarrow> good_packet ctx seq compact src (lz77x_packet (c_dict ctx) seq compact (length src) lz)"
proof -
  show "tried \<Longrightarrow> 64 \<le> length src"
    using assms(1) by (auto simp: lz77x_compete_def Let_def split: if_splits sum.splits bool.splits)
  assume "r = Some lz"
  then have "lz77x_encode src (c_ring ctx) (c_ring_pos ctx) (c_prev_pkt_size ctx) (c_arena_size ctx) = Inr lz" "c_ring ctx \<noteq> []"
    using assms(1) lz_wins_Some
    by (auto simp: lz77x_compete_def Let_def map_sum_def split: if_splits sum.splits bool.splits)
  then show "good_packet ctx seq compact src (lz77x_packet (c_dict ctx) seq compact (length src) lz)"
    using lz77x_good [of src lz ctx] lz77x_decode_encode n by blast
qed

lemma tans10_compete_ok:
  assumes full: "\<And>b. b < 16 \<Longrightarrow> full (tables ! b)" and len: "length tables = 16"
    and b: "to_mreg out = 0 \<Longrightarrow> to_tbl out < 16"
    and clob: "clobbered \<Longrightarrow> to_mreg out = 0 \<Longrightarrow> did_lzp"
  shows "\<exists>r. tans10_compete tables csrc clobbered out did_lzp f compact = Inr r"
    and "tans10_compete tables csrc clobbered out did_lzp f compact = Inr (Some p) \<Longrightarrow>
      to_mreg out = 0 \<and> \<not> did_lzp \<and> \<not> has_cfg f NETC_CFG_FLAG_BIGRAM \<and> compact \<and> length p < length (to_payload out)
      \<and> (\<exists>f10 t10. netc_freq_rescale_12_to_10 (tt_freq (tables ! to_tbl out)) = Some f10 \<and> netc_tans_build_10 f10 = Some t10
           \<and> try_tans_10bit_with_table t10 csrc 136 = Inr p)"
proof -
  have tbl: "nth_opt tables (to_tbl out) = Some (tables ! to_tbl out)" if "to_mreg out = 0"
    using b [OF that] len by (simp add: nth_opt_def)
  have fits: "into_buf 136 p = Inr p" if "try_tans_10bit_with_table t10 csrc 136 = Inr p" for t10 p
    using that room_flushed [OF room_tans(4)]
    by (fastforce simp: try_tans_10bit_with_table_def split: if_splits sum.splits)
  have ub: "try_tans_10bit_with_table t10 csrc 136 \<noteq> Inl C_Undefined"
    if t: "to_mreg out = 0" "netc_freq_rescale_12_to_10 (tt_freq (tables ! to_tbl out)) = Some f10"
      "netc_tans_build_10 f10 = Some t10" for f10 t10
  proof -
    have "tans_wf NETC_TANS_TABLE_LOG_10 t10"
      using build_10_wf [OF t(3)] length_rescale [OF t(2)] built_facts(1) full [OF b [OF t(1)]] by (simp add: full_def)
    then show ?thesis
      using tans_encode_10_no_ub [of t10 csrc "length csrc" 134] flushed_no_ub [OF room_tans(4)]
      by (auto simp: try_tans_10bit_with_table_def split: sum.splits)
  qed
  show "\<exists>r. tans10_compete tables csrc clobbered out did_lzp f compact = Inr r"
    using ub clob tbl fits by (auto simp: tans10_compete_def split: option.splits sum.splits cerror.splits)
  show "to_mreg out = 0 \<and> \<not> did_lzp \<and> \<not> has_cfg f NETC_CFG_FLAG_BIGRAM \<and> compact \<and> length p < length (to_payload out)
      \<and> (\<exists>f10 t10. netc_freq_rescale_12_to_10 (tt_freq (tables ! to_tbl out)) = Some f10 \<and> netc_tans_build_10 f10 = Some t10
           \<and> try_tans_10bit_with_table t10 csrc 136 = Inr p)"
    if "tans10_compete tables csrc clobbered out did_lzp f compact = Inr (Some p)"
    using that tbl fits by (auto simp: tans10_compete_def into_buf_Inr split: option.splits sum.splits cerror.splits if_splits)
qed

text \<open>
  The packet of a tANS block; \<open>coded\<close> is what the payload encodes, which \<open>csrc\<close>, the bytes offered to
  10-bit tANS, equals unless LZP replaced it.
\<close>

lemma tans_emit_good:
  assumes d: "c_dict ctx = Some d" "coder_full d (netc_get_tables ctx d)"
    and out: "tans_decodes d (netc_get_tables ctx d) f compact out coded" "length (to_payload out) < length src"
    and prep: "prepared ctx did_lzp pf coded src" and csrc: "\<not> did_lzp \<Longrightarrow> csrc = coded"
    and n: "length src \<le> NETC_MAX_PACKET_SIZE" and par: "to_x2 out \<Longrightarrow> even (length src)"
    and nox2: "compact \<Longrightarrow> did_lzp \<Longrightarrow> has_cfg f NETC_INTERNAL_NO_X2"
    and rle: "compact \<Longrightarrow> to_mreg out = 0 \<Longrightarrow> \<not> has_flag pf NETC_PKT_FLAG_RLE"
    and arena: "in_arena \<Longrightarrow> \<not> did_lzp \<Longrightarrow> to_mreg out = 0 \<Longrightarrow> length src < 64"
  shows "\<exists>pkt. tans_emit ctx d (netc_get_tables ctx d) src csrc in_arena seq compact hdr_sz dst_cap f pf did_lzp out = Inr (pkt, False)
    \<and> good_packet ctx seq compact src pkt"
proof -
  let ?tables = "netc_get_tables ctx d" and ?n = "length src"
  obtain tried lzx where x: "lz77x_compete ctx src (length (to_payload out)) hdr_sz dst_cap = Inr (tried, lzx)"
    using lz77x_compete_defined by blast
  note lzx = lz77x_compete_good [OF x n]
  have full: "full (?tables ! b)" if "b < 16" for b
    using d(2) that by (simp add: coder_full_def coder_ok_def tables_wf_def)
  have len: "length ?tables = 16" using d(2) by (simp add: coder_full_def coder_ok_def tables_wf_def)
  have tbl: "to_tbl out < 16" if "to_mreg out = 0" using out(1) that by (simp add: tans_decodes_def)
  have mreg: "to_mreg out \<noteq> 1" "to_mreg out = 0 \<or> to_mreg out = 2 \<or> to_mreg out = 3"
    "to_mreg out \<noteq> 0 \<Longrightarrow> \<not> to_x2 out" using out(1) by (auto simp: tans_decodes_def)
  have clob: "tried \<and> in_arena \<Longrightarrow> to_mreg out = 0 \<Longrightarrow> did_lzp" using arena lzx(1) by fastforce
  note t10 = tans10_compete_ok [of ?tables out "tried \<and> in_arena" did_lzp csrc f compact, OF full len tbl clob]
  show ?thesis
  proof (cases lzx)
    case (Some lz)
    then show ?thesis using lzx(2) [of lz] x d(1) by (simp add: tans_emit_def)
  next
    case None
    obtain r where r: "tans10_compete ?tables csrc (tried \<and> in_arena) out did_lzp f compact = Inr r" using t10(1) by blast
    show ?thesis
    proof (cases r)
      case (Some p)
      then obtain f10 t10' where p: "to_mreg out = 0" "\<not> did_lzp" "\<not> has_cfg f NETC_CFG_FLAG_BIGRAM" compact
        "length p < length (to_payload out)" "netc_freq_rescale_12_to_10 (tt_freq (?tables ! to_tbl out)) = Some f10"
        "netc_tans_build_10 f10 = Some t10'" "try_tans_10bit_with_table t10' csrc 136 = Inr p"
        using t10(2) r by blast
      have "good_packet ctx seq compact src (make_packet (Some d) seq compact ?n (coder_flags pf False False)
          (tabled NETC_ALG_TANS_10 (to_tbl out)) p)"
        using tans10_good [OF d(1) tbl [OF p(1)] _ full [OF tbl [OF p(1)]] p(6-8)] len tbl [OF p(1)] p out(2) prep csrc n rle by simp
      moreover have "pf OR tans_extra_flags f (to_mreg out) False = coder_flags pf False False"
        using extra_flags [OF mreg(1)] p(1,3) by simp
      ultimately show ?thesis using None r Some p(1) x by (simp add: tans_emit_def tans_algorithm_def tabled_def)
    next
      case r_None: None
      have "good_packet ctx seq compact src (make_packet (Some d) seq compact ?n
          (pf OR tans_extra_flags f (to_mreg out) (to_x2 out)) (tans_algorithm False did_lzp (to_mreg out) (to_tbl out)) (to_payload out))"
      proof (cases "to_mreg out = 0")
        case True
        then show ?thesis
          using single_good [OF d out(1) True out(2) prep n par, of seq] nox2 rle extra_flags [of 0 pf f "to_x2 out"]
          by (cases did_lzp) (auto simp: tans_algorithm_def tabled_def)
      next
        case False
        then show ?thesis
          using pctx_good [OF d(1) out(1) False out(2) prep n, of seq] mreg extra_flags [OF mreg(1), of pf f "to_x2 out"]
          by (auto simp: tans_algorithm_def)
      qed
      then show ?thesis using None r r_None x by (simp add: tans_emit_def)
    qed
  qed
qed

section \<open>The stages\<close>

text \<open>The packets on which the two defects do not show.\<close>

definition lossless :: "netc_ctx \<Rightarrow> byte list \<Rightarrow> bool" where
  "lossless ctx src \<longleftrightarrow>
     (c_dict ctx = None \<or> has_cfg (c_flags ctx) NETC_CFG_FLAG_BIGRAM \<or> length src < 256 \<or> even (length src))
     \<and> (has_cfg (c_flags ctx) NETC_CFG_FLAG_COMPACT_HDR \<and> order2_marked ctx src
         \<longrightarrow> c_dict ctx \<noteq> None \<and> netc_get_lzp_table ctx \<noteq> None \<and> 8 < length src)"

lemma x2_parity:
  assumes "tans_decodes d tables f compact out coded" and "lossless ctx src" and "c_dict ctx = Some d"
    and "length coded = length src" and "has_cfg (c_flags ctx) NETC_CFG_FLAG_BIGRAM \<Longrightarrow> has_cfg f NETC_CFG_FLAG_BIGRAM"
  shows "to_x2 out \<Longrightarrow> even (length src)"
  using assms by (auto simp: tans_decodes_def lossless_def)

lemma lz77_compete_good:
  assumes "lz77_compete ctx src csrc pf did_delta payload h cap = Inr (Some lz)" and n: "length src \<le> NETC_MAX_PACKET_SIZE"
    and pf: "pf \<in> set prepass_flags" and "did_delta \<Longrightarrow> undoes ctx pf csrc src \<and> length csrc = length src"
    and "\<not> did_delta \<Longrightarrow> pf = NETC_PKT_FLAG_DICT_ID"
  shows "good_packet ctx seq compact src (lz77_packet (c_dict ctx) seq compact (length src) pf lz)"
proof (cases did_delta)
  case True
  then have "lz77_encode csrc (cap - h) = Inr lz" "length lz < length src" "\<not> has_flag pf NETC_PKT_FLAG_RLE"
    using assms(1) by (auto simp: lz77_compete_def Let_def dest!: lz_wins_Some split: if_splits sum.splits bool.splits)
  then show ?thesis using lz77_good [of csrc lz src] lz77_decode_encode assms(4) [OF True] n pf by blast
next
  case False
  then have "lz77_encode src (c_arena_size ctx) = Inr lz" "length lz < length src" "pf = NETC_PKT_FLAG_DICT_ID"
    using assms(1,5) by (auto simp: lz77_compete_def Let_def dest!: lz_wins_Some split: if_splits)
  moreover have "\<not> has_flag NETC_PKT_FLAG_DICT_ID NETC_PKT_FLAG_RLE" by (simp add: has_flag_def pkt_consts)
  ultimately show ?thesis using lz77_good [of src lz src] lz77_decode_encode undoes_raw n pf by blast
qed

lemma prepared_lzp:
  "netc_get_lzp_table ctx = Some t \<Longrightarrow> prepared ctx True NETC_PKT_FLAG_DICT_ID (netc_lzp_xor_filter src t) src"
  by (simp add: prepared_def prepass_flags_def)

lemma prepared_raw: "prepared ctx False NETC_PKT_FLAG_DICT_ID src src"
  using undoes_raw by (simp add: prepared_def prepass_flags_def)

lemma lzp_vs_delta_ok:
  assumes c: "coder_full d tables"
  shows "\<exists>r. lzp_vs_delta ctx d tables src did_delta compact cp = Inr r"
    and "lzp_vs_delta ctx d tables src did_delta compact cp = Inr (Some out) \<Longrightarrow>
      did_delta \<and> length (to_payload out) < cp
      \<and> (\<exists>t. netc_get_lzp_table ctx = Some t
           \<and> tans_decodes d tables (lzp_trial_flags ctx compact) compact out (netc_lzp_xor_filter src t))"
proof -
  note ok = try_tans_compress_ok [OF c, of _ 520 "lzp_trial_flags ctx compact" compact]
  have dst: "into_buf 520 (to_payload out) = Inr (to_payload out)"
    if "try_tans_compress d tables x 520 (lzp_trial_flags ctx compact) compact = Inr out" for x out
    using try_tans_fits [OF that] by simp
  show "\<exists>r. lzp_vs_delta ctx d tables src did_delta compact cp = Inr r"
    using ok(1) dst by (auto simp: lzp_vs_delta_def Let_def split: option.splits sum.splits cerror.splits)
  show "did_delta \<and> length (to_payload out) < cp
      \<and> (\<exists>t. netc_get_lzp_table ctx = Some t
           \<and> tans_decodes d tables (lzp_trial_flags ctx compact) compact out (netc_lzp_xor_filter src t))"
    if "lzp_vs_delta ctx d tables src did_delta compact cp = Inr (Some out)"
    using that ok(2)
    by (auto simp: lzp_vs_delta_def Let_def into_buf_Inr split: option.splits sum.splits cerror.splits if_splits)
qed

lemma lzp_trial_flags:
  "has_cfg (c_flags ctx) NETC_CFG_FLAG_BIGRAM \<Longrightarrow> has_cfg (lzp_trial_flags ctx compact) NETC_CFG_FLAG_BIGRAM"
  "compact \<Longrightarrow> has_cfg (lzp_trial_flags ctx compact) NETC_INTERNAL_NO_X2"
  by (auto simp: lzp_trial_flags_def has_cfg_or has_cfg_strip internal_flags)

lemma tans_ctx_flags:
  "has_cfg (c_flags ctx) NETC_CFG_FLAG_BIGRAM \<Longrightarrow> has_cfg (tans_ctx_flags ctx compact dd dl) NETC_CFG_FLAG_BIGRAM"
  "compact \<Longrightarrow> dl \<Longrightarrow> has_cfg (tans_ctx_flags ctx compact dd dl) NETC_INTERNAL_NO_X2"
  "dd \<or> dl \<Longrightarrow> has_cfg (tans_ctx_flags ctx compact dd dl) NETC_INTERNAL_SKIP_SR"
  by (auto simp: tans_ctx_flags_def has_cfg_or internal_flags)

text \<open>A stage that leaves the packet to the next one, or emits a good packet.\<close>

definition stage_ok :: "netc_ctx \<Rightarrow> byte \<Rightarrow> bool \<Rightarrow> byte list \<Rightarrow> cerror + (byte list \<times> bool) option \<Rightarrow> bool" where
  "stage_ok ctx seq compact src r \<longleftrightarrow>
     (case r of Inl e \<Rightarrow> False | Inr None \<Rightarrow> True | Inr (Some (pkt, p)) \<Rightarrow> good_packet ctx seq compact src pkt)"

lemma stage_ok_simps [simp]:
  "\<not> stage_ok ctx seq compact src (Inl e)" "stage_ok ctx seq compact src (Inr None)"
  "stage_ok ctx seq compact src (Inr (Some (pkt, p))) \<longleftrightarrow> good_packet ctx seq compact src pkt"
  by (simp_all add: stage_ok_def)

lemma stage_emit:
  assumes "\<exists>pkt. r = Inr (pkt, p) \<and> good_packet ctx seq compact src pkt"
  shows "stage_ok ctx seq compact src (map_sum id Some r)"
  using assms by auto

text \<open>The payload of the tANS stage fits the destination, so the block decides between it and the match coders.\<close>

lemma tans_block_good:
  assumes emit: "\<exists>pkt. tans_emit ctx d tables src csrc in_arena seq compact hdr_sz dst_cap f pf did_lzp out = Inr (pkt, False)
      \<and> good_packet ctx seq compact src pkt"
    and d: "c_dict ctx = Some d" and fits: "length (to_payload out) \<le> dst_cap - hdr_sz" "length (to_payload out) < length src"
    and lz: "length src \<le> NETC_MAX_PACKET_SIZE" "pf \<in> set prepass_flags"
      "did_delta \<Longrightarrow> undoes ctx pf csrc src \<and> length csrc = length src" "\<not> did_delta \<Longrightarrow> pf = NETC_PKT_FLAG_DICT_ID"
  shows "stage_ok ctx seq compact src
    (tans_block ctx d tables src csrc in_arena seq compact hdr_sz dst_cap f pf did_delta did_lzp out)"
proof -
  obtain r where r: "lz77_compete ctx src csrc pf did_delta (to_payload out) hdr_sz dst_cap = Inr r"
    using lz77_compete_defined fits(2) less_imp_le by blast
  then show ?thesis
    using fits(1) stage_emit [OF emit] lz77_compete_good [OF _ lz] d
    by (cases r) (auto simp: tans_block_def)
qed

text \<open>The stage up to the block.\<close>

lemma compress_tans_cases:
  assumes d: "coder_full d (netc_get_tables ctx d)" and p: "compress_prepass ctx src = Inr (csrc, pf, dd, dl)"
    and len: "length csrc = length src" and f: "f = tans_ctx_flags ctx compact dd dl"
  obtains (stays) "compress_tans ctx d src seq compact hdr_sz dst_cap = Inr None"
  | (coded) out where "compress_tans ctx d src seq compact hdr_sz dst_cap
        = tans_block ctx d (netc_get_tables ctx d) src csrc (dd \<or> dl) seq compact hdr_sz dst_cap f pf dd dl out"
      "tans_decodes d (netc_get_tables ctx d) f compact out csrc"
      "to_mreg out = 0 \<Longrightarrow> dd \<or> dl \<Longrightarrow> length src \<le> 8"
      "length (to_payload out) < length src" "length (to_payload out) \<le> dst_cap - hdr_sz"
  | (lzp) out t where "compress_tans ctx d src seq compact hdr_sz dst_cap
        = tans_block ctx d (netc_get_tables ctx d) src csrc (dd \<or> dl) seq compact hdr_sz dst_cap (lzp_trial_flags ctx compact)
            (clear_delta pf) False True out"
      "tans_decodes d (netc_get_tables ctx d) (lzp_trial_flags ctx compact) compact out (netc_lzp_xor_filter src t)"
      "netc_get_lzp_table ctx = Some t" "length (to_payload out) < length src" "length (to_payload out) \<le> dst_cap - hdr_sz"
proof -
  let ?tables = "netc_get_tables ctx d"
  define t where "t = try_tans_compress d ?tables csrc (dst_cap - hdr_sz) f compact"
  note tok = try_tans_compress_ok [OF d, of csrc "dst_cap - hdr_sz" f compact, folded t_def]
  have eq: "compress_tans ctx d src seq compact hdr_sz dst_cap =
      (case t of Inl C_Undefined \<Rightarrow> Inl C_Undefined | Inl C_Fail \<Rightarrow> Inr None
       | Inr out \<Rightarrow>
           if length (to_payload out) \<ge> length src then Inr None
           else case lzp_vs_delta ctx d ?tables src dd compact (length (to_payload out)) of Inl e \<Rightarrow> Inl e
                | Inr trial \<Rightarrow>
                    let (out, pkt_flags, did_delta, did_lzp, f) =
                          (case trial of None \<Rightarrow> (out, pf, dd, dl, f)
                           | Some o2 \<Rightarrow> (o2, clear_delta pf, False, True, lzp_trial_flags ctx compact))
                    in tans_block ctx d ?tables src csrc (dd \<or> dl) seq compact hdr_sz dst_cap f pkt_flags did_delta did_lzp out)"
    unfolding compress_tans_def p t_def f Let_def by (simp only: sum.case prod.case)
  show thesis
  proof (cases t)
    case (Inl e)
    then show thesis using that(1) tok(1) eq by (cases e) simp_all
  next
    case (Inr out)
    show thesis
    proof (cases "length (to_payload out) \<ge> length src")
      case True
      then show thesis using that(1) Inr eq by simp
    next
      case False
      have out: "tans_decodes d ?tables f compact out csrc" "to_mreg out = 0 \<Longrightarrow> dd \<or> dl \<Longrightarrow> length src \<le> 8"
        "length (to_payload out) \<le> dst_cap - hdr_sz"
        using tok(2) [OF Inr] len tans_ctx_flags(3) [of dd dl ctx compact] try_tans_fits Inr by (auto simp: f t_def)
      obtain trial where tr: "lzp_vs_delta ctx d ?tables src dd compact (length (to_payload out)) = Inr trial"
        using lzp_vs_delta_ok(1) [OF d] by blast
      show thesis
      proof (cases trial)
        case None
        then show thesis using that(2) [of out] eq Inr False tr out by simp
      next
        case (Some o2)
        then obtain lt where "length (to_payload o2) < length (to_payload out)" "netc_get_lzp_table ctx = Some lt"
          "tans_decodes d ?tables (lzp_trial_flags ctx compact) compact o2 (netc_lzp_xor_filter src lt)"
          using lzp_vs_delta_ok(2) [OF d] tr by blast
        then show thesis using that(3) [of o2 lt] eq Inr False tr Some out(3) by simp
      qed
    qed
  qed
qed

lemma compress_tans_good:
  assumes wf: "ctx_wf ctx" and d: "c_dict ctx = Some d" "coder_full d (netc_get_tables ctx d)"
    and n: "length src \<le> NETC_MAX_PACKET_SIZE" and ll: "lossless ctx src"
    and compact: "compact = has_cfg (c_flags ctx) NETC_CFG_FLAG_COMPACT_HDR"
  shows "stage_ok ctx seq compact src (compress_tans ctx d src seq compact hdr_sz dst_cap)"
proof -
  let ?n = "length src"
  obtain csrc pf dd dl where p: "compress_prepass ctx src = Inr (csrc, pf, dd, dl)"
    using compress_prepass_defined [OF wf n] by blast
  note pre = prepass_ok [OF wf p] and pr = preparedD(1,2) [OF prepass_ok(1) [OF wf p]]
  from d(2) p pr(1) refl show ?thesis
  proof (cases rule: compress_tans_cases [where compact = compact and seq = seq and hdr_sz = hdr_sz and dst_cap = dst_cap])
    case stays
    then show ?thesis by simp
  next
    case (coded out)
    have rle: "\<not> has_flag pf NETC_PKT_FLAG_RLE" if "compact" "to_mreg out = 0"
      using that ll coded(3) pre(3,5) by (cases dd) (auto simp: lossless_def compact has_flag_def pkt_consts)
    have x2: "to_x2 out \<Longrightarrow> even ?n"
      using x2_parity [OF coded(2) ll d(1) pr(1)] tans_ctx_flags(1) by blast
    have arena: "dd \<or> dl \<Longrightarrow> to_mreg out = 0 \<Longrightarrow> ?n < 64" using coded(3) by simp
    show ?thesis
      unfolding coded(1) using pre(2,3) pr
      by (intro tans_block_good [OF tans_emit_good [OF d coded(2,4) pre(1) refl n x2 tans_ctx_flags(2) rle arena] d(1) coded(5,4) n]) auto
  next
    case (lzp out t)
    have id: "NETC_PKT_FLAG_DICT_ID \<in> set prepass_flags" "\<not> has_flag NETC_PKT_FLAG_DICT_ID NETC_PKT_FLAG_RLE"
      by (simp_all add: prepass_flags_def has_flag_def pkt_consts)
    have x2: "to_x2 out \<Longrightarrow> even ?n" using x2_parity [OF lzp(2) ll d(1)] lzp_trial_flags(1) by simp
    have "\<exists>pkt. tans_emit ctx d (netc_get_tables ctx d) src csrc (dd \<or> dl) seq compact hdr_sz dst_cap (lzp_trial_flags ctx compact)
        NETC_PKT_FLAG_DICT_ID True out = Inr (pkt, False) \<and> good_packet ctx seq compact src pkt"
      using id(2) lzp_trial_flags(2) by (intro tans_emit_good [OF d lzp(2,4) prepared_lzp [OF lzp(3)] _ n x2]) auto
    then show ?thesis
      unfolding lzp(1) clear_delta_prepass [OF pr(2)] using id by (intro tans_block_good [OF _ d(1) lzp(5,4) n]) auto
  qed
qed

lemma raw_source_defined: "\<exists>raw fl. raw_source ctx src = Inr (raw, fl)"
  by (auto simp: raw_source_def split: option.split)

lemma raw_source_prepared: "raw_source ctx src = Inr (raw, fl) \<Longrightarrow> prepared ctx fl NETC_PKT_FLAG_DICT_ID raw src"
  using prepared_lzp prepared_raw by (auto simp: raw_source_def split: option.splits if_splits)

lemma compress_tans_raw_cases:
  assumes d: "coder_full d (netc_get_tables ctx d)" and raw: "raw_source ctx src = Inr (raw, fl)"
    and f: "f = (c_flags ctx AND NOT NETC_CFG_FLAG_DELTA) OR (if fl \<and> compact then NETC_INTERNAL_NO_X2 else 0)"
  obtains (stays) "compress_tans_raw ctx d src seq compact hdr_sz dst_cap = Inr None"
  | (coded) out where "compress_tans_raw ctx d src seq compact hdr_sz dst_cap = map_sum id Some
        (tans_emit ctx d (netc_get_tables ctx d) src raw fl seq compact hdr_sz dst_cap f NETC_PKT_FLAG_DICT_ID fl out)"
      "tans_decodes d (netc_get_tables ctx d) f compact out raw"
      "length (to_payload out) < length src" "length (to_payload out) \<le> dst_cap - hdr_sz"
proof -
  let ?t = "try_tans_compress d (netc_get_tables ctx d) raw (dst_cap - hdr_sz) f compact"
  note tok = try_tans_compress_ok [OF d, of raw "dst_cap - hdr_sz" f compact]
  show thesis
  proof (cases ?t)
    case (Inl e)
    then show thesis using that(1) tok(1) by (cases e) (simp_all add: compress_tans_raw_def raw f)
  next
    case (Inr out)
    then show thesis using that tok(2) [OF Inr] try_tans_fits [OF Inr]
      by (cases "length (to_payload out) \<ge> length src") (simp_all add: compress_tans_raw_def raw f not_le)
  qed
qed

lemma compress_tans_raw_good:
  assumes d: "c_dict ctx = Some d" "coder_full d (netc_get_tables ctx d)"
    and n: "length src \<le> NETC_MAX_PACKET_SIZE" and ll: "lossless ctx src"
  shows "stage_ok ctx seq compact src (compress_tans_raw ctx d src seq compact hdr_sz dst_cap)"
proof -
  obtain raw fl where raw: "raw_source ctx src = Inr (raw, fl)" using raw_source_defined by blast
  note prep = raw_source_prepared [OF raw]
  define f where "f = (c_flags ctx AND NOT NETC_CFG_FLAG_DELTA) OR (if fl \<and> compact then NETC_INTERNAL_NO_X2 else 0)"
  from d(2) raw f_def show ?thesis
  proof (cases rule: compress_tans_raw_cases [where seq = seq and hdr_sz = hdr_sz and dst_cap = dst_cap])
    case stays
    then show ?thesis by simp
  next
    case (coded out)
    have x2: "to_x2 out \<Longrightarrow> even (length src)"
      using x2_parity [OF coded(2) ll d(1) preparedD(1) [OF prep]] by (simp add: f_def has_cfg_or has_cfg_strip)
    show ?thesis
      unfolding coded(1)
      by (intro stage_emit, rule tans_emit_good [OF d coded(2,3) prep refl n x2])
         (simp_all add: f_def has_cfg_or internal_flags has_flag_def pkt_consts)
  qed
qed

lemma compress_lz_good:
  assumes n: "length src \<le> NETC_MAX_PACKET_SIZE" and lz: "undoes ctx pf lsrc src" "length lsrc = length src"
    and pf: "pf \<in> set prepass_flags" "compact \<Longrightarrow> \<not> has_flag pf NETC_PKT_FLAG_RLE"
  shows "stage_ok ctx seq compact src (compress_lz ctx src lsrc pf seq compact hdr_sz dst_cap)"
proof -
  let ?cap = "dst_cap - hdr_sz"
  obtain r x where r: "lz_shrinks (lz77_encode lsrc ?cap) (length src) = Inr r"
    "lz_shrinks (lz77x_encode src (c_ring ctx) (c_ring_pos ctx) (c_prev_pkt_size ctx) ?cap) (length src) = Inr x"
    using lz_defined(2,4) by blast
  have "good_packet ctx seq compact src (lz77_packet (c_dict ctx) seq compact (length src) pf p)" if "r = Some p" for p
    using lz77_good [OF _ _ lz(2) n pf(1) lz(1) pf(2), of p] lz77_decode_encode lz_shrinks_Some r(1) that by blast
  moreover have "good_packet ctx seq compact src (lz77x_packet (c_dict ctx) seq compact (length src) p)"
    if "x = Some p" "c_ring ctx \<noteq> []" for p
    using lz77x_good [of src p ctx] lz77x_decode_encode lz_shrinks_Some r(2) that n by blast
  ultimately show ?thesis using r by (cases x) (auto simp: compress_lz_def Let_def split: option.split)
qed

text \<open>All stages together.\<close>

definition ctx_full :: "netc_ctx \<Rightarrow> bool" where
  "ctx_full ctx \<longleftrightarrow> (\<forall>d. c_dict ctx = Some d \<longrightarrow> coder_full d (netc_get_tables ctx d))"

lemma compress_select_good:
  assumes wf: "ctx_wf ctx" and full: "ctx_full ctx" and n: "length src \<le> NETC_MAX_PACKET_SIZE" and ll: "lossless ctx src"
    and compact: "compact = has_cfg (c_flags ctx) NETC_CFG_FLAG_COMPACT_HDR" and cap: "hdr_sz \<le> dst_cap"
  shows "stage_ok ctx seq compact src (compress_select ctx src seq compact hdr_sz dst_cap)"
proof -
  obtain csrc pf dd dl where p: "compress_prepass ctx src = Inr (csrc, pf, dd, dl)"
    using compress_prepass_defined [OF wf n] by blast
  note pre = prepass_ok [OF wf p] and pr = preparedD(1,2) [OF prepass_ok(1) [OF wf p]]
  define guard where "guard \<longleftrightarrow> dd \<and> c_dict ctx \<noteq> None \<and> netc_get_lzp_table ctx \<noteq> None \<and> c_arena_size ctx \<ge> length src"
  define lz where "lz = compress_lz ctx src (if dl \<or> guard then src else csrc) (if guard then clear_delta pf else pf)
      seq compact hdr_sz dst_cap"
  have id: "NETC_PKT_FLAG_DICT_ID \<in> set prepass_flags" "\<not> has_flag NETC_PKT_FLAG_DICT_ID NETC_PKT_FLAG_RLE"
    by (simp_all add: prepass_flags_def has_flag_def pkt_consts)
  have rle: "guard" if "compact" "has_flag pf NETC_PKT_FLAG_RLE"
    using that ll pre(2,3,5) id(2) by (cases dd) (auto simp: lossless_def compact guard_def)
  have "stage_ok ctx seq compact src lz"
  proof (cases "guard \<or> dl")
    case True
    then have "(if guard then clear_delta pf else pf) = NETC_PKT_FLAG_DICT_ID"
      using clear_delta_prepass [OF pr(2)] pre(2,3) by auto
    then show ?thesis using compress_lz_good [OF n undoes_raw refl id(1)] id(2) True by (auto simp: lz_def)
  next
    case False
    have u: "undoes ctx pf csrc src" using pre(2-4) undoes_raw False by (cases dd) auto
    have "compact \<Longrightarrow> \<not> has_flag pf NETC_PKT_FLAG_RLE" using rle False by blast
    from compress_lz_good [OF n u pr this] show ?thesis using False by (simp add: lz_def)
  qed
  moreover have "stage_ok ctx seq compact src (compress_tans ctx d src seq compact hdr_sz dst_cap)"
    "stage_ok ctx seq compact src (compress_tans_raw ctx d src seq compact hdr_sz dst_cap)" if "c_dict ctx = Some d" for d
    using compress_tans_good [OF wf that _ n ll compact] compress_tans_raw_good [OF that _ n ll] full that
    by (simp_all add: ctx_full_def)
  moreover have "compress_select ctx src seq compact hdr_sz dst_cap =
      (case c_dict ctx of None \<Rightarrow> lz
       | Some d \<Rightarrow>
           if src = [] then lz else if dst_cap < hdr_sz then Inl C_Undefined
           else case compress_tans ctx d src seq compact hdr_sz dst_cap of
                  Inl e \<Rightarrow> Inl e | Inr (Some r) \<Rightarrow> Inr (Some r)
                | Inr None \<Rightarrow>
                    if dd then case compress_tans_raw ctx d src seq compact hdr_sz dst_cap of
                           Inl e \<Rightarrow> Inl e | Inr (Some r) \<Rightarrow> Inr (Some r) | Inr None \<Rightarrow> lz
                    else lz)"
    unfolding compress_select_def Let_def p lz_def guard_def by (simp only: prod.case sum.case)
  ultimately show ?thesis using cap by (auto split: option.split sum.split)
qed

section \<open>Contexts in step\<close>

text \<open>The state that the two ends of a connection share.\<close>

definition in_step :: "netc_ctx \<Rightarrow> netc_ctx \<Rightarrow> bool" where
  "in_step c d \<longleftrightarrow> c_dict c = c_dict d
     \<and> has_cfg (c_flags c) NETC_CFG_FLAG_COMPACT_HDR = has_cfg (c_flags d) NETC_CFG_FLAG_COMPACT_HDR
     \<and> c_ring c = c_ring d \<and> c_ring_pos c = c_ring_pos d \<and> c_prev_pkt c = c_prev_pkt d \<and> c_prev2_pkt c = c_prev2_pkt d
     \<and> c_context_seq c = c_context_seq d \<and> c_adapt_freq c = c_adapt_freq d \<and> c_adapt_total c = c_adapt_total d
     \<and> c_adapt_tables c = c_adapt_tables d \<and> c_adapt_lzp c = c_adapt_lzp d \<and> c_adapt_pkt_count c = c_adapt_pkt_count d"

text \<open>Decoding a payload reads nothing else, and not the sequence number.\<close>

lemma decomp_payload_step:
  assumes "in_step (c\<lparr>c_context_seq := q\<rparr>) d" and "ctx_wf c" and "ctx_wf d"
  shows "decomp_payload c hdr payload dst compact = decomp_payload d hdr payload dst compact"
proof -
  have ops: "ops_delta_decode (c_simd_ops c) = ops_delta_decode (c_simd_ops d)" using assms(2,3) by (simp add: ctx_wf_def)
  have lzp: "netc_get_lzp_table c = netc_get_lzp_table d" and tab: "netc_get_tables c = netc_get_tables d"
    using assms(1) by (simp_all add: in_step_def netc_get_lzp_table_def netc_get_tables_def fun_eq_iff split: option.split)
  have eq: "c_dict c = c_dict d" "c_ring c = c_ring d" "c_ring_pos c = c_ring_pos d" "c_prev_pkt c = c_prev_pkt d"
    "c_prev2_pkt c = c_prev2_pkt d" using assms(1) by (simp_all add: in_step_def)
  have post: "decomp_delta_postpass c = decomp_delta_postpass d"
    unfolding fun_eq_iff decomp_delta_postpass_def eq ops by simp
  show ?thesis unfolding decomp_payload_def lzp tab post eq ..
qed

lemma good_packet_step:
  assumes "good_packet (c\<lparr>c_context_seq := q\<rparr>) seq compact src pkt" and "in_step c d" and "ctx_wf c" and "ctx_wf d"
  shows "good_packet d seq compact src pkt"
proof -
  have "decomp_payload (c\<lparr>c_context_seq := q\<rparr>) hdr p dst k = decomp_payload d hdr p dst k" for hdr p dst k
    by (rule decomp_payload_step [where q = "c_context_seq c"]) (use assms(2-) in \<open>simp_all add: in_step_def\<close>)
  moreover have "c_dict (c\<lparr>c_context_seq := q\<rparr>) = c_dict d" using assms(2) by (simp add: in_step_def)
  ultimately show ?thesis using assms(1) unfolding good_packet_def by simp
qed

text \<open>The updates; the two sides append to the ring and shift the previous packets in different orders.\<close>

lemma ring_prev_commute: "ctx_ring_append (compress_update_prev ctx a) b = compress_update_prev (ctx_ring_append ctx b) a"
  by (cases "c_prev_pkt ctx") (simp_all add: ctx_ring_append_def compress_update_prev_def Let_def split_beta)

lemma ring_append_step: "in_step c d \<Longrightarrow> in_step (ctx_ring_append c a) (ctx_ring_append d a)"
  by (simp add: in_step_def ctx_ring_append_def Let_def split: prod.split)

lemma update_prev_step: "in_step c d \<Longrightarrow> in_step (compress_update_prev c a) (compress_update_prev d a)"
  by (auto simp: in_step_def compress_update_prev_def split: option.split)

lemma lzp_update_step: "in_step c d \<Longrightarrow> in_step (ctx_lzp_update c a) (ctx_lzp_update d a)"
  by (simp add: in_step_def ctx_lzp_update_def)

lemma stats_step: "in_step (compress_stats c m n p) d = in_step c d" "in_step c (decomp_stats d m n p) = in_step c d"
  by (simp_all add: in_step_def compress_stats_def decomp_stats_def Let_def)

lemma adaptive_update_step: "in_step c d \<Longrightarrow> in_step (netc_adaptive_update c a) (netc_adaptive_update d a)"
  by (auto simp: in_step_def netc_adaptive_update_def netc_adaptive_tables_rebuild_def Let_def split: option.split prod.split)

lemma context_seq_step:
  "c_context_seq (compress_stats c m n p) = c_context_seq c" "c_context_seq (compress_update_prev c a) = c_context_seq c"
  "c_context_seq (decomp_stats c m n p) = c_context_seq c"
  by (simp_all add: compress_stats_def decomp_stats_def compress_update_prev_def Let_def split: option.split)

lemma seq_update_commute:
  "compress_update_prev (c\<lparr>c_context_seq := q\<rparr>) a = (compress_update_prev c a)\<lparr>c_context_seq := q\<rparr>"
  "ctx_ring_append (c\<lparr>c_context_seq := q\<rparr>) a = (ctx_ring_append c a)\<lparr>c_context_seq := q\<rparr>"
  "decomp_stats (c\<lparr>c_context_seq := q\<rparr>) m n p = (decomp_stats c m n p)\<lparr>c_context_seq := q\<rparr>"
  by (simp_all add: compress_update_prev_def ctx_ring_append_def decomp_stats_def Let_def split: option.split prod.split)

lemma finish_step:
  assumes "in_step c d" and "hdr_context_seq hdr = c_context_seq c"
  shows "in_step (compress_finish (c\<lparr>c_context_seq := c_context_seq c + 1\<rparr>) src m p) (decomp_finish d hdr k r src)"
proof -
  let ?s = "c_context_seq c + 1"
  have "in_step (c\<lparr>c_context_seq := ?s\<rparr>) (d\<lparr>c_context_seq := ?s\<rparr>)" using assms(1) by (simp add: in_step_def)
  then have "in_step (compress_update_prev (ctx_ring_append (c\<lparr>c_context_seq := ?s\<rparr>) src) src)
      (ctx_ring_append (compress_update_prev (d\<lparr>c_context_seq := ?s\<rparr>) src) src)"
    unfolding ring_prev_commute by (intro update_prev_step ring_append_step)
  then show ?thesis
    unfolding compress_finish_def decomp_finish_def Let_def decomp_update_prev_def decomp_ring_append_def
    using assms(2) by (intro lzp_update_step adaptive_update_step) (simp add: stats_step seq_update_commute [symmetric])
qed

section \<open>The invariant\<close>

text \<open>
  A context is ready when it is well-formed, its class map is in range and its tables code every byte:
  the state in which both entry points are defined on every packet.
\<close>

definition ctx_ready :: "netc_ctx \<Rightarrow> bool" where
  "ctx_ready ctx \<longleftrightarrow> ctx_safe ctx \<and> ctx_full ctx"

lemma adaptive_tables_full:
  assumes "c_dict ctx = Some d" and "\<forall>t \<in> set (netc_get_tables ctx d). full t"
  shows "\<forall>t \<in> set (netc_get_tables (netc_adaptive_update ctx a) d). full t"
  using assms rebuild_bucket_full
  by (auto simp: netc_adaptive_update_def netc_adaptive_tables_rebuild_def netc_get_tables_def Let_def
      split: option.splits prod.splits)

lemma adaptive_tables_wf:
  assumes "ctx_wf ctx" and "c_dict ctx = Some d" shows "tables_wf (netc_get_tables (netc_adaptive_update ctx a) d)"
  using ctx_wf_tables(3) [OF adaptive_update_wf [OF assms(1)]] assms(2) by (simp add: adaptive_update_fields)

lemma get_tables_other [simp]:
  "netc_get_tables (c\<lparr>c_context_seq := q\<rparr>) = netc_get_tables c" "netc_get_tables (ctx_lzp_update c a) = netc_get_tables c"
  "netc_get_tables (ctx_ring_append c a) = netc_get_tables c" "netc_get_tables (compress_update_prev c a) = netc_get_tables c"
  "netc_get_tables (compress_stats c m n p) = netc_get_tables c" "netc_get_tables (decomp_stats c m n p) = netc_get_tables c"
  by (auto simp: fun_eq_iff netc_get_tables_def ctx_lzp_update_def ctx_ring_append_def compress_update_prev_def
      compress_stats_def decomp_stats_def Let_def split: option.split prod.split)

lemma dict_other [simp]:
  "c_dict (ctx_lzp_update c a) = c_dict c" "c_dict (ctx_ring_append c a) = c_dict c" "c_dict (compress_update_prev c a) = c_dict c"
  "c_dict (compress_stats c m n p) = c_dict c" "c_dict (decomp_stats c m n p) = c_dict c"
  "c_dict (netc_adaptive_update c a) = c_dict c"
  by (simp_all add: ctx_lzp_update_def ring_append_other update_prev_dict compress_stats_def decomp_stats_def Let_def
      adaptive_update_fields)

lemma compress_stats_wf [simp]: "ctx_wf (compress_stats ctx m n p) = ctx_wf ctx"
  by (simp add: compress_stats_def Let_def)

lemma ready_adaptive: "ctx_ready ctx \<Longrightarrow> ctx_ready (netc_adaptive_update ctx a)"
  using adaptive_update_wf adaptive_tables_full adaptive_tables_wf
  by (auto simp: ctx_ready_def ctx_safe_def ctx_full_def coder_full_def coder_ok_def)

lemma ready_other:
  "ctx_ready (c\<lparr>c_context_seq := q\<rparr>) = ctx_ready c" "ctx_ready (compress_stats c m n p) = ctx_ready c"
  "ctx_ready (decomp_stats c m n p) = ctx_ready c" "ctx_ready c \<Longrightarrow> ctx_ready (ctx_lzp_update c a)"
  "ctx_ready c \<Longrightarrow> ctx_ready (ctx_ring_append c a)"
  "ctx_ready c \<Longrightarrow> length a \<le> NETC_MAX_PACKET_SIZE \<Longrightarrow> ctx_ready (compress_update_prev c a)"
  using lzp_update_wf ring_append_wf update_prev_wf by (auto simp: ctx_ready_def ctx_safe_def ctx_full_def)

lemma finish_ready:
  assumes "ctx_ready ctx" and "length a \<le> NETC_MAX_PACKET_SIZE"
  shows "ctx_ready (compress_finish ctx a m p)" and "ctx_ready (decomp_finish ctx hdr m p a)"
  unfolding compress_finish_def decomp_finish_def Let_def decomp_update_prev_def decomp_ring_append_def
  using assms by (intro ready_other(4) ready_adaptive; simp add: ready_other)+

section \<open>Round trip\<close>

lemma passthrough_finish:
  "ctx_lzp_update (netc_adaptive_update (compress_stats (ctx_ring_append (compress_update_prev ctx src) src) m n p) src) src
     = compress_finish ctx src n p" if "m = length src"
  using that by (simp add: compress_finish_def Let_def ring_prev_commute)

lemma lossless_seq: "lossless (ctx\<lparr>c_context_seq := q\<rparr>) src = lossless ctx src"
proof -
  have "compress_delta (ctx\<lparr>c_context_seq := q\<rparr>) src = compress_delta ctx src"
    by (simp add: compress_delta_def Let_def cong: option.case_cong if_cong sum.case_cong)
  moreover have "netc_get_lzp_table (ctx\<lparr>c_context_seq := q\<rparr>) = netc_get_lzp_table ctx"
    by (simp add: netc_get_lzp_table_def split: option.split)
  ultimately show ?thesis by (simp add: lossless_def order2_marked_def)
qed

lemma hdr_size_bound: "compress_hdr_size compact n \<le> NETC_HEADER_SIZE"
  by (simp add: compress_hdr_size_def NETC_COMPACT_HDR_MIN_def NETC_COMPACT_HDR_MAX_def NETC_HEADER_SIZE_def)

text \<open>The call with a packet of admissible size and room for a header.\<close>

lemma emit_passthrough_eq:
  assumes "length src \<le> NETC_MAX_PACKET_SIZE" and "NETC_HEADER_SIZE \<le> dst_cap"
  shows "emit_passthrough dict seq compact src dst_cap =
    (if dst_cap < compress_hdr_size compact (length src) + length src then Inl (F_Result NETC_ERR_BUF_SMALL)
     else Inr (make_packet dict seq compact (length src) (NETC_PKT_FLAG_PASSTHRU OR NETC_PKT_FLAG_DICT_ID) NETC_ALG_PASSTHRU src))"
  using assms hdr_size_bound [of compact "length src"]
  by (simp add: emit_passthrough_def Let_def length_make_packet NETC_MAX_PACKET_SIZE_def)

lemma compress_packet_eq:
  assumes "length src \<le> NETC_MAX_PACKET_SIZE" and "NETC_HEADER_SIZE \<le> dst_cap"
    and c: "c = ctx\<lparr>c_context_seq := c_context_seq ctx + 1\<rparr>" and compact: "compact = has_cfg (c_flags ctx) NETC_CFG_FLAG_COMPACT_HDR"
    and h: "h = compress_hdr_size compact (length src)"
  shows "compress_packet ctx src dst_cap =
      (case compress_select c src (c_context_seq ctx) compact h dst_cap of
         Inl e \<Rightarrow> (Inl F_Undefined, c)
       | Inr (Some (pkt, passthru)) \<Rightarrow> (Inr pkt, compress_finish c src (length pkt) passthru)
       | Inr None \<Rightarrow>
           (case emit_passthrough (c_dict ctx) (c_context_seq ctx) compact src dst_cap of
              Inl e \<Rightarrow> (Inl e, ctx_ring_append (compress_update_prev c src) src)
            | Inr pkt \<Rightarrow> (Inr pkt, compress_finish c src (length pkt) True)))"
  using assms(1,2) unfolding compress_packet_def Let_def compact h c
  by (simp add: history_room_def passthrough_finish NETC_COMPACT_HDR_MIN_def NETC_HEADER_SIZE_def cong: sum.case_cong option.case_cong)

lemma compress_emits:
  assumes r: "ctx_ready ctx" and n: "length src \<le> NETC_MAX_PACKET_SIZE" and ll: "lossless ctx src"
    and cap: "length src + NETC_HEADER_SIZE \<le> dst_cap"
  shows "\<exists>pkt p. netc_compress (Some ctx) (Some src) (Some dst_cap)
        = (Inr pkt, Some (compress_finish (ctx\<lparr>c_context_seq := c_context_seq ctx + 1\<rparr>) src (length pkt) p))
      \<and> good_packet (ctx\<lparr>c_context_seq := c_context_seq ctx + 1\<rparr>) (c_context_seq ctx)
          (has_cfg (c_flags ctx) NETC_CFG_FLAG_COMPACT_HDR) src pkt"
proof -
  define compact where "compact = has_cfg (c_flags ctx) NETC_CFG_FLAG_COMPACT_HDR"
  define ctx' where "ctx' = ctx\<lparr>c_context_seq := c_context_seq ctx + 1\<rparr>"
  define h where "h = compress_hdr_size compact (length src)"
  have h: "h \<le> NETC_HEADER_SIZE" unfolding h_def by (rule hdr_size_bound)
  have pre: "ctx_wf ctx'" "ctx_full ctx'" "lossless ctx' src" "compact = has_cfg (c_flags ctx') NETC_CFG_FLAG_COMPACT_HDR" "h \<le> dst_cap"
    using r ll cap h by (simp_all add: ctx'_def ctx_ready_def ctx_safe_def ctx_full_def compact_def lossless_seq)
  have sel: "stage_ok ctx' seq compact src (compress_select ctx' src seq compact h dst_cap)" for seq
    using compress_select_good [OF pre(1,2) n pre(3-5)] .
  have "NETC_HEADER_SIZE \<le> dst_cap" using cap by simp
  note step = compress_packet_eq [OF n this ctx'_def compact_def h_def] and emit = emit_passthrough_eq [OF n this]
  show ?thesis
  proof (cases "compress_select ctx' src (c_context_seq ctx) compact h dst_cap")
    case (Inl e)
    then show ?thesis using sel [of "c_context_seq ctx"] by simp
  next
    case (Inr r')
    show ?thesis
    proof (cases r')
      case (Some q)
      obtain pkt p where q: "q = (pkt, p)" by fastforce
      then show ?thesis using sel [of "c_context_seq ctx"] Inr Some step
        by (auto simp: netc_compress_def ctx'_def [symmetric] compact_def [symmetric])
    next
      case None
      have "good_packet ctx' (c_context_seq ctx) compact src (make_packet (c_dict ctx) (c_context_seq ctx) compact (length src)
          (NETC_PKT_FLAG_PASSTHRU OR NETC_PKT_FLAG_DICT_ID) NETC_ALG_PASSTHRU src)"
        using passthru_good [OF n, of ctx' "c_context_seq ctx" compact] by (simp add: ctx'_def)
      then show ?thesis using Inr None step emit cap h
        by (auto simp: netc_compress_def ctx'_def [symmetric] compact_def [symmetric] h_def [symmetric])
    qed
  qed
qed

lemma roundtrip_step:
  assumes c: "ctx_ready c" and d: "ctx_ready d" and sync: "in_step c d" and n: "length src \<le> NETC_MAX_PACKET_SIZE"
    and ll: "lossless c src" and cap: "length src + NETC_HEADER_SIZE \<le> dst_cap" and buf: "length src \<le> length buf"
  shows "\<exists>pkt p d'. netc_compress (Some c) (Some src) (Some dst_cap)
        = (Inr pkt, Some (compress_finish (c\<lparr>c_context_seq := c_context_seq c + 1\<rparr>) src (length pkt) p))
      \<and> length pkt \<le> length src + NETC_HEADER_SIZE
      \<and> netc_decompress (Some d) (Some pkt) (Some buf) = Inr (src, d')
      \<and> in_step (compress_finish (c\<lparr>c_context_seq := c_context_seq c + 1\<rparr>) src (length pkt) p) d' \<and> ctx_ready d'"
proof -
  let ?c = "c\<lparr>c_context_seq := c_context_seq c + 1\<rparr>" and ?compact = "has_cfg (c_flags c) NETC_CFG_FLAG_COMPACT_HDR"
  obtain pkt p where e: "netc_compress (Some c) (Some src) (Some dst_cap) = (Inr pkt, Some (compress_finish ?c src (length pkt) p))"
    and g: "good_packet ?c (c_context_seq c) ?compact src pkt"
    using compress_emits [OF c n ll cap] by blast
  have wf: "ctx_wf c" "ctx_wf d" using c d by (simp_all add: ctx_ready_def ctx_safe_def)
  have eq: "?compact = has_cfg (c_flags d) NETC_CFG_FLAG_COMPACT_HDR" "c_context_seq c = c_context_seq d"
    using sync by (simp_all add: in_step_def)
  have gd: "good_packet d (c_context_seq d) (has_cfg (c_flags d) NETC_CFG_FLAG_COMPACT_HDR) src pkt"
    using good_packet_step [OF g sync wf] eq by simp
  obtain hdr m q where dec: "netc_decompress (Some d) (Some pkt) (Some buf) = Inr (src, decomp_finish d hdr m q src)"
    "hdr_context_seq hdr = c_context_seq d"
    using decompress_good [OF gd n buf refl] by blast
  have "length pkt \<le> length src + NETC_HEADER_SIZE"
    using good_packet_length [OF g n] hdr_size_bound [of ?compact "length src"] by simp
  moreover have "in_step (compress_finish ?c src (length pkt) p) (decomp_finish d hdr m q src)"
    using finish_step [OF sync, of hdr] dec(2) eq(2) by simp
  ultimately show ?thesis using e dec(1) finish_ready(2) [OF d n] by blast
qed

text \<open>
  C2. What is compressed is decompressed: for two ready contexts in step and every packet of at most
  65535 bytes outside the two known defects (\<open>lossless\<close>), compression into a buffer with room for a
  header emits a packet at most 8 bytes longer than its input, decompression of that packet returns
  the input, and afterwards both contexts are ready and in step again.
\<close>

theorem compress_decompress_roundtrip:
  assumes "ctx_ready c" and "ctx_ready d" and "in_step c d" and "length src \<le> NETC_MAX_PACKET_SIZE"
    and "lossless c src" and "length src + NETC_HEADER_SIZE \<le> dst_cap" and "length src \<le> length buf"
  shows "\<exists>pkt c' d'. netc_compress (Some c) (Some src) (Some dst_cap) = (Inr pkt, Some c')
      \<and> length pkt \<le> length src + NETC_HEADER_SIZE
      \<and> netc_decompress (Some d) (Some pkt) (Some buf) = Inr (src, d')
      \<and> in_step c' d' \<and> ctx_ready c' \<and> ctx_ready d'"
  using roundtrip_step [OF assms] finish_ready(1) [of "c\<lparr>c_context_seq := c_context_seq c + 1\<rparr>", OF _ assms(4)]
    assms(1) by (auto simp: ready_other(1))

text \<open>A ready context for the witnesses.\<close>

lemma uniform_full: "full (the (netc_tans_build (replicate 256 16)))"
proof -
  obtain t where t: "netc_tans_build (replicate 256 16) = Some t" "\<forall>b. tans_present t b \<longleftrightarrow> replicate 256 (16 :: u16) ! unat b \<noteq> 0"
    using netc_tans_build_present [OF uniform_freq(1,2)] by blast
  moreover have "unat b < 256" for b :: byte using unat_byte_less .
  ultimately show ?thesis using uniform_built by (simp add: full_def)
qed

lemma uniform_coder_full: "coder_full uniform_dict (d_tables uniform_dict)"
proof -
  have "coder_ok uniform_dict (d_tables uniform_dict)"
    using dict_tables_wf [OF uniform_dict_wf] uniform_class_map by (simp add: coder_ok_def)
  then show ?thesis using uniform_full by (simp add: coder_full_def uniform_dict_def uniform_dict0_def)
qed

lemma sample_ctx_ready: "ctx_ready (sample_ctx pf)"
proof -
  have "netc_get_tables (sample_ctx pf) uniform_dict = d_tables uniform_dict"
    by (simp add: netc_get_tables_def sample_ctx_def netc_ctx_create_def clone_tables_def has_cfg_def
        NETC_CFG_FLAG_STATEFUL_def NETC_CFG_FLAG_ADAPTIVE_def)
  then show ?thesis
    using sample_ctx_safe uniform_coder_full by (simp add: ctx_ready_def ctx_full_def sample_ctx_fields)
qed

theorem compress_decompress_roundtrip_witness:
  "\<exists>pkt c' d'. netc_compress (Some (sample_ctx scalar_platform)) (Some [7, 7, 9]) (Some 16) = (Inr pkt, Some c')
      \<and> length pkt \<le> 3 + NETC_HEADER_SIZE
      \<and> netc_decompress (Some (sample_ctx scalar_platform)) (Some pkt) (Some [0, 0, 0, 0]) = Inr ([7, 7, 9], d')
      \<and> in_step c' d' \<and> ctx_ready c' \<and> ctx_ready d'"
proof -
  let ?c = "sample_ctx scalar_platform"
  have "lossless ?c [7, 7, 9]"
    by (simp add: lossless_def sample_ctx_flags has_cfg_def NETC_CFG_FLAG_COMPACT_HDR_def)
  moreover have "in_step ?c ?c" by (simp add: in_step_def)
  moreover have len: "length [7, 7, 9 :: byte] = 3" "length [0, 0, 0, 0 :: byte] = 4" by simp_all
  ultimately show ?thesis
    using compress_decompress_roundtrip [OF sample_ctx_ready sample_ctx_ready, of scalar_platform scalar_platform
        "[7, 7, 9]" 16 "[0, 0, 0, 0]", unfolded len]
    by (simp add: NETC_MAX_PACKET_SIZE_def NETC_HEADER_SIZE_def)
qed

end
