(* ===== verification/Netc_Bounds.thy ===== *)
theory Netc_Bounds
  imports Netc_Roundtrip
begin

text \<open>
  Memory safety of compression: every stage stays inside the buffers it fills and the tables it reads,
  whatever the packet and the state of the context, and the packet it emits fits the destination.  Neither
  the parity of the packet nor the order-2 marker matters here.  The coders themselves are treated in
  \<open>Netc_Encode\<close> (entropy coders) and \<open>Netc_Lz\<close> (match coders).
\<close>

section \<open>Stages\<close>

text \<open>A stage that leaves the packet to the next one, or emits one that fits.\<close>

definition stage_fits :: "nat \<Rightarrow> nat \<Rightarrow> cerror + (byte list \<times> bool) option \<Rightarrow> bool" where
  "stage_fits cap m r \<longleftrightarrow>
     (case r of Inl e \<Rightarrow> False | Inr None \<Rightarrow> True | Inr (Some (pkt, p)) \<Rightarrow> length pkt \<le> cap \<and> length pkt \<le> m)"

lemma stage_fits_simps [simp]:
  "\<not> stage_fits cap m (Inl e)" "stage_fits cap m (Inr None)"
  "stage_fits cap m (Inr (Some (pkt, p))) \<longleftrightarrow> length pkt \<le> cap \<and> length pkt \<le> m"
  by (simp_all add: stage_fits_def)

lemma lz77x_compete_fits:
  "lz77x_compete ctx src cp h cap = Inr (tried, Some lz) \<Longrightarrow> h + length lz \<le> cap \<and> length lz < length src"
  by (auto simp: lz77x_compete_def Let_def map_sum_def dest: lz_wins_Some split: if_splits sum.splits bool.splits)

lemma lz77_compete_fits:
  "lz77_compete ctx src csrc pf dd payload h cap = Inr (Some lz) \<Longrightarrow> h + length lz \<le> cap \<and> length lz < length src"
  by (auto simp: lz77_compete_def Let_def dest!: lz_wins_Some split: if_splits sum.splits bool.splits)

lemma tans_emit_fits:
  assumes full: "\<And>b. b < 16 \<Longrightarrow> full (tables ! b)" "length tables = 16" and out: "to_mreg out = 0 \<Longrightarrow> to_tbl out < 16"
    and n: "length src \<le> NETC_MAX_PACKET_SIZE" and h: "h = compress_hdr_size compact (length src)"
    and len: "length (to_payload out) < length src" "h + length (to_payload out) \<le> cap"
    and arena: "in_arena \<Longrightarrow> \<not> did_lzp \<Longrightarrow> to_mreg out = 0 \<Longrightarrow> length src < 64"
  shows "stage_fits cap (h + length src)
    (map_sum id Some (tans_emit ctx d tables src csrc in_arena seq compact h cap f pf did_lzp out))"
proof -
  have n16: "length src < 2 ^ 16" using n by (simp add: NETC_MAX_PACKET_SIZE_def)
  obtain tried lzx where x: "lz77x_compete ctx src (length (to_payload out)) h cap = Inr (tried, lzx)"
    using lz77x_compete_defined by blast
  have "tried \<Longrightarrow> 64 \<le> length src" using lz77x_compete_good(1) [OF x n] .
  then have clob: "tried \<and> in_arena \<Longrightarrow> to_mreg out = 0 \<Longrightarrow> did_lzp" using arena by fastforce
  note t10 = tans10_compete_ok [of tables out "tried \<and> in_arena" did_lzp csrc f compact, OF full out clob]
  show ?thesis
  proof (cases lzx)
    case (Some lz)
    then have "h + length lz \<le> cap" "length lz < length src" using x lz77x_compete_fits by blast+
    then show ?thesis using x Some length_make_packet [OF n16] by (simp add: tans_emit_def lz77x_packet_def h)
  next
    case None
    obtain r where r: "tans10_compete tables csrc (tried \<and> in_arena) out did_lzp f compact = Inr r" using t10(1) by blast
    show ?thesis
    proof (cases r)
      case r_None: None
      then show ?thesis using None r x len length_make_packet [OF n16] by (simp add: tans_emit_def h)
    next
      case (Some p)
      then have "length p < length (to_payload out)" using t10(2) r by blast
      then show ?thesis using None r Some x len length_make_packet [OF n16] by (simp add: tans_emit_def h)
    qed
  qed
qed

lemma coder_full_tables:
  "coder_full d tables \<Longrightarrow> b < 16 \<Longrightarrow> full (tables ! b)" "coder_full d tables \<Longrightarrow> length tables = 16"
  by (simp_all add: coder_full_def coder_ok_def tables_wf_def)

lemma tans_decodes_tbl: "tans_decodes d tables f compact out src \<Longrightarrow> to_mreg out = 0 \<Longrightarrow> to_tbl out < 16"
  by (simp add: tans_decodes_def)

lemma tans_block_fits:
  assumes emit: "stage_fits cap (h + length src)
      (map_sum id Some (tans_emit ctx d tables src csrc in_arena seq compact h cap f pf did_lzp out))"
    and n: "length src \<le> NETC_MAX_PACKET_SIZE" and h: "h = compress_hdr_size compact (length src)"
    and len: "length (to_payload out) < length src" "length (to_payload out) \<le> cap - h"
  shows "stage_fits cap (h + length src)
    (tans_block ctx d tables src csrc in_arena seq compact h cap f pf did_delta did_lzp out)"
proof -
  have n16: "length src < 2 ^ 16" using n by (simp add: NETC_MAX_PACKET_SIZE_def)
  obtain r where r: "lz77_compete ctx src csrc pf did_delta (to_payload out) h cap = Inr r"
    using lz77_compete_defined len(1) less_imp_le by blast
  show ?thesis
  proof (cases r)
    case None
    then show ?thesis using emit len(2) r by (simp add: tans_block_def)
  next
    case (Some lz)
    then have "h + length lz \<le> cap" "length lz < length src" using lz77_compete_fits r by blast+
    then show ?thesis using Some r len(2) length_make_packet [OF n16] by (simp add: tans_block_def lz77_packet_def h)
  qed
qed

lemma compress_tans_fits:
  assumes wf: "ctx_wf ctx" and d: "coder_full d (netc_get_tables ctx d)"
    and n: "length src \<le> NETC_MAX_PACKET_SIZE" and h: "h = compress_hdr_size compact (length src)" "h \<le> cap"
  shows "stage_fits cap (h + length src) (compress_tans ctx d src seq compact h cap)"
proof -
  obtain csrc pf dd dl where p: "compress_prepass ctx src = Inr (csrc, pf, dd, dl)"
    using compress_prepass_defined [OF wf n] by blast
  have "length csrc = length src" using preparedD(1) [OF prepass_ok(1) [OF wf p]] .
  from d p this refl show ?thesis
  proof (cases rule: compress_tans_cases [where compact = compact and seq = seq and hdr_sz = h and dst_cap = cap])
    case stays
    then show ?thesis by simp
  next
    case (coded out)
    have "stage_fits cap (h + length src) (map_sum id Some (tans_emit ctx d (netc_get_tables ctx d) src csrc (dd \<or> dl) seq
        compact h cap (tans_ctx_flags ctx compact dd dl) pf dl out))"
      using coded h(2) tans_decodes_tbl [OF coded(2)] by (intro tans_emit_fits [OF coder_full_tables [OF d] _ n h(1)]) auto
    then show ?thesis unfolding coded(1) by (rule tans_block_fits [OF _ n h(1) coded(4,5)])
  next
    case (lzp out t)
    have "stage_fits cap (h + length src) (map_sum id Some (tans_emit ctx d (netc_get_tables ctx d) src csrc (dd \<or> dl) seq
        compact h cap (lzp_trial_flags ctx compact) (clear_delta pf) True out))"
      using lzp h(2) tans_decodes_tbl [OF lzp(2)] by (intro tans_emit_fits [OF coder_full_tables [OF d] _ n h(1)]) auto
    then show ?thesis unfolding lzp(1) by (rule tans_block_fits [OF _ n h(1) lzp(4,5)])
  qed
qed

lemma compress_tans_raw_fits:
  assumes d: "coder_full d (netc_get_tables ctx d)"
    and n: "length src \<le> NETC_MAX_PACKET_SIZE" and h: "h = compress_hdr_size compact (length src)" "h \<le> cap"
  shows "stage_fits cap (h + length src) (compress_tans_raw ctx d src seq compact h cap)"
proof -
  obtain raw fl where raw: "raw_source ctx src = Inr (raw, fl)" using raw_source_defined by blast
  from d raw refl show ?thesis
  proof (cases rule: compress_tans_raw_cases [where compact = compact and seq = seq and hdr_sz = h and dst_cap = cap])
    case stays
    then show ?thesis by simp
  next
    case (coded out)
    then show ?thesis unfolding coded(1)
      using h(2) tans_decodes_tbl [OF coded(2)] by (intro tans_emit_fits [OF coder_full_tables [OF d] _ n h(1)]) auto
  qed
qed

lemma compress_lz_fits:
  assumes n: "length src \<le> NETC_MAX_PACKET_SIZE" and h: "h = compress_hdr_size compact (length src)"
  shows "stage_fits cap (h + length src) (compress_lz ctx src lsrc pf seq compact h cap)"
proof -
  have n16: "length src < 2 ^ 16" using n by (simp add: NETC_MAX_PACKET_SIZE_def)
  let ?x = "lz77x_encode src (c_ring ctx) (c_ring_pos ctx) (c_prev_pkt_size ctx) (cap - h)"
  obtain r x where r: "lz_shrinks (lz77_encode lsrc (cap - h)) (length src) = Inr r" "lz_shrinks ?x (length src) = Inr x"
    using lz_defined(2,4) by blast
  have "length lz \<le> cap - h \<and> length lz < length src" if "r = Some lz" for lz
    using lz_shrinks_Some [OF r(1) [unfolded that]] lz77_encode_ok [of lsrc "cap - h"] by (simp add: lz_encode_ok_def)
  moreover have "length lz \<le> cap - h \<and> length lz < length src" if "x = Some lz" for lz
    using lz_shrinks_Some [OF r(2) [unfolded that]]
      lz77x_encode_ok [of "c_ring ctx" src "c_ring_pos ctx" "cap - h" "c_prev_pkt_size ctx"] by (simp add: lz_encode_ok_def)
  ultimately show ?thesis
    using r by (cases x) (force simp: compress_lz_def Let_def lz77_packet_def lz77x_packet_def length_make_packet [OF n16] h [symmetric]
        split: option.split)+
qed

lemma compress_select_fits:
  assumes wf: "ctx_wf ctx" and full: "ctx_full ctx" and n: "length src \<le> NETC_MAX_PACKET_SIZE"
    and h: "h = compress_hdr_size compact (length src)" "h \<le> cap"
  shows "stage_fits cap (h + length src) (compress_select ctx src seq compact h cap)"
proof -
  obtain csrc pf dd dl where p: "compress_prepass ctx src = Inr (csrc, pf, dd, dl)"
    using compress_prepass_defined [OF wf n] by blast
  define guard where "guard \<longleftrightarrow> dd \<and> c_dict ctx \<noteq> None \<and> netc_get_lzp_table ctx \<noteq> None \<and> c_arena_size ctx \<ge> length src"
  define lz where "lz = compress_lz ctx src (if dl \<or> guard then src else csrc) (if guard then clear_delta pf else pf) seq compact h cap"
  have "stage_fits cap (h + length src) lz" unfolding lz_def by (rule compress_lz_fits [OF n h(1)])
  moreover have "stage_fits cap (h + length src) (compress_tans ctx d src seq compact h cap)"
    "stage_fits cap (h + length src) (compress_tans_raw ctx d src seq compact h cap)" if "c_dict ctx = Some d" for d
    using compress_tans_fits [OF wf _ n h] compress_tans_raw_fits [OF _ n h] full that by (simp_all add: ctx_full_def)
  moreover have "compress_select ctx src seq compact h cap =
      (case c_dict ctx of None \<Rightarrow> lz
       | Some d \<Rightarrow>
           if src = [] then lz else if cap < h then Inl C_Undefined
           else case compress_tans ctx d src seq compact h cap of
                  Inl e \<Rightarrow> Inl e | Inr (Some r) \<Rightarrow> Inr (Some r)
                | Inr None \<Rightarrow>
                    if dd then case compress_tans_raw ctx d src seq compact h cap of
                           Inl e \<Rightarrow> Inl e | Inr (Some r) \<Rightarrow> Inr (Some r) | Inr None \<Rightarrow> lz
                    else lz)"
    unfolding compress_select_def Let_def p lz_def guard_def by (simp only: prod.case sum.case)
  ultimately show ?thesis using h(2) by (auto split: option.split sum.split)
qed

lemma select_fits:
  assumes "ctx_ready ctx" and "length src \<le> NETC_MAX_PACKET_SIZE"
    and "h = compress_hdr_size compact (length src)" and "h \<le> cap"
  shows "stage_fits cap (h + length src) (compress_select ctx src seq compact h cap)"
  using compress_select_fits [OF _ _ assms(2-4)] assms(1) by (simp add: ctx_ready_def ctx_safe_def)

text \<open>Every packet of admissible size is compressed, whether or not it can be decoded.\<close>

lemma compress_runs:
  assumes "ctx_ready ctx" and n: "length src \<le> NETC_MAX_PACKET_SIZE" and cap: "length src + NETC_HEADER_SIZE \<le> dst_cap"
  shows "\<exists>pkt p. netc_compress (Some ctx) (Some src) (Some dst_cap)
        = (Inr pkt, Some (compress_finish (ctx\<lparr>c_context_seq := c_context_seq ctx + 1\<rparr>) src (length pkt) p))"
proof -
  define compact where "compact = has_cfg (c_flags ctx) NETC_CFG_FLAG_COMPACT_HDR"
  define c where "c = ctx\<lparr>c_context_seq := c_context_seq ctx + 1\<rparr>"
  define h where "h = compress_hdr_size compact (length src)"
  have h: "h + length src \<le> dst_cap" "h \<le> dst_cap" and cap8: "NETC_HEADER_SIZE \<le> dst_cap"
    using hdr_size_bound [of compact "length src"] cap by (simp_all add: h_def)
  have "ctx_ready c" using assms(1) by (simp add: c_def ready_other(1))
  note sel = select_fits [OF this n h_def h(2), of "c_context_seq ctx"]
  note step = compress_packet_eq [OF n cap8 c_def compact_def h_def] and emit = emit_passthrough_eq [OF n cap8]
  then show ?thesis
    using sel h(1) unfolding c_def [symmetric]
    by (cases "compress_select c src (c_context_seq ctx) compact h dst_cap")
       (auto simp: netc_compress_def h_def [symmetric] split: option.splits)
qed

text \<open>
  C6. Compression is memory safe: for every ready context, every packet of any content and size and every
  destination of at least 8 bytes (with fewer the program computes a pointer behind its buffer), the call
  executes no undefined behaviour; it emits a packet that fits the destination and is at most 8 bytes longer
  than its input, or it reports an oversized input (and leaves the context alone) or a destination too small
  for the stored packet.  The context stays ready.  Undefined behaviour is here: a write outside the
  destination, the arena, the token streams of the match coders, the packet history or one of the buffers on
  the stack (\<open>o2_trial[65535]\<close>, \<open>trial_buf[520]\<close>, \<open>bg_trial[65599]\<close>, \<open>lzp_trial_src[512]\<close>, \<open>lzp_trial_dst[520]\<close>,
  \<open>seen_arr[32]\<close>, \<open>seen[4]\<close>, \<open>tans_save[1024]\<close>, \<open>trial10[136]\<close>); a read of the match search outside the packet, the
  ring or a hash table; a table index or an encoder state outside its array; a shift beyond the width; reading
  filtered bytes that a match coder has overwritten in the arena.
\<close>

theorem compress_safe:
  assumes "ctx_ready ctx" and "NETC_HEADER_SIZE \<le> dst_cap"
  shows "\<exists>r ctx'. netc_compress (Some ctx) (Some src) (Some dst_cap) = (r, Some ctx') \<and> ctx_ready ctx'
    \<and> (case r of
         Inr pkt \<Rightarrow> length pkt \<le> dst_cap \<and> length pkt \<le> length src + NETC_HEADER_SIZE
       | Inl f \<Rightarrow> f = F_Result NETC_ERR_TOOBIG \<and> NETC_MAX_PACKET_SIZE < length src \<and> ctx' = ctx
                  \<or> f = F_Result NETC_ERR_BUF_SMALL \<and> dst_cap < length src + NETC_HEADER_SIZE)"
proof (cases "length src \<le> NETC_MAX_PACKET_SIZE")
  case False
  then show ?thesis using assms by (simp add: netc_compress_def compress_packet_def)
next
  case n: True
  define compact where "compact = has_cfg (c_flags ctx) NETC_CFG_FLAG_COMPACT_HDR"
  define c where "c = ctx\<lparr>c_context_seq := c_context_seq ctx + 1\<rparr>"
  define h where "h = compress_hdr_size compact (length src)"
  have h: "h \<le> NETC_HEADER_SIZE" "h \<le> dst_cap" using hdr_size_bound [of compact "length src"] assms(2) by (simp_all add: h_def)
  have c: "ctx_ready c" using assms(1) by (simp add: c_def ready_other(1))
  note sel = select_fits [OF c n h_def h(2), of "c_context_seq ctx"]
  note step = compress_packet_eq [OF n assms(2) c_def compact_def h_def] and emit = emit_passthrough_eq [OF n assms(2)]
  note fin = finish_ready(1) [OF c n]
  show ?thesis
  proof (cases "compress_select c src (c_context_seq ctx) compact h dst_cap")
    case (Inl e)
    then show ?thesis using sel by simp
  next
    case (Inr r)
    show ?thesis
    proof (cases r)
      case (Some q)
      obtain pkt p where q: "q = (pkt, p)" by fastforce
      have "length pkt \<le> dst_cap" "length pkt \<le> length src + NETC_HEADER_SIZE" using sel Inr Some q h(1) by auto
      then show ?thesis using Inr Some q step fin by (simp add: netc_compress_def)
    next
      case None
      have "ctx_ready (ctx_ring_append (compress_update_prev c src) src)" using c n by (simp add: ready_other)
      moreover have "length (make_packet d q compact (length src) fl a src) = h + length src" for d q fl a
        using n by (simp add: h_def length_make_packet NETC_MAX_PACKET_SIZE_def)
      ultimately show ?thesis using Inr None step emit fin h by (auto simp: netc_compress_def h_def [symmetric])
    qed
  qed
qed

theorem compress_safe_witness:
  "\<exists>r ctx'. netc_compress (Some (sample_ctx scalar_platform)) (Some [1, 2, 3]) (Some 8) = (r, Some ctx') \<and> ctx_ready ctx'
    \<and> (case r of
         Inr pkt \<Rightarrow> length pkt \<le> 8 \<and> length pkt \<le> 3 + NETC_HEADER_SIZE
       | Inl f \<Rightarrow> f = F_Result NETC_ERR_TOOBIG \<and> NETC_MAX_PACKET_SIZE < 3 \<and> ctx' = sample_ctx scalar_platform
                  \<or> f = F_Result NETC_ERR_BUF_SMALL \<and> 8 < 3 + NETC_HEADER_SIZE)"
proof -
  have len: "length [1, 2, 3 :: byte] = 3" by simp
  show ?thesis
    using compress_safe [OF sample_ctx_ready, of 8 scalar_platform "[1, 2, 3]", unfolded len] by (simp add: NETC_HEADER_SIZE_def)
qed

text \<open>
  C33. A destination that turns out too small costs the connection its synchronisation: when
  \<open>netc_compress\<close> reports it, the sequence number, the ring and the previous packet have already
  advanced, so the encoder is no longer in step with a decoder that it was in step with.
\<close>

theorem small_buffer_loses_step:
  assumes "netc_compress (Some ctx) (Some src) (Some dst_cap) = (Inl (F_Result NETC_ERR_BUF_SMALL), Some ctx')"
    and "NETC_COMPACT_HDR_MIN \<le> dst_cap" and "in_step ctx d"
  shows "c_context_seq ctx' = c_context_seq ctx + 1 \<and> \<not> in_step ctx' d"
proof -
  have "\<not> length src > NETC_MAX_PACKET_SIZE" using assms(1) by (auto simp: netc_compress_def compress_packet_def)
  then have "ctx' = ctx_ring_append (compress_update_prev (ctx\<lparr>c_context_seq := c_context_seq ctx + 1\<rparr>) src) src"
    using assms(1,2) by (auto simp: netc_compress_def compress_packet_def Let_def split: sum.splits option.splits if_splits)
  then have "c_context_seq ctx' = c_context_seq ctx + 1" by (simp add: ring_append_other context_seq_step)
  then show ?thesis using assms(3) by (simp add: in_step_def)
qed

lemma sample_small_buffer:
  "\<exists>c. netc_compress (Some (sample_ctx scalar_platform)) (Some [1, 2, 3]) (Some 8) = (Inl (F_Result NETC_ERR_BUF_SMALL), Some c)"
proof -
  let ?c = "(sample_ctx scalar_platform)\<lparr>c_context_seq := c_context_seq (sample_ctx scalar_platform) + 1\<rparr>"
  have dict: "c_dict ?c = Some uniform_dict" by (simp add: sample_ctx_fields)
  have fail: "try_tans_compress uniform_dict tables [a, b, c'] 0 f False = Inl C_Fail" if "\<not> has_cfg f NETC_CFG_FLAG_BIGRAM" "length tables = 16" for tables a b c' f
  proof -
    have "netc_ctx_bucket 2 = 0" "netc_ctx_bucket 0 = 0" by (simp_all add: netc_ctx_bucket_def bucket_lut_def numeral_eq_Suc)
    then show ?thesis using that
      by (simp add: try_tans_compress_def try_tans_single_region_def select_tans_table_def try_tans_single_with_table_def
          encode_x1_def or_else_def single_out_def numeral_2_eq_2 nth_opt_def)
  qed
  have delta: "compress_delta ?c [1, 2, 3] = Inr None" by (simp add: compress_delta_def NETC_DELTA_MIN_SIZE_def)
  have wf: "ctx_wf ?c" using sample_ctx_wf by simp
  obtain csrc pf dd dl where p: "compress_prepass ?c [1, 2, 3] = Inr (csrc, pf, dd, dl)"
    using compress_prepass_defined [OF wf, of "[1, 2, 3]"] by (auto simp: NETC_MAX_PACKET_SIZE_def)
  have dd: "\<not> dd" using p delta by (auto simp: compress_prepass_def split: option.splits if_splits)
  have "length csrc = 3" using preparedD(1) [OF prepass_ok(1) [OF wf p]] by simp
  then obtain x y z where csrc: "csrc = [x, y, z]" by (auto simp: length_Suc_conv numeral_3_eq_3)
  have fl: "\<not> has_cfg (tans_ctx_flags ?c False dd dl) NETC_CFG_FLAG_BIGRAM"
    by (simp add: tans_ctx_flags_def has_cfg_or sample_ctx_flags has_cfg_def NETC_CFG_FLAG_BIGRAM_def NETC_INTERNAL_SKIP_SR_def)
  have tab: "length (netc_get_tables ?c uniform_dict) = 16"
    using sample_ctx_ready [of scalar_platform] coder_full_tables(2) [of uniform_dict]
    by (simp add: ctx_ready_def ctx_full_def sample_ctx_fields)
  have "compress_tans ?c uniform_dict [1, 2, 3] q False 8 8 = Inr None" for q
    using p csrc fail [OF fl tab] by (simp add: compress_tans_def)
  then have sel: "compress_select ?c [1, 2, 3] q False 8 8 = Inr None" for q
    using p dd dict by (simp add: compress_select_def compress_lz_def)
  have em: "emit_passthrough d q False [1, 2, 3] 8 = Inl (F_Result NETC_ERR_BUF_SMALL)" for d q
    using length_make_packet [of "Suc (Suc (Suc 0))" d q False] by (simp add: emit_passthrough_def Let_def compress_hdr_size_def NETC_HEADER_SIZE_def)
  have nc: "\<not> has_cfg (c_flags (sample_ctx scalar_platform)) NETC_CFG_FLAG_COMPACT_HDR"
    by (simp add: sample_ctx_flags has_cfg_def NETC_CFG_FLAG_COMPACT_HDR_def)
  show ?thesis
    using sel em nc by (simp add: history_room_def netc_compress_def compress_packet_def Let_def NETC_MAX_PACKET_SIZE_def NETC_COMPACT_HDR_MIN_def
        compress_hdr_size_def NETC_HEADER_SIZE_def)
qed

theorem small_buffer_loses_step_witness:
  "\<exists>c. netc_compress (Some (sample_ctx scalar_platform)) (Some [1, 2, 3]) (Some 8) = (Inl (F_Result NETC_ERR_BUF_SMALL), Some c)
     \<and> \<not> in_step c (sample_ctx scalar_platform)"
proof -
  have "in_step (sample_ctx scalar_platform) (sample_ctx scalar_platform)" "NETC_COMPACT_HDR_MIN \<le> 8"
    by (simp_all add: in_step_def NETC_COMPACT_HDR_MIN_def)
  then show ?thesis using sample_small_buffer small_buffer_loses_step by blast
qed

end
