(* ===== verification/Netc_Stateless.thy ===== *)
theory Netc_Stateless
  imports Netc_Roundtrip
begin

text \<open>
  The stateless entry points: a stateless packet is one that a context without history decodes, so the
  payload lemmas of the stateful decoder carry over.
\<close>

section \<open>A context without history\<close>

definition stateless_cfg :: netc_cfg where
  "stateless_cfg = \<lparr>cfg_flags = 0, cfg_ring_buffer_size = 0, cfg_compression_level = 5, cfg_simd_level = 1, cfg_arena_size = 0\<rparr>"

definition stateless_ctx :: "netc_dict \<Rightarrow> netc_ctx" where
  "stateless_ctx d = the (netc_ctx_create scalar_platform (Some d) (Some stateless_cfg))"

lemma stateless_ctx_fields:
  "c_dict (stateless_ctx d) = Some d" "netc_get_tables (stateless_ctx d) d = d_tables d"
  "netc_get_lzp_table (stateless_ctx d) = d_lzp_table d" "c_prev_pkt (stateless_ctx d) = None" "c_ring (stateless_ctx d) = []"
  by (simp_all add: stateless_ctx_def netc_ctx_create_def stateless_cfg_def has_cfg_def netc_get_tables_def netc_get_lzp_table_def)

lemma stateless_payload_history:
  assumes "decomp_payload (stateless_ctx d) hdr payload dst False = Inr src"
  shows "stateless_payload d hdr payload dst = Inr src"
proof -
  have post: "decomp_delta_postpass (stateless_ctx d) flags out = out" for flags out
    by (simp add: decomp_delta_postpass_def stateless_ctx_fields)
  have id: "(case r of Inl e \<Rightarrow> Inl e | Inr out \<Rightarrow> Inr out) = r" for r :: "fault + byte list" by (cases r) simp_all
  show ?thesis
    using assms unfolding decomp_payload_def stateless_payload_def Let_def stateless_ctx_fields option.case post if_cancel id
    by (simp add: pkt_consts NETC_ALG_RANS_def split: if_splits option.splits)
qed

lemma make_packet_flags: "make_packet dict seq False n flags alg payload ! 4 = flags"
proof -
  have "length (netc_write_u16_le a @ netc_write_u16_le b) = 4" for a b by simp
  then show ?thesis unfolding make_packet_def netc_hdr_emit_def netc_hdr_write_def
    by (simp add: nth_append)
qed

lemma decompress_stateless_good:
  assumes g: "good_packet (stateless_ctx d) 0 False src pkt" and delta: "\<not> has_flag (pkt ! 4) NETC_PKT_FLAG_DELTA"
    and n: "length src \<le> NETC_MAX_PACKET_SIZE" "length src \<le> length dst"
  shows "netc_decompress_stateless (Some d) (Some pkt) (Some dst) = Inr src"
proof -
  obtain flags alg payload where p: "pkt = make_packet (Some d) 0 False (length src) flags alg payload" "length payload \<le> length src"
    and dec: "\<And>hdr dst. describes hdr (length src) flags alg payload \<Longrightarrow> length src \<le> length dst
             \<Longrightarrow> decomp_payload (stateless_ctx d) hdr payload dst False = Inr src"
    using g unfolding good_packet_def stateless_ctx_fields(1) by blast
  have "length payload < 2 ^ 16" using p(2) n(1) by (simp add: NETC_MAX_PACKET_SIZE_def)
  then obtain hdr where v: "validate_header pkt (length dst) False = Inr (hdr, compress_hdr_size False (length src))"
    "describes hdr (length src) flags alg payload" "hdr_model_id hdr = netc_dict_model_id (Some d)"
    "slice pkt (compress_hdr_size False (length src)) (unat (hdr_compressed_size hdr)) = Some payload"
    using validate_make_packet [OF n, of False flags alg payload "Some d" 0] p(1) by auto
  have "\<not> has_flag (hdr_flags hdr) NETC_PKT_FLAG_DELTA"
    using delta v(2) unfolding p(1) make_packet_flags by (simp add: describes_def)
  then show ?thesis
    using v stateless_payload_history [OF dec [OF v(2) n(2)]]
    by (simp add: netc_decompress_stateless_def netc_dict_model_id_def)
qed

section \<open>Round trip\<close>

text \<open>A packet that the stateless decoder reads back.\<close>

definition good_stateless :: "netc_dict \<Rightarrow> byte list \<Rightarrow> byte list \<Rightarrow> bool" where
  "good_stateless d src pkt \<longleftrightarrow>
     good_packet (stateless_ctx d) 0 False src pkt \<and> \<not> has_flag (pkt ! 4) NETC_PKT_FLAG_DELTA"

lemma no_delta:
  "\<not> has_flag (coder_flags NETC_PKT_FLAG_DICT_ID x2 bg) NETC_PKT_FLAG_DELTA"
  "\<not> has_flag (NETC_PKT_FLAG_DICT_ID OR NETC_PKT_FLAG_LZ77 OR NETC_PKT_FLAG_PASSTHRU) NETC_PKT_FLAG_DELTA"
  "\<not> has_flag (NETC_PKT_FLAG_PASSTHRU OR NETC_PKT_FLAG_DICT_ID) NETC_PKT_FLAG_DELTA"
  by (simp_all add: coder_flags_def has_flag_def pkt_consts)

lemma dict_id_prepass: "NETC_PKT_FLAG_DICT_ID \<in> set prepass_flags" "\<not> has_flag NETC_PKT_FLAG_DICT_ID NETC_PKT_FLAG_RLE"
  by (simp_all add: prepass_flags_def has_flag_def pkt_consts)

lemma stateless_lz_good:
  assumes "lz_wins (lz77_encode src cap) cp m h k = Inr (Some lz)" and n: "length src \<le> NETC_MAX_PACKET_SIZE"
  shows "good_stateless d src (lz77_packet (Some d) 0 False (length src) NETC_PKT_FLAG_DICT_ID lz)"
proof -
  have "lz77_encode src cap = Inr lz" using lz_wins_Some [OF assms(1)] by simp
  then have "good_packet (stateless_ctx d) 0 False src
      (lz77_packet (c_dict (stateless_ctx d)) 0 False (length src) NETC_PKT_FLAG_DICT_ID lz)"
    using lz77_good [OF _ _ refl n dict_id_prepass(1) undoes_raw, of lz] lz77_decode_encode dict_id_prepass(2) by blast
  moreover have "lz77_packet (Some d) 0 False (length src) NETC_PKT_FLAG_DICT_ID lz ! 4
      = NETC_PKT_FLAG_DICT_ID OR NETC_PKT_FLAG_LZ77 OR NETC_PKT_FLAG_PASSTHRU"
    by (simp add: lz77_packet_def make_packet_flags)
  ultimately show ?thesis using no_delta(2) by (simp add: good_stateless_def stateless_ctx_fields)
qed

lemma stateless_tans_good:
  assumes c: "coder_full d (d_tables d)" and n: "length src \<le> NETC_MAX_PACKET_SIZE" "length src < 256 \<or> even (length src)"
  shows "stateless_tans d src dst_cap \<noteq> Inl C_Undefined"
    and "stateless_tans d src dst_cap = Inr pkt \<Longrightarrow> good_stateless d src pkt"
proof -
  let ?ctx = "stateless_ctx d"
  have "\<exists>tsrc dl. stateless_source d src = Inr (tsrc, dl)"
    by (auto simp: stateless_source_def split: option.split)
  then obtain tsrc dl where p: "stateless_source d src = Inr (tsrc, dl)" by blast
  have prep: "prepared ?ctx dl NETC_PKT_FLAG_DICT_ID tsrc src"
    using p prepared_lzp [of ?ctx] prepared_raw by (auto simp: stateless_source_def stateless_ctx_fields split: option.splits if_splits)
  define t where "t = try_tans_compress d (d_tables d) tsrc (dst_cap - NETC_HEADER_SIZE) 0 False"
  note tok = try_tans_compress_ok [OF c, of tsrc "dst_cap - NETC_HEADER_SIZE" 0 False, folded t_def]
  have lz_def: "stateless_lz src cp dst_cap \<noteq> Inl e" for cp e
    using lz_defined(1) [of src 1024 cp "length src" NETC_HEADER_SIZE dst_cap] by (auto simp: stateless_lz_def)
  have lz_good: "good_stateless d src (lz77_packet (Some d) 0 False (length src) NETC_PKT_FLAG_DICT_ID lz)"
    if "stateless_lz src cp dst_cap = Inr (Some lz)" for cp lz
    using that stateless_lz_good [OF _ n(1)] by (auto simp: stateless_lz_def split: if_splits)
  let ?pkt = "\<lambda>out. make_packet (Some d) 0 False (length src)
      (NETC_PKT_FLAG_DICT_ID OR (if to_mreg out = 1 then NETC_PKT_FLAG_MREG else 0) OR (if to_x2 out then NETC_PKT_FLAG_X2 else 0))
      (if dl then if to_mreg out = 2 then NETC_ALG_TANS_PCTX OR 0x10
             else NETC_ALG_LZP OR push_bit 4 (word_of_nat (if to_mreg out \<noteq> 0 then 0 else to_tbl out))
       else if to_mreg out = 2 then NETC_ALG_TANS_PCTX
       else NETC_ALG_TANS OR push_bit 4 (word_of_nat (if to_mreg out \<noteq> 0 then 0 else to_tbl out)))
      (to_payload out)"
  have eq: "stateless_tans d src dst_cap = (case t of Inl e \<Rightarrow> Inl e
      | Inr out \<Rightarrow> if length (to_payload out) \<ge> length src then Inl C_Fail
          else case stateless_lz src (length (to_payload out)) dst_cap of Inl e \<Rightarrow> Inl e
               | Inr (Some lz) \<Rightarrow> Inr (lz77_packet (Some d) 0 False (length src) NETC_PKT_FLAG_DICT_ID lz)
               | Inr None \<Rightarrow> Inr (?pkt out))"
    unfolding stateless_tans_def Let_def p t_def by (simp only: prod.case sum.case)
  have good: "good_stateless d src (?pkt out)" if t: "t = Inr out" "length (to_payload out) < length src" for out
  proof -
    have dec: "tans_decodes d (netc_get_tables ?ctx d) 0 False out tsrc" and m3: "to_mreg out \<noteq> 3"
      using tok(2) [OF t(1)] internal_flags(3) by (auto simp: stateless_ctx_fields)
    have x2: "to_x2 out \<Longrightarrow> even (length src)"
      using dec n(2) preparedD(1) [OF prep] by (auto simp: tans_decodes_def)
    note ctx = stateless_ctx_fields(1) [of d] and tab = stateless_ctx_fields(2) [of d]
    show ?thesis
    proof (cases "to_mreg out = 0")
      case True
      have "?pkt out = make_packet (Some d) 0 False (length src) (coder_flags NETC_PKT_FLAG_DICT_ID (to_x2 out) False)
          (tabled (if dl then NETC_ALG_LZP else NETC_ALG_TANS) (to_tbl out)) (to_payload out)"
        using True by (simp add: coder_flags_def tabled_def)
      moreover have "good_packet ?ctx 0 False src \<dots>"
        using single_good [OF ctx _ dec True t(2) prep n(1) x2, of 0] c internal_flags(3) by (simp add: tab)
      ultimately show ?thesis using no_delta(1) by (simp add: good_stateless_def make_packet_flags)
    next
      case False
      then have m: "to_mreg out = 2" "\<not> to_x2 out" using dec m3 by (auto simp: tans_decodes_def)
      then have "?pkt out = make_packet (Some d) 0 False (length src) (coder_flags NETC_PKT_FLAG_DICT_ID False False)
          (if dl then NETC_ALG_TANS_PCTX OR 0x10 else NETC_ALG_TANS_PCTX) (to_payload out)"
        by (simp add: coder_flags_def)
      moreover have "good_packet ?ctx 0 False src \<dots>"
        using pctx_good [OF ctx dec False t(2) prep n(1), of 0] m(1) by simp
      ultimately show ?thesis using no_delta(1) by (simp add: good_stateless_def make_packet_flags)
    qed
  qed
  show "stateless_tans d src dst_cap \<noteq> Inl C_Undefined"
    using tok(1) lz_def unfolding eq by (auto split: sum.split option.split)
  show "good_stateless d src pkt" if "stateless_tans d src dst_cap = Inr pkt"
    using that good lz_good unfolding eq
    by (auto simp: not_le split: sum.splits option.splits if_splits)
qed

lemma stateless_inverse:
  assumes "coder_full d (d_tables d)" and "length src \<le> NETC_MAX_PACKET_SIZE"
    and "length src < 256 \<or> even (length src)" and "length src + NETC_HEADER_SIZE \<le> dst_cap" and "length src \<le> length buf"
  shows "\<exists>pkt. netc_compress_stateless (Some d) (Some src) (Some dst_cap) = Inr pkt
      \<and> length pkt \<le> length src + NETC_HEADER_SIZE
      \<and> netc_decompress_stateless (Some d) (Some pkt) (Some buf) = Inr src"
proof -
  let ?pass = "make_packet (Some d) 0 False (length src) (NETC_PKT_FLAG_PASSTHRU OR NETC_PKT_FLAG_DICT_ID) NETC_ALG_PASSTHRU src"
  have len: "length ?pass = NETC_HEADER_SIZE + length src"
    using assms(2) by (simp add: length_make_packet compress_hdr_size_def NETC_MAX_PACKET_SIZE_def)
  have pass: "good_stateless d src ?pass" "emit_passthrough (Some d) 0 False src dst_cap = Inr ?pass"
    using passthru_good [OF assms(2), of "stateless_ctx d" 0 False] no_delta(3) assms(4) len
    by (simp_all add: good_stateless_def stateless_ctx_fields make_packet_flags emit_passthrough_def Let_def)
  let ?t = "if src = [] then Inl C_Fail else stateless_tans d src dst_cap"
  let ?lz = "if src = [] then Inr None else lz_wins (lz77_encode src (dst_cap - NETC_HEADER_SIZE)) (length src) (length src) NETC_HEADER_SIZE dst_cap"
  have "netc_compress_stateless (Some d) (Some src) (Some dst_cap) =
      (case ?t of Inl C_Undefined \<Rightarrow> Inl F_Undefined | Inr pkt \<Rightarrow> Inr pkt
       | Inl C_Fail \<Rightarrow> (case ?lz of Inl e \<Rightarrow> Inl F_Undefined
                        | Inr (Some lz) \<Rightarrow> Inr (lz77_packet (Some d) 0 False (length src) NETC_PKT_FLAG_DICT_ID lz)
                        | Inr None \<Rightarrow> emit_passthrough (Some d) 0 False src dst_cap))"
    using assms(2,4) by (simp add: netc_compress_stateless_def)
  moreover have "?t \<noteq> Inl C_Undefined" "\<And>pkt. ?t = Inr pkt \<Longrightarrow> good_stateless d src pkt"
    using stateless_tans_good [OF assms(1-3), of dst_cap] by (auto split: if_splits)
  moreover have "good_stateless d src (lz77_packet (Some d) 0 False (length src) NETC_PKT_FLAG_DICT_ID lz)" if "?lz = Inr (Some lz)" for lz
    using that stateless_lz_good [OF _ assms(2)] by (auto split: if_splits)
  moreover have "\<exists>lz. ?lz = Inr lz" using lz_defined(1) by simp
  then obtain lz where "?lz = Inr lz" ..
  ultimately obtain pkt where pkt: "netc_compress_stateless (Some d) (Some src) (Some dst_cap) = Inr pkt" "good_stateless d src pkt"
    unfolding pass(2) using pass(1) by (cases ?t; cases lz) (auto split: cerror.splits)
  then have "good_packet (stateless_ctx d) 0 False src pkt" by (simp add: good_stateless_def)
  from good_packet_length [OF this assms(2)] have "length pkt \<le> length src + NETC_HEADER_SIZE"
    by (simp add: compress_hdr_size_def)
  then show ?thesis using pkt decompress_stateless_good assms(2,5) by (auto simp: good_stateless_def)
qed

text \<open>
  C9. Stateless compression and decompression are inverse: for a dictionary whose tables code every
  byte, every packet of at most 65535 bytes that is shorter than 256 bytes or of even size (the interleaved
  coder mis-codes odd sizes from 256 on), every destination with room for 8 bytes more than the packet and
  every output buffer with room for the packet, the encoder emits a packet at most 8 bytes longer than its
  input, without overrunning its buffers, and the decoder returns the input.
\<close>

theorem stateless_roundtrip:
  assumes "coder_full d (d_tables d)" and "length src \<le> NETC_MAX_PACKET_SIZE"
    and "length src < 256 \<or> even (length src)" and "length src + NETC_HEADER_SIZE \<le> dst_cap" and "length src \<le> length buf"
  shows "\<exists>pkt. netc_compress_stateless (Some d) (Some src) (Some dst_cap) = Inr pkt
      \<and> length pkt \<le> length src + NETC_HEADER_SIZE
      \<and> netc_decompress_stateless (Some d) (Some pkt) (Some buf) = Inr src"
  by (rule stateless_inverse [OF assms])

theorem stateless_roundtrip_witness:
  "\<exists>pkt. netc_compress_stateless (Some uniform_dict) (Some [7, 7, 9]) (Some 16) = Inr pkt
      \<and> length pkt \<le> 3 + NETC_HEADER_SIZE
      \<and> netc_decompress_stateless (Some uniform_dict) (Some pkt) (Some [0, 0, 0, 0]) = Inr [7, 7, 9]"
proof -
  have len: "length [7, 7, 9 :: byte] = 3" "length [0, 0, 0, 0 :: byte] = 4" by simp_all
  show ?thesis
    using stateless_roundtrip [OF uniform_coder_full, of "[7, 7, 9]" 16 "[0, 0, 0, 0]", unfolded len]
    by (simp add: NETC_MAX_PACKET_SIZE_def NETC_HEADER_SIZE_def)
qed

text \<open>
  The decoder of multi-region packets reports success without writing the output: a packet of 17
  bytes that announces four bytes and one region with an empty stream returns whatever the caller's
  buffer held before.
\<close>

theorem mreg_returns_stale_bytes:
  "netc_decompress_stateless (Some uniform_dict)
     (Some [4, 0, 9, 0, NETC_PKT_FLAG_MREG OR NETC_PKT_FLAG_DICT_ID, NETC_ALG_TANS, 1, 0, 1, 0, 0, 0, 0, 0, 0, 0, 0])
     (Some [a, b, c, d]) = Inr [a, b, c, d]"
proof -
  have "validate_header [4, 0, 9, 0, NETC_PKT_FLAG_MREG OR NETC_PKT_FLAG_DICT_ID, NETC_ALG_TANS, 1, 0, 1, 0, 0, 0, 0, 0, 0, 0, 0] (length [a, b, c, d]) False
      = Inr (\<lparr>hdr_original_size = 4, hdr_compressed_size = 9, hdr_flags = NETC_PKT_FLAG_MREG OR NETC_PKT_FLAG_DICT_ID,
             hdr_algorithm = NETC_ALG_TANS, hdr_model_id = 1, hdr_context_seq = 0\<rparr>, 8)"
    by (simp add: validate_header_eq netc_hdr_read_def netc_read_u16_le_def NETC_HEADER_SIZE_def NETC_MAX_PACKET_SIZE_def)
  moreover have "decomp_alg_id NETC_ALG_TANS = NETC_ALG_TANS" "has_flag (NETC_PKT_FLAG_MREG OR NETC_PKT_FLAG_DICT_ID) NETC_PKT_FLAG_MREG"
    "\<not> has_flag (NETC_PKT_FLAG_MREG OR NETC_PKT_FLAG_DICT_ID) NETC_PKT_FLAG_DELTA" "NETC_ALG_TANS \<noteq> NETC_ALG_PASSTHRU"
    by (simp_all add: decomp_alg_id_def has_flag_def pkt_consts)
  moreover have "d_model_id uniform_dict = 1" by (simp add: uniform_dict_def uniform_dict0_def)
  moreover have "mreg_regions uniform_dict (d_tables uniform_dict) fl [1, 0, 0, 0, 0, 0, 0, 0, 0] 4 [0] [] 0 [a, b, c, d] = Inr [a, b, c, d]"
    for fl
    by (simp add: load_state_Some netc_read_u32_le_def Let_def)
  moreover have "[0..<1] = [0::nat]" by simp
  ultimately show ?thesis
    by (simp add: netc_decompress_stateless_def stateless_payload_def decode_tans_def decode_tans_mreg_def NETC_CTX_COUNT_def nth_opt_def
        del: mreg_regions.simps upt_conv_Cons)
qed

end
