(* ===== verification/Netc_Train.thy ===== *)
theory Netc_Train
  imports Netc_Encode "HOL-Library.Multiset"
begin

text \<open>
  Dictionary training, \<open>netc_dict_train\<close> in \<open>src/src/core/netc_dict.c\<close>: byte statistics per context
  bucket, the clustering of previous bytes into bigram classes, the majority vote for the LZP table, and
  the tables on the filtered packets.

  The 64-bit counters are natural numbers: below \<open>2 ^ 52\<close> training bytes, which the theorems assume, no
  counter and no product of \<open>freq_normalize\<close> wraps.  The totals that the first LZP pass counts are
  overwritten before they are read and left out.  Allocation succeeds.
\<close>

section \<open>Training packets\<close>

text \<open>\<open>packets[p] == NULL || sizes[p] == 0\<close> skips a packet; longer ones are cut.\<close>

definition train_packets :: "byte list option list \<Rightarrow> byte list list" where
  "train_packets packets =
     List.map_filter (\<lambda>p. case p of None \<Rightarrow> None | Some [] \<Rightarrow> None | Some pkt \<Rightarrow> Some (take NETC_MAX_PACKET_SIZE pkt)) packets"

text \<open>Previous byte, position and byte, in the order of the loops.\<close>

definition packet_sites :: "byte list \<Rightarrow> (byte \<times> nat \<times> byte) list" where
  "packet_sites pkt = map (\<lambda>i. (if i > 0 then pkt ! (i - 1) else 0, i, pkt ! i)) [0..<length pkt]"

definition train_sites :: "byte list list \<Rightarrow> (byte \<times> nat \<times> byte) list" where
  "train_sites pkts = concat (map packet_sites pkts)"

definition bump :: "nat \<Rightarrow> nat list \<Rightarrow> nat list" where
  "bump k xs = xs[k := xs ! k + 1]"

section \<open>Byte counts per bucket\<close>

definition bucket_end :: "nat list" where
  "bucket_end = [8, 16, 24, 32, 48, 64, 96, 128, 192, 256, 384, 512, 1024, 4096, 16384, 65536]"

fun count_segments ::
    "netc_simd_ops \<Rightarrow> byte list \<Rightarrow> nat \<Rightarrow> (nat \<times> nat) list \<Rightarrow> nat list list \<times> nat list \<Rightarrow> nat list list \<times> nat list" where
  "count_segments ops pkt seg_start [] st = st"
| "count_segments ops pkt seg_start ((b, bend) # bs) (raw, tot) =
     (if seg_start \<ge> length pkt then (raw, tot)
      else let seg_end = (if bend > length pkt then length pkt else bend);
               seg_len = seg_end - seg_start;
               tmp_freq = ops_freq_count ops (drop seg_start pkt) seg_len (replicate NETC_TANS_SYMBOLS 0)
           in count_segments ops pkt seg_end bs
                (raw[b := map2 (\<lambda>c t. c + unat t) (raw ! b) tmp_freq], tot[b := tot ! b + seg_len]))"

definition zero_counts :: "nat list list \<times> nat list" where
  "zero_counts = (replicate NETC_CTX_COUNT (replicate NETC_TANS_SYMBOLS 0), replicate NETC_CTX_COUNT 0)"

definition train_unigram :: "netc_simd_ops \<Rightarrow> byte list list \<Rightarrow> nat list list \<times> nat list" where
  "train_unigram ops pkts = fold (\<lambda>pkt. count_segments ops pkt 0 (enumerate 0 bucket_end)) pkts zero_counts"

section \<open>Bigram classes\<close>

definition cond_counts :: "byte list list \<Rightarrow> nat list" where
  "cond_counts pkts = fold (\<lambda>(prev, i, b). bump (unat prev * 256 + unat b)) (train_sites pkts) (replicate (256 * 256) 0)"

definition peak_symbol :: "nat list \<Rightarrow> nat \<Rightarrow> nat" where
  "peak_symbol counts prev =
     snd (fold (\<lambda>s (best, best_sym). let c = counts ! (prev * 256 + s) in if c > best then (c, s) else (best, best_sym))
            [0..<256] (0, 0))"

text \<open>The inner loop of the insertion sort, \<open>j + 1\<close> being the place to fill.\<close>

fun insert_prev :: "nat list \<Rightarrow> nat \<Rightarrow> nat list \<Rightarrow> nat \<Rightarrow> nat list" where
  "insert_prev peak key sp 0 = sp[0 := key]"
| "insert_prev peak key sp (Suc j) =
     (if peak ! (sp ! j) > peak ! key then insert_prev peak key (sp[Suc j := sp ! j]) j else sp[Suc j := key])"

definition sort_prev :: "nat list \<Rightarrow> nat list" where
  "sort_prev peak = fold (\<lambda>i sp. insert_prev peak (sp ! i) sp i) [1..<256] [0..<256]"

definition class_groups :: "nat list \<Rightarrow> byte list" where
  "class_groups sorted_prev =
     fold (\<lambda>(g, k) m. m[sorted_prev ! (g * 32 + k) := word_of_nat g])
       (List.product [0..<NETC_BIGRAM_CTX_COUNT] [0..<32]) (replicate 256 0)"

definition train_class_map :: "byte list list \<Rightarrow> byte list" where
  "train_class_map pkts =
     (let counts = cond_counts pkts; cond_peak = map (peak_symbol counts) [0..<256]
      in class_groups (sort_prev cond_peak))"

definition count_bigram ::
    "byte list \<Rightarrow> byte \<times> nat \<times> byte \<Rightarrow> nat list list list \<times> nat list list \<Rightarrow> nat list list list \<times> nat list list" where
  "count_bigram class_map = (\<lambda>(prev, i, b) (raw, tot).
     let bucket = netc_ctx_bucket i; bclass = netc_bigram_class prev (Some class_map)
     in (raw[bucket := (raw ! bucket)[bclass := bump (unat b) (raw ! bucket ! bclass)]],
         tot[bucket := bump bclass (tot ! bucket)]))"

definition zero_bigram :: "nat list list list \<times> nat list list" where
  "zero_bigram = (replicate NETC_CTX_COUNT (replicate NETC_BIGRAM_CTX_COUNT (replicate NETC_TANS_SYMBOLS 0)),
     replicate NETC_CTX_COUNT (replicate NETC_BIGRAM_CTX_COUNT 0))"

definition train_bigram :: "byte list \<Rightarrow> byte list list \<Rightarrow> nat list list list \<times> nat list list" where
  "train_bigram class_map pkts = fold (count_bigram class_map) (train_sites pkts) zero_bigram"

section \<open>LZP table\<close>

text \<open>One Boyer-Moore vote: candidate and count, an \<open>int16_t\<close> that saturates.\<close>

definition vote_step :: "byte \<Rightarrow> byte \<times> nat \<Rightarrow> byte \<times> nat" where
  "vote_step b = (\<lambda>(cand, cnt).
     if cnt = 0 then (b, 1)
     else if cand = b then (cand, if cnt < 32767 then cnt + 1 else cnt)
     else (cand, cnt - 1))"

definition lzp_votes :: "byte list list \<Rightarrow> (byte \<times> nat) list" where
  "lzp_votes pkts = fold (\<lambda>(prev, i, b) v. let h = netc_lzp_hash prev i in v[h := vote_step b (v ! h)])
     (train_sites pkts) (replicate NETC_LZP_HT_SIZE (0, 0))"

text \<open>The second pass: occurrences and hits per slot, saturating at \<open>0xFFFF\<close>.\<close>

definition hit_step :: "byte \<Rightarrow> byte \<Rightarrow> nat \<times> nat \<Rightarrow> nat \<times> nat" where
  "hit_step cand b = (\<lambda>(tot, hit).
     (if tot < 65535 then tot + 1 else tot, if b = cand \<and> hit < 65535 then hit + 1 else hit))"

definition lzp_hits :: "(byte \<times> nat) list \<Rightarrow> byte list list \<Rightarrow> (nat \<times> nat) list" where
  "lzp_hits votes pkts = fold (\<lambda>(prev, i, b) c. let h = netc_lzp_hash prev i in c[h := hit_step (fst (votes ! h)) b (c ! h)])
     (train_sites pkts) (replicate NETC_LZP_HT_SIZE (0, 0))"

definition lzp_entry :: "byte \<times> nat \<Rightarrow> nat \<times> nat \<Rightarrow> netc_lzp_entry" where
  "lzp_entry = (\<lambda>(cand, cnt) (tot, hit).
     if tot \<ge> 2 \<and> hit * 10 \<ge> tot * 4 then \<lparr>lzp_value = cand, lzp_valid = 1\<rparr> else \<lparr>lzp_value = 0, lzp_valid = 0\<rparr>)"

definition train_lzp :: "byte list list \<Rightarrow> lzp_table" where
  "train_lzp pkts = (let votes = lzp_votes pkts; hits = lzp_hits votes pkts in map2 lzp_entry votes hits)"

section \<open>Tables on the filtered packets\<close>

definition count_unigram :: "byte \<times> nat \<times> byte \<Rightarrow> nat list list \<times> nat list \<Rightarrow> nat list list \<times> nat list" where
  "count_unigram = (\<lambda>(prev, i, b) (raw, tot).
     let bucket = netc_ctx_bucket i in (raw[bucket := bump (unat b) (raw ! bucket)], bump bucket tot))"

definition refine_unigram :: "byte list list \<Rightarrow> nat list list \<times> nat list" where
  "refine_unigram pkts = fold count_unigram (train_sites pkts) zero_counts"

text \<open>A failing build leaves the old table.\<close>

definition rebuilt :: "netc_tans_table \<Rightarrow> nat list \<Rightarrow> nat \<Rightarrow> netc_tans_table" where
  "rebuilt old raw tot = (case netc_tans_build (freq_normalize raw tot) of None \<Rightarrow> old | Some t \<Rightarrow> t)"

section \<open>Training\<close>

definition build_tables :: "nat list list \<Rightarrow> nat list \<Rightarrow> netc_tans_table list option" where
  "build_tables raw tot = those (map2 (\<lambda>r t. netc_tans_build (freq_normalize r t)) raw tot)"

text \<open>The serialisation over which the checksum is taken, without the checksum itself.\<close>

definition train_blob :: "netc_dict \<Rightarrow> lzp_table \<Rightarrow> byte list" where
  "train_blob d lzp =
     netc_write_u32_le (d_magic d) @ [d_version d, d_model_id d, d_ctx_count d, d_dict_flags d]
     @ d_bigram_class_map d
     @ concat (map (\<lambda>t. freq_bytes (tt_freq t)) (d_tables d))
     @ concat (map (\<lambda>row. concat (map (\<lambda>t. freq_bytes (tt_freq t)) row)) (d_bigram_tables d))
     @ (if has_flag (d_dict_flags d) NETC_DICT_FLAG_LZP
        then netc_write_u32_le (word_of_nat NETC_LZP_HT_SIZE) @ lzp_bytes lzp else [])"

definition train_dict :: "netc_platform \<Rightarrow> byte list list \<Rightarrow> byte \<Rightarrow> netc_result + netc_dict" where
  "train_dict pf pkts model_id =
     (let (raw, totals) = train_unigram (netc_simd_ops_init pf 0) pkts;
          class_map = train_class_map pkts;
          (bgram_raw, bgram_totals) = train_bigram class_map pkts
      in case build_tables raw totals of None \<Rightarrow> Inl NETC_ERR_NOMEM
         | Some tables \<Rightarrow>
             (case those (map2 build_tables bgram_raw bgram_totals) of None \<Rightarrow> Inl NETC_ERR_NOMEM
              | Some bigram_tables \<Rightarrow>
                  let lzp = train_lzp pkts;
                      filtered = map (\<lambda>pkt. netc_lzp_xor_filter pkt lzp) pkts;
                      (raw, totals) = refine_unigram filtered;
                      (bgram_raw2, bgram_totals2) = train_bigram class_map filtered;
                      tables = map2 (\<lambda>old (r, t). rebuilt old r t) tables (zip raw totals);
                      bigram_tables =
                        map2 (\<lambda>row (rs, ts). map2 (\<lambda>old (r, t). rebuilt old r t) row (zip rs ts)) bigram_tables
                          (zip bgram_raw2 bgram_totals2);
                      d = \<lparr>d_magic = NETC_DICT_MAGIC, d_version = NETC_DICT_VERSION, d_model_id = model_id,
                           d_ctx_count = word_of_nat NETC_CTX_COUNT, d_dict_flags = NETC_DICT_FLAG_LZP,
                           d_tables = tables, d_bigram_tables = bigram_tables, d_bigram_class_map = class_map,
                           d_bigram_class_count = word_of_nat NETC_BIGRAM_CTX_COUNT, d_lzp_table = Some lzp, d_checksum = 0\<rparr>
                  in Inr (d\<lparr>d_checksum := netc_crc32 (train_blob d lzp)\<rparr>)))"

text \<open>\<open>packets\<close> is \<open>None\<close> when the array of packets or of sizes is \<open>NULL\<close>; \<open>out_dict\<close> says that the result pointer is not.\<close>

definition netc_dict_train ::
    "netc_platform \<Rightarrow> byte list option list option \<Rightarrow> nat \<Rightarrow> byte \<Rightarrow> bool \<Rightarrow> netc_result + netc_dict" where
  "netc_dict_train pf packets n_packets model_id out_dict =
     (if \<not> out_dict then Inl NETC_ERR_INVALID_ARG
      else if model_id = 0 \<or> model_id = 255 then Inl NETC_ERR_INVALID_ARG
      else if n_packets > 0 \<and> packets = None then Inl NETC_ERR_INVALID_ARG
      else train_dict pf (train_packets (take n_packets (case packets of None \<Rightarrow> [] | Some ps \<Rightarrow> ps))) model_id)"

section \<open>Arrays of independent slots\<close>

text \<open>A pass that updates one slot per item leaves in each slot the fold over its own items.\<close>

lemma length_fold_slots: "length (fold (\<lambda>x l. l[k x := f x (l ! k x)]) xs l) = length l"
  by (induction xs arbitrary: l) simp_all

lemma fold_slots:
  assumes "j < length l"
  shows "fold (\<lambda>x l. l[k x := f x (l ! k x)]) xs l ! j = fold f (filter (\<lambda>x. k x = j) xs) (l ! j)"
  using assms
proof (induction xs arbitrary: l)
  case (Cons x xs)
  then show ?case by (cases "k x = j") simp_all
qed simp

section \<open>The majority vote\<close>

text \<open>
  After a run of votes without saturation the candidate has at most half of them and half of the count
  in advance; any other byte has at most half, less half of the count.
\<close>

lemma vote_invariant:
  assumes "length xs \<le> 32767"
  shows "case fold vote_step xs (0, 0) of (cand, cnt) \<Rightarrow> cnt \<le> length xs
     \<and> (\<forall>v. 2 * count_list xs v + (if v = cand then 0 else cnt) \<le> length xs + (if v = cand then cnt else 0))"
  using assms
proof (induction xs rule: rev_induct)
  case (snoc x xs)
  obtain cand cnt where f: "fold vote_step xs (0, 0) = (cand, cnt)" by fastforce
  obtain c n where v: "vote_step x (cand, cnt) = (c, n)" by fastforce
  have le: "cnt \<le> length xs" and
    ih: "\<And>v. 2 * count_list xs v + (if v = cand then 0 else cnt) \<le> length xs + (if v = cand then cnt else 0)"
    using snoc f by simp_all
  have "n \<le> length xs + 1" using v le by (auto simp: vote_step_def split: if_splits)
  moreover have "2 * count_list (xs @ [x]) w + (if w = c then 0 else n) \<le> length xs + 1 + (if w = c then n else 0)" for w
    using v ih [of w] ih [of x] snoc.prems le by (auto simp: vote_step_def split: if_splits)
  ultimately show ?case using f v by simp
qed simp

lemma vote_majority:
  assumes "length xs \<le> 32767" and "length xs < 2 * count_list xs v"
  shows "fst (fold vote_step xs (0, 0)) = v"
proof (rule ccontr)
  assume "fst (fold vote_step xs (0, 0)) \<noteq> v"
  moreover have "\<forall>w. 2 * count_list xs w + (if w = fst (fold vote_step xs (0, 0)) then 0 else snd (fold vote_step xs (0, 0)))
      \<le> length xs + (if w = fst (fold vote_step xs (0, 0)) then snd (fold vote_step xs (0, 0)) else 0)"
    using vote_invariant [OF assms(1)] by (simp add: case_prod_beta)
  ultimately have "2 * count_list xs v + snd (fold vote_step xs (0, 0)) \<le> length xs" by (auto dest: spec [of _ v])
  then show False using assms(2) by simp
qed

lemma fold_hit_step: "fold (hit_step cand) xs (t, h)
    = (if t < 65535 then min 65535 (t + length xs) else t, if h < 65535 then min 65535 (h + count_list xs cand) else h)"
proof (induction xs arbitrary: t h)
  case (Cons x xs)
  then show ?case by (auto simp: hit_step_def)
qed simp

text \<open>The bytes that the training packets have at the sites of one slot.\<close>

definition slot_bytes :: "byte list list \<Rightarrow> nat \<Rightarrow> byte list" where
  "slot_bytes pkts h = map (\<lambda>(prev, i, b). b) (filter (\<lambda>(prev, i, b). netc_lzp_hash prev i = h) (train_sites pkts))"

lemma length_site_pass:
  "length (fold (\<lambda>(prev, i, b) l. let k = netc_lzp_hash prev i in l[k := f k b (l ! k)]) xs l) = length l"
  by (induction xs arbitrary: l) (auto simp: Let_def split: prod.splits)

lemma fold_sites:
  fixes f :: "nat \<Rightarrow> byte \<Rightarrow> 'a \<Rightarrow> 'a"
  assumes "h < n"
  shows "fold (\<lambda>(prev, i, b) l. let k = netc_lzp_hash prev i in l[k := f k b (l ! k)]) xs (replicate n z) ! h
     = fold (f h) (map (\<lambda>(prev, i, b). b) (filter (\<lambda>(prev, i, b). netc_lzp_hash prev i = h) xs)) z"
proof -
  define k where "k = (\<lambda>(prev, i, b :: byte). netc_lzp_hash prev i)"
  define g where "g = (\<lambda>x :: byte \<times> nat \<times> byte. f (k x) (snd (snd x)))"
  have pass: "(\<lambda>(prev, i, b) l. let k = netc_lzp_hash prev i in l[k := f k b (l ! k)]) = (\<lambda>x l. l[k x := g x (l ! k x)])"
    by (auto simp: fun_eq_iff k_def g_def Let_def)
  have "fold g (filter (\<lambda>x. k x = h) xs) z' = fold (f h) (map (\<lambda>(prev, i, b). b) (filter (\<lambda>(prev, i, b). netc_lzp_hash prev i = h) xs)) z'" for z'
    by (induction xs arbitrary: z') (auto simp: k_def g_def split: prod.splits)
  then show ?thesis using fold_slots [of h "replicate n z" k g xs] assms unfolding pass by simp
qed

lemma length_votes: "length (lzp_votes pkts) = NETC_LZP_HT_SIZE"
  using length_site_pass [where f = "\<lambda>k. vote_step"] by (simp add: lzp_votes_def)

lemma length_hits: "length (lzp_hits v pkts) = NETC_LZP_HT_SIZE"
  using length_site_pass [where f = "\<lambda>k. hit_step (fst (v ! k))"] by (simp add: lzp_hits_def)

lemma train_lzp_entry:
  assumes "h < NETC_LZP_HT_SIZE"
  shows "train_lzp pkts ! h = (let xs = slot_bytes pkts h; vote = fold vote_step xs (0, 0)
     in lzp_entry vote (min 65535 (length xs), min 65535 (count_list xs (fst vote))))"
proof -
  have len: "length (lzp_votes pkts) = NETC_LZP_HT_SIZE" "length (lzp_hits v pkts) = NETC_LZP_HT_SIZE" for v
    by (simp_all add: length_votes length_hits)
  have v: "lzp_votes pkts ! h = fold vote_step (slot_bytes pkts h) (0, 0)"
    unfolding lzp_votes_def slot_bytes_def using fold_sites [OF assms, of "\<lambda>k. vote_step"] .
  have "lzp_hits (lzp_votes pkts) pkts ! h = fold (hit_step (fst (lzp_votes pkts ! h))) (slot_bytes pkts h) (0, 0)"
    unfolding lzp_hits_def slot_bytes_def using fold_sites [OF assms, of "\<lambda>k. hit_step (fst (lzp_votes pkts ! k))"] .
  then show ?thesis using v len assms by (simp add: train_lzp_def Let_def fold_hit_step)
qed

lemma length_train_lzp [simp]: "length (train_lzp pkts) = NETC_LZP_HT_SIZE"
  by (simp add: train_lzp_def length_votes length_hits Let_def)

section \<open>The classes\<close>

text \<open>Insertion moves the key to the front of the greater elements of the prefix.\<close>

lemma insert_prev_split:
  assumes "i < length sp"
  shows "insert_prev peak key sp i =
    rev (dropWhile (\<lambda>x. peak ! x > peak ! key) (rev (take i sp))) @ key
      # rev (takeWhile (\<lambda>x. peak ! x > peak ! key) (rev (take i sp))) @ drop (Suc i) sp"
  using assms
proof (induction i arbitrary: sp)
  case 0
  then show ?case by (cases sp) auto
next
  case (Suc j)
  let ?P = "\<lambda>x. peak ! x > peak ! key"
  have tk: "take (Suc j) sp = take j sp @ [sp ! j]" using Suc.prems by (simp add: take_Suc_conv_app_nth)
  show ?case
  proof (cases "?P (sp ! j)")
    case True
    have "drop (Suc j) (sp[Suc j := sp ! j]) = sp ! j # drop (Suc (Suc j)) sp"
      using Suc.prems by (simp add: Cons_nth_drop_Suc [symmetric] drop_update_cancel)
    then show ?thesis using True Suc.IH [of "sp[Suc j := sp ! j]"] Suc.prems by (simp add: tk)
  next
    case False
    then show ?thesis using Suc.prems by (simp add: tk upd_conv_take_nth_drop)
  qed
qed

definition by_peak :: "nat list \<Rightarrow> nat list \<Rightarrow> bool" where
  "by_peak peak xs \<longleftrightarrow> sorted_wrt (\<lambda>x y. peak ! x \<le> peak ! y) xs"

lemma insert_prev_sorts:
  assumes i: "i < length sp" and s: "by_peak peak (take i sp)"
  shows "by_peak peak (take (Suc i) (insert_prev peak (sp ! i) sp i))"
    and "mset (insert_prev peak (sp ! i) sp i) = mset sp" and "length (insert_prev peak (sp ! i) sp i) = length sp"
proof -
  let ?P = "\<lambda>x. peak ! x > peak ! (sp ! i)" and ?r = "rev (take i sp)"
  define A where "A = rev (dropWhile ?P ?r)"
  define B where "B = rev (takeWhile ?P ?r)"
  have AB: "A @ B = take i sp"
    unfolding A_def B_def rev_append [symmetric] takeWhile_dropWhile_id by simp
  have ins: "insert_prev peak (sp ! i) sp i = A @ sp ! i # B @ drop (Suc i) sp"
    using insert_prev_split [OF i] by (simp add: A_def B_def)
  have len: "length A + length B = i" using arg_cong [OF AB, of length] i by simp
  have B: "\<forall>x \<in> set B. ?P x" unfolding B_def by (auto dest: set_takeWhileD)
  have srt: "sorted_wrt (\<lambda>x y. peak ! x \<le> peak ! y) (A @ B)" using s AB by (simp add: by_peak_def)
  have A: "peak ! x \<le> peak ! (sp ! i)" if "x \<in> set A" for x
  proof -
    have ne: "A \<noteq> []" using that by auto
    then have "\<not> ?P (last A)" unfolding A_def using hd_dropWhile [of ?P ?r] by (simp add: last_rev)
    moreover have "peak ! x \<le> peak ! last A"
    proof (cases "x = last A")
      case False
      then have "x \<in> set (butlast A)" using that ne by (metis append_butlast_last_id in_set_conv_decomp set_append Un_iff empty_iff empty_set insert_iff list.simps(15))
      then show ?thesis using srt ne by (metis append_butlast_last_id list.set_intros(1) sorted_wrt_append)
    qed simp
    ultimately show ?thesis by simp
  qed
  have "take (Suc i) (A @ sp ! i # B @ drop (Suc i) sp) = A @ sp ! i # B" using len by (simp add: Suc_diff_le flip: len)
  moreover have "sorted_wrt (\<lambda>x y. peak ! x \<le> peak ! y) (A @ sp ! i # B)"
    using srt A B by (auto simp: sorted_wrt_append less_imp_le)
  ultimately show "by_peak peak (take (Suc i) (insert_prev peak (sp ! i) sp i))" by (simp add: ins by_peak_def)
  have sp: "sp = (A @ B) @ sp ! i # drop (Suc i) sp" using AB id_take_nth_drop [OF i] by simp
  have "mset (A @ sp ! i # B @ drop (Suc i) sp) = mset ((A @ B) @ sp ! i # drop (Suc i) sp)" by simp
  then show "mset (insert_prev peak (sp ! i) sp i) = mset sp" using sp ins by metis
  then show "length (insert_prev peak (sp ! i) sp i) = length sp" by (rule mset_eq_length)
qed

lemma sort_prev_sorts: "by_peak peak (sort_prev peak)" "mset (sort_prev peak) = mset [0..<256]"
proof -
  define f where "f = (\<lambda>i sp. insert_prev peak (sp ! i) sp i)"
  have "by_peak peak (take n (fold f [1..<n] [0..<256])) \<and> mset (fold f [1..<n] [0..<256]) = mset [0..<256]"
    if "1 \<le> n" "n \<le> 256" for n
    using that
  proof (induction n rule: dec_induct)
    case base
    have "take (Suc 0) [0..<256] = [0]" by (simp add: take_Suc upt_rec [of 0 256])
    then show ?case by (simp add: by_peak_def)
  next
    case (step n)
    let ?sp = "fold f [1..<n] [0..<256]"
    have "length ?sp = 256" using step mset_eq_length [of ?sp "[0..<256]"] by simp
    then show ?case using step insert_prev_sorts [of n ?sp peak] by (simp add: f_def)
  qed
  from this [of 256] show "by_peak peak (sort_prev peak)" "mset (sort_prev peak) = mset [0..<256]"
    using mset_eq_length [of "fold f [1..<256] [0..<256]" "[0..<256]"] by (simp_all add: sort_prev_def f_def)
qed

lemma sort_prev_perm: "length (sort_prev peak) = 256" "distinct (sort_prev peak)" "set (sort_prev peak) = {0..<256}"
proof -
  note m = sort_prev_sorts(2) [of peak]
  show "length (sort_prev peak) = 256" using mset_eq_length [OF m] by simp
  show "distinct (sort_prev peak)" using mset_eq_imp_distinct_iff [OF m] by simp
  show "set (sort_prev peak) = {0..<256}" using mset_eq_setD [OF m] by simp
qed

lemma class_groups_nth:
  assumes sp: "length sp = 256" "distinct sp" "set sp \<subseteq> {0..<256}" and q: "q < 256"
  shows "class_groups sp ! (sp ! q) = word_of_nat (q div 32)"
proof -
  have prod: "map (\<lambda>(g, k). (g * 32 + k, g)) (List.product [0..<8] [0..<32]) = map (\<lambda>q. (q, q div 32)) [0..<256]" by code_simp
  have "fold (\<lambda>(g, k) m. m[sp ! (g * 32 + k) := word_of_nat g]) ps m
      = fold (\<lambda>(q, g) m. m[sp ! q := word_of_nat g]) (map (\<lambda>(g, k). (g * 32 + k, g)) ps) m" for ps and m :: "byte list"
    by (induction ps arbitrary: m) auto
  then have "class_groups sp = fold (\<lambda>(q, g) m. m[sp ! q := word_of_nat g]) (map (\<lambda>q. (q, q div 32)) [0..<256]) (replicate 256 0)"
    by (simp add: class_groups_def NETC_BIGRAM_CTX_COUNT_def prod)
  also have "\<dots> = fold (\<lambda>q m. m[sp ! q := word_of_nat (q div 32)]) [0..<256] (replicate 256 0)"
    by (simp add: fold_map comp_def)
  finally have eq: "class_groups sp = fold (\<lambda>q m. m[sp ! q := (\<lambda>_. word_of_nat (q div 32)) (m ! (sp ! q))]) [0..<256] (replicate 256 0)"
    by simp
  have "filter (\<lambda>x. sp ! x = sp ! q) [0..<256] = [q]"
  proof -
    have "filter (\<lambda>x. sp ! x = sp ! q) [0..<256] = filter (\<lambda>x. x = q) [0..<256]"
      using sp q by (intro filter_cong) (auto simp: nth_eq_iff_index_eq)
    also have "\<dots> = [q]"
    proof -
      have "[0..<256] = [0..<q] @ q # [Suc q..<256]" using q upt_add_eq_append [of 0 q "256 - q"] by (simp add: upt_rec [of q])
      then show ?thesis by simp
    qed
    finally show ?thesis .
  qed
  moreover have "sp ! q < 256" using sp(3) nth_mem [of q sp] sp(1) q by fastforce
  ultimately show ?thesis
    unfolding eq by (subst fold_slots) simp_all
qed

lemma length_class_groups [simp]: "length (class_groups sp) = 256"
proof -
  have "length (fold (\<lambda>(g, k) m. m[sp ! (g * 32 + k) := word_of_nat g]) ps m) = length m" for ps and m :: "byte list"
    by (induction ps arbitrary: m) auto
  then show ?thesis by (simp add: class_groups_def)
qed

lemma class_of_byte:
  assumes "p < 256"
  obtains q where "q < 256" "sort_prev peak ! q = p" "class_groups (sort_prev peak) ! p = word_of_nat (q div 32)"
proof -
  have "p \<in> set (sort_prev peak)" using assms sort_prev_perm(3) by simp
  then obtain q where q: "q < 256" "sort_prev peak ! q = p" using sort_prev_perm(1) [of peak] by (auto simp: in_set_conv_nth)
  then have "class_groups (sort_prev peak) ! p = word_of_nat (q div 32)"
    using class_groups_nth [of "sort_prev peak" q] sort_prev_perm [of peak] by simp
  with q that show ?thesis by blast
qed

lemma unat_class: "q < 256 \<Longrightarrow> unat (word_of_nat (q div 32) :: byte) = q div 32"
  by (simp add: unat_of_nat_byte div_less_iff_less_mult)

lemma class_map_ok_train: "class_map_ok (train_class_map pkts)"
proof -
  let ?peak = "map (peak_symbol (cond_counts pkts)) [0..<256]"
  have "unat (class_groups (sort_prev ?peak) ! p) < 8" if "p < 256" for p
    using class_of_byte [OF that, of ?peak] unat_class by (metis div_less_iff_less_mult zero_less_numeral numeral_times_numeral
        semiring_norm(11) semiring_norm(12) semiring_norm(13))
  then show ?thesis
    by (auto simp: class_map_ok_def train_class_map_def Let_def NETC_BIGRAM_CTX_COUNT_def in_set_conv_nth)
qed

text \<open>
  Training divides the 256 previous bytes into eight classes of exactly 32 each, in the order of
  their most frequent successors: a byte with a smaller peak never gets a larger class.
\<close>

theorem class_map_balanced:
  "(\<forall>g < 8. length (filter (\<lambda>c. unat c = g) (train_class_map pkts)) = 32)
   \<and> (\<forall>p < 256. \<forall>q < 256. peak_symbol (cond_counts pkts) p < peak_symbol (cond_counts pkts) q
        \<longrightarrow> train_class_map pkts ! p \<le> train_class_map pkts ! q)"
proof -
  let ?counts = "cond_counts pkts"
  let ?peak = "map (peak_symbol ?counts) [0..<256]"
  let ?sp = "sort_prev ?peak"
  note perm = sort_prev_perm [of ?peak]
  have map_eq: "train_class_map pkts = class_groups ?sp" by (simp add: train_class_map_def Let_def)
  have "length (filter (\<lambda>c. unat c = g) (class_groups ?sp)) = 32" if g: "g < 8" for g
  proof -
    have "{p. p < 256 \<and> unat (class_groups ?sp ! p) = g} = (\<lambda>q. ?sp ! q) ` {g * 32..<g * 32 + 32}"
    proof (intro set_eqI iffI)
      fix p assume p: "p \<in> {p. p < 256 \<and> unat (class_groups ?sp ! p) = g}"
      then obtain q where "q < 256" "?sp ! q = p" "class_groups ?sp ! p = word_of_nat (q div 32)" using class_of_byte by blast
      then have "q div 32 = g" "?sp ! q = p" using p unat_class by simp_all
      moreover from this(1) have "q \<in> {g * 32..<g * 32 + 32}" using div_mult_mod_eq [of q 32] mod_less_divisor [of 32 q] by auto
      ultimately show "p \<in> (\<lambda>q. ?sp ! q) ` {g * 32..<g * 32 + 32}" by auto
    next
      fix p assume "p \<in> (\<lambda>q. ?sp ! q) ` {g * 32..<g * 32 + 32}"
      then obtain q where q: "p = ?sp ! q" "g * 32 \<le> q" "q < g * 32 + 32" by auto
      have d: "q div 32 = g" "q < 256" using q(2,3) g by (auto simp: div_nat_eqI)
      have "?sp ! q < 256" using perm d(2) nth_mem [of q ?sp] by fastforce
      moreover have "unat (class_groups ?sp ! p) = q div 32"
        using class_groups_nth [OF perm(1,2) _ d(2)] perm(3) q(1) unat_class [OF d(2)] by simp
      ultimately show "p \<in> {p. p < 256 \<and> unat (class_groups ?sp ! p) = g}" using q(1) d(1) by simp
    qed
    moreover have "inj_on (\<lambda>q. ?sp ! q) {g * 32..<g * 32 + 32}"
      using perm g by (auto simp: inj_on_def nth_eq_iff_index_eq)
    ultimately have "card {p. p < 256 \<and> unat (class_groups ?sp ! p) = g} = 32" by (simp add: card_image)
    then show ?thesis by (simp add: length_filter_conv_card)
  qed
  moreover have "class_groups ?sp ! p \<le> class_groups ?sp ! q"
    if pq: "p < 256" "q < 256" "peak_symbol ?counts p < peak_symbol ?counts q" for p q
  proof -
    obtain i where i: "i < 256" "?sp ! i = p" "class_groups ?sp ! p = word_of_nat (i div 32)" using class_of_byte [OF pq(1)] by blast
    obtain j where j: "j < 256" "?sp ! j = q" "class_groups ?sp ! q = word_of_nat (j div 32)" using class_of_byte [OF pq(2)] by blast
    have "i \<le> j"
    proof (rule ccontr)
      assume "\<not> i \<le> j"
      then have "?peak ! (?sp ! j) \<le> ?peak ! (?sp ! i)"
        using sort_prev_sorts(1) [of ?peak] i(1) perm(1) by (simp add: by_peak_def sorted_wrt_iff_nth_less)
      then show False using i j pq by simp
    qed
    then show ?thesis using i(3) j(3) unat_class [OF i(1)] unat_class [OF j(1)] by (simp add: word_le_nat_alt div_le_mono)
  qed
  ultimately show ?thesis by (simp add: map_eq)
qed

theorem class_map_balanced_witness:
  "length (filter (\<lambda>c. unat c = 3) (train_class_map [[1, 2, 1]])) = 32"
  using class_map_balanced [of "[[1, 2, 1]]"] by simp

text \<open>
  C32. The LZP table predicts majorities: without saturation (at most 32767 occurrences of a slot), a
  slot that occurs at least twice and holds one byte in more than half of its occurrences predicts
  that byte, and every prediction of the table holds in at least 40 percent of at least two occurrences.
\<close>

theorem lzp_training_majority:
  assumes "h < NETC_LZP_HT_SIZE" and "length (slot_bytes pkts h) \<le> 32767"
  shows "(\<forall>v. 2 \<le> length (slot_bytes pkts h) \<and> length (slot_bytes pkts h) < 2 * count_list (slot_bytes pkts h) v
            \<longrightarrow> train_lzp pkts ! h = \<lparr>lzp_value = v, lzp_valid = 1\<rparr>)
    \<and> (lzp_valid (train_lzp pkts ! h) \<noteq> 0
            \<longrightarrow> 2 \<le> length (slot_bytes pkts h)
              \<and> 4 * length (slot_bytes pkts h) \<le> 10 * count_list (slot_bytes pkts h) (lzp_value (train_lzp pkts ! h)))"
proof -
  let ?xs = "slot_bytes pkts h"
  obtain c k where v: "fold vote_step ?xs (0, 0) = (c, k)" by fastforce
  have "count_list ?xs c \<le> 32767" using count_le_length [of ?xs c] assms(2) by simp
  then have e: "train_lzp pkts ! h = lzp_entry (c, k) (length ?xs, count_list ?xs c)"
    using train_lzp_entry [OF assms(1), of pkts] assms(2) v by (simp add: Let_def)
  have "c = w" if "length ?xs < 2 * count_list ?xs w" for w
    using vote_majority [OF assms(2) that] v by simp
  then show ?thesis unfolding e by (auto simp: lzp_entry_def)
qed

theorem lzp_training_majority_witness:
  "train_lzp [[7], [9], [7]] ! netc_lzp_hash 0 0 = \<lparr>lzp_value = 7, lzp_valid = 1\<rparr>"
proof -
  have "slot_bytes [[7], [9], [7]] (netc_lzp_hash 0 0) = [7, 9, 7]"
    by (simp add: slot_bytes_def train_sites_def packet_sites_def)
  then show ?thesis
    using lzp_training_majority [OF lzp_hash_less, of "[[7], [9], [7]]" 0 0] by simp
qed

section \<open>Counting by segments\<close>

lemma length_bump [simp]: "length (bump k xs) = length xs"
  by (simp add: bump_def)

lemma sum_bump: "k < length xs \<Longrightarrow> sum_list (bump k xs) = sum_list xs + 1"
  by (simp add: bump_def sum_list_update elem_le_sum_list)

lemma fold_bump_nth: "k < length xs \<Longrightarrow> fold (\<lambda>b. bump (unat b)) bs xs ! k = xs ! k + length (filter (\<lambda>b. unat b = k) bs)"
  for bs :: "byte list"
  by (induction bs arbitrary: xs) (auto simp: bump_def nth_list_update)

lemma length_fold_bump [simp]: "length (fold (\<lambda>b. bump (unat b)) bs xs) = length xs" for bs :: "byte list"
  by (induction bs arbitrary: xs) simp_all

text \<open>The thresholds of \<open>bucket_end\<close> are those of \<open>netc_ctx_bucket\<close>.\<close>

lemma bucket_segments:
  "list_all (\<lambda>b. netc_ctx_bucket ((0 # bucket_end) ! b) = b \<and> netc_ctx_bucket (bucket_end ! b - 1) = b) [0..<16]"
  by (simp add: upt_rec [of _ 16] bucket_end_def netc_ctx_bucket_def bucket_lut_def nth_append)

lemma ctx_bucket_mono: "i \<le> j \<Longrightarrow> netc_ctx_bucket i \<le> netc_ctx_bucket j"
proof -
  have all: "list_all (\<lambda>i. bucket_lut ! i \<le> bucket_lut ! (i + 1)) [0..<255]" by code_simp
  have "bucket_lut ! i \<le> bucket_lut ! (i + k)" if "i + k < 256" for i k
    using that
  proof (induction k)
    case (Suc k)
    then have "bucket_lut ! (i + k) \<le> bucket_lut ! (i + k + 1)" using all by (simp add: list_all_iff)
    then show ?case using Suc by simp
  qed simp
  from this [of i "j - i"] have "i \<le> j \<Longrightarrow> j < 256 \<Longrightarrow> bucket_lut ! i \<le> bucket_lut ! j" by simp
  then show "i \<le> j \<Longrightarrow> netc_ctx_bucket i \<le> netc_ctx_bucket j"
    using bucket_lut_bounds [of i] by (auto simp: netc_ctx_bucket_def)
qed

lemma segment_bucket:
  assumes "b < 16" and "(0 # bucket_end) ! b \<le> i" and "i < bucket_end ! b" shows "netc_ctx_bucket i = b"
proof -
  have "b \<in> set [0..<16]" using assms(1) by simp
  then have "netc_ctx_bucket ((0 # bucket_end) ! b) = b" "netc_ctx_bucket (bucket_end ! b - 1) = b"
    using bucket_segments unfolding list_all_iff by blast+
  then show ?thesis
    using ctx_bucket_mono [OF assms(2)] ctx_bucket_mono [of i "bucket_end ! b - 1"] assms(3) by simp
qed

text \<open>Counting bytes of one bucket.\<close>

lemma fold_one_bucket:
  assumes "\<And>x. x \<in> set xs \<Longrightarrow> netc_ctx_bucket (fst (snd x)) = b" and "b < length raw" and "b < length tot"
  shows "fold count_unigram xs (raw, tot)
     = (raw[b := fold (\<lambda>b. bump (unat b)) (map (snd \<circ> snd) xs) (raw ! b)], tot[b := tot ! b + length xs])"
  using assms
proof (induction xs arbitrary: raw tot)
  case (Cons x xs)
  obtain p i c where x: "x = (p, i, c)" by (metis prod_cases3)
  have "netc_ctx_bucket i = b" using Cons.prems(1) [of x] x by simp
  then show ?case using Cons x by (simp add: count_unigram_def bump_def Let_def)
qed simp

lemma ops_freq_count_fold:
  assumes "len \<le> length data"
  shows "ops_freq_count (netc_simd_ops_init pf level) data len (replicate 256 0) = fold freq_inc (take len data) (replicate 256 0)"
  using freq_count_vector [OF assms, of "replicate 256 0"]
  by (simp add: netc_simd_ops_init_def Let_def netc_freq_count_generic_def)

lemma segment_counts:
  assumes "length row = 256" and "length seg < 2 ^ 32"
  shows "map2 (\<lambda>c t. c + unat t) row (fold freq_inc seg (replicate 256 (0 :: u32))) = fold (\<lambda>b. bump (unat b)) seg row"
proof (rule nth_equalityI)
  fix k assume "k < length (map2 (\<lambda>c t. c + unat t) row (fold freq_inc seg (replicate 256 (0 :: u32))))"
  then have k: "k < 256" using assms(1) by simp
  have "length (filter (\<lambda>b. unat b = k) seg) < 2 ^ 32" using assms(2) length_filter_le order_le_less_trans by blast
  then have "unat (of_nat (length (filter (\<lambda>b. unat b = k) seg)) :: u32) = length (filter (\<lambda>b. unat b = k) seg)"
    by (simp add: word_of_nat_unat_id)
  then show "map2 (\<lambda>c t. c + unat t) row (fold freq_inc seg (replicate 256 (0 :: u32))) ! k = fold (\<lambda>b. bump (unat b)) seg row ! k"
    using k assms(1) by (simp add: fold_freq_inc_nth fold_bump_nth)
qed (use assms in simp)

lemma length_packet_sites [simp]: "length (packet_sites pkt) = length pkt"
  by (simp add: packet_sites_def)

lemma nth_packet_sites: "i < length pkt \<Longrightarrow> snd (packet_sites pkt ! i) = (i, pkt ! i)"
  by (simp add: packet_sites_def)

lemma bucket_end_mono: "k < 16 \<Longrightarrow> (0 # bucket_end) ! k \<le> bucket_end ! k"
proof -
  have "list_all (\<lambda>k. (0 # bucket_end) ! k \<le> bucket_end ! k) [0..<16]"
    by (simp add: upt_rec [of _ 16] bucket_end_def)
  then show "k < 16 \<Longrightarrow> (0 # bucket_end) ! k \<le> bucket_end ! k" by (simp add: list_all_iff)
qed

lemma length_bucket_end [simp]: "length bucket_end = 16"
  by (simp add: bucket_end_def)

text \<open>One segment is one run of \<open>count_unigram\<close>.\<close>

lemma segment_run:
  assumes s: "s = min ((0 # bucket_end) ! k) (length pkt)" and e: "e = min (bucket_end ! k) (length pkt)" and k: "k < 16"
    and raw: "length raw = 16" "length (raw ! k) = 256" "length tot = 16" and n: "length pkt < 2 ^ 32"
  shows "fold count_unigram (drop s (packet_sites pkt)) (raw, tot) = fold count_unigram (drop e (packet_sites pkt))
    (raw[k := map2 (\<lambda>c t. c + unat t) (raw ! k) (ops_freq_count (netc_simd_ops_init pf l) (drop s pkt) (e - s) (replicate NETC_TANS_SYMBOLS 0))],
     tot[k := tot ! k + (e - s)])"
proof -
  let ?seg = "take (e - s) (drop s (packet_sites pkt))"
  have se: "s \<le> e" using bucket_end_mono [OF k] s e by auto
  have "netc_ctx_bucket (fst (snd x)) = k" if x: "x \<in> set ?seg" for x
  proof -
    obtain j where j: "j < e - s" "x = packet_sites pkt ! (s + j)" using x e by (auto simp: in_set_conv_nth)
    then have "s + j < length pkt" "s + j < bucket_end ! k" using se e by auto
    moreover have "(0 # bucket_end) ! k \<le> s + j" using calculation(1) s by auto
    ultimately show ?thesis using segment_bucket [OF k] nth_packet_sites [of "s + j" pkt] j(2) by simp
  qed
  then have "fold count_unigram ?seg (raw, tot)
      = (raw[k := fold (\<lambda>b. bump (unat b)) (map (snd \<circ> snd) ?seg) (raw ! k)], tot[k := tot ! k + length ?seg])"
    using raw k by (intro fold_one_bucket) auto
  moreover have "map (snd \<circ> snd) ?seg = take (e - s) (drop s pkt)"
    using nth_packet_sites [of _ pkt] e by (intro nth_equalityI) auto
  moreover have "fold (\<lambda>b. bump (unat b)) (take (e - s) (drop s pkt)) (raw ! k)
      = map2 (\<lambda>c t. c + unat t) (raw ! k) (ops_freq_count (netc_simd_ops_init pf l) (drop s pkt) (e - s) (replicate NETC_TANS_SYMBOLS 0))"
    using segment_counts [OF raw(2), of "take (e - s) (drop s pkt)"] ops_freq_count_fold [of "e - s" "drop s pkt" pf l] n e
    by (simp add: NETC_TANS_SYMBOLS_def)
  moreover have "length ?seg = e - s" using e se by simp
  moreover have "fold count_unigram (drop s (packet_sites pkt)) st = fold count_unigram (drop e (packet_sites pkt)) (fold count_unigram ?seg st)" for st
  proof -
    have "drop s (packet_sites pkt) = ?seg @ drop e (packet_sites pkt)" using se by (metis append_take_drop_id drop_drop le_add_diff_inverse2)
    then show ?thesis by (metis fold_append comp_apply)
  qed
  ultimately show ?thesis by simp
qed

definition rows_ok :: "nat list list \<Rightarrow> bool" where
  "rows_ok raw \<longleftrightarrow> length raw = 16 \<and> (\<forall>row \<in> set raw. length row = 256)"

lemma length_freq_count:
  "len \<le> length data \<Longrightarrow> length (ops_freq_count (netc_simd_ops_init pf l) data len (replicate NETC_TANS_SYMBOLS 0)) = 256"
  using ops_freq_count_fold [of len data pf l] by (simp add: NETC_TANS_SYMBOLS_def)

lemma count_segments_run:
  assumes "k \<le> 16" and "rows_ok raw" and "length tot = 16" and n: "length pkt \<le> 65536"
  shows "count_segments (netc_simd_ops_init pf l) pkt (min ((0 # bucket_end) ! k) (length pkt)) (enumerate k (drop k bucket_end)) (raw, tot)
    = fold count_unigram (drop (min ((0 # bucket_end) ! k) (length pkt)) (packet_sites pkt)) (raw, tot)"
  using assms(1-3)
proof (induction "16 - k" arbitrary: k raw tot)
  case 0
  then have "k = 16" by simp
  moreover have "(0 # bucket_end) ! 16 = 65536" by (simp add: bucket_end_def)
  ultimately show ?case using n by (simp add: min_absorb2)
next
  case (Suc m)
  then have k: "k < 16" by simp
  define s where "s = min ((0 # bucket_end) ! k) (length pkt)"
  define e where "e = min (bucket_end ! k) (length pkt)"
  define raw' where "raw' = raw[k := map2 (\<lambda>c t. c + unat t) (raw ! k)
      (ops_freq_count (netc_simd_ops_init pf l) (drop s pkt) (e - s) (replicate NETC_TANS_SYMBOLS 0))]"
  have bs: "enumerate k (drop k bucket_end) = (k, bucket_end ! k) # enumerate (Suc k) (drop (Suc k) bucket_end)"
    using k by (simp add: Cons_nth_drop_Suc [symmetric])
  have row: "length (raw ! k) = 256" "length raw = 16" using Suc.prems(2) k by (simp_all add: rows_ok_def)
  have run: "fold count_unigram (drop s (packet_sites pkt)) (raw, tot)
      = fold count_unigram (drop e (packet_sites pkt)) (raw', tot[k := tot ! k + (e - s)])"
    using segment_run [OF s_def e_def k row(2,1) Suc.prems(3), of pf l] n by (simp add: raw'_def)
  show ?case
  proof (cases "length pkt \<le> s")
    case True
    then show ?thesis by (simp add: bs s_def [symmetric])
  next
    case False
    have "length (ops_freq_count (netc_simd_ops_init pf l) (drop s pkt) (e - s) (replicate NETC_TANS_SYMBOLS 0)) = 256"
      by (rule length_freq_count) (simp add: e_def)
    then have "rows_ok raw'" using Suc.prems(2) row unfolding raw'_def rows_ok_def by (auto dest!: set_update_memI subsetD [OF set_update_subset_insert])
    then have "count_segments (netc_simd_ops_init pf l) pkt e (enumerate (Suc k) (drop (Suc k) bucket_end)) (raw', tot[k := tot ! k + (e - s)])
        = fold count_unigram (drop e (packet_sites pkt)) (raw', tot[k := tot ! k + (e - s)])"
      using Suc.hyps(1) [of "Suc k" raw' "tot[k := tot ! k + (e - s)]"] Suc.hyps(2) k Suc.prems(3) by (simp add: e_def)
    moreover have "(if length pkt < bucket_end ! k then length pkt else bucket_end ! k) = e" by (simp add: e_def)
    ultimately show ?thesis using False run unfolding s_def [symmetric] bs by (simp add: raw'_def Let_def)
  qed
qed

lemma count_unigram_rows:
  assumes "rows_ok raw" and "length tot = 16"
  shows "rows_ok (fst (fold count_unigram xs (raw, tot))) \<and> length (snd (fold count_unigram xs (raw, tot))) = 16"
  using assms
proof (induction xs arbitrary: raw tot)
  case (Cons x xs)
  obtain p i b where x: "x = (p, i, b)" by (metis prod_cases3)
  have "rows_ok (raw[netc_ctx_bucket i := bump (unat b) (raw ! netc_ctx_bucket i)])"
    using Cons.prems(1) unfolding rows_ok_def by (auto dest!: subsetD [OF set_update_subset_insert])
  then show ?case using Cons x by (simp add: count_unigram_def Let_def)
qed simp

lemma train_unigram_eq:
  assumes "list_all (\<lambda>pkt. length pkt \<le> NETC_MAX_PACKET_SIZE) pkts"
  shows "train_unigram (netc_simd_ops_init pf level) pkts = refine_unigram pkts"
proof -
  have "fold (\<lambda>pkt. count_segments (netc_simd_ops_init pf level) pkt 0 (enumerate 0 bucket_end)) pkts (raw, tot)
      = fold count_unigram (train_sites pkts) (raw, tot)" if "rows_ok raw" "length tot = 16" for raw tot
    using that assms
  proof (induction pkts arbitrary: raw tot)
    case (Cons pkt pkts)
    have "count_segments (netc_simd_ops_init pf level) pkt 0 (enumerate 0 bucket_end) (raw, tot) = fold count_unigram (packet_sites pkt) (raw, tot)"
      using count_segments_run [of 0 raw tot pkt pf level] Cons.prems by (simp add: NETC_MAX_PACKET_SIZE_def)
    moreover obtain raw' tot' where "fold count_unigram (packet_sites pkt) (raw, tot) = (raw', tot')" by fastforce
    ultimately show ?case using Cons count_unigram_rows [OF Cons.prems(1,2), of "packet_sites pkt"] by (simp add: train_sites_def)
  qed (simp add: train_sites_def)
  then show ?thesis
    by (simp add: train_unigram_def refine_unigram_def zero_counts_def rows_ok_def NETC_CTX_COUNT_def NETC_TANS_SYMBOLS_def)
qed

text \<open>
  Counting a packet segment by segment with the histogram of the processor counts every byte in the
  bucket of its position: on packets of at most 65535 bytes it equals counting byte by byte with
  \<open>netc_ctx_bucket\<close>, as the second half of training does.
\<close>

theorem train_counts_by_bucket:
  assumes "list_all (\<lambda>pkt. length pkt \<le> NETC_MAX_PACKET_SIZE) pkts"
  shows "train_unigram (netc_simd_ops_init pf level) pkts = refine_unigram pkts"
  by (rule train_unigram_eq [OF assms])

theorem train_counts_by_bucket_witness:
  "train_unigram (netc_simd_ops_init scalar_platform 0) [[5, 5, 6], [1]] = refine_unigram [[5, 5, 6], [1]]"
  by (rule train_counts_by_bucket) (simp add: NETC_MAX_PACKET_SIZE_def)

section \<open>The trained dictionary\<close>

text \<open>Counts with their totals, below a bound.\<close>

definition counts_ok :: "nat \<Rightarrow> nat \<Rightarrow> nat list list \<Rightarrow> nat list \<Rightarrow> bool" where
  "counts_ok n lim raw tot \<longleftrightarrow> length raw = n \<and> length tot = n
     \<and> (\<forall>b < n. length (raw ! b) = 256 \<and> sum_list (raw ! b) = tot ! b \<and> tot ! b \<le> lim)"

lemma counts_ok_bump:
  assumes "counts_ok n lim raw tot" and "b < n" and "s < 256"
  shows "counts_ok n (lim + 1) (raw[b := bump s (raw ! b)]) (bump b tot)"
  using assms sum_bump [of s "raw ! b"] by (auto simp: counts_ok_def bump_def nth_list_update)

lemma counts_ok_mono: "counts_ok n lim raw tot \<Longrightarrow> lim \<le> lim' \<Longrightarrow> counts_ok n lim' raw tot"
  by (force simp: counts_ok_def)

lemma refine_counts_ok:
  "counts_ok 16 lim raw tot \<Longrightarrow> fold count_unigram xs (raw, tot) = (raw', tot') \<Longrightarrow> counts_ok 16 (lim + length xs) raw' tot'"
proof (induction xs arbitrary: raw tot lim)
  case (Cons x xs)
  obtain p i b where x: "x = (p, i, b)" by (metis prod_cases3)
  have ok: "counts_ok 16 (lim + 1) (raw[netc_ctx_bucket i := bump (unat b) (raw ! netc_ctx_bucket i)]) (bump (netc_ctx_bucket i) tot)"
    using counts_ok_bump [OF Cons.prems(1) ctx_bucket_less] unat_byte_less by blast
  show ?case using Cons.IH [OF ok] Cons.prems(2) x by (simp add: count_unigram_def Let_def)
qed simp

definition bigrams_ok :: "nat \<Rightarrow> nat list list list \<Rightarrow> nat list list \<Rightarrow> bool" where
  "bigrams_ok lim raw tot \<longleftrightarrow> length raw = 16 \<and> length tot = 16 \<and> (\<forall>b < 16. counts_ok 8 lim (raw ! b) (tot ! b))"

lemma bigram_counts_ok:
  assumes "class_map_ok cm"
  shows "bigrams_ok lim raw tot \<Longrightarrow> fold (count_bigram cm) xs (raw, tot) = (raw', tot') \<Longrightarrow> bigrams_ok (lim + length xs) raw' tot'"
proof (induction xs arbitrary: raw tot lim)
  case (Cons x xs)
  obtain p i b where x: "x = (p, i, b)" by (metis prod_cases3)
  define k where "k = netc_ctx_bucket i"
  define c where "c = netc_bigram_class p (Some cm)"
  have k: "k < 16" by (simp add: k_def)
  have c: "c < 8" using assms unat_byte_less [of p] by (simp add: c_def netc_bigram_class_def class_map_ok_def NETC_BIGRAM_CTX_COUNT_def)
  have "counts_ok 8 (lim + 1) ((raw ! k)[c := bump (unat b) (raw ! k ! c)]) (bump c (tot ! k))"
    using counts_ok_bump [OF _ c, of lim "raw ! k" "tot ! k" "unat b"] Cons.prems(1) k unat_byte_less by (simp add: bigrams_ok_def)
  then have ok: "bigrams_ok (lim + 1) (raw[k := (raw ! k)[c := bump (unat b) (raw ! k ! c)]]) (tot[k := bump c (tot ! k)])"
    using Cons.prems(1) counts_ok_mono [of 8 lim] k by (auto simp: bigrams_ok_def nth_list_update)
  show ?case using Cons.IH [OF ok] Cons.prems(2) x by (simp add: count_bigram_def Let_def k_def c_def)
qed simp

lemma zero_counts_ok: "counts_ok 16 0 (fst zero_counts) (snd zero_counts)" "bigrams_ok 0 (fst zero_bigram) (snd zero_bigram)"
  by (simp_all add: counts_ok_def bigrams_ok_def zero_counts_def zero_bigram_def NETC_CTX_COUNT_def NETC_TANS_SYMBOLS_def
      NETC_BIGRAM_CTX_COUNT_def sum_list_replicate)

lemma refine_unigram_ok:
  assumes "refine_unigram pkts = (raw, tot)" shows "counts_ok 16 (length (train_sites pkts)) raw tot"
  using refine_counts_ok [of 0 "fst zero_counts" "snd zero_counts" "train_sites pkts"] zero_counts_ok(1) assms
  by (simp add: refine_unigram_def)

lemma train_bigram_ok:
  assumes "train_bigram cm pkts = (raw, tot)" and "class_map_ok cm" shows "bigrams_ok (length (train_sites pkts)) raw tot"
  using bigram_counts_ok [OF assms(2), of 0 "fst zero_bigram" "snd zero_bigram" "train_sites pkts"] zero_counts_ok(2) assms(1)
  by (simp add: train_bigram_def)

lemma those_map:
  assumes "\<And>x. x \<in> set xs \<Longrightarrow> \<exists>y. f x = Some y \<and> P y"
  shows "\<exists>ys. those (map f xs) = Some ys \<and> length ys = length xs \<and> (\<forall>y \<in> set ys. P y)"
  using assms
proof (induction xs)
  case (Cons x xs)
  then obtain y ys where "f x = Some y" "P y" "those (map f xs) = Some ys" "length ys = length xs" "\<forall>y \<in> set ys. P y"
    using Cons.IH Cons.prems by (meson list.set_intros)
  then show ?case by simp
qed simp

lemma row_built:
  assumes "counts_ok n lim raw tot" and "lim < 2 ^ 52" and "(r, t) \<in> set (zip raw tot)"
  shows "\<exists>u. netc_tans_build (freq_normalize r t) = Some u \<and> full u"
proof -
  obtain b where "b < n" "r = raw ! b" "t = tot ! b" using assms(1,3) by (auto simp: counts_ok_def set_zip)
  then have "length r = NETC_TANS_SYMBOLS" "t = sum_list r" "sum_list r < 2 ^ 52"
    using assms(1,2) by (auto simp: counts_ok_def NETC_TANS_SYMBOLS_def intro: le_less_trans)
  then show ?thesis using normalized_full by simp
qed

lemma build_tables_full:
  assumes "counts_ok n lim raw tot" and "lim < 2 ^ 52"
  shows "\<exists>ts. build_tables raw tot = Some ts \<and> length ts = n \<and> (\<forall>t \<in> set ts. full t)"
proof -
  have "\<exists>ys. those (map (\<lambda>(r, t). netc_tans_build (freq_normalize r t)) (zip raw tot)) = Some ys
      \<and> length ys = length (zip raw tot) \<and> (\<forall>y \<in> set ys. full y)"
    using row_built [OF assms] by (intro those_map) auto
  then show ?thesis using assms(1) by (simp add: build_tables_def counts_ok_def)
qed

lemma rebuilt_full:
  assumes "counts_ok n lim raw tot" and "lim < 2 ^ 52" and "length old = n"
  shows "length (map2 (\<lambda>old (r, t). rebuilt old r t) old (zip raw tot)) = n"
    and "\<forall>u \<in> set (map2 (\<lambda>old (r, t). rebuilt old r t) old (zip raw tot)). full u"
proof -
  show "length (map2 (\<lambda>old (r, t). rebuilt old r t) old (zip raw tot)) = n" using assms by (simp add: counts_ok_def)
  show "\<forall>u \<in> set (map2 (\<lambda>old (r, t). rebuilt old r t) old (zip raw tot)). full u"
  proof
    fix u assume "u \<in> set (map2 (\<lambda>old (r, t). rebuilt old r t) old (zip raw tot))"
    then obtain o' r t where "u = rebuilt o' r t" "(r, t) \<in> set (zip raw tot)" by (auto dest: set_zip_rightD)
    then show "full u" using row_built [OF assms(1,2)] by (fastforce simp: rebuilt_def)
  qed
qed

lemma length_train_sites: "length (train_sites pkts) = sum_list (map length pkts)"
  by (simp add: train_sites_def length_concat comp_def)

lemma length_filtered_sites: "length (train_sites (map (\<lambda>pkt. netc_lzp_xor_filter pkt lzp) pkts)) = length (train_sites pkts)"
  by (simp add: length_train_sites comp_def)

text \<open>
  A dictionary that is ready for use: it can be stored, and its tables, like those of the bigram
  contexts, code every byte.
\<close>

definition dict_ready :: "netc_dict \<Rightarrow> bool" where
  "dict_ready d \<longleftrightarrow> dict_wf d \<and> class_map_ok (d_bigram_class_map d) \<and> coder_full d (d_tables d)"

lemma train_dict_ready:
  assumes len: "list_all (\<lambda>pkt. length pkt \<le> NETC_MAX_PACKET_SIZE) pkts" and lim: "length (train_sites pkts) < 2 ^ 52"
  shows "\<exists>d. train_dict pf pkts model_id = Inr d \<and> dict_storable d \<and> dict_ready d \<and> d_model_id d = model_id
    \<and> d_lzp_table d = Some (train_lzp pkts)"
proof -
  define lzp where "lzp = train_lzp pkts"
  define filtered where "filtered = map (\<lambda>pkt. netc_lzp_xor_filter pkt lzp) pkts"
  define cm where "cm = train_class_map pkts"
  have cm: "class_map_ok cm" by (simp add: cm_def class_map_ok_train)
  have fl: "length (train_sites filtered) = length (train_sites pkts)" by (simp add: filtered_def length_filtered_sites)
  obtain raw tot where u: "train_unigram (netc_simd_ops_init pf 0) pkts = (raw, tot)" by fastforce
  have u_ok: "counts_ok 16 (length (train_sites pkts)) raw tot"
    using refine_unigram_ok train_unigram_eq [OF len, of pf 0] u by metis
  obtain braw btot where b: "train_bigram cm pkts = (braw, btot)" by fastforce
  note b_ok = train_bigram_ok [OF b cm]
  obtain raw2 tot2 where u2: "refine_unigram filtered = (raw2, tot2)" by fastforce
  have u2_ok: "counts_ok 16 (length (train_sites pkts)) raw2 tot2" using refine_unigram_ok [OF u2] fl by simp
  obtain braw2 btot2 where b2: "train_bigram cm filtered = (braw2, btot2)" by fastforce
  have b2_ok: "bigrams_ok (length (train_sites pkts)) braw2 btot2" using train_bigram_ok [OF b2 cm] fl by simp
  obtain ts where ts: "build_tables raw tot = Some ts" "length ts = 16" using build_tables_full [OF u_ok lim] by blast
  have "\<exists>ys. those (map (\<lambda>(r, t). build_tables r t) (zip braw btot)) = Some ys \<and> length ys = length (zip braw btot)
      \<and> (\<forall>y \<in> set ys. length y = 8)"
  proof (rule those_map)
    fix x assume "x \<in> set (zip braw btot)"
    then obtain k where "k < 16" "x = (braw ! k, btot ! k)" using b_ok by (auto simp: bigrams_ok_def set_zip)
    then show "\<exists>y. (case x of (r, t) \<Rightarrow> build_tables r t) = Some y \<and> length y = 8"
      using build_tables_full [OF _ lim, of 8 "braw ! k" "btot ! k"] b_ok by (auto simp: bigrams_ok_def)
  qed
  then obtain bts where bts: "those (map2 build_tables braw btot) = Some bts" "length bts = 16" "\<forall>row \<in> set bts. length row = 8"
    using b_ok by (auto simp: bigrams_ok_def)
  define ts' where "ts' = map2 (\<lambda>old (r, t). rebuilt old r t) ts (zip raw2 tot2)"
  define bts' where "bts' = map2 (\<lambda>row (rs, tt). map2 (\<lambda>old (r, t). rebuilt old r t) row (zip rs tt)) bts (zip braw2 btot2)"
  define d0 where "d0 = \<lparr>d_magic = NETC_DICT_MAGIC, d_version = NETC_DICT_VERSION, d_model_id = model_id,
     d_ctx_count = word_of_nat NETC_CTX_COUNT, d_dict_flags = NETC_DICT_FLAG_LZP,
     d_tables = ts', d_bigram_tables = bts', d_bigram_class_map = cm,
     d_bigram_class_count = word_of_nat NETC_BIGRAM_CTX_COUNT, d_lzp_table = Some lzp, d_checksum = 0\<rparr>"
  define d where "d = d0\<lparr>d_checksum := netc_crc32 (train_blob d0 lzp)\<rparr>"
  have train: "train_dict pf pkts model_id = Inr d"
    unfolding train_dict_def u prod.case cm_def [symmetric] b ts(1) bts(1) option.case Let_def lzp_def [symmetric]
      filtered_def [symmetric] u2 b2 ts'_def [symmetric] bts'_def [symmetric] d0_def [symmetric] d_def ..
  have full: "length ts' = 16" "\<forall>t \<in> set ts'. full t"
    using rebuilt_full [OF u2_ok lim ts(2)] by (simp_all add: ts'_def)
  have row: "length row = 8 \<and> (\<forall>t \<in> set row. full t)" if row: "row \<in> set bts'" for row
  proof -
    obtain k where k: "k < 16" "row = map2 (\<lambda>old (r, t). rebuilt old r t) (bts ! k) (zip (braw2 ! k) (btot2 ! k))"
      using row b2_ok bts(2) by (auto simp: bts'_def bigrams_ok_def set_zip)
    then have "counts_ok 8 (length (train_sites pkts)) (braw2 ! k) (btot2 ! k)" "length (bts ! k) = 8"
      using b2_ok bts by (simp_all add: bigrams_ok_def)
    then show ?thesis using rebuilt_full [OF _ lim] k(2) by simp
  qed
  have len_b: "length bts' = 16" using bts(2) b2_ok by (simp add: bts'_def bigrams_ok_def)
  have "built (row ! c)" if "row' \<in> set bts'" "c < 8" "row = row'" for row row' c
    using row [OF that(1)] that nth_mem [of c row] by (auto simp: full_def)
  then have wf: "dict_wf d"
    using full row len_b full_def
    by (auto simp: dict_wf_def d_def d0_def NETC_CTX_COUNT_def NETC_BIGRAM_CTX_COUNT_def dict_classes_def NETC_DICT_VERSION_def lzp_def)
  have ready: "dict_ready d"
    using wf cm full row dict_tables_wf [OF wf]
    by (auto simp: dict_ready_def coder_full_def coder_ok_def d_def d0_def)
  have flag: "has_flag NETC_DICT_FLAG_LZP NETC_DICT_FLAG_LZP" by (simp add: has_flag_def NETC_DICT_FLAG_LZP_def)
  have "dict_body d = Inr (train_blob d0 lzp)"
  proof -
    have "map (\<lambda>row. concat (map (\<lambda>t. freq_bytes (tt_freq t)) (take 8 row))) bts' = map (\<lambda>row. concat (map (\<lambda>t. freq_bytes (tt_freq t)) row)) bts'"
      using row by (intro map_cong) auto
    then show ?thesis
      using flag by (simp add: dict_body_def train_blob_def d_def d0_def dict_classes_def NETC_DICT_VERSION_def NETC_BIGRAM_CTX_COUNT_def
          cong: map_cong)
  qed
  then have "dict_storable d"
    using wf cm flag by (simp add: dict_storable_def d_def d0_def NETC_DICT_VERSION_def class_map_ok_def)
  then show ?thesis using train ready by (simp add: d_def d0_def lzp_def)
qed

lemma train_packets_bound:
  "list_all (\<lambda>pkt. length pkt \<le> NETC_MAX_PACKET_SIZE) (train_packets ps)"
  "length (train_sites (train_packets ps)) \<le> length ps * NETC_MAX_PACKET_SIZE"
proof -
  show all: "list_all (\<lambda>pkt. length pkt \<le> NETC_MAX_PACKET_SIZE) (train_packets ps)"
    by (auto simp: list_all_iff train_packets_def List.map_filter_def split: option.splits list.splits)
  have "length (train_packets ps) \<le> length ps" by (simp add: train_packets_def List.map_filter_def)
  moreover have "sum_list (map length xs) \<le> length xs * NETC_MAX_PACKET_SIZE"
    if "list_all (\<lambda>pkt. length pkt \<le> NETC_MAX_PACKET_SIZE) xs" for xs :: "byte list list"
    using that by (induction xs) auto
  ultimately show "length (train_sites (train_packets ps)) \<le> length ps * NETC_MAX_PACKET_SIZE"
    using all mult_le_mono1 order_trans unfolding length_train_sites by blast
qed

lemma train_ready:
  assumes "model_id \<noteq> 0" and "model_id \<noteq> 255" and "n_packets < 2 ^ 36" and "packets \<noteq> None \<or> n_packets = 0"
  shows "\<exists>d blob. netc_dict_train pf packets n_packets model_id True = Inr d \<and> dict_ready d \<and> d_model_id d = model_id
    \<and> netc_dict_save d = Inr blob \<and> netc_dict_load (blob @ extra) = Inr d \<and> d_lzp_table d \<noteq> None"
proof -
  define ps where "ps = take n_packets (case packets of None \<Rightarrow> [] | Some ps \<Rightarrow> ps)"
  have "length ps \<le> n_packets" by (simp add: ps_def)
  then have "length (train_sites (train_packets ps)) \<le> n_packets * NETC_MAX_PACKET_SIZE"
    using train_packets_bound(2) [of ps] mult_le_mono1 order_trans by blast
  also have "\<dots> < 2 ^ 52" using assms(3) by (simp add: NETC_MAX_PACKET_SIZE_def)
  finally obtain d where "train_dict pf (train_packets ps) model_id = Inr d" "dict_storable d" "dict_ready d" "d_model_id d = model_id"
    "d_lzp_table d \<noteq> None"
    using train_dict_ready [OF train_packets_bound(1)] by blast
  then show ?thesis
    using assms dict_load_save [of d extra] by (auto simp: netc_dict_train_def ps_def)
qed

text \<open>
  C10. Training succeeds on every set of fewer than \<open>2 ^ 36\<close> packets, empty, missing and oversized ones
  included: the dictionary carries the model id, its tables code every byte, its class map is in range,
  and saving and loading it returns it unchanged.
\<close>

theorem dict_train_ready:
  assumes "model_id \<noteq> 0" and "model_id \<noteq> 255" and "n_packets < 2 ^ 36" and "packets \<noteq> None \<or> n_packets = 0"
  shows "\<exists>d blob. netc_dict_train pf packets n_packets model_id True = Inr d \<and> dict_ready d \<and> d_model_id d = model_id
    \<and> netc_dict_save d = Inr blob \<and> netc_dict_load (blob @ extra) = Inr d"
  using train_ready [OF assms] by blast

theorem dict_train_ready_witness:
  "\<exists>d blob. netc_dict_train scalar_platform (Some [Some [1, 2, 3], None, Some []]) 3 7 True = Inr d \<and> dict_ready d \<and> d_model_id d = 7
    \<and> netc_dict_save d = Inr blob \<and> netc_dict_load (blob @ []) = Inr d"
  by (rule dict_train_ready) simp_all

end
