(* ===== verification/Netc_Link.thy ===== *)
theory Netc_Link
  imports Netc_Bounds Netc_Stateless Netc_Train
begin

text \<open>
  Two contexts at the ends of a connection (\<open>src/include/netc.h\<close>: the calling pattern of
  \<open>NETC_CFG_FLAG_STATEFUL\<close> and of \<open>NETC_CFG_FLAG_STATELESS\<close>).  An ordered link keeps a queue of packets
  in flight: the sender compresses any packet into it, the receiver decompresses from it, either call may be
  refused, and both contexts are reset when the queue is empty.  A datagram link may lose, repeat and reorder
  its packets.

  The machines send whatever the application offers, the packets that the program is known to mis-code
  included (\<open>lossless\<close> excludes these: odd sizes from 256 bytes with a dictionary and without
  \<open>NETC_CFG_FLAG_BIGRAM\<close>, and order-2 delta under the compact header).  For them nothing is claimed: the
  ordered link notes in \<open>lk_clean\<close> whether all packets sent so far were outside the two defects, and the
  theorems have it, or a condition on the configuration that implies it, as a hypothesis.

  The laws of the codec are the locale \<open>packet_codec\<close>, interpreted on \<open>netc_compress\<close> and
  \<open>netc_decompress\<close>; the invariant of the ordered link is proved in the locale and carried over every step.
\<close>

section \<open>The buffer bound\<close>

definition NETC_MAX_OVERHEAD :: nat where "NETC_MAX_OVERHEAD = 8"

definition netc_compress_bound :: "nat \<Rightarrow> nat" where
  "netc_compress_bound src_size = (src_size + NETC_MAX_OVERHEAD) mod 2 ^ 64"

lemma compress_bound_room: "n \<le> NETC_MAX_PACKET_SIZE \<Longrightarrow> netc_compress_bound n = n + NETC_HEADER_SIZE"
  by (simp add: netc_compress_bound_def NETC_MAX_OVERHEAD_def NETC_MAX_PACKET_SIZE_def NETC_HEADER_SIZE_def)

section \<open>Codecs and the packets in flight\<close>

text \<open>Packets in flight between two states of the sender: each was encoded in the state the one before left.\<close>

fun flight :: "('s \<Rightarrow> 'p \<Rightarrow> 'w \<Rightarrow> 's \<Rightarrow> bool) \<Rightarrow> 's \<Rightarrow> 'w list \<Rightarrow> 'p list \<Rightarrow> 's \<Rightarrow> bool" where
  "flight enc c [] ps c' \<longleftrightarrow> ps = [] \<and> c' = c"
| "flight enc c (w # ws) [] c' \<longleftrightarrow> False"
| "flight enc c (w # ws) (p # ps) c' \<longleftrightarrow> (\<exists>c1. enc c p w c1 \<and> flight enc c1 ws ps c')"

lemma flight_snoc: "flight enc c ws ps c' \<Longrightarrow> enc c' p w c'' \<Longrightarrow> flight enc c (ws @ [w]) (ps @ [p]) c''"
  by (induction enc c ws ps c' rule: flight.induct) auto

lemma flight_length: "flight enc c ws ps c' \<Longrightarrow> length ws = length ps"
  by (induction enc c ws ps c' rule: flight.induct) auto

locale packet_codec =
  fixes ready :: "'s \<Rightarrow> bool"
    and sync :: "'s \<Rightarrow> 's \<Rightarrow> bool"
    and enc :: "'s \<Rightarrow> 'p \<Rightarrow> 'w \<Rightarrow> 's \<Rightarrow> bool"
    and dec :: "'s \<Rightarrow> 'w \<Rightarrow> 'p \<Rightarrow> 's \<Rightarrow> bool"
    and refused :: "'s \<Rightarrow> 'w \<Rightarrow> bool"
  assumes enc_ready: "ready c \<Longrightarrow> enc c p w c' \<Longrightarrow> ready c'"
    and dec_enc: "ready c \<Longrightarrow> ready d \<Longrightarrow> sync c d \<Longrightarrow> enc c p w c' \<Longrightarrow> dec d w q d' \<Longrightarrow> q = p \<and> sync c' d' \<and> ready d'"
    and dec_total: "ready c \<Longrightarrow> ready d \<Longrightarrow> sync c d \<Longrightarrow> enc c p w c' \<Longrightarrow> \<exists>q d'. dec d w q d'"
    and dec_not_refused: "ready c \<Longrightarrow> ready d \<Longrightarrow> sync c d \<Longrightarrow> enc c p w c' \<Longrightarrow> \<not> refused d w"
begin

text \<open>
  The invariant: the receiver is in step with the state in which the sender encoded the oldest packet
  in flight, and what is in flight is what was sent and not yet received.
\<close>

definition linked :: "'s \<Rightarrow> 's \<Rightarrow> 'w list \<Rightarrow> 'p list \<Rightarrow> 'p list \<Rightarrow> bool" where
  "linked c d ws sent received \<longleftrightarrow>
     (\<exists>c0 ps. sent = received @ ps \<and> flight enc c0 ws ps c \<and> sync c0 d \<and> ready c0 \<and> ready d)"

lemma flight_ready: "ready c \<Longrightarrow> flight enc c ws ps c' \<Longrightarrow> ready c'"
proof (induction ws arbitrary: c ps)
  case Nil
  then show ?case by simp
next
  case (Cons w ws)
  then obtain p ps' c1 where "enc c p w c1" "flight enc c1 ws ps' c'" by (cases ps) auto
  then show ?case using Cons enc_ready by blast
qed

lemma linked_sender_ready: "linked c d ws sent received \<Longrightarrow> ready c"
  using flight_ready by (auto simp: linked_def)

lemma linked_open: "ready c \<Longrightarrow> ready d \<Longrightarrow> sync c d \<Longrightarrow> linked c d [] sent sent"
  by (auto simp: linked_def)

lemma linked_enc:
  assumes "linked c d ws sent received" and "enc c p w c'"
  shows "linked c' d (ws @ [w]) (sent @ [p]) received"
  using assms flight_snoc unfolding linked_def by (metis append.assoc)

lemma linked_dec:
  assumes l: "linked c d (w # ws) sent received" and "dec d w q d'"
  shows "linked c d' ws sent (received @ [q])"
proof -
  obtain c0 ps where f: "sent = received @ ps" "flight enc c0 (w # ws) ps c" "sync c0 d" "ready c0" "ready d"
    using l by (auto simp: linked_def)
  then obtain p ps' c1 where p: "ps = p # ps'" "enc c0 p w c1" "flight enc c1 ws ps' c" by (cases ps) auto
  then have "q = p" "sync c1 d'" "ready d'" "ready c1" using dec_enc f assms(2) enc_ready by blast+
  then show ?thesis using f(1) p(1,3) by (auto simp: linked_def)
qed

lemma linked_dec_enabled: "linked c d (w # ws) sent received \<Longrightarrow> \<exists>q d'. dec d w q d'"
proof -
  assume "linked c d (w # ws) sent received"
  then obtain c0 ps where f: "flight enc c0 (w # ws) ps c" "sync c0 d" "ready c0" "ready d" by (auto simp: linked_def)
  then obtain p c1 where "enc c0 p w c1" by (cases ps) auto
  then show ?thesis using dec_total f by blast
qed

lemma linked_not_refused: "linked c d (w # ws) sent received \<Longrightarrow> \<not> refused d w"
proof -
  assume "linked c d (w # ws) sent received"
  then obtain c0 ps where f: "flight enc c0 (w # ws) ps c" "sync c0 d" "ready c0" "ready d" by (auto simp: linked_def)
  then obtain p c1 where "enc c0 p w c1" by (cases ps) auto
  then show ?thesis using dec_not_refused f by blast
qed

lemma linked_idle: "linked c d [] sent received \<Longrightarrow> received = sent \<and> sync c d \<and> ready c \<and> ready d"
  by (auto simp: linked_def)

lemma linked_prefix: "linked c d ws sent received \<Longrightarrow> \<exists>ps. sent = received @ ps \<and> length ps = length ws"
  using flight_length by (fastforce simp: linked_def)

end

section \<open>netc as a codec\<close>

text \<open>The sender compresses into a buffer of the size that \<open>netc_compress_bound\<close> gives.\<close>

definition send_packet :: "netc_ctx \<Rightarrow> byte list \<Rightarrow> byte list \<Rightarrow> netc_ctx \<Rightarrow> bool" where
  "send_packet c p pkt c' \<longleftrightarrow> netc_compress (Some c) (Some p) (Some (netc_compress_bound (length p))) = (Inr pkt, Some c')"

text \<open>A packet outside the two defects.\<close>

definition clean_send :: "netc_ctx \<Rightarrow> byte list \<Rightarrow> byte list \<Rightarrow> netc_ctx \<Rightarrow> bool" where
  "clean_send c p pkt c' \<longleftrightarrow> lossless c p \<and> send_packet c p pkt c'"

text \<open>The receiver decodes into a buffer for packets of every size, whatever the buffer held before.\<close>

definition receive_packet :: "netc_ctx \<Rightarrow> byte list \<Rightarrow> byte list \<Rightarrow> netc_ctx \<Rightarrow> bool" where
  "receive_packet d pkt out d' \<longleftrightarrow>
     (\<exists>buf. length buf = NETC_MAX_PACKET_SIZE \<and> netc_decompress (Some d) (Some pkt) (Some buf) = Inr (out, d'))"

definition refused_packet :: "netc_ctx \<Rightarrow> byte list \<Rightarrow> bool" where
  "refused_packet d pkt \<longleftrightarrow>
     (\<exists>buf e. length buf = NETC_MAX_PACKET_SIZE \<and> netc_decompress (Some d) (Some pkt) (Some buf) = Inl e)"

lemma send_length: "send_packet c p pkt c' \<Longrightarrow> length p \<le> NETC_MAX_PACKET_SIZE"
  by (auto simp: send_packet_def netc_compress_def compress_packet_def split: if_splits)

lemma send_finish:
  assumes "ctx_ready c" and "send_packet c p pkt c'"
  shows "\<exists>q. c' = compress_finish (c\<lparr>c_context_seq := c_context_seq c + 1\<rparr>) p (length pkt) q"
  using compress_runs [OF assms(1) send_length [OF assms(2)], of "netc_compress_bound (length p)"]
    compress_bound_room [OF send_length [OF assms(2)]] assms(2) by (auto simp: send_packet_def)

lemma receive_of_send:
  assumes "ctx_ready c" and "ctx_ready d" and "in_step c d" and s: "clean_send c p pkt c'" and buf: "length buf = NETC_MAX_PACKET_SIZE"
  shows "\<exists>d'. netc_decompress (Some d) (Some pkt) (Some buf) = Inr (p, d') \<and> in_step c' d' \<and> ctx_ready c' \<and> ctx_ready d'"
proof -
  have n: "length p \<le> NETC_MAX_PACKET_SIZE" "lossless c p"
    "netc_compress (Some c) (Some p) (Some (netc_compress_bound (length p))) = (Inr pkt, Some c')"
    using s send_length [of c p pkt c'] by (simp_all add: clean_send_def) (simp add: send_packet_def)
  obtain pkt' q d' where e: "netc_compress (Some c) (Some p) (Some (netc_compress_bound (length p)))
        = (Inr pkt', Some (compress_finish (c\<lparr>c_context_seq := c_context_seq c + 1\<rparr>) p (length pkt') q))"
    and d: "netc_decompress (Some d) (Some pkt') (Some buf) = Inr (p, d')" "ctx_ready d'"
      "in_step (compress_finish (c\<lparr>c_context_seq := c_context_seq c + 1\<rparr>) p (length pkt') q) d'"
    using roundtrip_step [OF assms(1-3) n(1,2), of "netc_compress_bound (length p)" buf] compress_bound_room [OF n(1)] n(1) buf by auto
  moreover have "ctx_ready (compress_finish (c\<lparr>c_context_seq := c_context_seq c + 1\<rparr>) p (length pkt') q)"
    using finish_ready(1) n(1) assms(1) by (simp add: ready_other(1))
  ultimately show ?thesis using n(3) by auto
qed

lemma send_ready:
  assumes "ctx_ready c" and "send_packet c p pkt c'" shows "ctx_ready c'"
  using send_finish [OF assms] finish_ready(1) send_length [OF assms(2)] assms(1) by (auto simp: ready_other(1))

lemma send_enabled:
  assumes "ctx_ready c" and "length p \<le> NETC_MAX_PACKET_SIZE"
  shows "\<exists>pkt c'. send_packet c p pkt c'"
  using compress_runs [OF assms, of "netc_compress_bound (length p)"] compress_bound_room [OF assms(2)]
  by (auto simp: send_packet_def)

lemma refused_send:
  assumes "ctx_ready c" and "netc_compress (Some c) (Some p) (Some (netc_compress_bound (length p))) = (Inl e, Some c')"
  shows "c' = c"
proof (cases "length p \<le> NETC_MAX_PACKET_SIZE")
  case True
  then show ?thesis using compress_runs [OF assms(1) True, of "netc_compress_bound (length p)"] compress_bound_room [OF True] assms(2) by auto
next
  case False
  then show ?thesis using assms(2) by (simp add: netc_compress_def compress_packet_def)
qed

interpretation netc: packet_codec ctx_ready in_step clean_send receive_packet refused_packet
proof unfold_locales
  show "ctx_ready c'" if "ctx_ready c" "clean_send c p w c'" for c p w c' using send_ready that by (auto simp: clean_send_def)
  show "q = p \<and> in_step c' d' \<and> ctx_ready d'"
    if "ctx_ready c" "ctx_ready d" "in_step c d" "clean_send c p w c'" "receive_packet d w q d'" for c d p w c' q d'
    using receive_of_send [OF that(1-4)] that(5) unfolding receive_packet_def by fastforce
  show "\<exists>q d'. receive_packet d w q d'"
    if "ctx_ready c" "ctx_ready d" "in_step c d" "clean_send c p w c'" for c d p w c'
    using receive_of_send [OF that, of "replicate NETC_MAX_PACKET_SIZE 0"] unfolding receive_packet_def
    by (metis length_replicate)
  show "\<not> refused_packet d w"
    if "ctx_ready c" "ctx_ready d" "in_step c d" "clean_send c p w c'" for c d p w c'
    using receive_of_send [OF that] unfolding refused_packet_def by fastforce
qed

section \<open>Creating and resetting both ends\<close>

definition dict_usable :: "netc_dict option \<Rightarrow> bool" where
  "dict_usable dict \<longleftrightarrow> (\<forall>d. dict = Some d \<longrightarrow> dict_ready d)"

definition cfg_of :: "netc_cfg option \<Rightarrow> netc_cfg" where
  "cfg_of cfg = (case cfg of None \<Rightarrow> NETC_CFG_DEFAULT | Some c \<Rightarrow> c)"

text \<open>Configurations that give both ends the same history; levels, statistics and SIMD may differ.\<close>

definition same_session :: "netc_cfg option \<Rightarrow> netc_cfg option \<Rightarrow> bool" where
  "same_session cfg cfg' \<longleftrightarrow>
     list_all (\<lambda>f. has_cfg (cfg_flags (cfg_of cfg)) f = has_cfg (cfg_flags (cfg_of cfg')) f)
       [NETC_CFG_FLAG_STATEFUL, NETC_CFG_FLAG_ADAPTIVE, NETC_CFG_FLAG_COMPACT_HDR]
     \<and> cfg_ring_buffer_size (cfg_of cfg) = cfg_ring_buffer_size (cfg_of cfg')"

lemma create_dict: "netc_ctx_create pf dict cfg = Some c \<Longrightarrow> c_dict c = dict"
  by (auto simp: netc_ctx_create_def Let_def split: if_splits)

lemma create_tables: "netc_ctx_create pf (Some d) cfg = Some c \<Longrightarrow> netc_get_tables c d = d_tables d"
  by (auto simp: netc_ctx_create_def Let_def netc_get_tables_def clone_tables_def split: if_splits)

text \<open>The one combination of flags that \<open>netc_ctx_create\<close> rejects.\<close>

definition accepted :: "netc_cfg option \<Rightarrow> bool" where
  "accepted cfg \<longleftrightarrow> \<not> (has_cfg (cfg_flags (cfg_of cfg)) NETC_CFG_FLAG_ADAPTIVE \<and> \<not> has_cfg (cfg_flags (cfg_of cfg)) NETC_CFG_FLAG_STATEFUL)"

lemma create_accepted: "accepted cfg \<Longrightarrow> \<exists>c. netc_ctx_create pf dict cfg = Some c"
  by (simp add: netc_ctx_create_def accepted_def cfg_of_def Let_def)

lemma accepted_session: "same_session cfg cfg' \<Longrightarrow> accepted cfg \<Longrightarrow> accepted cfg'"
  by (simp add: accepted_def same_session_def)

lemma create_ready:
  assumes "netc_ctx_create pf dict cfg = Some c" and "dict_usable dict" shows "ctx_ready c"
proof -
  have "ctx_wf c" using create_wf [OF assms(1)] assms(2) by (simp add: dict_usable_def dict_ready_def)
  then show ?thesis
    using assms create_dict [OF assms(1)] create_tables
    by (auto simp: ctx_ready_def ctx_safe_def ctx_full_def dict_usable_def dict_ready_def)
qed

lemma create_fields:
  assumes "netc_ctx_create pf dict cfg = Some c"
  defines "st \<equiv> has_cfg (cfg_flags (cfg_of cfg)) NETC_CFG_FLAG_STATEFUL" and "ad \<equiv> has_cfg (cfg_flags (cfg_of cfg)) NETC_CFG_FLAG_ADAPTIVE"
  shows "c_flags c = cfg_flags (cfg_of cfg)" "c_ring_pos c = 0" "c_context_seq c = 0" "c_adapt_pkt_count c = 0"
    "c_ring c = (if st then replicate (if cfg_ring_buffer_size (cfg_of cfg) > 0 then cfg_ring_buffer_size (cfg_of cfg) mod 2 ^ 32
        else NETC_DEFAULT_RING_SIZE) 0 else [])"
    "c_prev_pkt c = (if st then Some [] else None)" "c_prev2_pkt c = (if ad then Some [] else None)"
    "c_adapt_freq c = (if ad then Some (replicate (NETC_CTX_COUNT * 256) 0) else None)"
    "c_adapt_total c = (if ad then replicate NETC_CTX_COUNT 0 else [])"
    "c_adapt_tables c = (if ad then Some (clone_tables dict) else None)"
    "c_adapt_lzp c = (if ad then map_option boost_lzp (Option.bind dict d_lzp_table) else None)"
proof -
  note create = assms(1) [unfolded netc_ctx_create_def Let_def, folded cfg_of_def, folded st_def ad_def]
  then have "\<not> (ad \<and> \<not> st)" by (metis option.distinct(1))
  note c = create [simplified if_not_P [OF this] option.inject, symmetric]
  show "c_flags c = cfg_flags (cfg_of cfg)" "c_ring_pos c = 0" "c_context_seq c = 0" "c_adapt_pkt_count c = 0"
    "c_ring c = (if st then replicate (if cfg_ring_buffer_size (cfg_of cfg) > 0 then cfg_ring_buffer_size (cfg_of cfg) mod 2 ^ 32
        else NETC_DEFAULT_RING_SIZE) 0 else [])"
    "c_prev_pkt c = (if st then Some [] else None)" "c_prev2_pkt c = (if ad then Some [] else None)"
    "c_adapt_freq c = (if ad then Some (replicate (NETC_CTX_COUNT * 256) 0) else None)"
    "c_adapt_total c = (if ad then replicate NETC_CTX_COUNT 0 else [])"
    "c_adapt_tables c = (if ad then Some (clone_tables dict) else None)"
    "c_adapt_lzp c = (if ad then map_option boost_lzp (Option.bind dict d_lzp_table) else None)"
    unfolding c by simp_all
qed

lemma create_in_step:
  assumes "netc_ctx_create pf dict cfg = Some c" and "netc_ctx_create pf' dict cfg' = Some d" and "same_session cfg cfg'"
  shows "in_step c d"
  using assms(3) unfolding in_step_def create_fields [OF assms(1)] create_fields [OF assms(2)] create_dict [OF assms(1)] create_dict [OF assms(2)]
  by (simp add: same_session_def)

lemma reset_dict: "c_dict (netc_ctx_reset c) = c_dict c"
  by (simp add: netc_ctx_reset_def Let_def split: option.split)

lemma reset_in_step: "in_step c d \<Longrightarrow> in_step (netc_ctx_reset c) (netc_ctx_reset d)"
  by (auto simp: in_step_def netc_ctx_reset_def Let_def split: option.split)

lemma reset_ready:
  assumes "ctx_ready c" and "dict_usable (c_dict c)" shows "ctx_ready (netc_ctx_reset c)"
proof -
  have wf: "ctx_wf c" using assms(1) by (simp add: ctx_ready_def ctx_safe_def)
  have "netc_get_tables (netc_ctx_reset c) d \<in> {netc_get_tables c d, d_tables d}" if "c_dict c = Some d" for d
    using that by (auto simp: netc_ctx_reset_def netc_get_tables_def Let_def split: option.split)
  then have "coder_full d (netc_get_tables (netc_ctx_reset c) d)" if "c_dict c = Some d" for d
    using assms that by (fastforce simp: ctx_ready_def ctx_full_def dict_usable_def dict_ready_def)
  then show ?thesis
    using reset_wf [OF wf] assms(1) by (simp add: ctx_ready_def ctx_safe_def ctx_full_def reset_dict)
qed

section \<open>The ordered link\<close>

record link =
  lk_sender :: netc_ctx
  lk_receiver :: netc_ctx
  lk_wire :: "byte list list"
  lk_sent :: "byte list list"
  lk_received :: "byte list list"
  lk_clean :: bool

definition idle_link :: "netc_ctx \<Rightarrow> netc_ctx \<Rightarrow> link" where
  "idle_link c d = \<lparr>lk_sender = c, lk_receiver = d, lk_wire = [], lk_sent = [], lk_received = [], lk_clean = True\<rparr>"

inductive link_open :: "netc_dict option \<Rightarrow> link \<Rightarrow> bool" for dict where
  open_both: "\<lbrakk>netc_ctx_create pf dict cfg = Some c; netc_ctx_create pf' dict cfg' = Some d; same_session cfg cfg'\<rbrakk>
    \<Longrightarrow> link_open dict (idle_link c d)"

text \<open>
  A packet that the encoder refuses is not sent, one that the decoder refuses is dropped.  Both ends are reset
  together, and only when nothing is in flight.
\<close>

inductive link_step :: "link \<Rightarrow> link \<Rightarrow> bool" where
  transmit: "send_packet (lk_sender s) p pkt c'
    \<Longrightarrow> link_step s (s\<lparr>lk_sender := c', lk_wire := lk_wire s @ [pkt], lk_sent := lk_sent s @ [p],
          lk_clean := (lk_clean s \<and> lossless (lk_sender s) p)\<rparr>)"
| transmit_refused: "netc_compress (Some (lk_sender s)) (Some p) (Some (netc_compress_bound (length p))) = (Inl e, Some c')
    \<Longrightarrow> link_step s (s\<lparr>lk_sender := c'\<rparr>)"
| deliver: "\<lbrakk>lk_wire s = pkt # ws; receive_packet (lk_receiver s) pkt out d'\<rbrakk>
    \<Longrightarrow> link_step s (s\<lparr>lk_receiver := d', lk_wire := ws, lk_received := lk_received s @ [out]\<rparr>)"
| deliver_refused: "\<lbrakk>lk_wire s = pkt # ws; refused_packet (lk_receiver s) pkt\<rbrakk> \<Longrightarrow> link_step s (s\<lparr>lk_wire := ws\<rparr>)"
| reset: "lk_wire s = []
    \<Longrightarrow> link_step s (s\<lparr>lk_sender := netc_ctx_reset (lk_sender s), lk_receiver := netc_ctx_reset (lk_receiver s)\<rparr>)"

inductive_cases link_openE: "link_open dict s"

definition link_reaches :: "netc_dict option \<Rightarrow> link \<Rightarrow> bool" where
  "link_reaches dict s \<longleftrightarrow> (\<exists>s0. link_open dict s0 \<and> link_step\<^sup>*\<^sup>* s0 s)"

definition link_inv :: "netc_dict option \<Rightarrow> link \<Rightarrow> bool" where
  "link_inv dict s \<longleftrightarrow> (lk_clean s \<longrightarrow> c_dict (lk_sender s) = dict
     \<and> netc.linked (lk_sender s) (lk_receiver s) (lk_wire s) (lk_sent s) (lk_received s))"

lemma send_dict:
  assumes "ctx_ready c" and "send_packet c p pkt c'" shows "c_dict c' = c_dict c"
  using send_finish [OF assms] by (auto simp: compress_finish_def Let_def)

lemma link_open_inv: "link_open dict s \<Longrightarrow> dict_usable dict \<Longrightarrow> link_inv dict s"
  using create_ready create_in_step create_dict netc.linked_open by (auto simp: link_inv_def idle_link_def elim!: link_openE)

lemma link_step_inv:
  assumes "link_step s s'" and "dict_usable dict" and "link_inv dict s"
  shows "link_inv dict s'"
  using assms
proof (induction rule: link_step.induct)
  case (transmit s p pkt c')
  show ?case
  proof (cases "lk_clean s \<and> lossless (lk_sender s) p")
    case True
    then have "c_dict (lk_sender s) = dict" "ctx_ready (lk_sender s)" "clean_send (lk_sender s) p pkt c'"
      "netc.linked (lk_sender s) (lk_receiver s) (lk_wire s) (lk_sent s) (lk_received s)"
      using transmit netc.linked_sender_ready by (auto simp: link_inv_def clean_send_def)
    then show ?thesis using netc.linked_enc send_dict transmit(1) by (simp add: link_inv_def)
  qed (auto simp: link_inv_def)
next
  case (transmit_refused s p e c')
  then show ?case using refused_send netc.linked_sender_ready by (fastforce simp: link_inv_def)
next
  case (deliver s pkt ws out d')
  then show ?case by (auto simp: link_inv_def intro: netc.linked_dec)
next
  case (deliver_refused s pkt ws)
  then show ?case using netc.linked_not_refused by (auto simp: link_inv_def)
next
  case (reset s)
  show ?case
  proof (cases "lk_clean s")
    case True
    then have "lk_received s = lk_sent s" "in_step (lk_sender s) (lk_receiver s)" "ctx_ready (lk_sender s)" "ctx_ready (lk_receiver s)"
      "c_dict (lk_sender s) = dict"
      using reset netc.linked_idle by (auto simp: link_inv_def)
    then show ?thesis
      using reset netc.linked_open [OF reset_ready reset_ready reset_in_step]
      by (auto simp: link_inv_def reset_dict in_step_def)
  qed (simp add: link_inv_def)
qed

lemma link_reaches_inv:
  assumes "link_reaches dict s" and "dict_usable dict" shows "link_inv dict s"
proof -
  obtain s0 where s0: "link_open dict s0" and "link_step\<^sup>*\<^sup>* s0 s" using assms(1) by (auto simp: link_reaches_def)
  from this(2) show ?thesis
    by (induction rule: rtranclp_induct) (use s0 assms(2) link_open_inv link_step_inv in \<open>blast+\<close>)
qed

lemma link_reaches_step: "link_reaches dict s \<Longrightarrow> link_step s s' \<Longrightarrow> link_reaches dict s'"
  unfolding link_reaches_def by (meson rtranclp.rtrancl_into_rtrancl)

text \<open>What is in flight can be delivered in order, whatever was sent before.\<close>

lemma link_drain:
  assumes "link_inv dict s" and "lk_clean s" and "dict_usable dict"
  shows "\<exists>s'. link_step\<^sup>*\<^sup>* s s' \<and> lk_wire s' = [] \<and> lk_sent s' = lk_sent s \<and> lk_received s' = lk_sent s
    \<and> in_step (lk_sender s') (lk_receiver s') \<and> lk_clean s'"
  using assms
proof (induction "lk_wire s" arbitrary: s)
  case Nil
  then have "lk_received s = lk_sent s \<and> in_step (lk_sender s) (lk_receiver s)" using netc.linked_idle by (metis link_inv_def)
  then show ?case using Nil.hyps Nil.prems(2) by (metis rtranclp.rtrancl_refl)
next
  case (Cons w ws)
  obtain q d' where "receive_packet (lk_receiver s) w q d'"
    using Cons.prems(1,2) Cons.hyps(2) netc.linked_dec_enabled by (metis link_inv_def)
  then have st: "link_step s (s\<lparr>lk_receiver := d', lk_wire := ws, lk_received := lk_received s @ [q]\<rparr>)" (is "link_step s ?s1")
    using Cons.hyps(2) by (intro deliver) auto
  have "link_inv dict ?s1" "lk_clean ?s1" using link_step_inv [OF st] Cons.prems by simp_all
  from Cons.hyps(1) [OF _ this Cons.prems(3)] obtain s' where "link_step\<^sup>*\<^sup>* ?s1 s'" "lk_wire s' = []" "lk_sent s' = lk_sent s"
    "lk_received s' = lk_sent s" "in_step (lk_sender s') (lk_receiver s')" "lk_clean s'" by auto
  then show ?case using st by (meson converse_rtranclp_into_rtranclp)
qed

text \<open>
  Configurations of the sender under which neither defect can occur: bigram tables, and not order-2 delta
  (which needs the second previous packet of an adaptive context) together with the compact header.
\<close>

definition defect_free :: "netc_cfg option \<Rightarrow> bool" where
  "defect_free cfg \<longleftrightarrow> has_cfg (cfg_flags (cfg_of cfg)) NETC_CFG_FLAG_BIGRAM
     \<and> \<not> (has_cfg (cfg_flags (cfg_of cfg)) NETC_CFG_FLAG_COMPACT_HDR \<and> has_cfg (cfg_flags (cfg_of cfg)) NETC_CFG_FLAG_DELTA
          \<and> has_cfg (cfg_flags (cfg_of cfg)) NETC_CFG_FLAG_ADAPTIVE)"

text \<open>What a sender keeps of its configuration.\<close>

definition sender_cfg :: "netc_ctx \<Rightarrow> u32 \<times> bool" where
  "sender_cfg c = (c_flags c, c_prev2_pkt c = None)"

lemma sender_cfg_other [simp]:
  "sender_cfg (c\<lparr>c_context_seq := q\<rparr>) = sender_cfg c" "sender_cfg (compress_stats c m n p) = sender_cfg c"
  "sender_cfg (ctx_lzp_update c a) = sender_cfg c" "sender_cfg (ctx_ring_append c a) = sender_cfg c"
  "sender_cfg (compress_update_prev c a) = sender_cfg c" "sender_cfg (netc_ctx_reset c) = sender_cfg c"
  by (auto simp: sender_cfg_def ctx_lzp_update_def ctx_ring_append_def compress_update_prev_def netc_ctx_reset_def
      compress_stats_def Let_def split: option.split prod.split)

lemma sender_cfg_adaptive [simp]: "sender_cfg (netc_adaptive_update c a) = sender_cfg c"
  by (simp add: sender_cfg_def adaptive_update_fields)

lemma sender_cfg_compress: "netc_compress (Some c) src cap = (r, Some c') \<Longrightarrow> sender_cfg c' = sender_cfg c"
proof -
  have "sender_cfg (snd (compress_packet c a n)) = sender_cfg c" for a n
    by (simp add: compress_packet_def compress_finish_def Let_def split: sum.split option.split prod.split)
  then show "netc_compress (Some c) src cap = (r, Some c') \<Longrightarrow> sender_cfg c' = sender_cfg c"
    by (cases src; cases cap) (auto simp: netc_compress_def map_prod_def split_beta)
qed

lemma link_step_cfg: "link_step s s' \<Longrightarrow> sender_cfg (lk_sender s') = sender_cfg (lk_sender s)"
  by (induction rule: link_step.induct) (auto simp: send_packet_def dest: sender_cfg_compress)

lemma defect_free_lossless:
  assumes "netc_ctx_create pf dict cfg = Some c0" and "defect_free cfg" and "sender_cfg c = sender_cfg c0"
  shows "lossless c p"
proof -
  have "c_flags c = cfg_flags (cfg_of cfg)" "(c_prev2_pkt c = None) = (\<not> has_cfg (cfg_flags (cfg_of cfg)) NETC_CFG_FLAG_ADAPTIVE)"
    using assms(3) unfolding sender_cfg_def create_fields [OF assms(1)] by simp_all
  then show ?thesis using assms(2) no_order2 [of c p] unfolding lossless_def defect_free_def by auto
qed

lemma defect_free_clean:
  assumes "netc_ctx_create pf dict cfg = Some c" and "defect_free cfg" and "link_step\<^sup>*\<^sup>* (idle_link c d) s"
  shows "lk_clean s \<and> sender_cfg (lk_sender s) = sender_cfg c"
  using assms(3)
proof (induction rule: rtranclp_induct)
  case base
  show ?case by (simp add: idle_link_def)
next
  case (step s s')
  have "lk_clean s'"
    using step(2,3) defect_free_lossless [OF assms(1,2)] by (cases rule: link_step.cases) auto
  then show ?case using link_step_cfg [OF step(2)] step(3) by simp
qed

section \<open>The datagram link\<close>

text \<open>A context without history; only its sequence number and its statistics ever change.\<close>

definition memoryless :: "netc_ctx \<Rightarrow> bool" where
  "memoryless c \<longleftrightarrow> c_ring c = [] \<and> c_prev_pkt c = None \<and> c_prev2_pkt c = None \<and> c_adapt_freq c = None \<and> c_adapt_lzp c = None"

definition same_codec :: "netc_ctx \<Rightarrow> netc_ctx \<Rightarrow> bool" where
  "same_codec c d \<longleftrightarrow> memoryless c \<and> memoryless d \<and> in_step (c\<lparr>c_context_seq := c_context_seq d\<rparr>) d"

lemma create_memoryless:
  assumes "netc_ctx_create pf dict cfg = Some c" and "\<not> has_cfg (cfg_flags (cfg_of cfg)) NETC_CFG_FLAG_STATEFUL"
  shows "memoryless c"
proof -
  have "\<not> has_cfg (cfg_flags (cfg_of cfg)) NETC_CFG_FLAG_ADAPTIVE"
    using assms by (auto simp: netc_ctx_create_def cfg_of_def Let_def)
  then show ?thesis using assms(2) unfolding memoryless_def create_fields [OF assms(1)] by simp
qed

lemma memoryless_updates:
  assumes "memoryless c"
  shows "ctx_ring_append c a = c" "compress_update_prev c a = c" "netc_adaptive_update c a = c" "ctx_lzp_update c a = c"
  using assms by (simp_all add: memoryless_def ctx_ring_append_def compress_update_prev_def netc_adaptive_update_def
      ctx_lzp_update_def Let_def)

lemma memoryless_other [simp]:
  "memoryless (compress_stats c m n p) = memoryless c" "memoryless (decomp_stats c m n p) = memoryless c"
  "memoryless (c\<lparr>c_context_seq := q\<rparr>) = memoryless c"
  by (simp_all add: memoryless_def compress_stats_def decomp_stats_def Let_def)

lemma memoryless_finish:
  assumes "memoryless c"
  shows "compress_finish c a m p = compress_stats c (length a) m p"
    "decomp_finish c hdr m p a = (decomp_stats c m (length a) p)\<lparr>c_context_seq := hdr_context_seq hdr + 1\<rparr>"
  using assms by (simp_all add: compress_finish_def decomp_finish_def decomp_update_prev_def decomp_ring_append_def Let_def
      memoryless_updates)

lemma same_codec_send:
  assumes "ctx_ready c" and "same_codec c d" and "send_packet c p pkt c'" shows "same_codec c' d"
  using send_finish [OF assms(1,3)] assms(2)
  by (auto simp: same_codec_def memoryless_finish) (simp add: in_step_def compress_stats_def Let_def)

text \<open>Without history only one of the defects can occur, which depends on the size of the packet.\<close>

definition size_ok :: "netc_dict option \<Rightarrow> u32 \<Rightarrow> byte list \<Rightarrow> bool" where
  "size_ok dict flags p \<longleftrightarrow> dict = None \<or> has_cfg flags NETC_CFG_FLAG_BIGRAM \<or> length p < 256 \<or> even (length p)"

lemma memoryless_lossless: "memoryless c \<Longrightarrow> lossless c p \<longleftrightarrow> size_ok (c_dict c) (c_flags c) p"
  using no_order2 [of c p] by (auto simp: lossless_def size_ok_def memoryless_def)

lemma datagram_receive:
  assumes c: "ctx_ready c" and d: "ctx_ready d" and sc: "same_codec c d" and s: "clean_send c p pkt c'"
    and buf: "length buf = NETC_MAX_PACKET_SIZE"
  shows "\<exists>d'. netc_decompress (Some d) (Some pkt) (Some buf) = Inr (p, d') \<and> ctx_ready d' \<and> (\<forall>e. same_codec e d \<longrightarrow> same_codec e d')"
proof -
  have n: "length p \<le> NETC_MAX_PACKET_SIZE" "lossless c p"
    and e: "netc_compress (Some c) (Some p) (Some (netc_compress_bound (length p))) = (Inr pkt, Some c')"
    using s send_length [of c p pkt c'] by (simp_all add: clean_send_def) (simp add: send_packet_def)
  let ?c = "c\<lparr>c_context_seq := c_context_seq d\<rparr>" and ?compact = "has_cfg (c_flags d) NETC_CFG_FLAG_COMPACT_HDR"
  have st: "in_step ?c d" and flag: "has_cfg (c_flags c) NETC_CFG_FLAG_COMPACT_HDR = ?compact"
    using sc by (simp_all add: same_codec_def in_step_def)
  have wf: "ctx_wf ?c" "ctx_wf d" using c d by (simp_all add: ctx_ready_def ctx_safe_def)
  have "good_packet (?c\<lparr>c_context_seq := c_context_seq c + 1\<rparr>) (c_context_seq c) ?compact p pkt"
    using compress_emits [OF c n, of "netc_compress_bound (length p)"] compress_bound_room [OF n(1)] e flag by auto
  then have "good_packet d (c_context_seq c) ?compact p pkt" using good_packet_step st wf by blast
  then obtain hdr m q where dec: "netc_decompress (Some d) (Some pkt) (Some buf) = Inr (p, decomp_finish d hdr m q p)"
    using decompress_good_any n(1) buf by (metis)
  have "same_codec e (decomp_finish d hdr m q p)" if "same_codec e d" for e
    using that by (simp add: same_codec_def memoryless_finish) (simp add: in_step_def decomp_stats_def Let_def)
  then show ?thesis using dec finish_ready(2) [OF d n(1)] by blast
qed

record dgram_link =
  dg_sender :: netc_ctx
  dg_receiver :: netc_ctx
  dg_wire :: "byte list list"
  dg_sent :: "byte list list"
  dg_received :: "byte list list"

inductive dgram_open :: "netc_dict option \<Rightarrow> dgram_link \<Rightarrow> bool" for dict where
  open_dgram: "\<lbrakk>netc_ctx_create pf dict cfg = Some c; netc_ctx_create pf' dict cfg' = Some d; same_session cfg cfg';
      \<not> has_cfg (cfg_flags (cfg_of cfg)) NETC_CFG_FLAG_STATEFUL\<rbrakk>
    \<Longrightarrow> dgram_open dict \<lparr>dg_sender = c, dg_receiver = d, dg_wire = [], dg_sent = [], dg_received = []\<rparr>"

text \<open>
  A packet that was ever sent may arrive at any time, never, or more than once; a packet that a call refuses
  changes nothing.
\<close>

inductive dgram_step :: "dgram_link \<Rightarrow> dgram_link \<Rightarrow> bool" where
  dgram_transmit: "send_packet (dg_sender s) p pkt c'
    \<Longrightarrow> dgram_step s (s\<lparr>dg_sender := c', dg_wire := dg_wire s @ [pkt], dg_sent := dg_sent s @ [p]\<rparr>)"
| dgram_transmit_refused: "netc_compress (Some (dg_sender s)) (Some p) (Some (netc_compress_bound (length p))) = (Inl e, Some c')
    \<Longrightarrow> dgram_step s (s\<lparr>dg_sender := c'\<rparr>)"
| dgram_deliver: "\<lbrakk>pkt \<in> set (dg_wire s); receive_packet (dg_receiver s) pkt out d'\<rbrakk>
    \<Longrightarrow> dgram_step s (s\<lparr>dg_receiver := d', dg_received := dg_received s @ [out]\<rparr>)"

inductive_cases dgram_openE: "dgram_open dict s"

definition sent_as :: "netc_ctx \<Rightarrow> byte list \<Rightarrow> byte list \<Rightarrow> bool" where
  "sent_as d pkt p \<longleftrightarrow> (\<exists>c c'. ctx_ready c \<and> same_codec c d \<and> clean_send c p pkt c')"

definition dgram_clean :: "netc_dict option \<Rightarrow> dgram_link \<Rightarrow> bool" where
  "dgram_clean dict s \<longleftrightarrow> list_all (size_ok dict (c_flags (dg_sender s))) (dg_sent s)"

definition dgram_inv :: "netc_dict option \<Rightarrow> dgram_link \<Rightarrow> bool" where
  "dgram_inv dict s \<longleftrightarrow> ctx_ready (dg_sender s) \<and> ctx_ready (dg_receiver s) \<and> same_codec (dg_sender s) (dg_receiver s)
     \<and> c_dict (dg_sender s) = dict
     \<and> list_all2 (sent_as (dg_receiver s)) (dg_wire s) (dg_sent s) \<and> set (dg_received s) \<subseteq> set (dg_sent s)"

lemma list_all2_in_set_left: "list_all2 P xs ys \<Longrightarrow> x \<in> set xs \<Longrightarrow> \<exists>y \<in> set ys. P x y"
  by (induction rule: list_all2_induct) auto

lemma dgram_open_inv: "dgram_open dict s \<Longrightarrow> dict_usable dict \<Longrightarrow> dgram_inv dict s"
proof (elim dgram_openE, goal_cases)
  case (1 pf cfg c pf' cfg' d)
  then have "memoryless c" "memoryless d" "in_step c d"
    using create_memoryless create_in_step by (auto simp: same_session_def)
  moreover have "c\<lparr>c_context_seq := c_context_seq d\<rparr> = c" using \<open>in_step c d\<close> by (simp add: in_step_def)
  ultimately show ?case using 1 create_ready create_dict by (simp add: dgram_inv_def same_codec_def)
qed

lemma dgram_step_clean:
  assumes "dgram_step s s'" and "dgram_clean dict s'" shows "dgram_clean dict s"
  using assms
proof (induction rule: dgram_step.induct)
  case (dgram_transmit s p pkt c')
  then show ?case using sender_cfg_compress [of "dg_sender s"] by (auto simp: dgram_clean_def send_packet_def sender_cfg_def)
next
  case (dgram_transmit_refused s p e c')
  then show ?case using sender_cfg_compress [of "dg_sender s"] by (auto simp: dgram_clean_def sender_cfg_def)
qed (simp add: dgram_clean_def)

lemma dgram_step_inv:
  assumes "dgram_step s s'" and "dgram_clean dict s'" and "dgram_inv dict s" shows "dgram_inv dict s'"
  using assms
proof (induction rule: dgram_step.induct)
  case (dgram_transmit s p pkt c')
  then have r: "ctx_ready (dg_sender s)" "same_codec (dg_sender s) (dg_receiver s)" "c_dict (dg_sender s) = dict"
    by (simp_all add: dgram_inv_def)
  have "c_flags c' = c_flags (dg_sender s)"
    using sender_cfg_compress [of "dg_sender s"] dgram_transmit(1) by (auto simp: send_packet_def sender_cfg_def)
  then have "size_ok (c_dict (dg_sender s)) (c_flags (dg_sender s)) p" using dgram_transmit(2) r(3) by (simp add: dgram_clean_def)
  then have "lossless (dg_sender s) p" using r(2) memoryless_lossless by (simp add: same_codec_def)
  then have "sent_as (dg_receiver s) pkt p" using r dgram_transmit(1) by (auto simp: sent_as_def clean_send_def)
  moreover have "ctx_ready c'" "same_codec c' (dg_receiver s)" "c_dict c' = dict"
    using dgram_transmit(1) r send_ready same_codec_send send_dict by blast+
  ultimately show ?case using dgram_transmit(3) by (auto simp: dgram_inv_def intro: list_all2_appendI)
next
  case (dgram_transmit_refused s p e c')
  then show ?case using refused_send by (fastforce simp: dgram_inv_def)
next
  case (dgram_deliver pkt s out d')
  then obtain p where p: "p \<in> set (dg_sent s)" "sent_as (dg_receiver s) pkt p"
    using list_all2_in_set_left by (metis dgram_inv_def)
  then obtain c c' where c: "ctx_ready c" "same_codec c (dg_receiver s)" "clean_send c p pkt c'" by (auto simp: sent_as_def)
  obtain buf where buf: "length buf = NETC_MAX_PACKET_SIZE" "netc_decompress (Some (dg_receiver s)) (Some pkt) (Some buf) = Inr (out, d')"
    using dgram_deliver(2) by (auto simp: receive_packet_def)
  have "ctx_ready (dg_receiver s)" using dgram_deliver(4) by (simp add: dgram_inv_def)
  from datagram_receive [OF c(1) this c(2,3) buf(1)] buf(2)
  have d: "out = p" "ctx_ready d'" "\<And>e. same_codec e (dg_receiver s) \<Longrightarrow> same_codec e d'" by auto
  then have "sent_as d' x y" if "sent_as (dg_receiver s) x y" for x y using that unfolding sent_as_def by blast
  then have "list_all2 (sent_as d') (dg_wire s) (dg_sent s)"
    using dgram_deliver(4) by (auto simp: dgram_inv_def elim!: list_all2_mono)
  then show ?case using dgram_deliver(4) p(1) d by (auto simp: dgram_inv_def)
qed

lemma dgram_reaches_inv:
  assumes "dgram_open dict s0" and "dict_usable dict" and "dgram_step\<^sup>*\<^sup>* s0 s" and "dgram_clean dict s" shows "dgram_inv dict s"
  using assms(3,4)
proof (induction rule: rtranclp_induct)
  case base
  show ?case using assms(1,2) dgram_open_inv by blast
next
  case (step s s')
  then show ?case using dgram_step_clean dgram_step_inv by blast
qed

section \<open>Recovery\<close>

text \<open>Any call on a context, with any arguments, whether it succeeds or not.\<close>

inductive api_step :: "netc_ctx \<Rightarrow> netc_ctx \<Rightarrow> bool" where
  api_compress: "netc_compress (Some c) src cap = (r, Some c') \<Longrightarrow> api_step c c'"
| api_decompress: "netc_decompress (Some c) src dst = Inr (out, c') \<Longrightarrow> api_step c c'"
| api_reset: "api_step c (netc_ctx_reset c)"

text \<open>What no call changes: the dictionary, the header format, the size of the buffers and which of them exist.\<close>

definition ctx_shape where
  "ctx_shape c =
     ((c_dict c, has_cfg (c_flags c) NETC_CFG_FLAG_COMPACT_HDR, length (c_ring c)),
      (c_prev_pkt c = None, c_prev2_pkt c = None, map_option length (c_adapt_freq c), length (c_adapt_total c)),
      (if c_adapt_freq c = None then Some (c_adapt_total c, c_adapt_pkt_count c) else None),
      (c_adapt_tables c = None, if c_adapt_freq c = None \<or> c_dict c = None then c_adapt_tables c else None, c_adapt_lzp c = None))"

definition shape_ok :: "netc_ctx \<Rightarrow> bool" where
  "shape_ok c \<longleftrightarrow> ring_ok c \<and> (c_adapt_freq c = None \<or> Option.bind (c_dict c) d_lzp_table = None \<longrightarrow> c_adapt_lzp c = None)"

lemma reset_fields:
  "c_dict (netc_ctx_reset c) = c_dict c" "c_flags (netc_ctx_reset c) = c_flags c"
  "c_ring (netc_ctx_reset c) = replicate (length (c_ring c)) 0"
  "c_ring_pos (netc_ctx_reset c) = (if c_ring c = [] then c_ring_pos c else 0)"
  "c_prev_pkt (netc_ctx_reset c) = (if c_prev_pkt c = None then None else Some [])"
  "c_prev2_pkt (netc_ctx_reset c) = (if c_prev2_pkt c = None then None else Some [])"
  "c_context_seq (netc_ctx_reset c) = 0"
  "c_adapt_freq (netc_ctx_reset c) = map_option (\<lambda>n. replicate n 0) (map_option length (c_adapt_freq c))"
  "c_adapt_total (netc_ctx_reset c) = (if c_adapt_freq c = None then c_adapt_total c else replicate (length (c_adapt_total c)) 0)"
  "c_adapt_pkt_count (netc_ctx_reset c) = (if c_adapt_freq c = None then c_adapt_pkt_count c else 0)"
  "c_adapt_tables (netc_ctx_reset c) = (if c_adapt_freq c = None then c_adapt_tables c
     else case c_dict c of None \<Rightarrow> c_adapt_tables c | Some d \<Rightarrow> if c_adapt_tables c = None then None else Some (d_tables d))"
  "c_adapt_lzp (netc_ctx_reset c) = (if c_adapt_freq c = None then c_adapt_lzp c
     else case Option.bind (c_dict c) d_lzp_table of None \<Rightarrow> c_adapt_lzp c
          | Some t \<Rightarrow> if c_adapt_lzp c = None then None else Some (boost_lzp t))"
  by (auto simp: netc_ctx_reset_def Let_def option.map_comp comp_def split: option.split)

lemma reset_of_shape:
  assumes sh: "ctx_shape c = ctx_shape d" and ok: "shape_ok c" "shape_ok d"
  shows "in_step (netc_ctx_reset c) (netc_ctx_reset d)"
proof -
  have eq: "c_dict c = c_dict d" "has_cfg (c_flags c) NETC_CFG_FLAG_COMPACT_HDR = has_cfg (c_flags d) NETC_CFG_FLAG_COMPACT_HDR"
    "length (c_ring c) = length (c_ring d)" "(c_prev_pkt c = None) = (c_prev_pkt d = None)"
    "(c_prev2_pkt c = None) = (c_prev2_pkt d = None)" "map_option length (c_adapt_freq c) = map_option length (c_adapt_freq d)"
    "length (c_adapt_total c) = length (c_adapt_total d)" "(c_adapt_tables c = None) = (c_adapt_tables d = None)"
    "(c_adapt_lzp c = None) = (c_adapt_lzp d = None)"
    using sh unfolding ctx_shape_def prod.inject by blast+
  have ring: "(c_ring c = []) = (c_ring d = [])" using eq(3) by (metis length_0_conv)
  have freq: "(c_adapt_freq c = None) = (c_adapt_freq d = None)" using eq(6) by (metis map_option_is_None)
  have pos: "c_ring_pos c = c_ring_pos d" if "c_ring d = []" using ok that ring by (simp add: shape_ok_def ring_ok_def)
  have frozen: "c_adapt_total c = c_adapt_total d" "c_adapt_pkt_count c = c_adapt_pkt_count d" if "c_adapt_freq d = None"
    using sh that freq by (simp_all add: ctx_shape_def)
  have tab: "c_adapt_tables c = c_adapt_tables d" if "c_adapt_freq d = None \<or> c_dict d = None"
    using sh that freq eq(1) unfolding ctx_shape_def prod.inject by simp
  have lzp: "c_adapt_lzp c = None \<and> c_adapt_lzp d = None" if "c_adapt_freq d = None \<or> Option.bind (c_dict d) d_lzp_table = None"
    using ok that freq eq(1) by (simp add: shape_ok_def)
  show ?thesis
    unfolding in_step_def reset_fields eq ring freq using pos frozen tab lzp by (simp split: option.split)
qed

text \<open>Every update keeps the shape.\<close>

definition keeps_shape :: "netc_ctx \<Rightarrow> netc_ctx \<Rightarrow> bool" where
  "keeps_shape c c' \<longleftrightarrow> (shape_ok c \<longrightarrow> shape_ok c' \<and> ctx_shape c' = ctx_shape c)"

lemma keeps_trans: "keeps_shape c c1 \<Longrightarrow> keeps_shape c1 c2 \<Longrightarrow> keeps_shape c c2"
  by (simp add: keeps_shape_def)

lemma rebuild_fields:
  "c_adapt_freq (netc_adaptive_tables_rebuild c) = c_adapt_freq c" "c_adapt_total (netc_adaptive_tables_rebuild c) = c_adapt_total c"
  "(c_adapt_tables (netc_adaptive_tables_rebuild c) = None) = (c_adapt_tables c = None)"
  "c_dict c = None \<Longrightarrow> c_adapt_tables (netc_adaptive_tables_rebuild c) = c_adapt_tables c"
  by (auto simp: netc_adaptive_tables_rebuild_def split: option.split)

lemma keeps_adaptive: "keeps_shape c (netc_adaptive_update c a)"
proof (cases "c_adapt_freq c")
  case None
  then show ?thesis by (simp add: keeps_shape_def netc_adaptive_update_def)
next
  case (Some freq)
  obtain f t where ft: "fold (count_byte a) [0..<length a] (freq, c_adapt_total c) = (f, t)" by fastforce
  let ?c = "c\<lparr>c_adapt_freq := Some f, c_adapt_total := t, c_adapt_pkt_count := c_adapt_pkt_count c + 1\<rparr>"
  have len: "length f = length freq" "length t = length (c_adapt_total c)"
    using count_byte_lengths [OF ft] by simp_all
  have up: "netc_adaptive_update c a = (if unat (c_adapt_pkt_count c + 1) \<ge> NETC_ADAPTIVE_INTERVAL
      then (netc_adaptive_tables_rebuild ?c)\<lparr>c_adapt_pkt_count := 0\<rparr> else ?c)"
    by (simp add: netc_adaptive_update_def Some ft)
  have ad: "c_adapt_freq (netc_adaptive_update c a) = Some f" "c_adapt_total (netc_adaptive_update c a) = t"
    "(c_adapt_tables (netc_adaptive_update c a) = None) = (c_adapt_tables c = None)"
    "c_dict c = None \<longrightarrow> c_adapt_tables (netc_adaptive_update c a) = c_adapt_tables c"
    unfolding up by (simp_all add: rebuild_fields)
  show ?thesis
    using len unfolding keeps_shape_def shape_ok_def ctx_shape_def ring_ok_def ad adaptive_update_fields by (simp add: Some ad(4))
qed

lemma keeps_other:
  "keeps_shape c (c\<lparr>c_context_seq := q\<rparr>)" "keeps_shape c (compress_stats c m n p)" "keeps_shape c (decomp_stats c m n p)"
  "keeps_shape c (ctx_lzp_update c a)" "keeps_shape c (compress_update_prev c a)" "keeps_shape c (ctx_ring_append c a)"
proof -
  show "keeps_shape c (c\<lparr>c_context_seq := q\<rparr>)" "keeps_shape c (compress_stats c m n p)" "keeps_shape c (decomp_stats c m n p)"
    "keeps_shape c (ctx_lzp_update c a)"
    by (simp_all add: keeps_shape_def shape_ok_def ctx_shape_def ring_ok_def compress_stats_def decomp_stats_def ctx_lzp_update_def Let_def)
  show "keeps_shape c (compress_update_prev c a)"
    by (cases "c_prev_pkt c") (simp_all add: keeps_shape_def shape_ok_def ctx_shape_def ring_ok_def compress_update_prev_def)
  have "ctx_shape (c\<lparr>c_ring := r, c_ring_pos := p\<rparr>) = ctx_shape c" if "length r = length (c_ring c)" for r p
    using that by (simp add: ctx_shape_def)
  then have "ctx_shape (ctx_ring_append c a) = ctx_shape c" if "ring_ok c"
    using ring_append_keeps [OF that] ring_append_fields by metis
  moreover have "c_adapt_freq (ctx_ring_append c a) = c_adapt_freq c" by (subst ring_append_fields) simp
  ultimately show "keeps_shape c (ctx_ring_append c a)"
    using ring_append_keeps by (simp add: keeps_shape_def shape_ok_def ring_append_other)
qed

lemmas keeps_step = keeps_other [THEN keeps_trans [rotated]] keeps_adaptive [THEN keeps_trans [rotated]]

lemma keeps_finish:
  assumes "keeps_shape c0 c" shows "keeps_shape c0 (compress_finish c a m p)" "keeps_shape c0 (decomp_finish c hdr m p a)"
  unfolding compress_finish_def decomp_finish_def Let_def decomp_update_prev_def decomp_ring_append_def
  by (intro keeps_step assms)+

lemma reset_keeps: "keeps_shape c (netc_ctx_reset c)"
  unfolding keeps_shape_def shape_ok_def ctx_shape_def ring_ok_def reset_fields
  by (auto split: option.splits)

lemma api_step_keeps: "api_step c c' \<Longrightarrow> keeps_shape c c'"
proof (induction rule: api_step.induct)
  case (api_compress c src cap r c')
  have refl: "keeps_shape c c" by (simp add: keeps_shape_def)
  have "c' = c \<or> (\<exists>src' cap'. c' = snd (compress_packet c src' cap'))"
  proof (cases src; cases cap)
    fix a n
    assume a: "src = Some a" "cap = Some n"
    then show ?thesis using api_compress by (auto simp: netc_compress_def map_prod_def split_beta)
  qed (use api_compress in \<open>simp_all add: netc_compress_def\<close>)
  moreover have "keeps_shape c (snd (compress_packet c a n))" for a n
    unfolding compress_packet_def Let_def
    by (simp add: refl keeps_finish keeps_step split: sum.split option.split prod.split)
  ultimately show ?case using refl by auto
next
  case (api_decompress c src dst out c')
  have refl: "keeps_shape c c" by (simp add: keeps_shape_def)
  show ?case
    using api_decompress keeps_finish(2) [OF refl]
    by (auto simp: netc_decompress_def Let_def split: option.splits if_splits sum.splits prod.splits)
next
  case (api_reset c)
  show ?case by (rule reset_keeps)
qed

lemma create_shape:
  assumes "netc_ctx_create pf dict cfg = Some c" and "netc_ctx_create pf' dict cfg' = Some d" and "same_session cfg cfg'"
  shows "shape_ok c" and "ctx_shape c = ctx_shape d"
proof -
  show "shape_ok c"
    unfolding shape_ok_def ring_ok_def create_fields [OF assms(1)] create_dict [OF assms(1)] by (simp add: NETC_DEFAULT_RING_SIZE_def)
  show "ctx_shape c = ctx_shape d" using create_in_step [OF assms] by (simp add: in_step_def ctx_shape_def)
qed

lemma api_steps_keep: "api_step\<^sup>*\<^sup>* c c' \<Longrightarrow> keeps_shape c c'"
proof (induction rule: rtranclp_induct)
  case base
  show ?case by (simp add: keeps_shape_def)
next
  case (step y z)
  then show ?case using keeps_trans api_step_keeps by blast
qed

lemma recovery:
  assumes "netc_ctx_create pf dict cfg = Some c0" and "netc_ctx_create pf' dict cfg' = Some d0" and "same_session cfg cfg'"
    and "api_step\<^sup>*\<^sup>* c0 c" and "api_step\<^sup>*\<^sup>* d0 d"
  shows "in_step (netc_ctx_reset c) (netc_ctx_reset d)"
proof -
  have ses: "same_session cfg' cfg" using assms(3) by (auto simp: same_session_def)
  have "keeps_shape c0 c" "keeps_shape d0 d" using api_steps_keep assms(4,5) by blast+
  then have "shape_ok c" "shape_ok d" "ctx_shape c = ctx_shape d"
    using create_shape [OF assms(1-3)] create_shape(1) [OF assms(2,1) ses] by (simp_all add: keeps_shape_def)
  then show ?thesis using reset_of_shape by blast
qed

section \<open>Sample links\<close>

lemma uniform_usable: "dict_usable (Some uniform_dict)"
  using uniform_dict_wf uniform_coder_full uniform_class_map by (simp add: dict_usable_def dict_ready_def)

definition sample_cfg :: "u32 \<Rightarrow> netc_cfg" where
  "sample_cfg flags = \<lparr>cfg_flags = flags, cfg_ring_buffer_size = 4, cfg_compression_level = 5, cfg_simd_level = 1, cfg_arena_size = 0\<rparr>"

lemma sample_create:
  "\<exists>c. netc_ctx_create pf dict (Some (sample_cfg 0x201)) = Some c" "\<exists>c. netc_ctx_create pf dict (Some (sample_cfg 2)) = Some c"
  "same_session (Some cfg) (Some cfg)" "\<not> has_cfg (cfg_flags (cfg_of (Some (sample_cfg 2)))) NETC_CFG_FLAG_STATEFUL"
  by (simp_all add: netc_ctx_create_def has_cfg_def NETC_CFG_FLAG_STATEFUL_def NETC_CFG_FLAG_ADAPTIVE_def sample_cfg_def
      same_session_def cfg_of_def)

lemma sample_lossless:
  "netc_ctx_create pf dict (Some (sample_cfg 0x201)) = Some c \<Longrightarrow> length p < 256 \<Longrightarrow> lossless c p"
  "netc_ctx_create pf dict (Some (sample_cfg 2)) = Some c \<Longrightarrow> length p < 256 \<Longrightarrow> lossless c p"
  by (auto simp: lossless_def netc_ctx_create_def has_cfg_def sample_cfg_def NETC_CFG_FLAG_COMPACT_HDR_def Let_def split: if_splits)

lemma idle_send:
  assumes "ctx_ready c" and "length p \<le> NETC_MAX_PACKET_SIZE"
  shows "\<exists>s. link_step (idle_link c d) s \<and> lk_sent s = [p] \<and> lk_received s = [] \<and> lk_clean s = lossless c p"
proof -
  obtain pkt c' where "send_packet (lk_sender (idle_link c d)) p pkt c'"
    using send_enabled [OF assms] by (auto simp: idle_link_def)
  from transmit [OF this] show ?thesis by (fastforce simp: idle_link_def)
qed

lemma sample_link_reaches:
  assumes "dict_usable dict" and "length p < 256"
  shows "\<exists>s. link_reaches dict s \<and> lk_clean s \<and> lk_sent s = [p] \<and> lk_received s = []"
proof -
  obtain c where c: "netc_ctx_create scalar_platform dict (Some (sample_cfg 0x201)) = Some c" using sample_create(1) by blast
  have "link_open dict (idle_link c c)" by (rule open_both [OF c c sample_create(3)])
  moreover have "length p \<le> NETC_MAX_PACKET_SIZE" using assms(2) by (simp add: NETC_MAX_PACKET_SIZE_def)
  then obtain s where "link_step (idle_link c c) s" "lk_sent s = [p]" "lk_received s = []" "lk_clean s = lossless c p"
    using idle_send [OF create_ready [OF c assms(1)]] by blast
  ultimately show ?thesis using sample_lossless(1) [OF c assms(2)] unfolding link_reaches_def by blast
qed

lemma sample_dgram_reaches:
  assumes "dict_usable dict" and "length p < 256"
  shows "\<exists>s0 s. dgram_open dict s0 \<and> dgram_step\<^sup>*\<^sup>* s0 s \<and> dg_sent s = [p] \<and> dgram_clean dict s"
proof -
  obtain c where c: "netc_ctx_create scalar_platform dict (Some (sample_cfg 2)) = Some c" using sample_create(2) by blast
  let ?s = "\<lparr>dg_sender = c, dg_receiver = c, dg_wire = [], dg_sent = [], dg_received = []\<rparr>"
  have o: "dgram_open dict ?s" by (rule open_dgram [OF c c sample_create(3,4)])
  have "length p \<le> NETC_MAX_PACKET_SIZE" using assms(2) by (simp add: NETC_MAX_PACKET_SIZE_def)
  then obtain pkt c' where "send_packet c p pkt c'" using send_enabled [OF create_ready [OF c assms(1)]] by blast
  then have "dgram_step ?s (?s\<lparr>dg_sender := c', dg_wire := dg_wire ?s @ [pkt], dg_sent := dg_sent ?s @ [p]\<rparr>)" (is "dgram_step ?s ?t")
    by (intro dgram_transmit) simp
  then have "dgram_step\<^sup>*\<^sup>* ?s ?t" by blast
  moreover have "dgram_clean dict ?t" using assms(2) by (simp add: dgram_clean_def size_ok_def)
  ultimately show ?thesis using o by (intro exI [of _ ?s] exI [of _ ?t]) simp
qed

end
