(* ===== verification/Netc_Bench.thy ===== *)
theory Netc_Bench
  imports Netc_Stats Netc_Link
begin

text \<open>
  The benchmark runs: the adapter of netc (\<open>src/bench/bench_netc.c\<close>), the measurement loop of netc
  (\<open>src/bench/bench_runner.c\<close>), the same loop for any compressor behind a table of functions
  (\<open>src/bench/bench_compressor.c\<close>) and the bulk run (\<open>src/bench/bench_throughput.c\<close>).

  The host is a parameter: the processor, \<open>exp\<close> and the clock, whose readings are a sequence.  Beside the
  adapter a run changes the environment: the static variables of the generators, the number of clock
  readings, and a flag for undefined behaviour.  Pointers are valid and allocation succeeds.  A compressor
  that fails returns length 0, here the empty list.  The locale \<open>bench_codec\<close> states what the loops rely
  on and is interpreted on the adapter of netc.
\<close>

section \<open>Host and environment\<close>

record bench_host =
  h_platform :: netc_platform
  h_exp :: "double \<Rightarrow> double"
  h_now :: "nat \<Rightarrow> u64"

record bench_env =
  e_statics :: bench_statics
  e_clock :: nat
  e_undefined :: bool

definition env_ok :: "bench_env \<Rightarrow> bool" where
  "env_ok e \<longleftrightarrow> length (bs_base_ctrs (e_statics e)) = 32 \<and> \<not> e_undefined e"

definition bench_now_ns :: "bench_host \<Rightarrow> bench_env \<Rightarrow> u64 \<times> bench_env" where
  "bench_now_ns host e = (h_now host (e_clock e), e\<lparr>e_clock := e_clock e + 1\<rparr>)"

section \<open>The adapter\<close>

record bench_netc =
  n_enc_ctx :: "netc_ctx option"
  n_dec_ctx :: "netc_ctx option"
  n_dict :: "netc_dict option"
  n_stateless :: bool
  n_flags :: u32
  n_simd_level :: byte
  n_name :: string
  n_comp_buf_cap :: nat

definition create_ctx_pair :: "netc_platform \<Rightarrow> bench_netc \<Rightarrow> int \<times> bench_netc" where
  "create_ctx_pair pf n =
     (let cfg = \<lparr>cfg_flags = n_flags n, cfg_ring_buffer_size = 0, cfg_compression_level = 0, cfg_simd_level = n_simd_level n, cfg_arena_size = 0\<rparr>;
          enc = netc_ctx_create pf (n_dict n) (Some cfg);
          dec = netc_ctx_create pf (n_dict n) (Some cfg)
      in if enc = None \<or> dec = None then (-1, n\<lparr>n_enc_ctx := None, n_dec_ctx := None\<rparr>)
         else (0, n\<lparr>n_enc_ctx := enc, n_dec_ctx := dec\<rparr>))"

text \<open>\<open>snprintf\<close> into 64 characters keeps 63 of them.\<close>

definition adapter_name :: "bench_netc \<Rightarrow> string \<Rightarrow> string" where
  "adapter_name n dct =
     (let mode = (if n_stateless n then ''stateless'' else ''stateful'');
          delta = (if has_cfg (n_flags n) NETC_CFG_FLAG_DELTA then ''+delta'' else '''');
          fast = (if has_cfg (n_flags n) NETC_CFG_FLAG_FAST_COMPRESS then '' fast=1'' else '''');
          adapt = (if has_cfg (n_flags n) NETC_CFG_FLAG_ADAPTIVE then ''+adaptive'' else '''');
          det = (if n_enc_ctx n \<noteq> None then netc_ctx_simd_level (n_enc_ctx n) else n_simd_level n)
      in take 63 (''netc/'' @ mode @ delta @ dct @ adapt @ '' simd='' @ netc_simd_level_name det @ fast))"

definition bench_netc_init :: "netc_platform \<Rightarrow> netc_dict option \<Rightarrow> u32 \<Rightarrow> byte \<Rightarrow> nat \<Rightarrow> int \<times> bench_netc" where
  "bench_netc_init pf dict flags simd_level max_pkt_size =
     (let n = \<lparr>n_enc_ctx = None, n_dec_ctx = None, n_dict = dict, n_stateless = has_cfg flags NETC_CFG_FLAG_STATELESS,
               n_flags = flags, n_simd_level = simd_level, n_name = [], n_comp_buf_cap = max_pkt_size + NETC_MAX_OVERHEAD + 64\<rparr>;
          (rc, n) = (if n_stateless n then (0, n) else create_ctx_pair pf n)
      in if rc \<noteq> 0 then (-1, n)
         else (0, n\<lparr>n_name := adapter_name n (if dict \<noteq> None then ''+dict'' else '''')\<rparr>))"

definition bench_netc_train ::
    "bench_host \<Rightarrow> bench_netc \<Rightarrow> bench_workload \<Rightarrow> u64 \<Rightarrow> nat \<Rightarrow> bench_env \<Rightarrow> int \<times> bench_netc \<times> bench_env" where
  "bench_netc_train host n wl seed train_count e =
     (let n = n\<lparr>n_dict := None\<rparr>;
          (ps, st, undef) = bench_corpus_train (h_exp host) wl seed train_count (e_statics e);
          e = e\<lparr>e_statics := st, e_undefined := e_undefined e \<or> undef\<rparr>
      in case netc_dict_train (h_platform host) (Some (map Some ps)) train_count 1 True of
           Inl _ \<Rightarrow> (-1, n, e)
         | Inr dict \<Rightarrow>
             let n = n\<lparr>n_dict := Some dict\<rparr>;
                 (rc, n) = (if n_stateless n then (0, n) else create_ctx_pair (h_platform host) (n\<lparr>n_enc_ctx := None, n_dec_ctx := None\<rparr>))
             in if rc \<noteq> 0 then (-1, n, e) else (0, n\<lparr>n_name := adapter_name n ''+dict''\<rparr>, e))"

definition bench_netc_compress :: "bench_netc \<Rightarrow> byte list \<Rightarrow> nat \<Rightarrow> byte list \<times> bench_netc" where
  "bench_netc_compress n src dst_cap =
     (if n_stateless n
      then case n_dict n of None \<Rightarrow> ([], n)
           | Some d \<Rightarrow> (case netc_compress_stateless (Some d) (Some src) (Some dst_cap) of Inl _ \<Rightarrow> ([], n) | Inr pkt \<Rightarrow> (pkt, n))
      else case n_enc_ctx n of None \<Rightarrow> ([], n)
           | Some c \<Rightarrow>
               (case netc_compress (Some c) (Some src) (Some dst_cap) of
                  (Inl _, c') \<Rightarrow> ([], n\<lparr>n_enc_ctx := c'\<rparr>)
                | (Inr pkt, c') \<Rightarrow> (pkt, n\<lparr>n_enc_ctx := c'\<rparr>)))"

text \<open>The destination is a buffer with its contents; the result is the decoded prefix.\<close>

definition bench_netc_decompress :: "bench_netc \<Rightarrow> byte list \<Rightarrow> byte list \<Rightarrow> byte list \<times> bench_netc" where
  "bench_netc_decompress n src dst =
     (if n_stateless n
      then case n_dict n of None \<Rightarrow> ([], n)
           | Some d \<Rightarrow> (case netc_decompress_stateless (Some d) (Some src) (Some dst) of Inl _ \<Rightarrow> ([], n) | Inr out \<Rightarrow> (out, n))
      else case n_dec_ctx n of None \<Rightarrow> ([], n)
           | Some c \<Rightarrow>
               (case netc_decompress (Some c) (Some src) (Some dst) of
                  Inl _ \<Rightarrow> ([], n)
                | Inr (out, c') \<Rightarrow> (out, n\<lparr>n_dec_ctx := Some c'\<rparr>)))"

definition bench_netc_reset :: "bench_netc \<Rightarrow> bench_netc" where
  "bench_netc_reset n = n\<lparr>n_enc_ctx := map_option netc_ctx_reset (n_enc_ctx n), n_dec_ctx := map_option netc_ctx_reset (n_dec_ctx n)\<rparr>"

definition bench_netc_destroy :: "bench_netc \<Rightarrow> bench_netc" where
  "bench_netc_destroy n = n\<lparr>n_enc_ctx := None, n_dec_ctx := None, n_dict := None\<rparr>"

section \<open>The measurement loops\<close>

definition BENCH_DEFAULT_COUNT :: nat where "BENCH_DEFAULT_COUNT = 100000"
definition BENCH_DEFAULT_WARMUP :: nat where "BENCH_DEFAULT_WARMUP = 1000"
definition BENCH_DEFAULT_SEED :: u64 where "BENCH_DEFAULT_SEED = 42"
definition BENCH_EVAL_SEED_OFFSET :: u64 where "BENCH_EVAL_SEED_OFFSET = 0x1000001"

record bench_run_cfg =
  run_warmup :: nat
  run_count :: nat
  run_seed :: u64

text \<open>A compressor: its two operations on its state.\<close>

record 's bench_ops =
  op_compress :: "'s \<Rightarrow> byte list \<Rightarrow> nat \<Rightarrow> byte list \<times> 's"
  op_decompress :: "'s \<Rightarrow> byte list \<Rightarrow> byte list \<Rightarrow> byte list \<times> 's"

definition netc_ops :: "bench_netc bench_ops" where
  "netc_ops = \<lparr>op_compress = bench_netc_compress, op_decompress = bench_netc_decompress\<rparr>"

record 's bench_loop =
  l_codec :: 's
  l_corpus :: bench_corpus
  l_env :: bench_env
  l_buf :: "byte list"
  l_c_samples :: "u64 list"
  l_d_samples :: "u64 list"
  l_orig :: u64
  l_comp :: u64
  l_safety_ok :: bool

text \<open>\<open>bench_corpus_next\<close>, again after a reset if it returns 0, and the copy of the packet.\<close>

definition next_packet :: "bench_host \<Rightarrow> 's bench_loop \<Rightarrow> byte list \<times> 's bench_loop" where
  "next_packet host l =
     (let (plen, g) = bench_corpus_next (h_exp host) \<lparr>g_corpus = l_corpus l, g_statics = e_statics (l_env l), g_undefined = e_undefined (l_env l)\<rparr>;
          (plen, g) = (if plen = 0 then bench_corpus_next (h_exp host) (g\<lparr>g_corpus := bench_corpus_reset (g_corpus g)\<rparr>) else (plen, g))
      in (take plen (bc_packet (g_corpus g)),
          l\<lparr>l_corpus := g_corpus g, l_env := (l_env l)\<lparr>e_statics := g_statics g, e_undefined := g_undefined g\<rparr>\<rparr>))"

definition COMP_BUF_CAP :: nat where "COMP_BUF_CAP = BENCH_CORPUS_MAX_PKT + 64"

text \<open>The buffer after decoding: the output in front of what it held.\<close>

definition fill_buf :: "byte list \<Rightarrow> byte list \<Rightarrow> byte list" where
  "fill_buf out buf = out @ drop (length out) buf"

definition warmup_step :: "bench_host \<Rightarrow> 's bench_ops \<Rightarrow> 's bench_loop \<Rightarrow> 's bench_loop" where
  "warmup_step host ops l =
     (let (p, l) = next_packet host l;
          (pkt, s) = op_compress ops (l_codec l) p COMP_BUF_CAP
      in if pkt = [] then l\<lparr>l_codec := s\<rparr>
         else let (out, s) = op_decompress ops s pkt (l_buf l) in l\<lparr>l_codec := s, l_buf := fill_buf out (l_buf l)\<rparr>)"

definition elapsed :: "u64 \<Rightarrow> u64 \<Rightarrow> u64" where
  "elapsed t0 t1 = (if t1 \<ge> t0 then t1 - t0 else 0)"

definition timed_compress :: "bench_host \<Rightarrow> 's bench_ops \<Rightarrow> byte list \<Rightarrow> 's bench_loop \<Rightarrow> byte list \<times> u64 \<times> 's bench_loop" where
  "timed_compress host ops p l =
     (let (t0, e) = bench_now_ns host (l_env l);
          (pkt, s) = op_compress ops (l_codec l) p COMP_BUF_CAP;
          (t1, e) = bench_now_ns host e
      in (pkt, elapsed t0 t1, l\<lparr>l_codec := s, l_env := e\<rparr>))"

text \<open>Decoding, its time, and the comparison with the packet.\<close>

definition verify_packet :: "bench_host \<Rightarrow> 's bench_ops \<Rightarrow> byte list \<Rightarrow> byte list \<Rightarrow> u64 \<Rightarrow> 's bench_loop \<Rightarrow> 's bench_loop" where
  "verify_packet host ops p pkt t l =
     (let (t2, e) = bench_now_ns host (l_env l);
          (out, s) = op_decompress ops (l_codec l) pkt (l_buf l);
          (t3, e) = bench_now_ns host e;
          buf = fill_buf out (l_buf l)
      in l\<lparr>l_codec := s, l_env := e, l_buf := buf,
           l_c_samples := l_c_samples l @ [t], l_d_samples := l_d_samples l @ [elapsed t2 t3],
           l_orig := l_orig l + of_nat (length p), l_comp := l_comp l + of_nat (length pkt),
           l_safety_ok := l_safety_ok l \<and> length out = length p \<and> take (length p) buf = p\<rparr>)"

definition UINT64_MAX_HALF :: u64 where "UINT64_MAX_HALF = 0x7FFFFFFFFFFFFFFF"

definition run_step :: "bench_host \<Rightarrow> 's bench_ops \<Rightarrow> 's bench_loop \<Rightarrow> 's bench_loop" where
  "run_step host ops l =
     (let (p, l) = next_packet host l;
          (pkt, t, l) = timed_compress host ops p l
      in if pkt = []
         then l\<lparr>l_c_samples := l_c_samples l @ [UINT64_MAX_HALF], l_d_samples := l_d_samples l @ [UINT64_MAX_HALF], l_safety_ok := False\<rparr>
         else verify_packet host ops p pkt t l)"

definition generic_step :: "bench_host \<Rightarrow> 's bench_ops \<Rightarrow> 's bench_loop \<Rightarrow> 's bench_loop" where
  "generic_step host ops l =
     (let (p, l) = next_packet host l;
          (pkt, t, l) = timed_compress host ops p l
      in if pkt = []
         then l\<lparr>l_c_samples := l_c_samples l @ [t], l_d_samples := l_d_samples l @ [0],
                l_orig := l_orig l + of_nat (length p), l_comp := l_comp l + of_nat (length p)\<rparr>
         else verify_packet host ops p pkt t l)"

text \<open>Warm-up, reset of corpus and compressor, measurement; \<open>buf\<close> is what \<open>malloc\<close> returned.\<close>

definition run_loops ::
    "bench_host \<Rightarrow> 's bench_ops \<Rightarrow> ('s \<Rightarrow> 's) \<Rightarrow> ('s bench_loop \<Rightarrow> 's bench_loop) \<Rightarrow> nat \<Rightarrow> nat \<Rightarrow> bench_workload \<Rightarrow> u64 \<Rightarrow> byte list
       \<Rightarrow> 's \<Rightarrow> bench_env \<Rightarrow> 's bench_loop" where
  "run_loops host ops reset step warmup n wl seed buf s e =
     (let l = \<lparr>l_codec = reset s, l_corpus = bench_corpus_init wl seed, l_env = e, l_buf = buf,
               l_c_samples = [], l_d_samples = [], l_orig = 0, l_comp = 0, l_safety_ok = True\<rparr>;
          l = (warmup_step host ops ^^ warmup) l;
          l = l\<lparr>l_corpus := bench_corpus_reset (l_corpus l), l_codec := reset (l_codec l)\<rparr>
      in (step ^^ n) l)"

definition run_result :: "string \<Rightarrow> string \<Rightarrow> bench_workload \<Rightarrow> nat \<Rightarrow> u64 \<Rightarrow> 's bench_loop \<Rightarrow> bench_result \<Rightarrow> bench_result" where
  "run_result name cfg wl n seed l out =
     (let cst = bench_stats_compute (r_compress out) (l_c_samples l);
          dst = bench_stats_compute (r_decompress out) (l_d_samples l);
          pkt_size = bench_workload_pkt_size wl;
          bpp = (if pkt_size = 0 \<and> n > 0 then unat (l_orig l) div n else pkt_size)
      in \<lparr>r_compressor = Some name, r_compressor_cfg = Some cfg, r_workload = wl, r_pkt_size = pkt_size, r_count = of_nat n, r_seed = seed,
          r_compress = cst, r_decompress = dst, r_ratio = bench_stats_ratio (l_orig l) (l_comp l),
          r_original_bytes = l_orig l, r_compressed_bytes = l_comp l,
          r_compress_mbs = bench_stats_throughput_mbs bpp (s_mean_ns cst), r_compress_mpps = bench_stats_mpps (s_mean_ns cst),
          r_decompress_mbs = bench_stats_throughput_mbs bpp (s_mean_ns dst), r_decompress_mpps = bench_stats_mpps (s_mean_ns dst)\<rparr>)"

definition bench_run ::
    "bench_host \<Rightarrow> bench_run_cfg \<Rightarrow> bench_workload \<Rightarrow> byte list \<Rightarrow> bench_netc \<Rightarrow> bench_result \<Rightarrow> bench_env
       \<Rightarrow> int \<times> bench_result \<times> bench_netc \<times> bench_env" where
  "bench_run host cfg wl buf netc out e =
     (let n = (if run_count cfg = 0 then BENCH_DEFAULT_COUNT else run_count cfg);
          eval_seed = run_seed cfg + BENCH_EVAL_SEED_OFFSET;
          l = run_loops host netc_ops bench_netc_reset (run_step host netc_ops) (run_warmup cfg) n wl eval_seed buf netc e
      in (if l_safety_ok l then 0 else -1, run_result (n_name netc) [] wl n (run_seed cfg) l out, l_codec l, l_env l))"

text \<open>
  A compressor behind the table of functions: \<open>name\<close>, \<open>cfg\<close>, the state and the operations; \<open>train\<close> and
  \<open>reset\<close> may be missing.  \<open>bc_name_owned\<close>: the name is a buffer of the adapter, which ends with it.
\<close>

record 's bench_compressor =
  bc_name :: string
  bc_name_owned :: bool
  bc_cfg :: "string option"
  bc_state :: 's
  bc_train :: "('s \<Rightarrow> bench_workload \<Rightarrow> u64 \<Rightarrow> nat \<Rightarrow> bench_env \<Rightarrow> 's \<times> bench_env) option"
  bc_reset :: "('s \<Rightarrow> 's) option"
  bc_ops :: "'s bench_ops"

definition bench_run_generic ::
    "bench_host \<Rightarrow> bench_run_cfg \<Rightarrow> bench_workload \<Rightarrow> byte list \<Rightarrow> 's bench_compressor \<Rightarrow> bench_result \<Rightarrow> bench_env
       \<Rightarrow> int \<times> bench_result \<times> 's bench_compressor \<times> bench_env" where
  "bench_run_generic host cfg wl buf c out e =
     (let n = (if run_count cfg = 0 then 100000 else run_count cfg);
          eval_seed = run_seed cfg + BENCH_EVAL_SEED_OFFSET;
          reset = (case bc_reset c of None \<Rightarrow> id | Some f \<Rightarrow> f);
          l = run_loops host (bc_ops c) reset (generic_step host (bc_ops c)) (run_warmup cfg) n wl eval_seed buf (bc_state c) e
      in (if l_safety_ok l then 0 else -1,
          run_result (bc_name c) (case bc_cfg c of None \<Rightarrow> [] | Some s \<Rightarrow> s) wl n (run_seed cfg) l out,
          c\<lparr>bc_state := l_codec l\<rparr>, l_env l))"

section \<open>Bulk runs\<close>

definition SCRATCH_CAP :: nat where "SCRATCH_CAP = BENCH_CORPUS_MAX_PKT * 2 + 256"

record bench_throughput_result =
  tr_compressor :: string
  tr_compressor_cfg :: "string option"
  tr_workload :: bench_workload
  tr_packets :: u64
  tr_original_bytes :: u64
  tr_compressed_bytes :: u64
  tr_ratio :: double
  tr_compress_mbs :: double
  tr_decompress_mbs :: double
  tr_compress_mpps :: double
  tr_decompress_mpps :: double
  tr_compress_elapsed_s :: double
  tr_decompress_elapsed_s :: double

text \<open>The warm-up ends at the first packet of length 0.\<close>

primrec throughput_warmup :: "(double \<Rightarrow> double) \<Rightarrow> 's bench_ops \<Rightarrow> nat \<Rightarrow> 's \<Rightarrow> gen_state \<Rightarrow> 's \<times> gen_state" where
  "throughput_warmup exp_fn ops 0 s g = (s, g)"
| "throughput_warmup exp_fn ops (Suc k) s g =
     (let (plen, g) = bench_corpus_next exp_fn g
      in if plen = 0 then (s, g)
         else throughput_warmup exp_fn ops k (snd (op_compress ops s (take plen (bc_packet (g_corpus g))) SCRATCH_CAP)) g)"

text \<open>A packet of length 0 is generated once more, without a reset.\<close>

primrec throughput_packets :: "(double \<Rightarrow> double) \<Rightarrow> nat \<Rightarrow> gen_state \<Rightarrow> byte list list \<times> gen_state" where
  "throughput_packets exp_fn 0 g = ([], g)"
| "throughput_packets exp_fn (Suc k) g =
     (let (plen, g) = bench_corpus_next exp_fn g;
          (plen, g) = (if plen = 0 then bench_corpus_next exp_fn g else (plen, g));
          p = take plen (bc_packet (g_corpus g));
          (ps, g) = throughput_packets exp_fn k g
      in (p # ps, g))"

text \<open>A packet that the compressor refuses is stored as it is.\<close>

primrec throughput_compress :: "'s bench_ops \<Rightarrow> byte list list \<Rightarrow> 's \<Rightarrow> byte list list \<times> 's" where
  "throughput_compress ops [] s = ([], s)"
| "throughput_compress ops (p # ps) s =
     (let (pkt, s) = op_compress ops s p SCRATCH_CAP;
          (pkts, s) = throughput_compress ops ps s
      in ((if pkt = [] then p else pkt) # pkts, s))"

primrec throughput_decompress :: "'s bench_ops \<Rightarrow> byte list list \<Rightarrow> byte list \<Rightarrow> 's \<Rightarrow> 's" where
  "throughput_decompress ops [] buf s = s"
| "throughput_decompress ops (pkt # pkts) buf s =
     (let (out, s) = op_decompress ops s pkt buf in throughput_decompress ops pkts (fill_buf out buf) s)"

definition total_bytes :: "byte list list \<Rightarrow> u64" where
  "total_bytes ps = sum_list (map (\<lambda>p. of_nat (length p)) ps)"

definition per_second :: "double \<Rightarrow> double \<Rightarrow> double" where
  "per_second x seconds = (if seconds > 0 then d_div x seconds else 0)"

definition throughput_run_internal ::
    "bench_host \<Rightarrow> bench_run_cfg \<Rightarrow> bench_workload \<Rightarrow> byte list \<Rightarrow> 's bench_compressor \<Rightarrow> bench_env
       \<Rightarrow> bench_throughput_result \<times> 's bench_compressor \<times> bench_env" where
  "throughput_run_internal host cfg wl buf c e =
     (let eval_seed = run_seed cfg + BENCH_EVAL_SEED_OFFSET;
          g = \<lparr>g_corpus = bench_corpus_init wl eval_seed, g_statics = e_statics e, g_undefined = e_undefined e\<rparr>;
          (s, g) = throughput_warmup (h_exp host) (bc_ops c) (run_warmup cfg) (bc_state c) g;
          g = g\<lparr>g_corpus := bench_corpus_reset (g_corpus g)\<rparr>;
          (ps, g) = throughput_packets (h_exp host) (run_count cfg) g;
          e = e\<lparr>e_statics := g_statics g, e_undefined := g_undefined g\<rparr>;
          (t0, e) = bench_now_ns host e;
          (pkts, s) = throughput_compress (bc_ops c) ps s;
          (t1, e) = bench_now_ns host e;
          compress_elapsed = d_mul (d_of_u64 (t1 - t0)) (d_lit 1 (10 ^ 9));
          (t2, e) = bench_now_ns host e;
          s = throughput_decompress (bc_ops c) pkts buf s;
          (t3, e) = bench_now_ns host e;
          decompress_elapsed = d_mul (d_of_u64 (t3 - t2)) (d_lit 1 (10 ^ 9));
          total_orig = total_bytes ps;
          total_cmp = total_bytes pkts;
          orig_mb = d_div (d_of_u64 total_orig) (d_mul (d_lit 1024 1) (d_lit 1024 1));
          pkt_m = d_div (d_of_int (int (length ps))) (d_lit (10 ^ 6) 1)
      in (\<lparr>tr_compressor = bc_name c, tr_compressor_cfg = bc_cfg c, tr_workload = wl, tr_packets = of_nat (length ps),
           tr_original_bytes = total_orig, tr_compressed_bytes = total_cmp,
           tr_ratio = (if total_orig > 0 then d_div (d_of_u64 total_cmp) (d_of_u64 total_orig) else d_lit 1 1),
           tr_compress_mbs = per_second orig_mb compress_elapsed, tr_decompress_mbs = per_second orig_mb decompress_elapsed,
           tr_compress_mpps = per_second pkt_m compress_elapsed, tr_decompress_mpps = per_second pkt_m decompress_elapsed,
           tr_compress_elapsed_s = compress_elapsed, tr_decompress_elapsed_s = decompress_elapsed\<rparr>,
          c\<lparr>bc_state := s\<rparr>, e))"

definition bench_throughput_run where
  "bench_throughput_run host cfg wl buf c e = throughput_run_internal host cfg wl buf c e"

definition bench_mpps_run where
  "bench_mpps_run host wl buf c seed e =
     throughput_run_internal host \<lparr>run_warmup = 10000, run_count = 1000000, run_seed = seed\<rparr> wl buf c e"

section \<open>What the loops rely on\<close>

text \<open>The packets of the workloads: their sizes are even, more than 8 and at most 512.\<close>

definition bench_packet :: "byte list \<Rightarrow> bool" where
  "bench_packet p \<longleftrightarrow> even (length p) \<and> 8 < length p \<and> length p \<le> BENCH_CORPUS_MAX_PKT"

definition l_gen :: "'s bench_loop \<Rightarrow> gen_state" where
  "l_gen l = \<lparr>g_corpus = l_corpus l, g_statics = e_statics (l_env l), g_undefined = e_undefined (l_env l)\<rparr>"

definition runs_on :: "bench_workload \<Rightarrow> 's bench_loop \<Rightarrow> bool" where
  "runs_on wl l \<longleftrightarrow> corpus_ok (l_gen l) \<and> bc_workload (l_corpus l) = wl \<and> length (l_buf l) = BENCH_CORPUS_MAX_PKT
     \<and> length (l_c_samples l) = length (l_d_samples l) \<and> l_safety_ok l"

lemma pkt_sizes_packet:
  assumes "wl \<noteq> BENCH_WL_ALL" and "length p \<in> pkt_sizes wl" shows "bench_packet p"
  using assms by (cases wl) (auto simp: pkt_sizes_def bench_workload_pkt_size_def bench_packet_def BENCH_CORPUS_MAX_PKT_def)

lemma next_packet_ok:
  assumes "runs_on wl l" and "wl \<noteq> BENCH_WL_ALL" and "next_packet host l = (p, l')"
  shows "bench_packet p" and "runs_on wl l'" and "l_codec l' = l_codec l" and "l_c_samples l' = l_c_samples l"
proof -
  obtain len g where n: "bench_corpus_next (h_exp host) (l_gen l) = (len, g)" by fastforce
  have ok: "corpus_ok (l_gen l)" "bc_workload (g_corpus (l_gen l)) = wl" using assms(1) by (simp_all add: runs_on_def l_gen_def)
  note nx = next_ok [OF n ok(1), unfolded ok(2)]
  have "length (take len (bc_packet (g_corpus g))) = len"
    using nx(1,4) pkt_sizes_max by (simp add: corpus_ok_def)
  then have p: "bench_packet (take len (bc_packet (g_corpus g)))" using pkt_sizes_packet [OF assms(2)] nx(4) by simp
  then have "len \<noteq> 0" by (auto simp: bench_packet_def)
  then have e: "p = take len (bc_packet (g_corpus g))"
    "l' = l\<lparr>l_corpus := g_corpus g, l_env := (l_env l)\<lparr>e_statics := g_statics g, e_undefined := g_undefined g\<rparr>\<rparr>"
    using assms(3) n by (auto simp: next_packet_def l_gen_def Let_def)
  show "bench_packet p" "l_codec l' = l_codec l" "l_c_samples l' = l_c_samples l" using p by (simp_all add: e)
  have "l_gen l' = g" by (cases g) (simp add: l_gen_def e(2))
  then show "runs_on wl l'"
    using assms(1) nx(1,2) ok(2) unfolding runs_on_def by (simp add: e(2) same_corpus_def)
qed

lemma restart_runs: "runs_on wl l \<Longrightarrow> runs_on wl (l\<lparr>l_corpus := bench_corpus_reset (l_corpus l), l_codec := s\<rparr>)"
  by (simp add: runs_on_def l_gen_def corpus_ok_def bench_corpus_reset_def bench_corpus_init_def)

locale bench_codec =
  fixes ops :: "'s bench_ops" and reset :: "'s \<Rightarrow> 's" and good :: "'s \<Rightarrow> bool"
  assumes codec_step: "\<lbrakk>good s; bench_packet p; length buf = BENCH_CORPUS_MAX_PKT\<rbrakk>
      \<Longrightarrow> \<exists>pkt s1 s2. op_compress ops s p COMP_BUF_CAP = (pkt, s1) \<and> pkt \<noteq> [] \<and> op_decompress ops s1 pkt buf = (p, s2) \<and> good s2"
    and codec_reset: "good s \<Longrightarrow> good (reset s)"
begin

lemma warmup_ok:
  assumes "runs_on wl l" and "good (l_codec l)" and "wl \<noteq> BENCH_WL_ALL"
  shows "runs_on wl (warmup_step host ops l) \<and> good (l_codec (warmup_step host ops l))
    \<and> l_c_samples (warmup_step host ops l) = l_c_samples l"
proof -
  obtain p l1 where n: "next_packet host l = (p, l1)" by fastforce
  note nx = next_packet_ok [OF assms(1,3) n]
  have buf: "length (l_buf l1) = BENCH_CORPUS_MAX_PKT" using nx(2) by (simp add: runs_on_def)
  obtain pkt s1 s2 where c: "op_compress ops (l_codec l1) p COMP_BUF_CAP = (pkt, s1)" "pkt \<noteq> []"
    "op_decompress ops s1 pkt (l_buf l1) = (p, s2)" "good s2"
    using codec_step [OF assms(2) nx(1) buf] unfolding nx(3) by blast
  have "warmup_step host ops l = l1\<lparr>l_codec := s2, l_buf := fill_buf p (l_buf l1)\<rparr>"
    using c(2) by (simp add: warmup_step_def n c(1,3))
  moreover have "length (fill_buf p (l_buf l1)) = BENCH_CORPUS_MAX_PKT" using buf nx(1) by (simp add: fill_buf_def bench_packet_def)
  ultimately show ?thesis using nx(2,4) c(4) by (simp add: runs_on_def l_gen_def)
qed

lemma verified:
  assumes "runs_on wl l" and "good (l_codec l)" and "wl \<noteq> BENCH_WL_ALL" and step: "step \<in> {run_step host ops, generic_step host ops}"
  shows "runs_on wl (step l) \<and> good (l_codec (step l)) \<and> length (l_c_samples (step l)) = length (l_c_samples l) + 1"
proof -
  obtain p l1 where n: "next_packet host l = (p, l1)" by fastforce
  note nx = next_packet_ok [OF assms(1,3) n]
  obtain pkt t l2 where t: "timed_compress host ops p l1 = (pkt, t, l2)" using prod_cases3 by blast
  have buf: "length (l_buf l1) = BENCH_CORPUS_MAX_PKT" using nx(2) by (simp add: runs_on_def)
  obtain s1 s2 where c: "op_compress ops (l_codec l1) p COMP_BUF_CAP = (pkt, s1)" "pkt \<noteq> []"
    "op_decompress ops s1 pkt (l_buf l1) = (p, s2)" "good s2"
    using codec_step [OF assms(2) nx(1) buf] t unfolding nx(3) timed_compress_def Let_def split_beta by auto
  have l2: "l_codec l2 = s1" "l_buf l2 = l_buf l1" "l_corpus l2 = l_corpus l1" "l_c_samples l2 = l_c_samples l1" "l_d_samples l2 = l_d_samples l1"
    "l_safety_ok l2 = l_safety_ok l1" "e_statics (l_env l2) = e_statics (l_env l1)" "e_undefined (l_env l2) = e_undefined (l_env l1)"
    using t c(1) by (auto simp: timed_compress_def bench_now_ns_def Let_def)
  have "step l = verify_packet host ops p pkt t l2"
    using step c(2) by (auto simp: run_step_def generic_step_def n t)
  moreover have "length (fill_buf p (l_buf l1)) = BENCH_CORPUS_MAX_PKT" "take (length p) (fill_buf p (l_buf l1)) = p"
    using buf nx(1) by (simp_all add: fill_buf_def bench_packet_def)
  ultimately show ?thesis
    using nx(2,4) c(3,4) by (simp add: verify_packet_def bench_now_ns_def l2 runs_on_def l_gen_def)
qed

lemma loops_ok:
  assumes "good s" and "env_ok e" and "wl \<noteq> BENCH_WL_ALL" and "length buf = BENCH_CORPUS_MAX_PKT"
    and step: "step \<in> {run_step host ops, generic_step host ops}"
    and l: "l = run_loops host ops reset step warmup n wl seed buf s e"
  shows "runs_on wl l" and "good (l_codec l)" and "length (l_c_samples l) = n"
proof -
  let ?l0 = "\<lparr>l_codec = reset s, l_corpus = bench_corpus_init wl seed, l_env = e, l_buf = buf,
     l_c_samples = [], l_d_samples = [], l_orig = 0, l_comp = 0, l_safety_ok = True\<rparr>"
  define w where "w = (warmup_step host ops ^^ warmup) ?l0"
  have "runs_on wl ?l0 \<and> good (l_codec ?l0)"
    using assms init_ok codec_reset by (simp add: runs_on_def l_gen_def env_ok_def corpus_ok_def bench_corpus_init_def)
  then have w: "runs_on wl w \<and> good (l_codec w) \<and> l_c_samples w = []"
    unfolding w_def by (induction warmup) (simp_all add: warmup_ok [OF _ _ assms(3)])
  let ?m = "w\<lparr>l_corpus := bench_corpus_reset (l_corpus w), l_codec := reset (l_codec w)\<rparr>"
  have "runs_on wl ?m" "good (l_codec ?m)" "l_c_samples ?m = []"
    using w codec_reset restart_runs [of wl w] by simp_all
  then have "runs_on wl ((step ^^ n) ?m) \<and> good (l_codec ((step ^^ n) ?m)) \<and> length (l_c_samples ((step ^^ n) ?m)) = n"
    by (induction n) (simp_all add: verified [OF _ _ assms(3) step])
  then show "runs_on wl l" and "good (l_codec l)" and "length (l_c_samples l) = n"
    by (simp_all add: l run_loops_def Let_def w_def)
qed

end

section \<open>The adapter of netc\<close>

text \<open>Order-2 delta under the compact header is decoded wrongly, unless the dictionary predicts bytes.\<close>

definition header_safe :: "netc_ctx \<Rightarrow> bool" where
  "header_safe c \<longleftrightarrow> \<not> has_cfg (c_flags c) NETC_CFG_FLAG_COMPACT_HDR \<or> c_prev2_pkt c = None
     \<or> (\<exists>d. c_dict c = Some d \<and> d_lzp_table d \<noteq> None)"

lemma header_safe_shape: "ctx_shape c' = ctx_shape c \<Longrightarrow> header_safe c' = header_safe c"
  by (simp add: ctx_shape_def header_safe_def)

lemma bench_lossless: "header_safe c \<Longrightarrow> bench_packet p \<Longrightarrow> lossless c p"
  using no_order2 by (auto simp: lossless_def header_safe_def bench_packet_def netc_get_lzp_table_def split: option.split)

lemma decode_nothing: "netc_decompress (Some d) (Some []) (Some buf) \<noteq> Inr x" "netc_decompress_stateless (Some d') (Some []) (Some buf) \<noteq> Inr y"
proof -
  have "netc_hdr_read_compact [] = None" by (simp add: netc_hdr_read_compact_def)
  then have "validate_header [] n compact = Inl (F_Result NETC_ERR_CORRUPT)" for n compact
    by (simp add: validate_header_eq NETC_HEADER_SIZE_def)
  then show "netc_decompress (Some d) (Some []) (Some buf) \<noteq> Inr x" "netc_decompress_stateless (Some d') (Some []) (Some buf) \<noteq> Inr y"
    by (simp_all add: netc_decompress_def netc_decompress_stateless_def)
qed

definition pair_good :: "netc_ctx \<Rightarrow> netc_ctx \<Rightarrow> bool" where
  "pair_good c d \<longleftrightarrow> ctx_ready c \<and> ctx_ready d \<and> in_step c d \<and> shape_ok c \<and> header_safe c \<and> dict_usable (c_dict c)"

definition adapter_good :: "bench_netc \<Rightarrow> bool" where
  "adapter_good n \<longleftrightarrow>
     (if n_stateless n then \<exists>d. n_dict n = Some d \<and> dict_ready d
      else \<exists>c d. n_enc_ctx n = Some c \<and> n_dec_ctx n = Some d \<and> pair_good c d)"

lemma pair_step:
  assumes "pair_good c d" and p: "bench_packet p" and buf: "length buf = BENCH_CORPUS_MAX_PKT"
  shows "\<exists>pkt c' d'. netc_compress (Some c) (Some p) (Some COMP_BUF_CAP) = (Inr pkt, Some c') \<and> pkt \<noteq> []
    \<and> netc_decompress (Some d) (Some pkt) (Some buf) = Inr (p, d') \<and> pair_good c' d'"
proof -
  have g: "ctx_ready c" "ctx_ready d" "in_step c d" "shape_ok c" "header_safe c" "dict_usable (c_dict c)"
    using assms(1) by (simp_all add: pair_good_def)
  have len: "length p \<le> NETC_MAX_PACKET_SIZE" "length p + NETC_HEADER_SIZE \<le> COMP_BUF_CAP" "length p \<le> length buf"
    using p buf by (simp_all add: bench_packet_def BENCH_CORPUS_MAX_PKT_def NETC_MAX_PACKET_SIZE_def NETC_HEADER_SIZE_def COMP_BUF_CAP_def)
  obtain pkt c' d' where e: "netc_compress (Some c) (Some p) (Some COMP_BUF_CAP) = (Inr pkt, Some c')"
    and c': "\<exists>q. c' = compress_finish (c\<lparr>c_context_seq := c_context_seq c + 1\<rparr>) p (length pkt) q"
    and d: "netc_decompress (Some d) (Some pkt) (Some buf) = Inr (p, d')" "in_step c' d'" "ctx_ready d'"
    using roundtrip_step [OF g(1-3) len(1) bench_lossless [OF g(5) p] len(2,3)] by blast
  have "keeps_shape c c'" using c' keeps_finish(1) keeps_other(1) by blast
  then have sh: "shape_ok c'" "ctx_shape c' = ctx_shape c" using g(4) by (simp_all add: keeps_shape_def)
  have "ctx_ready c'" using c' finish_ready(1) len(1) g(1) ready_other(1) by blast
  moreover have "header_safe c'" "c_dict c' = c_dict c" using header_safe_shape [OF sh(2)] g(5) sh(2) by (simp_all add: ctx_shape_def)
  ultimately have "pair_good c' d'" using d(2,3) g(6) sh(1) by (simp add: pair_good_def)
  moreover have "pkt \<noteq> []" using d(1) decode_nothing(1) by metis
  ultimately show ?thesis using e d(1) by blast
qed

lemma pair_reset:
  assumes "pair_good c d" shows "pair_good (netc_ctx_reset c) (netc_ctx_reset d)"
proof -
  have g: "ctx_ready c" "ctx_ready d" "in_step c d" "shape_ok c" "header_safe c" "dict_usable (c_dict c)"
    using assms by (simp_all add: pair_good_def)
  then have dict: "c_dict d = c_dict c" by (simp add: in_step_def)
  have sh: "shape_ok (netc_ctx_reset c)" "ctx_shape (netc_ctx_reset c) = ctx_shape c"
    using reset_keeps [of c] g(4) by (simp_all add: keeps_shape_def)
  have "ctx_ready (netc_ctx_reset c)" "ctx_ready (netc_ctx_reset d)" using reset_ready g(1,2,6) dict by simp_all
  then show ?thesis
    unfolding pair_good_def using reset_in_step [OF g(3)] header_safe_shape [OF sh(2)] sh(1) g(5,6) reset_dict [of c] by simp
qed

lemma stateless_step:
  assumes "dict_ready d" and p: "bench_packet p" and buf: "length buf = BENCH_CORPUS_MAX_PKT"
  shows "\<exists>pkt. netc_compress_stateless (Some d) (Some p) (Some COMP_BUF_CAP) = Inr pkt \<and> pkt \<noteq> []
    \<and> netc_decompress_stateless (Some d) (Some pkt) (Some buf) = Inr p"
proof -
  have "coder_full d (d_tables d)" using assms(1) by (simp add: dict_ready_def)
  then obtain pkt where "netc_compress_stateless (Some d) (Some p) (Some COMP_BUF_CAP) = Inr pkt"
    "netc_decompress_stateless (Some d) (Some pkt) (Some buf) = Inr p"
    using stateless_inverse [of d p COMP_BUF_CAP buf] p buf
    by (auto simp: bench_packet_def BENCH_CORPUS_MAX_PKT_def NETC_MAX_PACKET_SIZE_def NETC_HEADER_SIZE_def COMP_BUF_CAP_def)
  then show ?thesis using decode_nothing(2) by metis
qed

interpretation netc_bench: bench_codec netc_ops bench_netc_reset adapter_good
proof unfold_locales
  fix n p and buf :: "byte list"
  assume g: "adapter_good n" and p: "bench_packet p" and buf: "length buf = BENCH_CORPUS_MAX_PKT"
  show "\<exists>pkt s1 s2. op_compress netc_ops n p COMP_BUF_CAP = (pkt, s1) \<and> pkt \<noteq> [] \<and> op_decompress netc_ops s1 pkt buf = (p, s2) \<and> adapter_good s2"
  proof (cases "n_stateless n")
    case True
    then obtain d where d: "n_dict n = Some d" "dict_ready d" using g by (auto simp: adapter_good_def)
    obtain pkt where "netc_compress_stateless (Some d) (Some p) (Some COMP_BUF_CAP) = Inr pkt" "pkt \<noteq> []"
      "netc_decompress_stateless (Some d) (Some pkt) (Some buf) = Inr p" using stateless_step [OF d(2) p buf] by blast
    then show ?thesis using True d g by (simp add: netc_ops_def bench_netc_compress_def bench_netc_decompress_def)
  next
    case False
    then obtain c d where d: "n_enc_ctx n = Some c" "n_dec_ctx n = Some d" "pair_good c d" using g by (auto simp: adapter_good_def)
    obtain pkt c' d' where "netc_compress (Some c) (Some p) (Some COMP_BUF_CAP) = (Inr pkt, Some c')" "pkt \<noteq> []"
      "netc_decompress (Some d) (Some pkt) (Some buf) = Inr (p, d')" "pair_good c' d'" using pair_step [OF d(3) p buf] by blast
    then show ?thesis using False d by (simp add: netc_ops_def bench_netc_compress_def bench_netc_decompress_def adapter_good_def)
  qed
next
  show "adapter_good (bench_netc_reset n)" if "adapter_good n" for n
    using that pair_reset by (auto simp: adapter_good_def bench_netc_reset_def)
qed

lemma create_exists:
  "netc_ctx_create pf dict (Some cfg) \<noteq> None
    \<longleftrightarrow> \<not> (has_cfg (cfg_flags cfg) NETC_CFG_FLAG_ADAPTIVE \<and> \<not> has_cfg (cfg_flags cfg) NETC_CFG_FLAG_STATEFUL)"
  by (simp add: netc_ctx_create_def Let_def)

definition flags_ok :: "u32 \<Rightarrow> bool" where
  "flags_ok flags \<longleftrightarrow> has_cfg flags NETC_CFG_FLAG_ADAPTIVE \<longrightarrow> has_cfg flags NETC_CFG_FLAG_STATEFUL"

text \<open>The dictionary predicts bytes, or no packet is marked as order-2 delta under the compact header.\<close>

definition session_safe :: "u32 \<Rightarrow> netc_dict option \<Rightarrow> bool" where
  "session_safe flags dict \<longleftrightarrow> dict_usable dict
     \<and> (has_cfg flags NETC_CFG_FLAG_COMPACT_HDR \<and> has_cfg flags NETC_CFG_FLAG_ADAPTIVE \<longrightarrow> (\<exists>d. dict = Some d \<and> d_lzp_table d \<noteq> None))"

lemma create_pair:
  assumes "flags_ok (n_flags n)" and "session_safe (n_flags n) (n_dict n)"
  shows "\<exists>c d. create_ctx_pair pf n = (0, n\<lparr>n_enc_ctx := Some c, n_dec_ctx := Some d\<rparr>) \<and> pair_good c d"
proof -
  let ?cfg = "\<lparr>cfg_flags = n_flags n, cfg_ring_buffer_size = 0, cfg_compression_level = 0, cfg_simd_level = n_simd_level n, cfg_arena_size = 0\<rparr>"
  obtain c where c: "netc_ctx_create pf (n_dict n) (Some ?cfg) = Some c"
    using create_exists [of pf "n_dict n" ?cfg] assms(1) by (auto simp: flags_ok_def)
  have "header_safe c"
    using assms(2) unfolding header_safe_def create_fields [OF c] create_dict [OF c] by (auto simp: session_safe_def cfg_of_def)
  moreover have "same_session (Some ?cfg) (Some ?cfg)" by (rule sample_create(3))
  ultimately have "pair_good c c"
    using create_ready [OF c] create_in_step [OF c c] create_shape(1) [OF c c] create_dict [OF c] assms(2)
    by (simp add: pair_good_def session_safe_def)
  then show ?thesis using c by (auto simp: create_ctx_pair_def Let_def)
qed

lemma init_good:
  assumes "flags_ok flags" and "session_safe flags dict" and "has_cfg flags NETC_CFG_FLAG_STATELESS \<Longrightarrow> dict \<noteq> None"
  shows "\<exists>n. bench_netc_init pf dict flags simd_level m = (0, n) \<and> adapter_good n \<and> n_flags n = flags"
proof -
  let ?n = "\<lparr>n_enc_ctx = None, n_dec_ctx = None, n_dict = dict, n_stateless = has_cfg flags NETC_CFG_FLAG_STATELESS,
     n_flags = flags, n_simd_level = simd_level, n_name = [], n_comp_buf_cap = m + NETC_MAX_OVERHEAD + 64\<rparr>"
  obtain c d where "create_ctx_pair pf ?n = (0, ?n\<lparr>n_enc_ctx := Some c, n_dec_ctx := Some d\<rparr>)" "pair_good c d"
    using create_pair [of ?n pf] assms(1,2) by auto
  then show ?thesis
    using assms(2,3) by (auto simp: bench_netc_init_def Let_def adapter_good_def session_safe_def dict_usable_def)
qed

lemma init_fields:
  assumes "bench_netc_init pf dict flags simd_level m = (0, n)" shows "n_flags n = flags"
    and "\<not> has_cfg flags NETC_CFG_FLAG_STATELESS \<Longrightarrow> flags_ok flags" and "n_stateless n = has_cfg flags NETC_CFG_FLAG_STATELESS"
  using assms create_exists
  by (auto simp: bench_netc_init_def create_ctx_pair_def Let_def flags_ok_def split: if_splits)

lemma train_env:
  assumes "env_ok e" and "bench_corpus_train exp_fn wl seed k (e_statics e) = (ps, st, undef)"
  shows "length ps = k" "env_ok (e\<lparr>e_statics := st, e_undefined := e_undefined e \<or> undef\<rparr>)"
proof -
  obtain g where g: "corpus_packets exp_fn k (corpus_start wl seed (e_statics e)) = (ps, g)" "st = g_statics g" "undef = g_undefined g"
    using assms(2) by (auto simp: bench_corpus_train_def corpus_start_def split: prod.splits)
  have "length (bs_base_ctrs (e_statics e)) = 32" using assms(1) by (simp add: env_ok_def)
  from packets_ok [OF g(1) start_ok [OF this]]
  show "length ps = k" "env_ok (e\<lparr>e_statics := st, e_undefined := e_undefined e \<or> undef\<rparr>)"
    using assms(1) by (simp_all add: g(2,3) corpus_ok_def env_ok_def)
qed

lemma train_good:
  assumes "n_stateless n \<or> flags_ok (n_flags n)" and "train_count < 2 ^ 36" and "env_ok e"
  shows "\<exists>n' e'. bench_netc_train host n wl seed train_count e = (0, n', e') \<and> adapter_good n' \<and> env_ok e'"
proof -
  obtain ps st undef where t: "bench_corpus_train (h_exp host) wl seed train_count (e_statics e) = (ps, st, undef)" using prod_cases3 by blast
  note env = train_env [OF assms(3) t]
  obtain d where d: "netc_dict_train (h_platform host) (Some (map Some ps)) train_count 1 True = Inr d" "dict_ready d" "d_lzp_table d \<noteq> None"
    using train_ready [of 1 train_count "Some (map Some ps)" "h_platform host" "[]"] assms(2) by auto
  have safe: "session_safe flags (Some d)" for flags using d(2,3) by (simp add: session_safe_def dict_usable_def)
  show ?thesis
  proof (cases "n_stateless n")
    case True
    then show ?thesis using d t env by (simp add: bench_netc_train_def Let_def adapter_good_def)
  next
    case False
    let ?n = "n\<lparr>n_dict := Some d, n_enc_ctx := None, n_dec_ctx := None\<rparr>"
    obtain a b where "create_ctx_pair (h_platform host) ?n = (0, ?n\<lparr>n_enc_ctx := Some a, n_dec_ctx := Some b\<rparr>)" "pair_good a b"
      using create_pair [of ?n "h_platform host"] safe assms(1) False by auto
    then show ?thesis using False d t env by (simp add: bench_netc_train_def Let_def adapter_good_def)
  qed
qed

lemma run_good:
  assumes "adapter_good n" and "env_ok e" and "wl \<noteq> BENCH_WL_ALL" and "length buf = BENCH_CORPUS_MAX_PKT"
  shows "\<exists>res n' e'. bench_run host cfg wl buf n out e = (0, res, n', e') \<and> adapter_good n' \<and> env_ok e'
    \<and> r_workload res = wl \<and> r_compressor res = Some (n_name n)"
proof -
  define k where "k = (if run_count cfg = 0 then BENCH_DEFAULT_COUNT else run_count cfg)"
  define l where "l = run_loops host netc_ops bench_netc_reset (run_step host netc_ops) (run_warmup cfg) k wl (run_seed cfg + BENCH_EVAL_SEED_OFFSET) buf n e"
  have "runs_on wl l" "adapter_good (l_codec l)"
    using netc_bench.loops_ok [OF assms _ l_def] by simp_all
  then have "l_safety_ok l" "env_ok (l_env l)" "adapter_good (l_codec l)" by (simp_all add: runs_on_def env_ok_def corpus_ok_def l_gen_def)
  then show ?thesis by (simp add: bench_run_def Let_def k_def [symmetric] l_def [symmetric] run_result_def)
qed

text \<open>
  C12. The safety gate of the benchmark passes: an adapter of netc, in any configuration that its
  initialisation accepts, trains on the packets of any workload, and every run of it, for every clock,
  seed and number of packets, decodes all packets to their bytes and returns 0; no generator leaves its
  buffers.
\<close>

theorem bench_safety_gate:
  assumes "bench_netc_init (h_platform host) None flags simd_level max_pkt = (0, n0)"
    and "train_count < 2 ^ 36" and "env_ok e" and "wl \<noteq> BENCH_WL_ALL"
  shows "\<exists>n e1. bench_netc_train host n0 wl seed train_count e = (0, n, e1)
    \<and> (\<forall>cfg buf out. length buf = BENCH_CORPUS_MAX_PKT \<longrightarrow>
         (\<exists>res n' e2. bench_run host cfg wl buf n out e1 = (0, res, n', e2) \<and> \<not> e_undefined e2))"
proof -
  have "n_stateless n0 \<or> flags_ok (n_flags n0)" using init_fields [OF assms(1)] by auto
  then obtain n e1 where t: "bench_netc_train host n0 wl seed train_count e = (0, n, e1)" "adapter_good n" "env_ok e1"
    using train_good [OF _ assms(2,3)] by blast
  have "\<exists>res n' e2. bench_run host cfg wl buf n out e1 = (0, res, n', e2) \<and> \<not> e_undefined e2" if "length buf = BENCH_CORPUS_MAX_PKT" for cfg buf out
    using run_good [OF t(2,3) assms(4) that, of host cfg out] unfolding env_ok_def by blast
  then show ?thesis using t(1) by blast
qed

definition sample_host :: bench_host where
  "sample_host = \<lparr>h_platform = scalar_platform, h_exp = (\<lambda>x. d_lit 50 1), h_now = (\<lambda>k. of_nat (100 * k))\<rparr>"

definition fresh_env :: bench_env where
  "fresh_env = \<lparr>e_statics = fresh_statics, e_clock = 0, e_undefined = False\<rparr>"

lemma fresh_env_ok: "env_ok fresh_env"
  by (simp add: env_ok_def fresh_env_def fresh_statics_def)

lemma sample_flags: "flags_ok 0x22D" "session_safe 0x00D None" "\<not> has_cfg 0x22D NETC_CFG_FLAG_STATELESS" "\<not> has_cfg 0x00D NETC_CFG_FLAG_STATELESS" "flags_ok 0x00D"
  by (simp_all add: flags_ok_def session_safe_def dict_usable_def has_cfg_def NETC_CFG_FLAG_STATEFUL_def NETC_CFG_FLAG_STATELESS_def
      NETC_CFG_FLAG_ADAPTIVE_def NETC_CFG_FLAG_COMPACT_HDR_def)

lemma sample_init: "\<exists>n. bench_netc_init scalar_platform None 0x00D 0 512 = (0, n)"
  using init_good [OF sample_flags(5,2)] sample_flags(4) by blast

theorem bench_safety_gate_witness:
  "\<exists>n0 n e1 res n' e2. bench_netc_init scalar_platform None 0x00D 0 512 = (0, n0)
    \<and> bench_netc_train sample_host n0 BENCH_WL_008 42 50000 fresh_env = (0, n, e1)
    \<and> bench_run sample_host \<lparr>run_warmup = 1000, run_count = 0, run_seed = 42\<rparr> BENCH_WL_008 (replicate BENCH_CORPUS_MAX_PKT 0) n zero_result e1
        = (0, res, n', e2)"
proof -
  obtain n0 where n0: "bench_netc_init scalar_platform None 0x00D 0 512 = (0, n0)" using sample_init by blast
  then have "bench_netc_init (h_platform sample_host) None 0x00D 0 512 = (0, n0)" by (simp add: sample_host_def)
  then obtain n e1 where t: "bench_netc_train sample_host n0 BENCH_WL_008 42 50000 fresh_env = (0, n, e1)"
    and r: "\<forall>cfg buf out. length buf = BENCH_CORPUS_MAX_PKT \<longrightarrow>
      (\<exists>res n' e2. bench_run sample_host cfg BENCH_WL_008 buf n out e1 = (0, res, n', e2) \<and> \<not> e_undefined e2)"
    using bench_safety_gate [of sample_host "0x00D" 0 512 n0 50000 fresh_env BENCH_WL_008 42] fresh_env_ok by auto
  then show ?thesis using n0 by (metis length_replicate)
qed

section \<open>The adapter without a dictionary\<close>

lemma next_codec: "l_codec (snd (next_packet host l)) = l_codec l"
  by (simp add: next_packet_def Let_def split_beta)

lemma blank_steps:
  assumes "n_stateless (l_codec l)" and "n_dict (l_codec l) = None"
  shows "l_codec (warmup_step host netc_ops l) = l_codec l" "l_codec (run_step host netc_ops l) = l_codec l"
    "\<not> l_safety_ok (run_step host netc_ops l)"
  using assms next_codec [of host l]
  by (simp_all add: warmup_step_def run_step_def timed_compress_def netc_ops_def bench_netc_compress_def bench_now_ns_def Let_def split_beta)

text \<open>
  The configuration without a context and without a dictionary, which \<open>bench_netc.h\<close> lists as
  supported, compresses nothing: initialisation succeeds, and every run fails its safety gate.
\<close>

theorem stateless_without_dict_fails:
  assumes "has_cfg flags NETC_CFG_FLAG_STATELESS"
  shows "\<exists>n. bench_netc_init pf None flags simd_level m = (0, n) \<and> fst (bench_run host cfg wl buf n out e) = -1"
proof -
  obtain n where n: "bench_netc_init pf None flags simd_level m = (0, n)" "n_stateless n" "n_dict n = None"
    using assms by (simp add: bench_netc_init_def Let_def)
  let ?blank = "\<lambda>l. n_stateless (l_codec l) \<and> n_dict (l_codec l) = None"
  have w: "?blank ((warmup_step host netc_ops ^^ k) l)" if "?blank l" for k l
    using that by (induction k) (simp_all add: blank_steps)
  have r: "?blank ((run_step host netc_ops ^^ k) l) \<and> (0 < k \<longrightarrow> \<not> l_safety_ok ((run_step host netc_ops ^^ k) l))" if "?blank l" for k l
    using that by (induction k) (simp_all add: blank_steps)
  have "\<not> l_safety_ok (run_loops host netc_ops bench_netc_reset (run_step host netc_ops) a (if b = 0 then BENCH_DEFAULT_COUNT else b) wl seed buf n e)" for a b seed
    unfolding run_loops_def Let_def using r w n(2,3) by (simp add: bench_netc_reset_def BENCH_DEFAULT_COUNT_def)
  then show ?thesis using n(1) by (simp add: bench_run_def Let_def)
qed

theorem stateless_without_dict_fails_witness:
  "\<exists>n. bench_netc_init scalar_platform None 2 0 512 = (0, n)
    \<and> fst (bench_run sample_host \<lparr>run_warmup = 0, run_count = 1, run_seed = 42\<rparr> BENCH_WL_001 (replicate BENCH_CORPUS_MAX_PKT 0) n zero_result fresh_env) = -1"
  by (rule stateless_without_dict_fails) (simp add: has_cfg_def NETC_CFG_FLAG_STATELESS_def)

end
