(* ===== verification/Netc_Baseline.thy ===== *)
theory Netc_Baseline
  imports Netc_Stats
begin

text \<open>
  Baseline files of the benchmarks, \<open>src/bench/bench_baseline.c\<close>: the JSON text that is written, the
  reader of its fields, and the files.  \<open>%.6f\<close> prints the decimal number nearest to a double and \<open>strtod\<close>
  reads the double nearest to a decimal number; hexadecimal numbers, infinities and NaNs are not read.
  The files are a map from paths to texts.
\<close>

section \<open>Decimal numbers\<close>

definition digit :: "nat \<Rightarrow> char" where "digit d = char_of (48 + d)"

definition digit_value :: "char \<Rightarrow> nat" where "digit_value c = of_char c - 48"

definition is_digit :: "char \<Rightarrow> bool" where "is_digit c \<longleftrightarrow> 48 \<le> (of_char c :: nat) \<and> (of_char c :: nat) \<le> 57"

fun show_nat :: "nat \<Rightarrow> string" where
  "show_nat n = (if n < 10 then [digit n] else show_nat (n div 10) @ [digit (n mod 10)])"

declare show_nat.simps [simp del]

primrec fixed_digits :: "nat \<Rightarrow> nat \<Rightarrow> string" where
  "fixed_digits 0 n = []"
| "fixed_digits (Suc k) n = fixed_digits k (n div 10) @ [digit (n mod 10)]"

text \<open>\<open>%.<k>f\<close>\<close>

definition print_fixed :: "nat \<Rightarrow> double \<Rightarrow> string" where
  "print_fixed k x =
     (let n = rne (nat \<bar>x\<bar> * 10 ^ k) DBL_UNIT
      in (if x < 0 then ''-'' else []) @ show_nat (n div 10 ^ k) @ ''.'' @ fixed_digits k (n mod 10 ^ k))"

definition digits_value :: "nat \<Rightarrow> string \<Rightarrow> nat" where
  "digits_value acc ds = foldl (\<lambda>a c. 10 * a + digit_value c) acc ds"

definition is_space :: "char \<Rightarrow> bool" where
  "is_space c \<longleftrightarrow> c = CHR '' '' \<or> 9 \<le> (of_char c :: nat) \<and> (of_char c :: nat) \<le> 13"

definition scan_sign :: "string \<Rightarrow> bool \<times> string" where
  "scan_sign s = (case s of [] \<Rightarrow> (False, s) | c # cs \<Rightarrow> if c = CHR ''-'' then (True, cs) else if c = CHR ''+'' then (False, cs) else (False, s))"

text \<open>An exponent counts only when a digit follows.\<close>

definition scan_exponent :: "string \<Rightarrow> int" where
  "scan_exponent s =
     (case s of [] \<Rightarrow> 0
      | c # cs \<Rightarrow>
          if c = CHR ''e'' \<or> c = CHR ''E''
          then let (neg, ds) = scan_sign cs; v = int (digits_value 0 (takeWhile is_digit ds)) in if neg then - v else v
          else 0)"

definition strtod :: "string \<Rightarrow> double option" where
  "strtod s =
     (let (neg, s) = scan_sign (dropWhile is_space s);
          whole = takeWhile is_digit s;
          s = dropWhile is_digit s;
          (frac, s) = (case s of [] \<Rightarrow> ([], s) | c # cs \<Rightarrow> if c = CHR ''.'' then (takeWhile is_digit cs, dropWhile is_digit cs) else ([], s));
          m = digits_value (digits_value 0 whole) frac;
          e = scan_exponent s - int (length frac);
          v = (if e \<ge> 0 then d_lit (int m * 10 ^ nat e) 1 else d_lit (int m) (10 ^ nat (- e)))
      in if whole = [] \<and> frac = [] then None else Some (if neg then - v else v))"

section \<open>The text of a baseline\<close>

definition workload_short :: "bench_workload \<Rightarrow> string" where
  "workload_short wl =
     (case wl of BENCH_WL_001 \<Rightarrow> ''WL-001'' | BENCH_WL_002 \<Rightarrow> ''WL-002'' | BENCH_WL_003 \<Rightarrow> ''WL-003'' | BENCH_WL_004 \<Rightarrow> ''WL-004''
      | BENCH_WL_005 \<Rightarrow> ''WL-005'' | BENCH_WL_006 \<Rightarrow> ''WL-006'' | BENCH_WL_007 \<Rightarrow> ''WL-007'' | BENCH_WL_008 \<Rightarrow> ''WL-008''
      | BENCH_WL_ALL \<Rightarrow> ''WL-???'')"

definition QUOTE :: char where "QUOTE = CHR 0x22"

definition NL :: string where "NL = [CHR 0x0A]"

definition json_key :: "string \<Rightarrow> string" where
  "json_key k = QUOTE # k @ [QUOTE, CHR '':'']"

definition baseline_text :: "string \<Rightarrow> bench_result \<Rightarrow> string" where
  "baseline_text name r =
     ''{'' @ NL
     @ ''  '' @ json_key ''version'' @ '' 1,'' @ NL
     @ ''  '' @ json_key ''compressor'' @ '' '' @ [QUOTE] @ name @ [QUOTE] @ '','' @ NL
     @ ''  '' @ json_key ''workload'' @ '' '' @ [QUOTE] @ workload_short (r_workload r) @ [QUOTE] @ '','' @ NL
     @ ''  '' @ json_key ''compress_mbs'' @ '' '' @ print_fixed 6 (r_compress_mbs r) @ '','' @ NL
     @ ''  '' @ json_key ''decompress_mbs'' @ '' '' @ print_fixed 6 (r_decompress_mbs r) @ '','' @ NL
     @ ''  '' @ json_key ''ratio'' @ '' '' @ print_fixed 6 (r_ratio r) @ '','' @ NL
     @ ''  '' @ json_key ''compress_p50_ns'' @ '' '' @ print_fixed 1 (d_of_u64 (s_p50_ns (r_compress r))) @ '','' @ NL
     @ ''  '' @ json_key ''decompress_p50_ns'' @ '' '' @ print_fixed 1 (d_of_u64 (s_p50_ns (r_decompress r))) @ NL
     @ ''}'' @ NL"

section \<open>Files\<close>

type_synonym files = "string \<Rightarrow> string option"

definition bench_baseline_filename :: "string \<Rightarrow> string \<Rightarrow> string \<Rightarrow> nat \<Rightarrow> string" where
  "bench_baseline_filename dir compressor wl buf_size = take (buf_size - 1) (dir @ ''/'' @ compressor @ ''_'' @ wl @ ''.json'')"

text \<open>\<open>writable\<close> tells the paths that \<open>fopen\<close> can create.\<close>

definition bench_baseline_save :: "(string \<Rightarrow> bool) \<Rightarrow> string \<Rightarrow> bench_result \<Rightarrow> files \<Rightarrow> int \<times> files" where
  "bench_baseline_save writable dir r files =
     (let name = (case r_compressor r of None \<Rightarrow> ''(null)'' | Some s \<Rightarrow> s);
          path = bench_baseline_filename dir name (workload_short (r_workload r)) 512
      in if \<not> writable path then (-1, files) else (0, files(path \<mapsto> baseline_text name r)))"

fun strstr :: "string \<Rightarrow> string \<Rightarrow> string option" where
  "strstr s pat = (if take (length pat) s = pat then Some s else case s of [] \<Rightarrow> None | c # cs \<Rightarrow> strstr cs pat)"

declare strstr.simps [simp del]

definition json_read_double :: "string \<Rightarrow> string \<Rightarrow> double option" where
  "json_read_double json key =
     (case strstr json (json_key key) of None \<Rightarrow> None
      | Some p \<Rightarrow> strtod (dropWhile (\<lambda>c. c \<in> {CHR '' '', CHR 0x09, CHR 0x0A, CHR 0x0D}) (drop (length (json_key key)) p)))"

definition json_read_string :: "string \<Rightarrow> string \<Rightarrow> nat \<Rightarrow> string option" where
  "json_read_string json key out_size =
     (case strstr json (json_key key) of None \<Rightarrow> None
      | Some p \<Rightarrow>
          (case dropWhile (\<lambda>c. c \<in> {CHR '' '', CHR 0x09}) (drop (length (json_key key)) p) of
             [] \<Rightarrow> None
           | c # cs \<Rightarrow> if c \<noteq> QUOTE then None else Some (take (out_size - 1) (takeWhile (\<lambda>c. c \<noteq> QUOTE) cs))))"

definition field_or :: "double \<Rightarrow> double option \<Rightarrow> double" where
  "field_or x v = (case v of None \<Rightarrow> x | Some y \<Rightarrow> y)"

text \<open>The buffer is a C string: it ends at the first zero byte.\<close>

definition bench_baseline_load :: "string \<Rightarrow> string \<Rightarrow> string \<Rightarrow> files \<Rightarrow> bench_baseline option" where
  "bench_baseline_load dir compressor wl files =
     (case files (bench_baseline_filename dir compressor wl 512) of None \<Rightarrow> None
      | Some text \<Rightarrow>
          if text = [] \<or> length text > 65536 then None
          else let buf = takeWhile (\<lambda>c. c \<noteq> CHR 0x00) text
               in case (json_read_string buf ''compressor'' 64, json_read_string buf ''workload'' 16) of
                    (Some c, Some w) \<Rightarrow>
                      Some \<lparr>b_compressor = c, b_workload = w,
                            b_compress_mbs = field_or 0 (json_read_double buf ''compress_mbs''),
                            b_decompress_mbs = field_or 0 (json_read_double buf ''decompress_mbs''),
                            b_ratio = field_or 0 (json_read_double buf ''ratio''),
                            b_compress_p50_ns = field_or 0 (json_read_double buf ''compress_p50_ns''),
                            b_decompress_p50_ns = field_or 0 (json_read_double buf ''decompress_p50_ns'')\<rparr>
                  | _ \<Rightarrow> None)"

section \<open>Reading what was printed\<close>

lemma digit_facts:
  assumes "d < 10" shows "digit_value (digit d) = d" "is_digit (digit d)" "\<not> is_space (digit d)" "digit d \<noteq> CHR ''-''" "digit d \<noteq> CHR ''+''"
    "digit d \<noteq> QUOTE" "digit d \<noteq> CHR 0x00"
proof -
  have "d \<in> set [0..<10]" using assms by simp
  moreover have "\<forall>d \<in> set [0..<10]. digit_value (digit d) = d \<and> is_digit (digit d) \<and> \<not> is_space (digit d) \<and> digit d \<noteq> CHR ''-''
      \<and> digit d \<noteq> CHR ''+'' \<and> digit d \<noteq> QUOTE \<and> digit d \<noteq> CHR 0x00"
    by code_simp
  ultimately show "digit_value (digit d) = d" "is_digit (digit d)" "\<not> is_space (digit d)" "digit d \<noteq> CHR ''-''" "digit d \<noteq> CHR ''+''"
    "digit d \<noteq> QUOTE" "digit d \<noteq> CHR 0x00" by blast+
qed

lemma digits_value_snoc: "digits_value a (ds @ [c]) = 10 * digits_value a ds + digit_value c"
  by (simp add: digits_value_def)

lemma show_nat_digits: "c \<in> set (show_nat n) \<Longrightarrow> \<exists>d < 10. c = digit d"
proof (induction n rule: show_nat.induct)
  case (1 n)
  show ?case
  proof (cases "n < 10")
    case True
    then show ?thesis using 1(2) by (subst (asm) show_nat.simps) auto
  next
    case False
    then have "c \<in> set (show_nat (n div 10)) \<or> c = digit (n mod 10)" using 1(2) by (subst (asm) show_nat.simps) auto
    then show ?thesis using 1(1) [OF False] by (auto intro: exI [of _ "n mod 10"])
  qed
qed

lemma show_nat_value: "digits_value 0 (show_nat n) = n"
proof (induction n rule: show_nat.induct)
  case (1 n)
  show ?case
  proof (cases "n < 10")
    case True
    then show ?thesis by (subst show_nat.simps) (simp add: digits_value_def digit_facts)
  next
    case False
    then show ?thesis using 1 [OF False] by (subst show_nat.simps) (simp add: digits_value_snoc digit_facts)
  qed
qed

lemma fixed_digits_facts: "length (fixed_digits k n) = k" "c \<in> set (fixed_digits k n) \<Longrightarrow> \<exists>d < 10. c = digit d"
  by (induction k arbitrary: n) (auto intro: exI [of _ "_ mod 10"])

lemma fixed_digits_value: "digits_value a (fixed_digits k n) = a * 10 ^ k + n mod 10 ^ k"
proof (induction k arbitrary: n)
  case 0
  show ?case by (simp add: digits_value_def)
next
  case (Suc k)
  have "n mod 10 ^ Suc k = 10 * (n div 10 mod 10 ^ k) + n mod 10" by (simp add: mod_mult2_eq mult.commute)
  then show ?case using Suc by (simp add: digits_value_snoc digit_facts algebra_simps)
qed

lemma show_nat_nonempty: "show_nat n \<noteq> []"
  by (subst show_nat.simps) simp

text \<open>Rounding a double to \<open>k\<close> decimals.\<close>

definition quantise :: "nat \<Rightarrow> double \<Rightarrow> double" where
  "quantise k x = d_lit (int (rne (nat x * 10 ^ k) DBL_UNIT)) (10 ^ k)"

lemma print_parse:
  assumes "0 \<le> x" and "rest = [] \<or> hd rest \<in> {CHR '','', CHR 0x0A}" and "0 < k"
  shows "strtod (print_fixed k x @ rest) = Some (quantise k x)"
proof -
  define n where "n = rne (nat x * 10 ^ k) DBL_UNIT"
  define w f where "w = show_nat (n div 10 ^ k)" and "f = fixed_digits k (n mod 10 ^ k)"
  have p: "print_fixed k x @ rest = w @ CHR ''.'' # f @ rest" using assms(1) by (simp add: print_fixed_def Let_def n_def w_def f_def)
  have w: "c \<in> set w \<Longrightarrow> \<exists>d < 10. c = digit d" and f: "c \<in> set f \<Longrightarrow> \<exists>d < 10. c = digit d" for c
    using show_nat_digits fixed_digits_facts(2) by (auto simp: w_def f_def)
  obtain c cs where wc: "w = c # cs" using show_nat_nonempty by (cases w) (auto simp: w_def)
  then obtain d where d: "d < 10" "c = digit d" using w by auto
  have skip: "dropWhile is_space (w @ CHR ''.'' # f @ rest) = w @ CHR ''.'' # f @ rest" using d digit_facts(3) by (simp add: wc)
  have sign: "scan_sign (w @ CHR ''.'' # f @ rest) = (False, w @ CHR ''.'' # f @ rest)" using d digit_facts by (simp add: wc scan_sign_def)
  have dig: "\<forall>c \<in> set w. is_digit c" "\<forall>c \<in> set f. is_digit c" using w f digit_facts(2) by blast+
  have "\<not> is_digit (CHR ''.'')" by code_simp
  then have tw: "takeWhile is_digit (w @ CHR ''.'' # f @ rest) = w" "dropWhile is_digit (w @ CHR ''.'' # f @ rest) = CHR ''.'' # f @ rest"
    using dig(1) by (simp_all add: takeWhile_append2 dropWhile_append2)
  have r: "takeWhile is_digit rest = []" "dropWhile is_digit rest = rest" "scan_exponent rest = 0"
  proof -
    have "\<not> is_digit (CHR '','')" "\<not> is_digit (CHR 0x0A)" by code_simp+
    then show "takeWhile is_digit rest = []" "dropWhile is_digit rest = rest" "scan_exponent rest = 0"
      using assms(2) by (cases rest; auto simp: scan_exponent_def)+
  qed
  then have tf: "takeWhile is_digit (f @ rest) = f" "dropWhile is_digit (f @ rest) = rest"
    using dig(2) by (simp_all add: takeWhile_append2 dropWhile_append2)
  have "digits_value (digits_value 0 w) f = n"
    unfolding w_def f_def show_nat_value fixed_digits_value mod_mod_trivial by (rule div_mult_mod_eq)
  moreover have "length f = k" by (simp add: f_def fixed_digits_facts)
  moreover have "w \<noteq> []" by (simp add: wc)
  ultimately show ?thesis
    using assms(3) by (simp add: p strtod_def skip sign tw tf r quantise_def n_def)
qed

section \<open>Finding a field\<close>

lemma key_match:
  assumes "QUOTE \<notin> set k" and "QUOTE \<notin> set a" and "take (length k + 2) (a @ QUOTE # c # ys) = k @ [QUOTE, d]"
  shows "a = k \<and> c = d"
  using assms
proof (induction k arbitrary: a)
  case Nil
  then show ?case by (cases a) (auto simp: numeral_2_eq_2)
next
  case (Cons x k)
  then obtain a' where "a = x # a'" by (cases a) auto
  then show ?case using Cons by auto
qed

lemma strstr_skip: "c \<noteq> QUOTE \<Longrightarrow> strstr (c # cs) (json_key k) = strstr cs (json_key k)"
  by (subst strstr.simps) (simp add: json_key_def)

lemma strstr_skip_list: "QUOTE \<notin> set xs \<Longrightarrow> strstr (xs @ ys) (json_key k) = strstr ys (json_key k)"
  by (induction xs) (auto simp: strstr_skip)

definition plain_key :: "string \<Rightarrow> bool" where
  "plain_key k \<longleftrightarrow> QUOTE \<notin> set k \<and> k \<noteq> [] \<and> hd k \<noteq> CHR '':'' \<and> hd k \<noteq> CHR '',''"

lemma strstr_skip_quoted:
  assumes "plain_key k" and "QUOTE \<notin> set a" and "c \<in> {CHR '':'', CHR '',''}" and "a \<noteq> k \<or> c \<noteq> CHR '':''"
  shows "strstr (QUOTE # a @ QUOTE # c # ys) (json_key k) = strstr ys (json_key k)"
proof -
  have c: "c \<noteq> QUOTE" "hd k \<noteq> c" using assms(1,3) by (auto simp: plain_key_def QUOTE_def)
  have "take (length k + 2) (a @ QUOTE # c # ys) \<noteq> k @ [QUOTE, CHR '':'']"
    using key_match assms unfolding plain_key_def by blast
  then have "strstr (QUOTE # a @ QUOTE # c # ys) (json_key k) = strstr (a @ QUOTE # c # ys) (json_key k)"
    by (subst strstr.simps) (simp add: json_key_def)
  also have "\<dots> = strstr (QUOTE # c # ys) (json_key k)" by (rule strstr_skip_list [OF assms(2)])
  also have "\<dots> = strstr (c # ys) (json_key k)"
    using assms(1) c(2) by (subst strstr.simps) (cases k; simp add: json_key_def plain_key_def)
  finally show ?thesis using strstr_skip [OF c(1)] by simp
qed

lemma strstr_skip_key: "plain_key k \<Longrightarrow> QUOTE \<notin> set a \<Longrightarrow> a \<noteq> k \<Longrightarrow> strstr (json_key a @ ys) (json_key k) = strstr ys (json_key k)"
  using strstr_skip_quoted [of k a "CHR '':''"] by (simp add: json_key_def)

lemma strstr_found: "strstr (json_key k @ ys) (json_key k) = Some (json_key k @ ys)"
  by (subst strstr.simps) simp

lemma print_fixed_plain:
  assumes "0 \<le> x" shows "QUOTE \<notin> set (print_fixed k x)" "CHR 0x00 \<notin> set (print_fixed k x)"
    "\<exists>c cs. print_fixed k x = c # cs \<and> c \<notin> {CHR '' '', CHR 0x09, CHR 0x0A, CHR 0x0D}"
proof -
  define n where "n = rne (nat \<bar>x\<bar> * 10 ^ k) DBL_UNIT"
  have p: "print_fixed k x = show_nat (n div 10 ^ k) @ ''.'' @ fixed_digits k (n mod 10 ^ k)" using assms by (simp add: print_fixed_def Let_def n_def)
  have "c = CHR ''.'' \<or> (\<exists>d < 10. c = digit d)" if "c \<in> set (print_fixed k x)" for c
    using that show_nat_digits fixed_digits_facts(2) by (auto simp: p)
  moreover have "CHR ''.'' \<noteq> QUOTE" by (simp add: QUOTE_def)
  ultimately show "QUOTE \<notin> set (print_fixed k x)" "CHR 0x00 \<notin> set (print_fixed k x)" using digit_facts(6,7) by force+
  obtain c cs where c: "show_nat (n div 10 ^ k) = c # cs" using show_nat_nonempty list.exhaust by metis
  then obtain d where "d < 10" "c = digit d" using show_nat_digits [of c "n div 10 ^ k"] by auto
  then have "\<not> is_space c" using digit_facts(3) by simp
  moreover have "is_space (CHR '' '')" "is_space (CHR 0x09)" "is_space (CHR 0x0A)" "is_space (CHR 0x0D)" by code_simp+
  ultimately have "c \<notin> {CHR '' '', CHR 0x09, CHR 0x0A, CHR 0x0D}" by auto
  then show "\<exists>c cs. print_fixed k x = c # cs \<and> c \<notin> {CHR '' '', CHR 0x09, CHR 0x0A, CHR 0x0D}" by (auto simp: p c)
qed

lemma key_number:
  assumes "0 \<le> x" and "0 < k" and "rest = [] \<or> hd rest \<in> {CHR '','', CHR 0x0A}"
    and "strstr json (json_key key) = Some (json_key key @ CHR '' '' # print_fixed k x @ rest)"
  shows "json_read_double json key = Some (quantise k x)"
proof -
  obtain c cs where "print_fixed k x = c # cs" "c \<notin> {CHR '' '', CHR 0x09, CHR 0x0A, CHR 0x0D}" using print_fixed_plain(3) [OF assms(1)] by blast
  then have "dropWhile (\<lambda>c. c \<in> {CHR '' '', CHR 0x09, CHR 0x0A, CHR 0x0D}) (CHR '' '' # print_fixed k x @ rest) = print_fixed k x @ rest" by simp
  then show ?thesis using print_parse [OF assms(1,3,2)] by (simp add: json_read_double_def assms(4))
qed

lemma key_string:
  assumes "strstr json (json_key key) = Some (json_key key @ CHR '' '' # QUOTE # a @ QUOTE # rest)" and "QUOTE \<notin> set a" and "length a < n"
  shows "json_read_string json key n = Some a"
proof -
  have "dropWhile (\<lambda>c. c \<in> {CHR '' '', CHR 0x09}) (CHR '' '' # QUOTE # a @ QUOTE # rest) = QUOTE # a @ QUOTE # rest" by (simp add: QUOTE_def)
  moreover have "takeWhile (\<lambda>c. c \<noteq> QUOTE) (a @ QUOTE # rest) = a" using assms(2) by (subst takeWhile_append2) auto
  ultimately show ?thesis using assms(3) by (simp add: json_read_string_def assms(1))
qed

definition result_printable :: "string \<Rightarrow> bench_result \<Rightarrow> bool" where
  "result_printable name r \<longleftrightarrow> QUOTE \<notin> set name \<and> CHR 0x00 \<notin> set name \<and> length name < 64
     \<and> 0 \<le> r_compress_mbs r \<and> 0 \<le> r_decompress_mbs r \<and> 0 \<le> r_ratio r"

lemma short_plain: "QUOTE \<notin> set (workload_short wl)" "length (workload_short wl) < 16" "CHR 0x00 \<notin> set (workload_short wl)"
  by (cases wl; simp add: workload_short_def QUOTE_def)+

lemma plain_keys:
  "plain_key ''compressor''" "plain_key ''workload''" "plain_key ''compress_mbs''" "plain_key ''decompress_mbs''" "plain_key ''ratio''"
  "plain_key ''compress_p50_ns''" "plain_key ''decompress_p50_ns''"
  by (simp_all add: plain_key_def QUOTE_def)

lemma quote_eq: "QUOTE = c \<longleftrightarrow> c = CHR 0x22" "c = QUOTE \<longleftrightarrow> c = CHR 0x22"
  by (auto simp: QUOTE_def)

lemma d_of_u64_ge0: "0 \<le> d_of_u64 x"
  by (simp add: d_of_u64_def d_of_int_ge0)

lemma text_fields:
  assumes "result_printable name r"
  shows "json_read_string (baseline_text name r) ''compressor'' 64 = Some name"
    "json_read_string (baseline_text name r) ''workload'' 16 = Some (workload_short (r_workload r))"
    "json_read_double (baseline_text name r) ''compress_mbs'' = Some (quantise 6 (r_compress_mbs r))"
    "json_read_double (baseline_text name r) ''decompress_mbs'' = Some (quantise 6 (r_decompress_mbs r))"
    "json_read_double (baseline_text name r) ''ratio'' = Some (quantise 6 (r_ratio r))"
    "json_read_double (baseline_text name r) ''compress_p50_ns'' = Some (quantise 1 (d_of_u64 (s_p50_ns (r_compress r))))"
    "json_read_double (baseline_text name r) ''decompress_p50_ns'' = Some (quantise 1 (d_of_u64 (s_p50_ns (r_decompress r))))"
proof -
  have ok: "QUOTE \<notin> set name" "length name < 64" "0 \<le> r_compress_mbs r" "0 \<le> r_decompress_mbs r" "0 \<le> r_ratio r"
    using assms by (simp_all add: result_printable_def)
  note skips = strstr_skip strstr_skip_key strstr_skip_quoted strstr_skip_list strstr_found plain_keys quote_eq short_plain(1) ok(1)
    print_fixed_plain(1) [OF ok(3)] print_fixed_plain(1) [OF ok(4)] print_fixed_plain(1) [OF ok(5)] print_fixed_plain(1) [OF d_of_u64_ge0]
  show "json_read_string (baseline_text name r) ''compressor'' 64 = Some name"
    by (rule key_string) (use ok in \<open>simp_all add: baseline_text_def NL_def skips\<close>)
  show "json_read_string (baseline_text name r) ''workload'' 16 = Some (workload_short (r_workload r))"
    by (rule key_string) (use short_plain(1,2) in \<open>simp_all add: baseline_text_def NL_def skips\<close>)
  show "json_read_double (baseline_text name r) ''compress_mbs'' = Some (quantise 6 (r_compress_mbs r))"
    by (rule key_number) (use ok in \<open>simp_all add: baseline_text_def NL_def skips\<close>)
  show "json_read_double (baseline_text name r) ''decompress_mbs'' = Some (quantise 6 (r_decompress_mbs r))"
    by (rule key_number) (use ok in \<open>simp_all add: baseline_text_def NL_def skips\<close>)
  show "json_read_double (baseline_text name r) ''ratio'' = Some (quantise 6 (r_ratio r))"
    by (rule key_number) (use ok in \<open>simp_all add: baseline_text_def NL_def skips\<close>)
  show "json_read_double (baseline_text name r) ''compress_p50_ns'' = Some (quantise 1 (d_of_u64 (s_p50_ns (r_compress r))))"
    by (rule key_number) (use d_of_u64_ge0 in \<open>simp_all add: baseline_text_def NL_def skips\<close>)
  show "json_read_double (baseline_text name r) ''decompress_p50_ns'' = Some (quantise 1 (d_of_u64 (s_p50_ns (r_decompress r))))"
    by (rule key_number) (use d_of_u64_ge0 in \<open>simp_all add: baseline_text_def NL_def skips\<close>)
qed

lemma text_no_nul: "result_printable name r \<Longrightarrow> CHR 0x00 \<notin> set (baseline_text name r)"
  using print_fixed_plain(2) d_of_u64_ge0 short_plain(3) by (simp add: baseline_text_def result_printable_def json_key_def NL_def QUOTE_def)

section \<open>A result and its own baseline\<close>

lemma check_close:
  assumes "0 < y" and "500 * \<bar>x - y\<bar> \<le> y" shows "chk_status (check_metric m y x) = BENCH_REG_OK"
proof -
  define D Q P where "D = d_sub x y" and "Q = d_div D y" and "P = d_mul Q (d_lit 100 1)"
  have U: "0 < int DBL_UNIT" by simp
  have lit: "d_lit 100 1 = 100 * int DBL_UNIT" "d_lit 5 1 = 5 * int DBL_UNIT" "d_lit 15 1 = 15 * int DBL_UNIT"
    using d_lit_whole [of 100] d_lit_whole [of 5] d_lit_whole [of 15] by simp_all
  have "\<bar>D\<bar> \<le> 2 * \<bar>x - y\<bar>" using d_round_twice [of 1 "x - y"] by (simp add: D_def d_sub_def)
  then have D: "250 * \<bar>D\<bar> \<le> y" using assms(2) by linarith
  have "\<bar>Q\<bar> * y \<le> 2 * (\<bar>D\<bar> * int DBL_UNIT)"
    using d_round_twice [of "nat \<bar>y\<bar>" "D * int DBL_UNIT * sgn y"] assms(1) by (simp add: Q_def d_div_def abs_mult)
  then have "125 * \<bar>Q\<bar> * y \<le> (250 * \<bar>D\<bar>) * int DBL_UNIT" by linarith
  also have "\<dots> \<le> y * int DBL_UNIT" using D U by (intro mult_right_mono) simp_all
  finally have "(125 * \<bar>Q\<bar>) * y \<le> int DBL_UNIT * y" by (simp add: mult.commute)
  then have Q: "125 * \<bar>Q\<bar> \<le> int DBL_UNIT" using assms(1) by (rule mult_right_le_imp_le)
  have "\<bar>P\<bar> * int DBL_UNIT \<le> 2 * \<bar>Q * (100 * int DBL_UNIT)\<bar>"
    using d_round_twice [of DBL_UNIT "Q * d_lit 100 1"] unfolding P_def d_mul_def lit by simp
  also have "\<dots> = (200 * \<bar>Q\<bar>) * int DBL_UNIT" by (simp add: abs_mult)
  finally have "\<bar>P\<bar> \<le> 200 * \<bar>Q\<bar>" using U by (rule mult_right_le_imp_le)
  then have "\<bar>P\<bar> < 5 * int DBL_UNIT" using Q U by linarith
  then show ?thesis
    using assms(1) unfolding check_metric_def Let_def D_def [symmetric] Q_def [symmetric] P_def [symmetric] lit(2,3) by auto
qed

lemma quantise_close:
  assumes "int DBL_UNIT \<le> 1000 * x" shows "0 < quantise 6 x" and "500 * \<bar>x - quantise 6 x\<bar> \<le> quantise 6 x"
proof -
  define N k Y where "N = nat x" and "k = rne (N * 10 ^ 6) DBL_UNIT" and "Y = sig_round 53 (k * DBL_UNIT) (10 ^ 6)"
  have x: "x = int N" using assms DBL_UNIT_pos unfolding N_def by linarith
  have N: "DBL_UNIT \<le> 1000 * N" using assms unfolding x by linarith
  have big: "2 ^ 60 \<le> DBL_UNIT" unfolding DBL_UNIT_def by (rule power_increasing) simp_all
  have q: "quantise 6 x = int Y"
    by (simp add: quantise_def d_lit_def d_round_nonneg nat_mult_distrib N_def k_def Y_def)
  have k: "2 * (k * DBL_UNIT) \<le> 2 * (N * 10 ^ 6) + DBL_UNIT" "2 * (N * 10 ^ 6) \<le> 2 * (k * DBL_UNIT) + DBL_UNIT"
    using rne_error [of DBL_UNIT "N * 10 ^ 6"] by (simp_all add: k_def)
  define r where "r = max (10 ^ 6) (k * DBL_UNIT div 2 ^ 52)"
  have Y: "2 * (Y * 10 ^ 6) \<le> 2 * (k * DBL_UNIT) + r" "2 * (k * DBL_UNIT) \<le> 2 * (Y * 10 ^ 6) + r"
    using sig_round_abs_error [of "10 ^ 6" 53 "k * DBL_UNIT"] by (simp_all add: Y_def r_def)
  have "k * DBL_UNIT div 2 ^ 52 * 2 ^ 52 \<le> k * DBL_UNIT" by simp
  then have "k * DBL_UNIT div 2 ^ 52 * 2 ^ 52 \<le> N * 10 ^ 6 + 500 * N" using k(1) N by linarith
  then have r: "r \<le> N" using N big unfolding r_def by (auto simp: max_def)
  have "2 * (Y * 10 ^ 6) \<le> 2 * (N * 10 ^ 6) + 1001 * N" "2 * (N * 10 ^ 6) \<le> 2 * (Y * 10 ^ 6) + 1001 * N"
    using k Y r N by linarith+
  then have y: "2000000 * int Y \<le> 2001001 * int N" "1998999 * int N \<le> 2000000 * int Y" by simp_all
  then have "500 * \<bar>int N - int Y\<bar> \<le> int Y" unfolding abs_if by (simp split: if_split)
  then show "500 * \<bar>x - quantise 6 x\<bar> \<le> quantise 6 x" unfolding q by (simp only: x)
  have "0 < N" using N big by (cases "N = 0") simp_all
  then have "0 < Y" using y(2) by linarith
  then show "0 < quantise 6 x" by (simp add: q)
qed

lemma quantise_zero: "quantise k 0 = 0"
  by (simp add: quantise_def rne_def d_lit_def d_round_def)

lemma quantise_whole: "n < 2 ^ 53 \<Longrightarrow> quantise 1 (d_of_int (int n)) = d_of_int (int n)"
proof -
  assume n: "n < 2 ^ 53"
  have eq: "n * DBL_UNIT * 10 = 10 * n * DBL_UNIT" by simp
  have "rne (n * DBL_UNIT * 10) DBL_UNIT = 10 * n" unfolding eq by (rule rne_exact) simp
  then have "quantise 1 (d_of_int (int n)) = d_round (int (n * DBL_UNIT) * 10) 10"
    unfolding quantise_def d_of_int_exact [OF n] d_lit_def by (simp add: nat_mult_distrib ac_simps)
  also have "\<dots> = d_round (int (n * DBL_UNIT)) 1"
    using sig_round_scale [of 10 53 "n * DBL_UNIT" 1] by (simp add: d_round_nonneg nat_mult_distrib)
  finally show ?thesis by (simp add: d_of_int_def d_lit_def)
qed

lemma check_same: "chk_status (check_metric m x x) = BENCH_REG_OK" if "0 \<le> x"
  using check_close [of x x] that by (cases "x = 0") (simp_all add: check_metric_def)

definition measurable :: "double \<Rightarrow> bool" where
  "measurable x \<longleftrightarrow> x = 0 \<or> int DBL_UNIT \<le> 1000 * x"

lemma check_quantised: "measurable x \<Longrightarrow> chk_status (check_metric m (quantise 6 x) x) = BENCH_REG_OK"
  using check_close quantise_close by (auto simp: measurable_def quantise_zero check_metric_def)

text \<open>
  C39. Saving a baseline and loading it returns the result: names unchanged, throughput and ratio rounded
  to six decimals, latencies exact; and the result compared with its own baseline shows neither failure
  nor warning, provided its numbers are zero or at least one thousandth, its name is printable and the
  file fits the buffer of the reader.
\<close>

theorem baseline_roundtrip:
  assumes "r_compressor r = Some name" and "result_printable name r"
    and "length (baseline_text name r) \<le> 65536"
    and "writable (bench_baseline_filename dir name (workload_short (r_workload r)) 512)"
    and "measurable (r_compress_mbs r)" and "measurable (r_decompress_mbs r)" and "measurable (r_ratio r)"
    and "unat (s_p50_ns (r_compress r)) < 2 ^ 53" and "unat (s_p50_ns (r_decompress r)) < 2 ^ 53"
  shows "\<exists>files' b report. bench_baseline_save writable dir r files = (0, files')
    \<and> bench_baseline_load dir name (workload_short (r_workload r)) files' = Some b
    \<and> b = \<lparr>b_compressor = name, b_workload = workload_short (r_workload r), b_compress_mbs = quantise 6 (r_compress_mbs r),
           b_decompress_mbs = quantise 6 (r_decompress_mbs r), b_ratio = quantise 6 (r_ratio r),
           b_compress_p50_ns = d_of_u64 (s_p50_ns (r_compress r)), b_decompress_p50_ns = d_of_u64 (s_p50_ns (r_decompress r))\<rparr>
    \<and> bench_baseline_check b r = (0, report) \<and> \<not> reg_any_warn report"
proof -
  let ?t = "baseline_text name r" and ?p = "bench_baseline_filename dir name (workload_short (r_workload r)) 512"
  define b where "b = \<lparr>b_compressor = name, b_workload = workload_short (r_workload r), b_compress_mbs = quantise 6 (r_compress_mbs r),
     b_decompress_mbs = quantise 6 (r_decompress_mbs r), b_ratio = quantise 6 (r_ratio r),
     b_compress_p50_ns = d_of_u64 (s_p50_ns (r_compress r)), b_decompress_p50_ns = d_of_u64 (s_p50_ns (r_decompress r))\<rparr>"
  have p50: "quantise 1 (d_of_u64 v) = d_of_u64 v" if "unat v < 2 ^ 53" for v
    using quantise_whole [OF that] by (simp add: d_of_u64_def)
  have "?t \<noteq> []" by (simp add: baseline_text_def)
  moreover have nul: "takeWhile (\<lambda>c. c \<noteq> CHR 0x00) ?t = ?t" using text_no_nul [OF assms(2)] by (simp add: takeWhile_eq_all_conv) metis
  ultimately have "bench_baseline_load dir name (workload_short (r_workload r)) (files(?p \<mapsto> ?t)) = Some b"
    using assms(3) p50 assms(8,9) by (simp add: bench_baseline_load_def nul text_fields [OF assms(2)] field_or_def b_def)
  moreover have "bench_baseline_save writable dir r files = (0, files(?p \<mapsto> ?t))" using assms(1,4) by (simp add: bench_baseline_save_def)
  moreover have "\<exists>report. bench_baseline_check b r = (0, report) \<and> \<not> reg_any_warn report"
    using check_quantised [OF assms(5)] check_quantised [OF assms(6)] check_quantised [OF assms(7)] check_same [OF d_of_u64_ge0]
    by (simp add: bench_baseline_check_def Let_def b_def)
  ultimately show ?thesis unfolding b_def by blast
qed

definition sample_result :: bench_result where
  "sample_result = zero_result\<lparr>r_compressor := Some ''zlib-1'', r_workload := BENCH_WL_001, r_compress_mbs := int (2 * DBL_UNIT)\<rparr>"

lemma sample_text: "length (baseline_text ''zlib-1'' sample_result) \<le> 65536"
proof -
  have "rne (2 * DBL_UNIT * 10 ^ 6) DBL_UNIT = 2 * 10 ^ 6" using rne_exact [of DBL_UNIT "2 * 10 ^ 6"] by (simp add: mult.commute)
  then have "print_fixed 6 (int (2 * DBL_UNIT)) = show_nat 2 @ ''.'' @ fixed_digits 6 0" by (simp add: print_fixed_def Let_def nat_mult_distrib)
  moreover have "print_fixed k 0 = show_nat 0 @ ''.'' @ fixed_digits k 0" for k by (simp add: print_fixed_def Let_def rne_def)
  moreover have "d_of_u64 0 = 0" by (simp add: d_of_u64_def d_of_int_def d_lit_def d_round_def)
  ultimately show ?thesis
    by (simp add: baseline_text_def sample_result_def zero_result_def no_stats_def json_key_def NL_def workload_short_def
        show_nat.simps fixed_digits_facts(1))
qed

theorem baseline_roundtrip_witness:
  "\<exists>files' b report. bench_baseline_save (\<lambda>_. True) ''bench/baselines'' sample_result (\<lambda>_. None) = (0, files')
    \<and> bench_baseline_load ''bench/baselines'' ''zlib-1'' ''WL-001'' files' = Some b \<and> bench_baseline_check b sample_result = (0, report)"
proof -
  have r: "r_compressor sample_result = Some ''zlib-1''" "r_workload sample_result = BENCH_WL_001" "workload_short BENCH_WL_001 = ''WL-001''"
    "result_printable ''zlib-1'' sample_result" "measurable (r_compress_mbs sample_result)" "measurable (r_decompress_mbs sample_result)"
    "measurable (r_ratio sample_result)" "unat (s_p50_ns (r_compress sample_result)) < 2 ^ 53" "unat (s_p50_ns (r_decompress sample_result)) < 2 ^ 53"
    by (simp_all add: sample_result_def zero_result_def no_stats_def workload_short_def result_printable_def QUOTE_def measurable_def)
  show ?thesis
    using baseline_roundtrip [OF r(1,4) sample_text, of "\<lambda>_. True" "''bench/baselines''" "\<lambda>_. None"] r(5-) unfolding r(2,3) by blast
qed

end
