(* ===== verification/Netc_Main.thy ===== *)
theory Netc_Main
  imports Netc_Bench Netc_Baseline
begin

text \<open>
  The benchmark program, \<open>src/bench/bench_main.c\<close>: its arguments, the runs over workloads and compressors,
  and the gates that decide its exit code; and the gates against Oodle of \<open>src/bench/bench_oodle.c\<close>.

  The adapters of other compressors wrap third-party libraries and are a parameter: a function from the
  selection bit of a compressor to its table of functions, or nothing where it was not built.  Which files
  can be opened is a parameter as well.  Printed text is not modelled, except for the files of baselines.
  \<open>atoi\<close> and its relatives are modelled on numbers that fit their type.
\<close>

section \<open>Arguments\<close>

definition c_atoi :: "string \<Rightarrow> int" where
  "c_atoi s = (let (neg, ds) = scan_sign (dropWhile is_space s); v = int (digits_value 0 (takeWhile is_digit ds)) in if neg then - v else v)"

definition to_size :: "int \<Rightarrow> nat" where "to_size v = nat (v mod 2 ^ 64)"

definition BENCH_CORPUS_TRAIN_N :: nat where "BENCH_CORPUS_TRAIN_N = 50000"

definition BENCH_COMP_NETC :: u32 where "BENCH_COMP_NETC = 0x001"
definition BENCH_COMP_ZLIB1 :: u32 where "BENCH_COMP_ZLIB1 = 0x002"
definition BENCH_COMP_ZLIB6 :: u32 where "BENCH_COMP_ZLIB6 = 0x004"
definition BENCH_COMP_LZ4 :: u32 where "BENCH_COMP_LZ4 = 0x008"
definition BENCH_COMP_LZ4HC :: u32 where "BENCH_COMP_LZ4HC = 0x010"
definition BENCH_COMP_ZSTD1 :: u32 where "BENCH_COMP_ZSTD1 = 0x020"
definition BENCH_COMP_ZSTD3 :: u32 where "BENCH_COMP_ZSTD3 = 0x040"
definition BENCH_COMP_ZSTD1D :: u32 where "BENCH_COMP_ZSTD1D = 0x080"
definition BENCH_COMP_HUFFMAN :: u32 where "BENCH_COMP_HUFFMAN = 0x100"
definition BENCH_COMP_SNAPPY :: u32 where "BENCH_COMP_SNAPPY = 0x200"
definition BENCH_COMP_OODLE_UDP :: u32 where "BENCH_COMP_OODLE_UDP = 0x400"
definition BENCH_COMP_OODLE_TCP :: u32 where "BENCH_COMP_OODLE_TCP = 0x800"
definition BENCH_COMP_ALL :: u32 where "BENCH_COMP_ALL = 0xFFFF"

datatype bench_mode = BENCH_MODE_LATENCY | BENCH_MODE_THROUGHPUT | BENCH_MODE_MPPS | BENCH_MODE_SCALING

datatype bench_format = BENCH_FMT_TABLE | BENCH_FMT_CSV | BENCH_FMT_JSON

record bench_args =
  a_workload_mask :: u32
  a_compressor_mask :: u32
  a_mode :: bench_mode
  a_count :: nat
  a_warmup :: nat
  a_seed :: u64
  a_train_count :: nat
  a_format :: bench_format
  a_output_file :: "string option"
  a_ci_check :: bool
  a_no_dict :: bool
  a_no_delta :: bool
  a_compact_hdr :: bool
  a_fast_compress :: bool
  a_adaptive :: bool
  a_simd_level :: byte
  a_baseline_dir :: "string option"
  a_save_baseline :: bool
  a_check_baseline :: bool
  a_with_oodle :: bool
  a_oodle_sdk :: "string option"
  a_oodle_htbits :: int
  a_oodle_gates :: bool

definition workload_of_nat :: "nat \<Rightarrow> bench_workload" where
  "workload_of_nat n =
     (if 1 \<le> n \<and> n \<le> 8
      then [BENCH_WL_001, BENCH_WL_002, BENCH_WL_003, BENCH_WL_004, BENCH_WL_005, BENCH_WL_006, BENCH_WL_007, BENCH_WL_008] ! (n - 1)
      else BENCH_WL_ALL)"

definition workload_number :: "bench_workload \<Rightarrow> nat" where
  "workload_number wl =
     (case wl of BENCH_WL_ALL \<Rightarrow> 0 | BENCH_WL_001 \<Rightarrow> 1 | BENCH_WL_002 \<Rightarrow> 2 | BENCH_WL_003 \<Rightarrow> 3 | BENCH_WL_004 \<Rightarrow> 4
      | BENCH_WL_005 \<Rightarrow> 5 | BENCH_WL_006 \<Rightarrow> 6 | BENCH_WL_007 \<Rightarrow> 7 | BENCH_WL_008 \<Rightarrow> 8)"

definition parse_workload :: "string \<Rightarrow> bench_workload" where
  "parse_workload s =
     (let p = (if take 3 s = ''WL-'' then drop 3 s else s); n = c_atoi p
      in if 1 \<le> n \<and> n \<le> 8 then workload_of_nat (nat n) else BENCH_WL_ALL)"

definition parse_simd :: "string \<Rightarrow> byte" where
  "parse_simd s = (if s = ''auto'' then 0 else if s = ''generic'' then 1 else if s = ''sse42'' then 2 else if s = ''avx2'' then 3 else 0)"

definition parse_mode :: "string \<Rightarrow> bench_mode" where
  "parse_mode s =
     (if s = ''latency'' then BENCH_MODE_LATENCY else if s = ''throughput'' then BENCH_MODE_THROUGHPUT
      else if s = ''mpps'' then BENCH_MODE_MPPS else if s = ''scaling'' then BENCH_MODE_SCALING else BENCH_MODE_LATENCY)"

definition bench_format_parse :: "string \<Rightarrow> bench_format" where
  "bench_format_parse s = (if s = ''csv'' then BENCH_FMT_CSV else if s = ''json'' then BENCH_FMT_JSON else BENCH_FMT_TABLE)"

definition compressor_names :: "(string \<times> u32) list" where
  "compressor_names =
     [(''all'', BENCH_COMP_ALL), (''netc'', BENCH_COMP_NETC), (''zlib-1'', BENCH_COMP_ZLIB1), (''zlib-6'', BENCH_COMP_ZLIB6),
      (''lz4'', BENCH_COMP_LZ4), (''lz4-hc'', BENCH_COMP_LZ4HC), (''zstd-1'', BENCH_COMP_ZSTD1), (''zstd-3'', BENCH_COMP_ZSTD3),
      (''zstd-1-dict'', BENCH_COMP_ZSTD1D), (''huffman'', BENCH_COMP_HUFFMAN), (''snappy'', BENCH_COMP_SNAPPY),
      (''oodle-udp'', BENCH_COMP_OODLE_UDP), (''oodle-tcp'', BENCH_COMP_OODLE_TCP)]"

definition parse_compressor :: "string \<Rightarrow> u32" where
  "parse_compressor s = (case map_of compressor_names s of None \<Rightarrow> 0 | Some m \<Rightarrow> m)"

definition default_args :: bench_args where
  "default_args =
     \<lparr>a_workload_mask = 0, a_compressor_mask = 0, a_mode = BENCH_MODE_LATENCY, a_count = BENCH_DEFAULT_COUNT, a_warmup = BENCH_DEFAULT_WARMUP,
      a_seed = BENCH_DEFAULT_SEED, a_train_count = BENCH_CORPUS_TRAIN_N, a_format = BENCH_FMT_TABLE, a_output_file = None, a_ci_check = False,
      a_no_dict = False, a_no_delta = False, a_compact_hdr = False, a_fast_compress = False, a_adaptive = False, a_simd_level = 0,
      a_baseline_dir = None, a_save_baseline = False, a_check_baseline = False, a_with_oodle = False, a_oodle_sdk = None,
      a_oodle_htbits = 17, a_oodle_gates = False\<rparr>"

text \<open>The options without a value.\<close>

definition parse_flag :: "string \<Rightarrow> bench_args \<Rightarrow> bench_args option" where
  "parse_flag arg a =
     (if arg = ''--ci-check'' then Some (a\<lparr>a_ci_check := True\<rparr>)
      else if arg = ''--no-dict'' then Some (a\<lparr>a_no_dict := True\<rparr>)
      else if arg = ''--no-delta'' then Some (a\<lparr>a_no_delta := True\<rparr>)
      else if arg = ''--compact-hdr'' then Some (a\<lparr>a_compact_hdr := True\<rparr>)
      else if arg = ''--fast'' then Some (a\<lparr>a_fast_compress := True\<rparr>)
      else if arg = ''--adaptive'' then Some (a\<lparr>a_adaptive := True\<rparr>)
      else if arg = ''--save-baseline'' then Some (a\<lparr>a_save_baseline := True\<rparr>)
      else if arg = ''--check-baseline'' then Some (a\<lparr>a_check_baseline := True\<rparr>)
      else if arg = ''--with-oodle'' then Some (a\<lparr>a_with_oodle := True\<rparr>)
      else if arg = ''--oodle-gates'' then Some (a\<lparr>a_oodle_gates := True\<rparr>)
      else None)"

text \<open>The options with a value; the key is cut to 63 characters.\<close>

definition parse_value :: "string \<Rightarrow> string \<Rightarrow> bench_args \<Rightarrow> bench_args option" where
  "parse_value key val a =
     (if key = ''--workload''
      then let wl = parse_workload val
           in if wl = BENCH_WL_ALL then None else Some (a\<lparr>a_workload_mask := a_workload_mask a OR push_bit (workload_number wl) 1\<rparr>)
      else if key = ''--compressor''
      then let mask = parse_compressor val in if mask = 0 then None else Some (a\<lparr>a_compressor_mask := a_compressor_mask a OR mask\<rparr>)
      else if key = ''--mode'' then Some (a\<lparr>a_mode := parse_mode val\<rparr>)
      else if key = ''--count'' then Some (a\<lparr>a_count := to_size (c_atoi val)\<rparr>)
      else if key = ''--warmup'' then Some (a\<lparr>a_warmup := to_size (c_atoi val)\<rparr>)
      else if key = ''--seed'' then Some (a\<lparr>a_seed := of_int (c_atoi val)\<rparr>)
      else if key = ''--train'' then Some (a\<lparr>a_train_count := to_size (c_atoi val)\<rparr>)
      else if key = ''--format'' then Some (a\<lparr>a_format := bench_format_parse val\<rparr>)
      else if key = ''--output'' then Some (a\<lparr>a_output_file := Some val\<rparr>)
      else if key = ''--simd'' then Some (a\<lparr>a_simd_level := parse_simd val\<rparr>)
      else if key = ''--baseline-dir'' then Some (a\<lparr>a_baseline_dir := Some val\<rparr>)
      else if key = ''--oodle-sdk'' then Some (a\<lparr>a_oodle_sdk := Some val\<rparr>)
      else if key = ''--oodle-htbits'' then Some (a\<lparr>a_oodle_htbits := c_atoi val\<rparr>)
      else None)"

fun parse_loop :: "string list \<Rightarrow> bench_args \<Rightarrow> int + bench_args" where
  "parse_loop [] a = Inr a"
| "parse_loop (arg # args) a =
     (if arg = ''--help'' \<or> arg = ''-h'' then Inl 1
      else case parse_flag arg a of
             Some a \<Rightarrow> parse_loop args a
           | None \<Rightarrow>
               if CHR ''='' \<notin> set arg then Inl (-1)
               else case parse_value (take 63 (takeWhile (\<lambda>c. c \<noteq> CHR ''='') arg)) (tl (dropWhile (\<lambda>c. c \<noteq> CHR ''='') arg)) a of
                      None \<Rightarrow> Inl (-1)
                    | Some a \<Rightarrow> parse_loop args a)"

text \<open>\<open>Inl\<close>: 1 for help, -1 for an error.  \<open>args\<close> is \<open>argv\<close> without the program.\<close>

definition parse_args :: "string list \<Rightarrow> int + bench_args" where
  "parse_args args =
     (case parse_loop args default_args of Inl rc \<Rightarrow> Inl rc
      | Inr a \<Rightarrow>
          let a = (if a_workload_mask a = 0 then a\<lparr>a_workload_mask := fold (\<lambda>w m. m OR push_bit w 1) [1..<9] 0\<rparr> else a);
              a = (if a_compressor_mask a = 0 then a\<lparr>a_compressor_mask := BENCH_COMP_NETC\<rparr> else a);
              a = (if a_baseline_dir a = None then a\<lparr>a_baseline_dir := Some ''bench/baselines''\<rparr> else a)
          in Inr a)"

section \<open>The runs\<close>

definition BENCH_MAX_RESULTS :: nat where "BENCH_MAX_RESULTS = 128"

text \<open>What surrounds the program: other compressors, what can be written, and whether Oodle was built.\<close>

record 's bench_world =
  w_host :: bench_host
  w_create :: "u32 \<Rightarrow> int \<Rightarrow> 's bench_compressor option"
  w_writable :: "string \<Rightarrow> bool"
  w_oodle_sdk :: bool
  w_buf :: "byte list"

text \<open>
  A result holds a pointer to the name of its compressor.  The adapter of netc is local to the body of the
  loop, and other adapters are freed, some with their name: the mark of a stored result tells that the name
  lies in storage that ends with the run.  Reading it later is undefined; \<open>m_stale\<close> records that it
  happened, and the string is then the one that was there.
\<close>

record bench_main_state =
  m_env :: bench_env
  m_files :: files
  m_results :: "(bench_result \<times> bool) list"
  m_netc_wl001 :: "bench_result option"
  m_stale :: bool

definition store_result :: "bool \<Rightarrow> bench_result \<Rightarrow> bench_main_state \<Rightarrow> bench_main_state" where
  "store_result local res m = (if length (m_results m) < BENCH_MAX_RESULTS then m\<lparr>m_results := m_results m @ [(res, local)]\<rparr> else m)"

definition result_name :: "bench_result \<Rightarrow> string" where
  "result_name r = (case r_compressor r of None \<Rightarrow> [] | Some s \<Rightarrow> s)"

text \<open>A loop over the stored results compares the names on workload 1 up to the first that satisfies \<open>stop\<close>.\<close>

fun reads_stale :: "(bench_result \<Rightarrow> bool) \<Rightarrow> (bench_result \<times> bool) list \<Rightarrow> bool" where
  "reads_stale stop [] = False"
| "reads_stale stop ((r, local) # rs) =
     (r_workload r = BENCH_WL_001 \<and> local \<or> \<not> (r_workload r = BENCH_WL_001 \<and> stop r) \<and> reads_stale stop rs)"

definition run_compressor :: "'s bench_world \<Rightarrow> bench_args \<Rightarrow> bench_workload \<Rightarrow> 's bench_compressor \<Rightarrow> bench_main_state \<Rightarrow> bench_main_state" where
  "run_compressor w a wl c m =
     (if a_mode a = BENCH_MODE_MPPS
      then (case bench_mpps_run (w_host w) wl (w_buf w) c (a_seed a) (m_env m) of (_, _, e) \<Rightarrow> m\<lparr>m_env := e\<rparr>)
      else if a_mode a = BENCH_MODE_THROUGHPUT
      then (case bench_throughput_run (w_host w) \<lparr>run_warmup = a_warmup a, run_count = a_count a, run_seed = a_seed a\<rparr> wl (w_buf w) c (m_env m) of
              (_, _, e) \<Rightarrow> m\<lparr>m_env := e\<rparr>)
      else if a_mode a = BENCH_MODE_SCALING then m
      else case bench_run_generic (w_host w) \<lparr>run_warmup = a_warmup a, run_count = a_count a, run_seed = a_seed a\<rparr> wl (w_buf w) c zero_result (m_env m) of
             (rc, res, _, e) \<Rightarrow>
               let m = m\<lparr>m_env := e\<rparr>
               in if rc \<noteq> 0 then m
                  else let res = fill_derived res;
                           m = store_result (bc_name_owned c) res m;
                           dir = (case a_baseline_dir a of None \<Rightarrow> [] | Some d \<Rightarrow> d)
                       in if a_save_baseline a then m\<lparr>m_files := snd (bench_baseline_save (w_writable w) dir res (m_files m))\<rparr> else m)"

text \<open>The other compressors in the order of the program, and which of them are trained.\<close>

definition other_compressors :: "(u32 \<times> bool) list" where
  "other_compressors =
     [(BENCH_COMP_ZLIB1, False), (BENCH_COMP_ZLIB6, False), (BENCH_COMP_LZ4, False), (BENCH_COMP_LZ4HC, False), (BENCH_COMP_ZSTD1, False),
      (BENCH_COMP_ZSTD3, False), (BENCH_COMP_ZSTD1D, True), (BENCH_COMP_HUFFMAN, True), (BENCH_COMP_SNAPPY, False),
      (BENCH_COMP_OODLE_UDP, True), (BENCH_COMP_OODLE_TCP, True)]"

text \<open>With \<open>--oodle-gates\<close> the run of Oodle on workload 1 looks for its result by name and prints its gates.\<close>

definition note_oodle :: "bench_args \<Rightarrow> bench_workload \<Rightarrow> u32 \<Rightarrow> bench_main_state \<Rightarrow> bench_main_state" where
  "note_oodle a wl sel m =
     (if sel = BENCH_COMP_OODLE_UDP \<and> a_oodle_gates a \<and> m_netc_wl001 m \<noteq> None \<and> wl = BENCH_WL_001
      then m\<lparr>m_stale := m_stale m \<or> reads_stale (\<lambda>r. result_name r = ''oodle-udp'') (m_results m)\<rparr> else m)"

definition run_other :: "'s bench_world \<Rightarrow> bench_args \<Rightarrow> bench_workload \<Rightarrow> u32 \<times> bool \<Rightarrow> bench_main_state \<Rightarrow> bench_main_state" where
  "run_other w a wl entry m =
     (if a_compressor_mask a AND fst entry = 0 then m
      else case w_create w (fst entry) (a_oodle_htbits a) of None \<Rightarrow> m
           | Some c \<Rightarrow>
               let (s, e) = (case (snd entry, bc_train c) of (True, Some train) \<Rightarrow> train (bc_state c) wl (a_seed a) (a_train_count a) (m_env m)
                             | _ \<Rightarrow> (bc_state c, m_env m))
               in note_oodle a wl (fst entry) (run_compressor w a wl (c\<lparr>bc_state := s\<rparr>) (m\<lparr>m_env := e\<rparr>)))"

definition main_flags :: "bench_args \<Rightarrow> u32" where
  "main_flags a =
     NETC_CFG_FLAG_STATEFUL OR NETC_CFG_FLAG_BIGRAM
     OR (if a_no_delta a then 0 else NETC_CFG_FLAG_DELTA)
     OR (if a_compact_hdr a then NETC_CFG_FLAG_COMPACT_HDR else 0)
     OR (if a_fast_compress a then NETC_CFG_FLAG_FAST_COMPRESS else 0)
     OR (if a_adaptive a then NETC_CFG_FLAG_ADAPTIVE else 0)"

definition train_netc :: "'s bench_world \<Rightarrow> bench_args \<Rightarrow> bench_workload \<Rightarrow> bench_netc \<Rightarrow> bench_env \<Rightarrow> bench_netc \<times> bench_env" where
  "train_netc w a wl n e =
     (if a_no_dict a then (n, e) else case bench_netc_train (w_host w) n wl (a_seed a) (a_train_count a) e of (_, n, e) \<Rightarrow> (n, e))"

definition run_netc :: "'s bench_world \<Rightarrow> bench_args \<Rightarrow> bench_workload \<Rightarrow> bench_main_state \<Rightarrow> bench_main_state" where
  "run_netc w a wl m =
     (if a_compressor_mask a AND BENCH_COMP_NETC = 0 then m
      else case bench_netc_init (h_platform (w_host w)) None (main_flags a) (a_simd_level a) BENCH_CORPUS_MAX_PKT of
             (rc, n) \<Rightarrow>
               if rc \<noteq> 0 then m
               else let (n, e) = train_netc w a wl n (m_env m);
                        (rc, res, n, e) = bench_run (w_host w) \<lparr>run_warmup = a_warmup a, run_count = a_count a, run_seed = a_seed a\<rparr> wl (w_buf w) n zero_result e;
                        m = m\<lparr>m_env := e\<rparr>
                    in if rc \<noteq> 0 then m
                       else let res = fill_derived res;
                                m = store_result True res m
                            in if wl = BENCH_WL_001 then m\<lparr>m_netc_wl001 := Some res\<rparr> else m)"

definition run_workload :: "'s bench_world \<Rightarrow> bench_args \<Rightarrow> nat \<Rightarrow> bench_main_state \<Rightarrow> bench_main_state" where
  "run_workload w a wl_id m =
     (if a_workload_mask a AND push_bit wl_id 1 = 0 then m
      else let wl = workload_of_nat wl_id in fold (run_other w a wl) other_compressors (run_netc w a wl m))"

section \<open>The gates\<close>

definition bench_oodle_ci_gates :: "bench_result \<Rightarrow> bench_result \<Rightarrow> bench_ci_report \<Rightarrow> bench_ci_report" where
  "bench_oodle_ci_gates netc oodle report =
     (if length (ci_gates report) + 3 > BENCH_MAX_GATES then report
      else let g1 = \<lparr>gate_id = ''OODLE-01'', gate_description = ''netc ratio <= oodle ratio (WL-001)'',
                     gate_actual = r_ratio netc, gate_threshold = r_ratio oodle, gate_passed = r_ratio netc \<le> r_ratio oodle\<rparr>;
               g2 = \<lparr>gate_id = ''OODLE-02'', gate_description = ''netc compress MB/s >= oodle compress MB/s (WL-001)'',
                     gate_actual = r_compress_mbs netc, gate_threshold = r_compress_mbs oodle, gate_passed = r_compress_mbs netc \<ge> r_compress_mbs oodle\<rparr>;
               g3 = \<lparr>gate_id = ''OODLE-03'', gate_description = ''netc decompress MB/s >= oodle decompress MB/s (WL-001)'',
                     gate_actual = r_decompress_mbs netc, gate_threshold = r_decompress_mbs oodle, gate_passed = r_decompress_mbs netc \<ge> r_decompress_mbs oodle\<rparr>
           in put_gate g3 (put_gate g2 (put_gate g1 report)))"

text \<open>The gates \<open>COMP-*\<close>: netc against every other compressor on workload 1.  The description is printed only.\<close>

definition comp_gate :: "bench_result \<Rightarrow> bench_result \<Rightarrow> bench_ci_report \<Rightarrow> bench_ci_report" where
  "comp_gate netc r report =
     (if r_workload r \<noteq> BENCH_WL_001 then report
      else if result_name r = ''netc'' then report
      else if take 5 (result_name r) = ''oodle'' then report
      else if length (ci_gates report) < BENCH_MAX_GATES
      then put_gate \<lparr>gate_id = result_name r, gate_description = [], gate_actual = r_compress_mbs netc, gate_threshold = r_compress_mbs r,
             gate_passed = r_compress_mbs netc > r_compress_mbs r\<rparr> report
      else report)"

definition oodle_gate :: "bool \<Rightarrow> bench_result \<Rightarrow> bench_result \<Rightarrow> bench_ci_report \<Rightarrow> bench_ci_report" where
  "oodle_gate sdk netc r report =
     (if r_workload r = BENCH_WL_001 \<and> take 5 (result_name r) = ''oodle'' \<and> sdk then bench_oodle_ci_gates netc r report else report)"

definition main_gates :: "'s bench_world \<Rightarrow> bench_args \<Rightarrow> bench_main_state \<Rightarrow> int \<times> bench_main_state" where
  "main_gates w a m =
     (let rs = map fst (m_results m); (ci_rc, ci) = bench_ci_check rs
      in case m_netc_wl001 m of None \<Rightarrow> (ci_rc, m)
         | Some netc \<Rightarrow>
             let ci = fold (comp_gate netc) rs ci;
                 ci = (if a_oodle_gates a then fold (oodle_gate (w_oodle_sdk w) netc) rs ci else ci)
             in (if ci_all_passed ci then 0 else 1, m\<lparr>m_stale := m_stale m \<or> reads_stale (\<lambda>_. False) (m_results m)\<rparr>))"

text \<open>
  The exit code and the final state.  In the mode \<open>scaling\<close> the program prints a note and runs nothing more.
\<close>

definition main_start :: "bench_env \<Rightarrow> files \<Rightarrow> bench_main_state" where
  "main_start e files = \<lparr>m_env = e, m_files = files, m_results = [], m_netc_wl001 = None, m_stale = False\<rparr>"

definition bench_main :: "'s bench_world \<Rightarrow> bench_env \<Rightarrow> files \<Rightarrow> string list \<Rightarrow> int \<times> bench_main_state" where
  "bench_main w e files args =
     (case parse_args args of Inl rc \<Rightarrow> (if rc > 0 then 0 else 2, main_start e files)
      | Inr a \<Rightarrow>
          if (case a_output_file a of None \<Rightarrow> False | Some f \<Rightarrow> \<not> w_writable w f) then (2, main_start e files)
          else let m = fold (run_workload w a) [1..<9] (main_start e files)
               in if a_ci_check a then main_gates w a m else (0, m))"

section \<open>The exit code of the gates\<close>

definition begins_with :: "bench_result \<Rightarrow> bench_main_state \<Rightarrow> bool" where
  "begins_with res m \<longleftrightarrow> (\<exists>rs. m_results m = (res, True) # rs) \<and> m_netc_wl001 m = Some res"

lemma begins_store: "begins_with res m \<Longrightarrow> begins_with res (store_result local r m)"
  by (auto simp: begins_with_def store_result_def)

lemma begins_fields:
  "begins_with res (m\<lparr>m_env := e\<rparr>) = begins_with res m" "begins_with res (m\<lparr>m_files := fs\<rparr>) = begins_with res m"
  "begins_with res (m\<lparr>m_stale := b\<rparr>) = begins_with res m"
  by (simp_all add: begins_with_def)

lemma begins_compressor: "begins_with res m \<Longrightarrow> begins_with res (run_compressor w a wl c m)"
  by (simp add: run_compressor_def Let_def split_beta begins_fields begins_store split: prod.split)

lemma begins_other: "begins_with res m \<Longrightarrow> begins_with res (run_other w a wl entry m)"
  by (simp add: run_other_def note_oodle_def Let_def split_beta begins_fields begins_compressor split: option.split)

lemma begins_netc: "begins_with res m \<Longrightarrow> wl \<noteq> BENCH_WL_001 \<Longrightarrow> begins_with res (run_netc w a wl m)"
  by (simp add: run_netc_def Let_def split_beta begins_fields begins_store)

lemma begins_others: "begins_with res m \<Longrightarrow> begins_with res (fold (run_other w a wl) entries m)"
  by (induction entries arbitrary: m) (simp_all add: begins_other)

lemma begins_workloads:
  assumes "begins_with res m" and "\<forall>k \<in> set ks. workload_of_nat k \<noteq> BENCH_WL_001"
  shows "begins_with res (fold (run_workload w a) ks m)"
  using assms by (induction ks arbitrary: m) (simp_all add: run_workload_def Let_def begins_others begins_netc)

lemma gates_few: "length (ci_gates (snd (bench_ci_check rs))) \<le> 9"
proof -
  have g: "length (ci_gates r) \<le> k \<Longrightarrow> length (ci_gates (add_gate i d x t b r)) \<le> k + 1" for i d x t b r k
    by (simp add: add_gate_def put_gate_def)
  have w: "length (ci_gates r) \<le> k \<Longrightarrow> length (ci_gates (when_result res (\<lambda>x. add_gate i d (v x) t b) r)) \<le> k + 1" for res i d v t b r k
    using g [of r k] by (simp add: when_result_def split: option.split)
  have "length (ci_gates (snd (bench_ci_check rs))) \<le> 0 + 1 + 1 + 1 + 1 + 1 + 1 + 1 + 1 + 1"
    unfolding bench_ci_check_def Let_def snd_conv by (intro g w) simp
  then show ?thesis by simp
qed

lemma failed_stays:
  assumes "\<not> ci_all_passed r"
  shows "\<not> ci_all_passed (fold (comp_gate netc) rs r)" "\<not> ci_all_passed (fold (oodle_gate sdk netc) rs r)"
  using assms
  by (induction rs arbitrary: r) (simp_all add: comp_gate_def oodle_gate_def bench_oodle_ci_gates_def put_gate_def Let_def)

lemma own_gate:
  assumes "r_workload res = BENCH_WL_001" and "take 5 (result_name res) = ''netc/''" and "length (ci_gates r) < BENCH_MAX_GATES"
  shows "\<not> ci_all_passed (fold (comp_gate res) (res # rs) r)"
proof -
  have "result_name res \<noteq> ''netc''" using assms(2) by auto
  then have "\<not> ci_all_passed (comp_gate res res r)" using assms by (simp add: comp_gate_def put_gate_def)
  then show ?thesis using failed_stays(1) by simp
qed

lemma gates_fail:
  assumes "begins_with res m" and "r_workload res = BENCH_WL_001" and "take 5 (result_name res) = ''netc/''"
  shows "fst (main_gates w a m) = 1" "m_stale (snd (main_gates w a m))"
proof -
  obtain rs where rs: "m_results m = (res, True) # rs" "m_netc_wl001 m = Some res" using assms(1) by (auto simp: begins_with_def)
  obtain rc ci where ci: "bench_ci_check (map fst (m_results m)) = (rc, ci)" by fastforce
  have "length (ci_gates ci) < BENCH_MAX_GATES" using gates_few [of "map fst (m_results m)"] by (simp add: ci BENCH_MAX_GATES_def)
  then have "\<not> ci_all_passed (fold (comp_gate res) (map fst (m_results m)) ci)"
    using own_gate [OF assms(2,3), of ci "map fst rs"] by (simp add: rs)
  then show "fst (main_gates w a m) = 1" using failed_stays(2) by (simp only: main_gates_def Let_def ci rs(2)) simp
  show "m_stale (snd (main_gates w a m))" by (simp add: main_gates_def Let_def split_beta rs assms(2))
qed

lemma adapter_named: "take 5 (adapter_name n dct) = ''netc/''"
  by (simp add: adapter_name_def Let_def)

lemma names:
  "bench_netc_init pf dict flags simd_level k = (0, n) \<Longrightarrow> take 5 (n_name n) = ''netc/''"
  "bench_netc_train host n0 wl seed k e = (0, n, e') \<Longrightarrow> take 5 (n_name n) = ''netc/''"
  by (auto simp: bench_netc_init_def bench_netc_train_def Let_def adapter_named split: if_splits sum.splits prod.splits)

lemma main_flags_ok:
  "flags_ok (main_flags a)" "\<not> has_cfg (main_flags a) NETC_CFG_FLAG_STATELESS"
  "has_cfg (main_flags a) NETC_CFG_FLAG_COMPACT_HDR = a_compact_hdr a" "has_cfg (main_flags a) NETC_CFG_FLAG_ADAPTIVE = a_adaptive a"
  by (simp_all add: flags_ok_def main_flags_def has_cfg_def NETC_CFG_FLAG_STATEFUL_def NETC_CFG_FLAG_STATELESS_def NETC_CFG_FLAG_BIGRAM_def
      NETC_CFG_FLAG_DELTA_def NETC_CFG_FLAG_COMPACT_HDR_def NETC_CFG_FLAG_FAST_COMPRESS_def NETC_CFG_FLAG_ADAPTIVE_def)

lemma init_zero: "flags_ok flags \<Longrightarrow> \<exists>n. bench_netc_init pf dict flags simd_level k = (0, n)"
  using create_exists [of pf dict "\<lparr>cfg_flags = flags, cfg_ring_buffer_size = 0, cfg_compression_level = 0, cfg_simd_level = simd_level, cfg_arena_size = 0\<rparr>"]
  by (auto simp: bench_netc_init_def create_ctx_pair_def Let_def flags_ok_def)

text \<open>The adapter as the program prepares it, trained unless \<open>--no-dict\<close> is given.\<close>

lemma adapter_prepared:
  assumes "env_ok e" and "a_train_count a < 2 ^ 36" and "\<not> (a_no_dict a \<and> a_compact_hdr a \<and> a_adaptive a)"
    and init: "bench_netc_init pf None (main_flags a) (a_simd_level a) k = (0, n0)"
  shows "\<exists>n e'. train_netc w a wl n0 e = (n, e') \<and> adapter_good n \<and> env_ok e' \<and> take 5 (n_name n) = ''netc/''"
proof (cases "a_no_dict a")
  case True
  then have "session_safe (main_flags a) None" using assms(3) main_flags_ok(3,4) by (auto simp: session_safe_def dict_usable_def)
  then have "adapter_good n0" using init_good [OF main_flags_ok(1), of a None pf "a_simd_level a" k] main_flags_ok(2) [of a] init by auto
  then show ?thesis using True assms(1) names(1) [OF init] by (simp add: train_netc_def)
next
  case False
  have "n_stateless n0 \<or> flags_ok (n_flags n0)" using init_fields(1) [OF init] main_flags_ok(1) by simp
  then obtain n e' where t: "bench_netc_train (w_host w) n0 wl (a_seed a) (a_train_count a) e = (0, n, e')" "adapter_good n" "env_ok e'"
    using train_good [OF _ assms(2,1)] by blast
  then show ?thesis using False names(2) [OF t(1)] by (simp add: train_netc_def)
qed

lemma derived_names: "r_workload (fill_derived r) = r_workload r" "result_name (fill_derived r) = result_name r"
  by (simp_all add: fill_derived_def result_name_def Let_def)

lemma netc_first:
  assumes "env_ok (m_env m)" and "a_train_count a < 2 ^ 36" and "\<not> (a_no_dict a \<and> a_compact_hdr a \<and> a_adaptive a)"
    and "a_compressor_mask a AND BENCH_COMP_NETC \<noteq> 0" and "length (w_buf w) = BENCH_CORPUS_MAX_PKT" and "m_results m = []"
  shows "\<exists>res. begins_with res (run_netc w a BENCH_WL_001 m) \<and> r_workload res = BENCH_WL_001 \<and> take 5 (result_name res) = ''netc/''"
proof -
  let ?cfg = "\<lparr>run_warmup = a_warmup a, run_count = a_count a, run_seed = a_seed a\<rparr>"
  obtain n0 where init: "bench_netc_init (h_platform (w_host w)) None (main_flags a) (a_simd_level a) BENCH_CORPUS_MAX_PKT = (0, n0)"
    using init_zero [OF main_flags_ok(1)] by blast
  obtain n e where n: "train_netc w a BENCH_WL_001 n0 (m_env m) = (n, e)" "adapter_good n" "env_ok e" "take 5 (n_name n) = ''netc/''"
    using adapter_prepared [OF assms(1-3) init] by blast
  obtain res n' e' where r: "bench_run (w_host w) ?cfg BENCH_WL_001 (w_buf w) n zero_result e = (0, res, n', e')"
    "r_workload res = BENCH_WL_001" "r_compressor res = Some (n_name n)"
    using run_good [OF n(2,3) _ assms(5), of BENCH_WL_001 "w_host w" ?cfg zero_result] by blast
  have "run_netc w a BENCH_WL_001 m = (store_result True (fill_derived res) (m\<lparr>m_env := e'\<rparr>))\<lparr>m_netc_wl001 := Some (fill_derived res)\<rparr>"
    using assms(4) by (simp add: run_netc_def init n(1) r(1) Let_def)
  then have "begins_with (fill_derived res) (run_netc w a BENCH_WL_001 m)"
    using assms(6) by (simp add: begins_with_def store_result_def BENCH_MAX_RESULTS_def)
  moreover have "result_name res = n_name n" by (simp add: result_name_def r(3))
  ultimately show ?thesis using r(2) n(4) derived_names [of res] by metis
qed

text \<open>
  C40. The gates of \<open>--ci-check\<close> never pass.  The loop of the \<open>COMP-*\<close> gates means to skip the result of netc
  itself, which it compares with the name \<open>netc\<close>; the adapter calls itself \<open>netc/...\<close>, so netc is required
  to be faster than itself.  Whenever netc runs on workload 1 (not with \<open>--no-dict\<close>, \<open>--compact-hdr\<close> and \<open>--adaptive\<close> together),
  for every host, clock and every set of other compressors, the exit code is 1, and the names are read after
  the adapters that hold them have ended.
\<close>

theorem ci_check_never_passes:
  assumes "parse_args args = Inr a" and "a_ci_check a" and "a_compressor_mask a AND BENCH_COMP_NETC \<noteq> 0"
    and "a_workload_mask a AND push_bit 1 1 \<noteq> 0" and "a_train_count a < 2 ^ 36" and "\<not> (a_no_dict a \<and> a_compact_hdr a \<and> a_adaptive a)"
    and "env_ok e" and "length (w_buf w) = BENCH_CORPUS_MAX_PKT" and "\<forall>f. a_output_file a = Some f \<longrightarrow> w_writable w f"
  shows "fst (bench_main w e files args) = 1 \<and> m_stale (snd (bench_main w e files args))"
proof -
  let ?m = "main_start e files"
  have "env_ok (m_env ?m)" "m_results ?m = []" using assms(7) by (simp_all add: main_start_def)
  then obtain res where res: "begins_with res (run_netc w a BENCH_WL_001 ?m)" "r_workload res = BENCH_WL_001" "take 5 (result_name res) = ''netc/''"
    using netc_first [OF _ assms(5,6,3,8)] by blast
  have "[1..<9] = 1 # [2..<9 :: nat]" by (simp add: upt_rec)
  then have "fold (run_workload w a) [1..<9] ?m
      = fold (run_workload w a) [2..<9] (fold (run_other w a BENCH_WL_001) other_compressors (run_netc w a BENCH_WL_001 ?m))"
    using assms(4) by (simp add: run_workload_def workload_of_nat_def)
  moreover have "\<forall>k \<in> set [2..<9]. workload_of_nat k \<noteq> BENCH_WL_001" by (simp add: workload_of_nat_def upt_rec)
  ultimately have "begins_with res (fold (run_workload w a) [1..<9] ?m)"
    using begins_workloads begins_others res(1) by metis
  from gates_fail [OF this res(2,3), of w a]
  have "fst (main_gates w a (fold (run_workload w a) [1..<9] ?m)) = 1" "m_stale (snd (main_gates w a (fold (run_workload w a) [1..<9] ?m)))" .
  moreover have "bench_main w e files args = main_gates w a (fold (run_workload w a) [1..<9] ?m)"
    using assms(1,2,9) by (simp add: bench_main_def Let_def split: option.split)
  ultimately show ?thesis by simp
qed

definition sample_world :: "unit bench_world" where
  "sample_world = \<lparr>w_host = sample_host, w_create = (\<lambda>_ _. None), w_writable = (\<lambda>_. True), w_oodle_sdk = False,
     w_buf = replicate BENCH_CORPUS_MAX_PKT 0\<rparr>"

theorem ci_check_never_passes_witness:
  "fst (bench_main sample_world fresh_env Map.empty [''--ci-check'']) = 1 \<and> m_stale (snd (bench_main sample_world fresh_env Map.empty [''--ci-check'']))"
proof -
  let ?a = "default_args\<lparr>a_ci_check := True, a_workload_mask := 0x1FE, a_compressor_mask := BENCH_COMP_NETC, a_baseline_dir := Some ''bench/baselines''\<rparr>"
  have "parse_args [''--ci-check''] = Inr ?a"
    by (simp add: parse_args_def parse_flag_def default_args_def upt_rec)
  then show ?thesis
    by (rule ci_check_never_passes) (simp_all add: default_args_def BENCH_COMP_NETC_def BENCH_CORPUS_TRAIN_N_def fresh_env_ok sample_world_def)
qed

end
