(* ===== verification/Netc_Endian.thy ===== *)
theory Netc_Endian
  imports Netc_Bitstream
begin

text \<open>
  Byte order, \<open>src/src/util/netc_platform.h\<close>: the loads and stores of the library on hosts of both byte
  orders.  A \<open>memcpy\<close> between a buffer and an integer follows the host; on a big-endian host the helpers
  swap the bytes, so that they agree everywhere with the little-endian definitions that the other
  theories use.  The bit writer (\<open>src/src/util/netc_bitstream.h\<close>) stores its words by \<open>memcpy\<close> without
  the helpers and therefore depends on the host.
\<close>

section \<open>Memory of the host\<close>

text \<open>\<open>little\<close> is \<open>NETC_LITTLE_ENDIAN\<close>.\<close>

definition load_u16 :: "bool \<Rightarrow> byte list \<Rightarrow> u16" where
  "load_u16 little p =
     (if little then ucast (p ! 0) OR push_bit 8 (ucast (p ! 1)) else ucast (p ! 1) OR push_bit 8 (ucast (p ! 0)))"

definition store_u16 :: "bool \<Rightarrow> u16 \<Rightarrow> byte list" where
  "store_u16 little v = (let bytes = [ucast v, ucast (drop_bit 8 v)] in if little then bytes else rev bytes)"

definition load_u32 :: "bool \<Rightarrow> byte list \<Rightarrow> u32" where
  "load_u32 little p =
     (if little
      then ucast (p ! 0) OR push_bit 8 (ucast (p ! 1)) OR push_bit 16 (ucast (p ! 2)) OR push_bit 24 (ucast (p ! 3))
      else ucast (p ! 3) OR push_bit 8 (ucast (p ! 2)) OR push_bit 16 (ucast (p ! 1)) OR push_bit 24 (ucast (p ! 0)))"

definition store_u32 :: "bool \<Rightarrow> u32 \<Rightarrow> byte list" where
  "store_u32 little v =
     (let bytes = [ucast v, ucast (drop_bit 8 v), ucast (drop_bit 16 v), ucast (drop_bit 24 v)]
      in if little then bytes else rev bytes)"

section \<open>The helpers\<close>

definition swap_u16 :: "u16 \<Rightarrow> u16" where
  "swap_u16 v = drop_bit 8 v OR push_bit 8 v"

definition swap_u32 :: "u32 \<Rightarrow> u32" where
  "swap_u32 v = drop_bit 24 (v AND 0xFF000000) OR drop_bit 8 (v AND 0x00FF0000)
     OR push_bit 8 (v AND 0x0000FF00) OR push_bit 24 (v AND 0x000000FF)"

definition host_read_u16_le :: "bool \<Rightarrow> byte list \<Rightarrow> u16" where
  "host_read_u16_le little p = (let v = load_u16 little p in if little then v else swap_u16 v)"

definition host_write_u16_le :: "bool \<Rightarrow> u16 \<Rightarrow> byte list" where
  "host_write_u16_le little v = store_u16 little (if little then v else swap_u16 v)"

definition host_read_u32_le :: "bool \<Rightarrow> byte list \<Rightarrow> u32" where
  "host_read_u32_le little p = (let v = load_u32 little p in if little then v else swap_u32 v)"

definition host_write_u32_le :: "bool \<Rightarrow> u32 \<Rightarrow> byte list" where
  "host_write_u32_le little v = store_u32 little (if little then v else swap_u32 v)"

text \<open>A swap exchanges the bytes, position by position.\<close>

lemma bit_swap_u16:
  assumes "n < 8" shows "bit (swap_u16 v) n = bit v (8 + n)" and "bit (swap_u16 v) (8 + n) = bit v n"
proof -
  have "\<not> bit v (16 + n)" using bit_imp_le_length [of v "16 + n"] by auto
  then show "bit (swap_u16 v) n = bit v (8 + n)" and "bit (swap_u16 v) (8 + n) = bit v n"
    using assms by (simp_all add: swap_u16_def bit_simps)
qed

lemma bit_swap_u32:
  assumes "n < 8"
  shows "bit (swap_u32 v) n = bit v (24 + n)" and "bit (swap_u32 v) (8 + n) = bit v (16 + n)"
    and "bit (swap_u32 v) (16 + n) = bit v (8 + n)" and "bit (swap_u32 v) (24 + n) = bit v n"
proof -
  have m: "(0xFF000000 :: u32) = push_bit 24 (mask 8)" "(0x00FF0000 :: u32) = push_bit 16 (mask 8)"
    "(0x0000FF00 :: u32) = push_bit 8 (mask 8)" "(0x000000FF :: u32) = mask 8"
    by (simp_all add: mask_eq_exp_minus_1)
  show "bit (swap_u32 v) n = bit v (24 + n)" and "bit (swap_u32 v) (8 + n) = bit v (16 + n)"
    and "bit (swap_u32 v) (16 + n) = bit v (8 + n)" and "bit (swap_u32 v) (24 + n) = bit v n"
    using assms unfolding swap_u32_def m by (auto simp: bit_simps)
qed

lemma swap_u16_bytes: "ucast (swap_u16 v) = (ucast (drop_bit 8 v) :: byte)" "ucast (drop_bit 8 (swap_u16 v)) = (ucast v :: byte)"
  by (auto intro!: bit_word_eqI simp: bit_simps bit_swap_u16)

lemma swap_u32_bytes:
  "ucast (swap_u32 v) = (ucast (drop_bit 24 v) :: byte)" "ucast (drop_bit 8 (swap_u32 v)) = (ucast (drop_bit 16 v) :: byte)"
  "ucast (drop_bit 16 (swap_u32 v)) = (ucast (drop_bit 8 v) :: byte)" "ucast (drop_bit 24 (swap_u32 v)) = (ucast v :: byte)"
  by (auto intro!: bit_word_eqI simp: bit_simps bit_swap_u32)

lemma host_write:
  "host_write_u16_le little v16 = netc_write_u16_le v16" "host_write_u32_le little v32 = netc_write_u32_le v32"
  by (simp_all add: host_write_u16_le_def store_u16_def netc_write_u16_le_def host_write_u32_le_def store_u32_def netc_write_u32_le_def
      swap_u16_bytes swap_u32_bytes)

text \<open>Loading is the inverse of storing, so the loads agree as well.\<close>

lemma byte_bits_end: "8 \<le> n \<Longrightarrow> \<not> bit (b :: byte) n"
  using bit_imp_le_length [of b n] by auto

lemma join_u16:
  fixes a b :: byte
  shows "ucast (ucast a OR push_bit 8 (ucast b) :: u16) = a" and "ucast (drop_bit 8 (ucast a OR push_bit 8 (ucast b) :: u16)) = b"
  by (auto intro!: bit_word_eqI simp: bit_simps byte_bits_end)

lemma join_u32:
  fixes a b c d :: byte
  defines "w \<equiv> ucast a OR push_bit 8 (ucast b) OR push_bit 16 (ucast c) OR push_bit 24 (ucast d) :: u32"
  shows "ucast w = a" and "ucast (drop_bit 8 w) = b" and "ucast (drop_bit 16 w) = c" and "ucast (drop_bit 24 w) = d"
  unfolding w_def by (auto intro!: bit_word_eqI simp: bit_simps byte_bits_end)

lemma host_read_u16: "host_read_u16_le little p = netc_read_u16_le p"
proof (cases little)
  case False
  define v :: u16 where "v = ucast (p ! 1) OR push_bit 8 (ucast (p ! 0))"
  have v: "ucast v = p ! 1" "ucast (drop_bit 8 v) = p ! 0" unfolding v_def by (rule join_u16)+
  have "netc_write_u16_le (swap_u16 v) = [p ! 0, p ! 1]" unfolding netc_write_u16_le_def swap_u16_bytes v ..
  then have "swap_u16 v = netc_read_u16_le [p ! 0, p ! 1]" by (metis read_write_u16_Nil)
  then show ?thesis using False by (simp add: netc_read_u16_le_def host_read_u16_le_def load_u16_def v_def)
qed (simp add: host_read_u16_le_def load_u16_def netc_read_u16_le_def)

lemma host_read_u32: "host_read_u32_le little p = netc_read_u32_le p"
proof (cases little)
  case False
  define v :: u32 where "v = ucast (p ! 3) OR push_bit 8 (ucast (p ! 2)) OR push_bit 16 (ucast (p ! 1)) OR push_bit 24 (ucast (p ! 0))"
  have v: "ucast v = p ! 3" "ucast (drop_bit 8 v) = p ! 2" "ucast (drop_bit 16 v) = p ! 1" "ucast (drop_bit 24 v) = p ! 0"
    unfolding v_def by (rule join_u32)+
  have "netc_write_u32_le (swap_u32 v) = [p ! 0, p ! 1, p ! 2, p ! 3]" unfolding netc_write_u32_le_def swap_u32_bytes v ..
  then have "swap_u32 v = netc_read_u32_le [p ! 0, p ! 1, p ! 2, p ! 3]" by (metis read_write_u32_Nil)
  then show ?thesis using False by (simp add: netc_read_u32_le_def host_read_u32_le_def load_u32_def v_def)
qed (simp add: host_read_u32_le_def load_u32_def netc_read_u32_le_def)

text \<open>
  The loads and stores of 16-bit and 32-bit integers mean the same on hosts of either byte order: on
  both they read and write little-endian bytes.
\<close>

theorem byte_order_transparent:
  "host_read_u16_le little p = netc_read_u16_le p \<and> host_read_u32_le little p = netc_read_u32_le p
    \<and> host_write_u16_le little v = netc_write_u16_le v \<and> host_write_u32_le little w = netc_write_u32_le w"
  by (simp add: host_read_u16 host_read_u32 host_write)

section \<open>The bit writer\<close>

definition host_bsw_write :: "bool \<Rightarrow> netc_bsw \<Rightarrow> u32 \<Rightarrow> nat \<Rightarrow> netc_bsw option" where
  "host_bsw_write little w v nb =
     (let acc = bsw_accum w OR push_bit (nat (bsw_bits w)) (ucast v);
          b = bsw_bits w + int nb
      in if b \<ge> 32
         then if length (bsw_buf w) + 4 > bsw_cap w then None
              else Some (w\<lparr>bsw_buf := bsw_buf w @ store_u32 little (ucast acc),
                           bsw_accum := drop_bit 32 acc, bsw_bits := b - 32\<rparr>)
         else Some (w\<lparr>bsw_accum := acc, bsw_bits := b\<rparr>))"

lemma host_bsw_write_little: "host_bsw_write True = netc_bsw_write"
  by (simp add: fun_eq_iff host_bsw_write_def netc_bsw_write_def store_u32_def netc_write_u32_le_def Let_def)

definition host_bitstream_roundtrip :: "bool \<Rightarrow> nat \<Rightarrow> (u32 \<times> nat) list \<Rightarrow> (cerror + u32 list) option" where
  "host_bitstream_roundtrip little cap vs =
     (case push_all (host_bsw_write little) (netc_bsw_init cap) vs of None \<Rightarrow> None
      | Some w \<Rightarrow> (case netc_bsw_flush w of None \<Rightarrow> None
        | Some w' \<Rightarrow> Some (pop_all netc_bsr_read (netc_bsr_init (bsw_buf w')) (map snd (rev vs)))))"

text \<open>
  The bit writer depends on the host: two 16-bit values that a little-endian host writes and reads
  back come back with their bytes exchanged and in the wrong order on a big-endian host, because the
  writer stores full words in the order of the host while the reader loads bytes.
\<close>

theorem bitstream_host_dependent:
  "host_bitstream_roundtrip True cap vs = netc_bitstream_roundtrip cap vs
    \<and> host_bitstream_roundtrip True 8 [(0x1234, 16), (0x5678, 16)] = Some (Inr [0x5678, 0x1234])
    \<and> host_bitstream_roundtrip False 8 [(0x1234, 16), (0x5678, 16)] = Some (Inr [0x3412, 0x7856])"
proof (intro conjI)
  show "host_bitstream_roundtrip True cap vs = netc_bitstream_roundtrip cap vs"
    by (simp add: host_bitstream_roundtrip_def netc_bitstream_roundtrip_def host_bsw_write_little)
  show "host_bitstream_roundtrip True 8 [(0x1234, 16), (0x5678, 16)] = Some (Inr [0x5678, 0x1234])" by code_simp
  show "host_bitstream_roundtrip False 8 [(0x1234, 16), (0x5678, 16)] = Some (Inr [0x3412, 0x7856])" by code_simp
qed

end
