(* ===== verification/Spec2Isabelle.thy ===== *)
theory Spec2Isabelle
  imports Netc_Main Netc_Endian
begin

text \<open>
  netc: verified model of a packet compressor.

  \<^bold>\<open>The program.\<close>  netc (\<open>src/include/netc.h\<close>, \<open>src/src\<close>) compresses single network packets of at most
  65535 bytes.  A dictionary, trained on sample packets, holds tANS tables for 16 position buckets and 8
  bigram classes and a table of byte predictions (LZP).  A context holds the state of one end of a
  connection: the dictionary, the previous packets, a ring of history bytes, and adaptive copies of the
  tables.  \<open>netc_compress\<close> filters a packet (delta against the previous packets, or LZP), lets several
  entropy coders and match coders compete, writes the smallest result behind a header, and updates the
  context; \<open>netc_decompress\<close> reads the header, runs the decoder it names, undoes the filters and makes the
  same update.  \<open>netc_compress_stateless\<close> and \<open>netc_decompress_stateless\<close> work with a dictionary alone.
  The benchmark program (\<open>src/bench\<close>) generates packets of eight workloads, trains and measures netc and
  other compressors on them, checks each round trip, and gates the results.

  \<^bold>\<open>The theories\<close>, in the order of their imports, with the code that they model:

  \<^item> \<open>Netc_Prelude\<close>: byte and word types, little-endian loads and stores (\<open>util/netc_platform.h\<close>), result
    codes (\<open>netc.h\<close>), errors of helpers (failure or undefined behaviour), and the lemmas on lists, words
    and bits that the components share (collections \<open>netc_defs\<close> and \<open>bits_simps\<close>).
  \<^item> \<open>Netc_Memory\<close>: checked reads and writes of buffers, the results of the entry points (a result code or
    undefined behaviour), and what a decoder promises about the buffer it fills (\<open>fills_exactly\<close>).
  \<^item> \<open>Netc_Delta\<close>: prediction from one and two previous packets by field class (\<open>algo/netc_delta.h\<close>); the
    locale \<open>byte_residual\<close> gives the inverse once for every class.
  \<^item> \<open>Netc_Bitstream\<close>: the bit writer and the reverse reader (\<open>util/netc_bitstream.h\<close>).  The locale
    \<open>bit_stack\<close> is its contract: what is pushed is popped in reverse order.
  \<^item> \<open>Netc_Endian\<close>: the same loads, stores and bit writer on hosts of either byte order.
  \<^item> \<open>Netc_Tans_Table\<close>, \<open>Netc_Tans\<close>, \<open>Netc_Tans_X2\<close>: construction of the 12-bit and 10-bit tables, and the
    five encoders and decoders (\<open>algo/netc_tans.h/.c\<close>).  The locale \<open>ans_coder\<close> extends \<open>bit_stack\<close>; each
    coder is an interpretation.
  \<^item> \<open>Netc_Lz\<close>: run lengths, LZ77 in a packet and LZ77X into the ring (\<open>core/netc_compress.c\<close>,
    \<open>core/netc_decompress.c\<close>), with every access to packet, ring, hash tables, token stream and destination
    checked.  The decoders that index the destination refine decoders of streams (\<open>lz77_decode_refines\<close>), about
    which the locale \<open>lz_stream\<close> shows the round trips.
  \<^item> \<open>Netc_Crc32\<close> (\<open>util/netc_crc32.c\<close>), \<open>Netc_Lzp\<close> (\<open>algo/netc_lzp.h\<close>), \<open>Netc_Header\<close> (legacy header, the 256
    compact packet types and the compact header of \<open>core/netc_internal.h\<close>), \<open>Netc_Simd\<close> (\<open>simd/*\<close>: the
    dispatch and the vector versions as loops over lanes).
  \<^item> \<open>Netc_Freq\<close>: normalisation and rescaling of frequencies (\<open>core/netc_dict.c\<close>, \<open>algo/netc_adaptive.c\<close>,
    \<open>algo/netc_tans.c\<close>).
  \<^item> \<open>Netc_Dict\<close>: the dictionary and its file format, versions 3 to 5 (\<open>core/netc_dict.c\<close>).
  \<^item> \<open>Netc_Ctx\<close>: contexts (\<open>core/netc_ctx.c\<close>), history and adaptive tables (\<open>algo/netc_adaptive.h/.c\<close>); the
    ring refines the locale \<open>byte_window\<close>.
  \<^item> \<open>Netc_Decompress\<close>: \<open>netc_decompress\<close> and \<open>netc_decompress_stateless\<close>, every payload decoder.
  \<^item> \<open>Netc_Encode\<close>: the trial encoders \<open>try_tans_*\<close> of \<open>core/netc_compress.c\<close>.
  \<^item> \<open>Netc_Compress\<close>: \<open>netc_compress\<close> and \<open>netc_compress_stateless\<close>, the whole competition.
  \<^item> \<open>Netc_Train\<close>: \<open>netc_dict_train\<close> of \<open>core/netc_dict.c\<close>, all five phases.
  \<^item> \<open>Netc_Packet\<close>, \<open>Netc_Roundtrip\<close>, \<open>Netc_Bounds\<close>, \<open>Netc_Stateless\<close>: that each kind of packet the
    compressor emits is decoded, the round trip of whole calls, their bounds, and the stateless calls.
  \<^item> \<open>Netc_Link\<close>: two contexts as a state machine.  The locale \<open>packet_codec\<close> states what a connection needs
    of a codec and is interpreted on \<open>netc_compress\<close> and \<open>netc_decompress\<close>.  The machines send any packet; a
    ghost field notes whether all packets were outside the two known defects.
  \<^item> \<open>Netc_Float\<close>: the floating point of C that the benchmarks use, IEEE doubles and floats as integers in
    units of the smallest positive number, with rounding to nearest.
  \<^item> \<open>Netc_Corpus\<close>: the generators of benchmark packets (\<open>bench/bench_corpus.c\<close>) as computations in the state
    monad, with the static variables of the C functions as part of the state.
  \<^item> \<open>Netc_Stats\<close>: statistics, gates and comparison with a baseline (\<open>bench/bench_stats.c\<close>,
    \<open>bench_runner.c\<close>, \<open>bench_baseline.c\<close>); \<open>Netc_Baseline\<close>: the files of baselines.
  \<^item> \<open>Netc_Bench\<close>: the adapter of netc and the measurement loops (\<open>bench/bench_netc.c\<close>, \<open>bench_runner.c\<close>,
    \<open>bench_compressor.c\<close>, \<open>bench_throughput.c\<close>).  The locale \<open>bench_codec\<close> states what a loop needs of a
    compressor and is interpreted on the adapter of netc.
  \<^item> \<open>Netc_Main\<close>: arguments, runs, gates and exit code of \<open>bench/bench_main.c\<close>.
  \<^item> This theory: the properties of sessions.

  \<^bold>\<open>How the model reads.\<close>  A struct is a record, a constant or function keeps its name in C; parts of a long
  function are definitions of their own, named after what they do.  Struct fields and values whose width
  matters are words; sizes and indices are natural numbers, with casts and wrap-around written out.  A
  buffer is the list of its bytes, an output buffer its capacity, and where it is written in place or old
  contents can show, its bytes.  A function that returns a negative number or a result code returns \<open>Inl\<close>.

  \<^bold>\<open>Undefined behaviour\<close> is a value, \<open>C_Undefined\<close> or \<open>F_Undefined\<close>, which the safety theorems exclude.  It
  arises from a shift beyond the width, and from an access outside its array wherever the code relies on a
  check of its own: the packet, the payload and the destination in \<open>netc_decompress\<close> and its decoders; the
  destination, the arena, the token streams and every fixed-size buffer on the stack in \<open>netc_compress\<close> and
  \<open>netc_compress_stateless\<close>; the ring and the hash tables of the match coders; the arrays of tables, decode and
  encode tables, class map; the bit writer and reader; the generators of the benchmark.  An index that is
  in range by construction (a loop over the length of a list, a masked hash, a byte into 256 entries) is
  read directly.  The SIMD level and processor are a record of the platform.

  \<^bold>\<open>What is shown.\<close>  Sessions: C1, C3, C4, C7 and C8 below.  Whole calls: round trip (C2, C9), memory safety of
  decoding arbitrary bytes (C5) and of encoding (C6), training (C10, C32).  Components: each codec is
  inverted by its decoder (C13, C14, C17, C18, C21, C22, C25), decoders stay in their buffers on arbitrary bytes
  (C20, C23), tables and frequencies are well-formed (C16, C29, C31), optimised code equals its definition (C24,
  C28), the ring is a sliding window (C11), file formats and headers are faithful (C26, C30).  Benchmarks:
  the round-trip check of every run of netc passes (C12), generators are memory-safe and replay (C34 to
  C36), percentiles are ordered (C38), baselines are read back (C39).  Defects are theorems as well: C15,
  C19, C27, C33, C37 and C40, and, in the theories, \<open>tans_absent_symbol\<close>, \<open>neon_crc_not_inverted\<close>,
  \<open>freq_rescale_not_exact\<close>, \<open>dict_load_class_map_unchecked\<close>, \<open>mreg_returns_stale_bytes\<close>,
  \<open>bitstream_host_dependent\<close> and \<open>stateless_without_dict_fails\<close>.

  \<^bold>\<open>Hypotheses.\<close>  The round trips of whole calls exclude two defects by the predicate \<open>lossless\<close>: interleaved
  coding of packets of odd size from 256 bytes (C19), and order-2 delta under the compact header (C27).  For
  sessions it is the hypothesis that every packet sent was outside the defects (\<open>lk_clean\<close> in C1 and C3,
  \<open>size_ok\<close> in C4); C8 has none, for configurations under which the defects cannot occur.  Both ends of an
  ordered link are reset together and with nothing in flight.
  Decoding assumes that each bitstream ends in a byte that is not zero (C15) and that the class map of the
  dictionary is in range, which trained dictionaries satisfy (C10).  Encoding assumes a destination of at
  least 8 bytes: \<open>netc_compress\<close> checks for 2 only.  Training assumes fewer than \<open>2 ^ 36\<close> packets, so that no
  counter wraps.  The host is little-endian, except in \<open>Netc_Endian\<close>.  The benchmarks assume that static
  arrays and the buffers of a run have their declared length; the clock, \<open>exp\<close>, the files that can be
  written and other compressors are arbitrary.

  \<^bold>\<open>Termination.\<close>  No definition uses fuel: loops are structural recursions over positions, remaining input
  or remaining output, or \<open>function\<close> with a measure, and every one returns.

  \<^bold>\<open>Not modelled.\<close>  Allocation failure (\<open>NETC_ERR_NOMEM\<close> on \<open>malloc\<close>) and the release of memory; compiler
  macros of \<open>util/netc_platform.h\<close>; prefetching and alignment; what an error leaves in the destination;
  \<open>bucket_start_offset\<close> of \<open>netc_compress.c\<close>, which nothing calls; the processor queries behind SIMD
  detection and the ARM CRC instructions, which are data of the platform.  rANS is reserved in the headers
  and rejected by the code.  Of \<open>src/bench\<close>: what is only printed (\<open>bench_reporter.c\<close>, usage, reports, the
  comparison with a baseline in \<open>run_compressor\<close>, whose outcome is printed and dropped); the timer; the
  multi-core run, which nothing calls; and the adapters of zlib, LZ4, Zstandard, Snappy and Oodle, wrappers
  of third-party libraries, which are a parameter.  Infinities and NaN do not arise in the numbers that the
  benchmarks compute and are left out of \<open>Netc_Float\<close>.  Language bindings (\<open>src/sdk\<close>), tests and fuzzers
  (\<open>src/tests\<close>) are programs around the library.
\<close>

section \<open>Sessions\<close>

text \<open>
  C1. An ordered link delivers what was sent: in every state that two contexts of one dictionary reach
  by sending, receiving and resetting, from any two configurations that agree on the history and on
  any two processors, if every packet sent so far was outside the two known defects of the program
  (\<open>lk_clean\<close>: each was \<open>lossless\<close> for the sender's context when it was sent, that is, not of odd size from
  256 bytes with a dictionary and without bigram tables, and not marked for order-2 delta under the
  compact header, unless LZP replaces the delta), then the packets received are a prefix of the packets
  sent, byte for byte, and the rest is what is in flight; so no packet was refused by the decoder.  The
  sender offers packets of any size and content; both ends are reset together, while nothing is in flight.
\<close>

theorem link_delivers:
  assumes "dict_usable dict" and "link_reaches dict s" and "lk_clean s"
  shows "\<exists>ps. lk_sent s = lk_received s @ ps \<and> length ps = length (lk_wire s)"
  using link_reaches_inv [OF assms(2,1)] assms(3) netc.linked_prefix by (auto simp: link_inv_def)

theorem link_delivers_witness:
  "\<exists>s. link_reaches (Some uniform_dict) s \<and> lk_clean s \<and> lk_sent s = [[7, 7, 9]]
    \<and> (\<exists>ps. lk_sent s = lk_received s @ ps \<and> length ps = length (lk_wire s))"
proof -
  obtain s where "link_reaches (Some uniform_dict) s" "lk_clean s" "lk_sent s = [[7, 7, 9]]"
    using sample_link_reaches [OF uniform_usable, of "[7, 7, 9]"] by auto
  then show ?thesis using link_delivers [OF uniform_usable, of s] by blast
qed

text \<open>
  C3. An ordered link never stalls: from every state it reaches with packets outside the two known
  defects, all packets in flight can be delivered, after which everything sent was received and the two
  contexts are in step; and every packet of at most 65535 bytes can be sent, which keeps the link clean
  exactly if the packet is outside the defects.
\<close>

theorem link_progress:
  assumes "dict_usable dict" and "link_reaches dict s" and "lk_clean s"
  shows "(\<exists>s'. link_step\<^sup>*\<^sup>* s s' \<and> lk_wire s' = [] \<and> lk_received s' = lk_sent s \<and> in_step (lk_sender s') (lk_receiver s') \<and> lk_clean s')
    \<and> (length p \<le> NETC_MAX_PACKET_SIZE
        \<longrightarrow> (\<exists>s'. link_step s s' \<and> lk_sent s' = lk_sent s @ [p] \<and> lk_clean s' = lossless (lk_sender s) p))"
proof -
  have i: "link_inv dict s" by (rule link_reaches_inv [OF assms(2,1)])
  then have r: "ctx_ready (lk_sender s)" using assms(3) netc.linked_sender_ready by (auto simp: link_inv_def)
  have "\<exists>s'. link_step s s' \<and> lk_sent s' = lk_sent s @ [p] \<and> lk_clean s' = lossless (lk_sender s) p"
    if n: "length p \<le> NETC_MAX_PACKET_SIZE"
  proof -
    obtain pkt c' where "send_packet (lk_sender s) p pkt c'" using send_enabled [OF r n] by blast
    from transmit [OF this] show ?thesis using assms(3) by fastforce
  qed
  then show ?thesis using link_drain [OF i assms(3,1)] by blast
qed

theorem link_progress_witness:
  "\<exists>s s'. link_reaches (Some uniform_dict) s \<and> lk_clean s \<and> lk_received s = [] \<and> link_step\<^sup>*\<^sup>* s s' \<and> lk_received s' = [[7, 7, 9]]"
proof -
  obtain s where "link_reaches (Some uniform_dict) s" "lk_clean s" "lk_sent s = [[7, 7, 9]]" "lk_received s = []"
    using sample_link_reaches [OF uniform_usable, of "[7, 7, 9]"] by auto
  then show ?thesis using link_progress [OF uniform_usable, of s] by metis
qed

text \<open>
  C4. Contexts without history tolerate every fault of a datagram service: whatever was lost, repeated
  or reordered, if no packet sent was of the sizes that the program is known to mis-code (odd from 256
  bytes on, with a dictionary and without bigram tables: \<open>size_ok\<close>), each packet ever sent decodes at its
  receiver to the bytes it was made from, and only such bytes were received.
\<close>

theorem datagram_delivers:
  assumes "dict_usable dict" and "dgram_open dict s0" and "dgram_step\<^sup>*\<^sup>* s0 s"
    and "list_all (size_ok dict (c_flags (dg_sender s))) (dg_sent s)" and "length buf = NETC_MAX_PACKET_SIZE"
  shows "list_all2 (\<lambda>pkt p. \<exists>d'. netc_decompress (Some (dg_receiver s)) (Some pkt) (Some buf) = Inr (p, d')) (dg_wire s) (dg_sent s)
    \<and> set (dg_received s) \<subseteq> set (dg_sent s)"
proof -
  have i: "dgram_inv dict s" by (rule dgram_reaches_inv [OF assms(2,1,3)]) (simp add: dgram_clean_def assms(4))
  have "\<exists>d'. netc_decompress (Some (dg_receiver s)) (Some pkt) (Some buf) = Inr (p, d')" if "sent_as (dg_receiver s) pkt p" for pkt p
    using that datagram_receive [OF _ _ _ _ assms(5)] i unfolding sent_as_def dgram_inv_def by blast
  then show ?thesis using i by (auto simp: dgram_inv_def elim!: list_all2_mono)
qed

theorem datagram_delivers_witness:
  "\<exists>s0 s. dgram_open (Some uniform_dict) s0 \<and> dgram_step\<^sup>*\<^sup>* s0 s \<and> dg_sent s = [[7, 7, 9]]
     \<and> list_all (size_ok (Some uniform_dict) (c_flags (dg_sender s))) (dg_sent s)
     \<and> list_all2 (\<lambda>pkt p. \<exists>d'. netc_decompress (Some (dg_receiver s)) (Some pkt) (Some (replicate NETC_MAX_PACKET_SIZE 0)) = Inr (p, d'))
         (dg_wire s) (dg_sent s)
     \<and> set (dg_received s) \<subseteq> set (dg_sent s)"
proof -
  obtain s0 s where s: "dgram_open (Some uniform_dict) s0" "dgram_step\<^sup>*\<^sup>* s0 s" "dg_sent s = [[7, 7, 9]]"
    and c: "list_all (size_ok (Some uniform_dict) (c_flags (dg_sender s))) (dg_sent s)"
    using sample_dgram_reaches [OF uniform_usable, of "[7, 7, 9]"] by (auto simp: dgram_clean_def)
  have "length (replicate NETC_MAX_PACKET_SIZE (0 :: byte)) = NETC_MAX_PACKET_SIZE" by simp
  from datagram_delivers [OF uniform_usable s(1,2) c this] show ?thesis using s c by blast
qed

text \<open>
  C7. A reset of both ends repairs a broken connection: whatever the two contexts were called with since
  their creation, lost, corrupt and refused packets included, resetting both brings them in step.
\<close>

theorem reset_resynchronises:
  assumes "netc_ctx_create pf dict cfg = Some c0" and "netc_ctx_create pf' dict cfg' = Some d0" and "same_session cfg cfg'"
    and "api_step\<^sup>*\<^sup>* c0 c" and "api_step\<^sup>*\<^sup>* d0 d"
  shows "in_step (netc_ctx_reset c) (netc_ctx_reset d)"
  by (rule recovery [OF assms])

theorem reset_resynchronises_witness:
  "\<exists>c. netc_compress (Some (sample_ctx scalar_platform)) (Some [1, 2, 3]) (Some 8) = (Inl (F_Result NETC_ERR_BUF_SMALL), Some c)
     \<and> in_step (netc_ctx_reset c) (netc_ctx_reset (sample_ctx scalar_platform))"
proof -
  obtain c where c: "netc_compress (Some (sample_ctx scalar_platform)) (Some [1, 2, 3]) (Some 8) = (Inl (F_Result NETC_ERR_BUF_SMALL), Some c)"
    using sample_small_buffer by blast
  then have "api_step\<^sup>*\<^sup>* (sample_ctx scalar_platform) c" using api_compress by blast
  then show ?thesis
    using reset_resynchronises [OF sample_ctx_create sample_ctx_create sample_create(3)] c by blast
qed

text \<open>
  C8. From training to delivery without reservation: training on any packets succeeds, and any two
  configurations that \<open>netc_ctx_create\<close> accepts, that agree on the history, and under which neither known
  defect can occur (\<open>defect_free\<close>: bigram tables, and not compact header, delta and adaptive mode all
  together) give two contexts of the trained dictionary whose link, whatever packets the application
  offers it, of any size and content, can always deliver everything that was sent, byte for byte and in
  order.
\<close>

theorem trained_session:
  assumes "model_id \<noteq> 0" and "model_id \<noteq> 255" and "n_packets < 2 ^ 36" and "packets \<noteq> None \<or> n_packets = 0"
  shows "\<exists>d. netc_dict_train pf packets n_packets model_id True = Inr d
    \<and> (\<forall>pf1 pf2 cfg cfg'. accepted cfg \<and> same_session cfg cfg' \<and> defect_free cfg
        \<longrightarrow> (\<exists>c e. netc_ctx_create pf1 (Some d) cfg = Some c \<and> netc_ctx_create pf2 (Some d) cfg' = Some e
              \<and> (\<forall>s. link_step\<^sup>*\<^sup>* (idle_link c e) s
                   \<longrightarrow> (\<exists>ps. lk_sent s = lk_received s @ ps)
                     \<and> (\<exists>s'. link_step\<^sup>*\<^sup>* s s' \<and> lk_sent s' = lk_sent s \<and> lk_received s' = lk_sent s))))"
proof -
  obtain d where d: "netc_dict_train pf packets n_packets model_id True = Inr d" "dict_ready d"
    using train_ready [OF assms] by blast
  then have u: "dict_usable (Some d)" by (simp add: dict_usable_def)
  have "(\<exists>ps. lk_sent s = lk_received s @ ps)
      \<and> (\<exists>s'. link_step\<^sup>*\<^sup>* s s' \<and> lk_sent s' = lk_sent s \<and> lk_received s' = lk_sent s)"
    if c: "netc_ctx_create pf1 (Some d) cfg = Some c" "netc_ctx_create pf2 (Some d) cfg' = Some e" "same_session cfg cfg'"
      and f: "defect_free cfg" and s: "link_step\<^sup>*\<^sup>* (idle_link c e) s" for pf1 pf2 cfg cfg' c e s
  proof -
    have "link_reaches (Some d) s" using open_both [OF c] s by (auto simp: link_reaches_def)
    then have i: "link_inv (Some d) s" by (rule link_reaches_inv) (rule u)
    have cl: "lk_clean s" using defect_free_clean [OF c(1) f s] by blast
    then have "\<exists>ps. lk_sent s = lk_received s @ ps" using i netc.linked_prefix by (fastforce simp: link_inv_def)
    then show ?thesis using link_drain [OF i cl u] by blast
  qed
  moreover have "\<exists>c e. netc_ctx_create pf1 (Some d) cfg = Some c \<and> netc_ctx_create pf2 (Some d) cfg' = Some e"
    if "accepted cfg" "same_session cfg cfg'" for pf1 pf2 cfg cfg'
    using that create_accepted accepted_session by blast
  ultimately show ?thesis using d(1) by metis
qed

theorem trained_session_witness:
  "\<exists>d c e s s'. netc_dict_train scalar_platform (Some [Some [1, 2, 3], None, Some []]) 3 7 True = Inr d
     \<and> netc_ctx_create scalar_platform (Some d) (Some (sample_cfg 0x209)) = Some c
     \<and> netc_ctx_create scalar_platform (Some d) (Some (sample_cfg 0x209)) = Some e
     \<and> link_step\<^sup>*\<^sup>* (idle_link c e) s \<and> lk_sent s = [[7, 7, 9]]
     \<and> link_step\<^sup>*\<^sup>* s s' \<and> lk_sent s' = [[7, 7, 9]] \<and> lk_received s' = [[7, 7, 9]]"
proof -
  let ?cfg = "Some (sample_cfg 0x209)" and ?packets = "Some [Some [1, 2, 3], None, Some []]"
  have cfg: "accepted ?cfg" "same_session ?cfg ?cfg" "defect_free ?cfg"
    by (simp_all add: accepted_def same_session_def defect_free_def cfg_of_def sample_cfg_def has_cfg_def NETC_CFG_FLAG_STATEFUL_def
        NETC_CFG_FLAG_ADAPTIVE_def NETC_CFG_FLAG_BIGRAM_def NETC_CFG_FLAG_COMPACT_HDR_def)
  have args: "(7 :: byte) \<noteq> 0" "(7 :: byte) \<noteq> 255" "(3 :: nat) < 2 ^ 36" "?packets \<noteq> None \<or> (3 :: nat) = 0" by simp_all
  from trained_session [OF args, of scalar_platform] show ?thesis
  proof (elim exE conjE, goal_cases)
    case (1 d)
    obtain c e where c: "netc_ctx_create scalar_platform (Some d) ?cfg = Some c" "netc_ctx_create scalar_platform (Some d) ?cfg = Some e"
      and drain: "\<forall>s. link_step\<^sup>*\<^sup>* (idle_link c e) s \<longrightarrow> (\<exists>ps. lk_sent s = lk_received s @ ps)
          \<and> (\<exists>s'. link_step\<^sup>*\<^sup>* s s' \<and> lk_sent s' = lk_sent s \<and> lk_received s' = lk_sent s)"
      using 1(2) [THEN spec, THEN spec, THEN spec, THEN spec, THEN mp, OF conjI [OF cfg(1) conjI [OF cfg(2,3)]]] by blast
    have "dict_usable (Some d)" using train_ready [OF args, of scalar_platform] 1(1) by (auto simp: dict_usable_def)
    then obtain s where s: "link_step (idle_link c e) s" "lk_sent s = [[7, 7, 9]]"
      using idle_send [OF create_ready [OF c(1)], of "[7, 7, 9]" e] by (auto simp: NETC_MAX_PACKET_SIZE_def)
    then have "link_step\<^sup>*\<^sup>* (idle_link c e) s" by blast
    then show ?case using 1(1) c drain s(2) by metis
  qed
qed

end
